(* ===== verification/Wrpc_Prelude.thy ===== *)
theory Wrpc_Prelude
  imports Main "HOL-Library.Word" "HOL-Library.Signed_Division" "HOL-Library.Monad_Syntax"
begin

unbundle bit_operations_syntax

text \<open>
  Shared material of the development: the C integer types of the 32-bit targets (lm32, risc-v)
  as conversions on \<^typ>\<open>int\<close> and as words, the millisecond timer comparisons of
  \<^verbatim>\<open>include/dev/syscon.h\<close>, bounds-checked accesses to C arrays, the bus to the registers of the hardware, the two interfaces
  several components share (a deterministic machine with an invariant, and a bounded queue),
  and generic lemmas on integers and lists.

  A C \<open>int\<close>/\<open>int32_t\<close> value is an \<^typ>\<open>int\<close> and every arithmetic result that the C code stores or
  passes on goes through \<open>i32\<close> (two's complement wrap-around at 32 bits, the behaviour of the
  target's instructions where ISO C leaves signed overflow undefined); \<open>int64_t\<close> goes through
  \<open>i64\<close>. Unsigned registers, counters and bytes are words. C division is \<open>sdiv\<close>/\<open>smod\<close>
  (truncation towards zero).
\<close>

section \<open>Definitions\<close>

type_synonym u8 = "8 word"
type_synonym u16 = "16 word"
type_synonym u32 = "32 word"

definition i32 :: "int \<Rightarrow> int" where
  "i32 x = (x + 2147483648) mod 4294967296 - 2147483648"

definition i64 :: "int \<Rightarrow> int" where
  "i64 x = (x + 9223372036854775808) mod 18446744073709551616 - 9223372036854775808"

definition fits32 :: "int \<Rightarrow> bool" where
  "fits32 x \<longleftrightarrow> - 2147483648 \<le> x \<and> x < 2147483648"

definition fits64 :: "int \<Rightarrow> bool" where
  "fits64 x \<longleftrightarrow> - 9223372036854775808 \<le> x \<and> x < 9223372036854775808"

text \<open>
  Shifts. The shift amount of a C shift is an \<open>int\<close>; ISO C leaves amounts outside the width
  undefined, the targets' shift instructions use the low five (six) bits of the amount.
\<close>

definition shl32 :: "int \<Rightarrow> int \<Rightarrow> int" where
  "shl32 x n = i32 (x * 2 ^ nat (n mod 32))"

definition sar32 :: "int \<Rightarrow> int \<Rightarrow> int" where
  "sar32 x n = x div 2 ^ nat (n mod 32)"

definition sar64 :: "int \<Rightarrow> int \<Rightarrow> int" where
  "sar64 x n = x div 2 ^ nat (n mod 64)"

text \<open>\<open>x & ((1 << n) - 1)\<close> on a C \<open>int\<close>.\<close>

definition low_bits :: "nat \<Rightarrow> int \<Rightarrow> int" where
  "low_bits n x = x mod 2 ^ n"

text \<open>The kernel-style timer comparisons on the wrapping 32-bit millisecond counter.\<close>

definition time_after :: "u32 \<Rightarrow> u32 \<Rightarrow> bool" where
  "time_after a b \<longleftrightarrow> i32 (sint b - sint a) < 0"

definition time_before :: "u32 \<Rightarrow> u32 \<Rightarrow> bool" where
  "time_before a b \<longleftrightarrow> time_after b a"

definition time_after_eq :: "u32 \<Rightarrow> u32 \<Rightarrow> bool" where
  "time_after_eq a b \<longleftrightarrow> 0 \<le> i32 (sint a - sint b)"

text \<open>
  C array accesses: \<open>None\<close> is an access outside the object, which the code must never make.
\<close>

definition load :: "'a list \<Rightarrow> nat \<Rightarrow> 'a option" where
  "load xs i = (if i < length xs then Some (xs ! i) else None)"

definition store :: "'a list \<Rightarrow> nat \<Rightarrow> 'a \<Rightarrow> 'a list option" where
  "store xs i v = (if i < length xs then Some (xs[i := v]) else None)"

text \<open>\<open>memcpy(buf + at, src, n)\<close> and \<open>memcpy(dst, buf + at, n)\<close>.\<close>

definition store_bytes :: "'a list \<Rightarrow> nat \<Rightarrow> 'a list \<Rightarrow> 'a list option" where
  "store_bytes xs at vs =
     (if at + length vs \<le> length xs then Some (take at xs @ vs @ drop (at + length vs) xs) else None)"

definition load_bytes :: "'a list \<Rightarrow> nat \<Rightarrow> nat \<Rightarrow> 'a list option" where
  "load_bytes xs at n = (if at + n \<le> length xs then Some (take n (drop at xs)) else None)"

text \<open>Big-endian numbers: the value of a list of bytes, and the \<open>n\<close> bytes of a number.\<close>

definition be_val :: "u8 list \<Rightarrow> int" where
  "be_val bs = foldl (\<lambda>acc b. acc * 256 + uint b) 0 bs"

definition be_bytes :: "nat \<Rightarrow> int \<Rightarrow> u8 list" where
  "be_bytes n x = map (\<lambda>k. word_of_int (x div 256 ^ k)) (rev [0..<n])"

text \<open>A C loop whose body may fail.\<close>

primrec for_each :: "('i \<Rightarrow> 's \<Rightarrow> 's option) \<Rightarrow> 'i list \<Rightarrow> 's \<Rightarrow> 's option" where
  "for_each f [] s = Some s"
| "for_each f (i # is) s = Option.bind (f i s) (for_each f is)"

text \<open>
  The registers of a core behind a bus: what a read, a write, and a wait of some milliseconds do to the world.
\<close>

record 'w reg_bus =
  bus_read :: "u32 \<Rightarrow> 'w \<Rightarrow> u32 \<times> 'w"
  bus_write :: "u32 \<Rightarrow> u32 \<Rightarrow> 'w \<Rightarrow> 'w"
  bus_delay :: "nat \<Rightarrow> 'w \<Rightarrow> 'w"

section \<open>Collections\<close>

named_theorems c_arith \<open>the C integer conversions and shifts, unfolded\<close>
named_theorems c_mem \<open>the bounds-checked array accesses, unfolded\<close>

lemmas [c_arith] = i32_def i64_def fits32_def fits64_def shl32_def sar32_def sar64_def low_bits_def
lemmas [c_mem] = load_def store_def store_bytes_def load_bytes_def

section \<open>C integers\<close>

lemma i32_id [simp]: "fits32 x \<Longrightarrow> i32 x = x"
  by (simp add: i32_def fits32_def)

lemma i64_id [simp]: "fits64 x \<Longrightarrow> i64 x = x"
  by (simp add: i64_def fits64_def)

lemma fits32I: "\<lbrakk>- 2147483648 \<le> x; x < 2147483648\<rbrakk> \<Longrightarrow> fits32 x"
  by (simp add: fits32_def)

lemma fits64I: "\<lbrakk>- 9223372036854775808 \<le> x; x < 9223372036854775808\<rbrakk> \<Longrightarrow> fits64 x"
  by (simp add: fits64_def)

lemma fits32_i32 [simp]: "fits32 (i32 x)"
proof -
  have "0 \<le> (x + 2147483648) mod 4294967296" "(x + 2147483648) mod 4294967296 < 4294967296"
    by simp_all
  then show ?thesis by (simp add: i32_def fits32_def)
qed

lemma fits64_i64 [simp]: "fits64 (i64 x)"
proof -
  have "0 \<le> (x + 9223372036854775808) mod 18446744073709551616"
    "(x + 9223372036854775808) mod 18446744073709551616 < 18446744073709551616"
    by simp_all
  then show ?thesis by (simp add: i64_def fits64_def)
qed

lemma i32_cong: "i32 x mod 4294967296 = x mod 4294967296"
  by (simp add: i32_def mod_simps)

lemma i64_cong: "i64 x mod 18446744073709551616 = x mod 18446744073709551616"
  by (simp add: i64_def mod_simps)

lemma i32_eqI:
  assumes "x mod 4294967296 = y mod 4294967296"
  shows "i32 x = i32 y"
  using mod_add_cong [OF assms refl, of 2147483648] by (simp add: i32_def)

lemma i64_eqI:
  assumes "x mod 18446744073709551616 = y mod 18446744073709551616"
  shows "i64 x = i64 y"
  using mod_add_cong [OF assms refl, of 9223372036854775808] by (simp add: i64_def)

lemma i32_mod_pow2:
  assumes "n \<le> 32"
  shows "i32 x mod 2 ^ n = x mod 2 ^ n"
proof -
  have dvd: "(2::int) ^ n dvd 2 ^ 32" using assms by (rule le_imp_power_dvd)
  have "i32 x mod 2 ^ n = i32 x mod 2 ^ 32 mod 2 ^ n"
    using dvd by (simp add: mod_mod_cancel)
  also have "\<dots> = x mod 2 ^ 32 mod 2 ^ n" by (simp add: i32_cong)
  also have "\<dots> = x mod 2 ^ n" using dvd by (simp add: mod_mod_cancel)
  finally show ?thesis .
qed

lemma low_bits_range [simp]: "0 \<le> low_bits n x" "low_bits n x < 2 ^ n"
  by (simp_all add: low_bits_def)

lemma low_bits_i32 [simp]: "n \<le> 32 \<Longrightarrow> low_bits n (i32 x) = low_bits n x"
  by (simp add: low_bits_def i32_mod_pow2)

text \<open>The classic window lemma: a deadline less than \<open>2^31\<close> tics away compares correctly.\<close>

lemma sint_fits32: "fits32 (sint (w :: u32))"
  using sint_lt [of w] sint_ge [of w] by (simp add: fits32_def)

lemma i32_sint_diff: "i32 (sint (b :: u32) - sint a) = sint (b - a)"
proof -
  have "sint (b - a) = signed_take_bit 31 (sint b - sint a)"
    by (simp add: sint_word_ariths)
  also have "\<dots> = i32 (sint b - sint a)"
    by (simp add: signed_take_bit_eq_take_bit_shift take_bit_eq_mod i32_def)
  finally show ?thesis by simp
qed

lemma time_after_window:
  assumes "n < 2 ^ 31"
  shows "time_after (t + of_nat n) t \<longleftrightarrow> 0 < n"
proof -
  have "sint (- of_nat n :: u32) = - int n"
  proof -
    have "fits32 (- int n)" using assms by (simp add: fits32_def)
    moreover have "sint (- of_nat n :: u32) = i32 (- int n)"
    proof -
      have "sint (word_of_int (- int n) :: u32) = i32 (- int n)"
        by (simp only: int_word_sint i32_def) simp
      then show ?thesis by simp
    qed
    ultimately show ?thesis by simp
  qed
  then show ?thesis by (simp add: time_after_def i32_sint_diff)
qed

section \<open>Array accesses\<close>

lemma length_store: "store xs i v = Some ys \<Longrightarrow> length ys = length xs"
  by (auto simp: store_def split: if_splits)

lemma length_store_bytes: "store_bytes xs i vs = Some ys \<Longrightarrow> length ys = length xs"
  by (auto simp: store_bytes_def split: if_splits)

lemma load_store: "store xs i v = Some ys \<Longrightarrow> load ys j = (if i = j then Some v else load xs j)"
  by (auto simp: store_def load_def split: if_splits)

lemma load_bytes_store_bytes:
  "store_bytes xs i vs = Some ys \<Longrightarrow> load_bytes ys i (length vs) = Some vs"
  by (auto simp: store_bytes_def load_bytes_def split: if_splits)

lemma for_each_append: "for_each f (xs @ ys) s = Option.bind (for_each f xs s) (for_each f ys)"
  by (induction xs arbitrary: s) (simp_all split: Option.bind_split)

lemma for_each_inv:
  assumes "for_each f is s = Some s'" "P s" "\<And>i s s'. \<lbrakk>f i s = Some s'; P s\<rbrakk> \<Longrightarrow> P s'"
  shows "P s'"
  using assms(1,2)
proof (induction "is" arbitrary: s)
  case Nil
  then show ?case by simp
next
  case (Cons i "is")
  then show ?case using assms(3) by (auto simp: bind_eq_Some_conv)
qed

section \<open>Interface: a deterministic machine with an invariant\<close>

text \<open>
  Each controller of the program is a state and a step on an input. A component shows once that
  its step keeps an invariant; every run then keeps it. The input predicate says which inputs
  the environment may give.
\<close>

locale machine =
  fixes step :: "'i \<Rightarrow> 's \<Rightarrow> 's" and valid :: "'i \<Rightarrow> bool" and inv :: "'s \<Rightarrow> bool"
  assumes step_inv: "\<lbrakk>inv s; valid i\<rbrakk> \<Longrightarrow> inv (step i s)"
begin

lemma run_inv: "\<lbrakk>inv s; list_all valid is\<rbrakk> \<Longrightarrow> inv (fold step is s)"
  by (induction "is" arbitrary: s) (auto simp: step_inv)

lemma run_measure:
  assumes "\<And>s i. \<lbrakk>inv s; valid i\<rbrakk> \<Longrightarrow> (m (step i s) :: nat) = m s - 1"
    and "inv s" "list_all valid is"
  shows "m (fold step is s) = m s - length is"
  using assms(2,3) by (induction "is" arbitrary: s) (simp_all add: step_inv assms(1))

end

text \<open>The same for steps that may fail (an access outside an array): under the invariant none does.\<close>

locale safe_machine =
  fixes step :: "'i \<Rightarrow> 's \<Rightarrow> 's option" and valid :: "'i \<Rightarrow> bool" and inv :: "'s \<Rightarrow> bool"
  assumes step_safe: "\<lbrakk>inv s; valid i\<rbrakk> \<Longrightarrow> \<exists>s'. step i s = Some s' \<and> inv s'"
begin

lemma run_safe: "\<lbrakk>inv s; list_all valid is\<rbrakk> \<Longrightarrow> \<exists>s'. for_each step is s = Some s' \<and> inv s'"
proof (induction "is" arbitrary: s)
  case Nil
  then show ?case by simp
next
  case (Cons i "is")
  then obtain s' where "step i s = Some s'" "inv s'" using step_safe [of s i] by auto
  then show ?case using Cons by auto
qed

end

section \<open>Interface: a bounded queue\<close>

text \<open>
  What a client of a bounded queue relies on: the contents as a list, an \<open>enq\<close> that appends
  while there is room and drops otherwise, and a \<open>deq\<close> that takes the oldest element.
\<close>

locale bounded_queue =
  fixes cap :: "'q \<Rightarrow> nat" and enq :: "'a \<Rightarrow> 'q \<Rightarrow> 'q" and deq :: "'q \<Rightarrow> 'a \<times> 'q"
    and contents :: "'q \<Rightarrow> 'a list" and invar :: "'q \<Rightarrow> bool"
  assumes enq_contents: "invar q \<Longrightarrow> contents (enq x q) =
      (if length (contents q) < cap q then contents q @ [x] else contents q)"
    and deq_contents: "\<lbrakk>invar q; contents q \<noteq> []\<rbrakk> \<Longrightarrow>
      contents q = fst (deq q) # contents (snd (deq q))"
    and enq_invar: "invar q \<Longrightarrow> invar (enq x q)"
    and deq_invar: "\<lbrakk>invar q; contents q \<noteq> []\<rbrakk> \<Longrightarrow> invar (snd (deq q))"
    and enq_cap: "invar q \<Longrightarrow> cap (enq x q) = cap q"
    and deq_cap: "\<lbrakk>invar q; contents q \<noteq> []\<rbrakk> \<Longrightarrow> cap (snd (deq q)) = cap q"
begin

fun deq_n :: "nat \<Rightarrow> 'q \<Rightarrow> 'a list \<times> 'q" where
  "deq_n 0 q = ([], q)"
| "deq_n (Suc n) q = (let (x, q') = deq q; (xs, q'') = deq_n n q' in (x # xs, q''))"

lemma enq_all_fits:
  "\<lbrakk>invar q; length (contents q) + length xs \<le> cap q\<rbrakk> \<Longrightarrow>
    contents (fold enq xs q) = contents q @ xs \<and> invar (fold enq xs q)
      \<and> cap (fold enq xs q) = cap q"
proof (induction xs arbitrary: q)
  case Nil
  then show ?case by simp
next
  case (Cons x xs)
  have inv: "invar (enq x q)" and cp: "cap (enq x q) = cap q"
    using Cons.prems by (simp_all add: enq_invar enq_cap)
  have cont: "contents (enq x q) = contents q @ [x]"
    using Cons.prems by (simp add: enq_contents)
  have "length (contents (enq x q)) + length xs \<le> cap (enq x q)"
    using Cons.prems by (simp add: cont cp)
  from Cons.IH [OF inv this] show ?case by (simp add: cont cp)
qed

text \<open>In general the queue keeps what fits, in order.\<close>

lemma enq_all_take:
  "\<lbrakk>invar q; length (contents q) \<le> cap q\<rbrakk> \<Longrightarrow>
    contents (fold enq xs q) = take (cap q) (contents q @ xs) \<and> invar (fold enq xs q)
      \<and> cap (fold enq xs q) = cap q"
proof (induction xs arbitrary: q)
  case Nil
  then show ?case by simp
next
  case (Cons x xs)
  have inv: "invar (enq x q)" and cp: "cap (enq x q) = cap q"
    using Cons.prems by (simp_all add: enq_invar enq_cap)
  have cont: "contents (enq x q) = (if length (contents q) < cap q then contents q @ [x] else contents q)"
    using Cons.prems by (simp add: enq_contents)
  have "length (contents (enq x q)) \<le> cap (enq x q)" using Cons.prems by (simp add: cont cp)
  from Cons.IH [OF inv this] Cons.prems show ?case by (auto simp: cont cp take_Cons' Suc_diff_le)
qed

lemma deq_n_prefix:
  "\<lbrakk>invar q; n \<le> length (contents q)\<rbrakk> \<Longrightarrow>
    fst (deq_n n q) = take n (contents q)
      \<and> contents (snd (deq_n n q)) = drop n (contents q)
      \<and> invar (snd (deq_n n q)) \<and> cap (snd (deq_n n q)) = cap q"
proof (induction n arbitrary: q)
  case 0
  then show ?case by simp
next
  case (Suc n)
  then have ne: "contents q \<noteq> []" by auto
  obtain x q' where d: "deq q = (x, q')" by fastforce
  have c: "contents q = x # contents q'" and i: "invar q'" and k: "cap q' = cap q"
    using deq_contents [OF Suc.prems(1) ne] deq_invar [OF Suc.prems(1) ne]
      deq_cap [OF Suc.prems(1) ne] d by simp_all
  have "n \<le> length (contents q')" using Suc.prems c by simp
  from Suc.IH [OF i this] show ?case
    by (cases "deq_n n q'") (simp add: d c k)
qed

lemma fifo:
  assumes "invar q" "contents q = []" "length xs \<le> cap q"
  shows "fst (deq_n (length xs) (fold enq xs q)) = xs"
proof -
  have f: "contents (fold enq xs q) = xs" "invar (fold enq xs q)"
    using enq_all_fits [OF assms(1), of xs] assms(2,3) by auto
  have "length xs \<le> length (contents (fold enq xs q))" by (simp add: f(1))
  from deq_n_prefix [OF f(2) this] show ?thesis by (simp add: f(1))
qed

end

section \<open>Big-endian numbers\<close>

lemma be_val_snoc [simp]: "be_val (bs @ [b]) = be_val bs * 256 + uint b"
  by (simp add: be_val_def)

lemma be_val_Nil [simp]: "be_val [] = 0" by (simp add: be_val_def)

lemma be_val_bounds: "0 \<le> be_val bs \<and> be_val bs < 256 ^ length bs"
proof (induction bs rule: rev_induct)
  case (snoc b bs)
  have "uint b < 256" using uint_lt2p [of b] by simp
  then show ?case using snoc by simp
qed simp

lemma length_be_bytes [simp]: "length (be_bytes n x) = n" by (simp add: be_bytes_def)

lemma be_bytes_Suc: "be_bytes (Suc n) x = be_bytes n (x div 256) @ [word_of_int x]"
proof -
  have "rev [0..<Suc n] = map Suc (rev [0..<n]) @ [0]" by (simp only: rev_map [symmetric] map_Suc_upt upt_conv_Cons [OF zero_less_Suc] rev.simps)
  then show ?thesis by (simp only: be_bytes_def) (simp add: zdiv_zmult2_eq)
qed

lemma be_val_bytes: "be_val (be_bytes n x) = x mod 256 ^ n"
proof (induction n arbitrary: x)
  case (Suc n)
  have "uint (word_of_int x :: u8) = x mod 256" by (simp add: unsigned_of_int take_bit_eq_mod)
  then show ?case using Suc [of "x div 256"] by (simp add: be_bytes_Suc zmod_zmult2_eq mult.commute)
qed (simp add: be_bytes_def)

lemma be_bytes_val: "be_bytes (length bs) (be_val bs) = bs"
proof (induction bs rule: rev_induct)
  case (snoc b bs)
  have "(be_val bs * 256 + uint b) div 256 = be_val bs" using uint_lt2p [of b] by simp
  moreover have "word_of_int (be_val bs * 256 + uint b) = b"
    using uint_lt2p [of b] by (intro word_uint_eqI) (simp only: unsigned_of_int, simp add: take_bit_eq_mod)
  ultimately have "be_bytes (Suc (length bs)) (be_val (bs @ [b])) = be_bytes (length bs) (be_val bs) @ [b]"
    by (simp only: be_val_snoc be_bytes_Suc)
  then show ?case using snoc by simp
qed (simp add: be_bytes_def)

end
