(* ===== verification/Spll_Common.thy ===== *)
theory Spll_Common
  imports Wrpc_Prelude
begin

text \<open>
  \<^verbatim>\<open>softpll/spll_common.c\<close>: the PI regulator, the lock detector and the tagger switches that the
  helper PLL, the main PLL and the phase trackers share, with the build-time constants of
  \<^verbatim>\<open>include/spll_defs.h\<close> and the hardware registers they touch
  (\<^verbatim>\<open>include/hw/softpll_regs.h\<close>, \<^verbatim>\<open>include/hw/pps_gen_regs.h\<close>).

  Results: the regulator's output always lies in its range; its anti-windup keeps the integrator
  bounded for every sample sequence, so none of its 32- and 64-bit operations ever wraps and it
  computes the ideal PI law; the lock detector keeps its counter in range, needs
  \<open>lock_samples\<close> good samples to lock and \<open>lock_samples - delock_samples\<close> bad ones to unlock,
  and reports every loss of lock exactly once.
\<close>

unbundle bit_operations_syntax

section \<open>Build-time constants\<close>

text \<open>Constants every build shares (\<^verbatim>\<open>include/spll_defs.h\<close>).\<close>

definition TAG_BITS :: nat where "TAG_BITS = 22"
definition HPLL_N :: nat where "HPLL_N = 14"
definition PI_FRACBITS :: int where "PI_FRACBITS = 12"
definition PTRACKER_AVERAGE_SAMPLES :: int where "PTRACKER_AVERAGE_SAMPLES = 512"
definition SPLL_LOCKED :: int where "SPLL_LOCKED = 1"
definition SPLL_LOCKING :: int where "SPLL_LOCKING = 0"

text \<open>
  What the board header and Kconfig choose: \<open>BOARD_SPLL_DAC_BITS\<close>, \<open>BOARD_SPLL_DIV_BITS\<close>,
  \<open>REF_CLOCK_PERIOD_PS\<close>, \<open>BOARD_DIVIDE_DMTD_CLOCKS\<close>, \<open>TICS_PER_SECOND\<close>,
  \<open>BOARD_MAX_CHAN_AUX\<close>, \<open>BOARD_MAX_PTRACKERS\<close>, \<open>CONFIG_TARGET_WR_SWITCH\<close>,
  \<open>CONFIG_FRAC_SPLL\<close>, \<open>CONFIG_IGNORE_HPLL\<close>, \<open>CONFIG_WRPC_PPSI\<close>,
  \<open>CONFIG_TARGET_AMD_DEVBOARD\<close>, \<open>CONFIG_SPLL_DEGLITCH_THR\<close>, \<open>PPS_WIDTH\<close>.
\<close>

record spll_cfg =
  dac_bits :: nat
  div_bits :: nat
  clock_period_ps :: int
  divide_dmtd :: bool
  tics_per_second :: u32
  max_chan_aux :: nat
  max_ptrackers :: nat
  cfg_wr_switch :: bool
  cfg_frac_spll :: bool
  cfg_ignore_hpll :: bool
  cfg_wrpc_ppsi :: bool
  cfg_amd_devboard :: bool
  deglitch_thr :: u32
  pps_width :: u32

text \<open>
  The DAC geometries of the boards: \<open>(16,0)\<close> by default, \<open>(20,4)\<close> for babywr, \<open>(24,8)\<close> for
  ertm14 and wr2rf-vme.
\<close>

definition board_dac :: "spll_cfg \<Rightarrow> bool" where
  "board_dac c \<longleftrightarrow> (dac_bits c, div_bits c) \<in> {(16, 0), (20, 4), (24, 8)}"

section \<open>Hardware registers\<close>

text \<open>
  The SoftPLL and PPS-generator registers, the millisecond counter and the interrupt-enable flag.
  The FIFOs are lists: \<open>TRR\<close> the tags not yet read, \<open>DFR_SPLL\<close> what the firmware wrote to the
  debug queue, \<open>DFR_HOST\<close> what the host side of that queue still holds.
\<close>

record hw =
  CSR :: u32
  ECCR :: u32
  AL_CR :: u32
  AL_CIN :: u32
  OCCR :: u32
  RCER :: u32
  OCER :: u32
  DAC_HPLL :: u32
  DAC_MAIN :: u32
  DEGLITCH_THR :: u32
  EIC_IDR :: u32
  EIC_IER :: u32
  TRR :: "u32 list"
  DFR_SPLL :: "u32 list"
  DFR_HOST :: "u32 list"
  PPSG_CR :: u32
  PPSG_ESCR :: u32
  PPSG_ADJ_NSEC :: u32
  TICS :: u32
  IRQ_EN :: bool

text \<open>\<open>1 << n\<close> assigned to a 32-bit register.\<close>

definition bit_mask :: "int \<Rightarrow> u32" where
  "bit_mask n = push_bit (nat (n mod 32)) 1"

definition spll_enable_tagger :: "int \<Rightarrow> int \<Rightarrow> bool \<Rightarrow> hw \<Rightarrow> hw" where
  "spll_enable_tagger n_chan_ref channel enable h =
     (if channel \<ge> n_chan_ref then
        (if enable then h\<lparr>OCER := OCER h OR bit_mask (channel - n_chan_ref)\<rparr>
         else h\<lparr>OCER := OCER h AND NOT (bit_mask (channel - n_chan_ref))\<rparr>)
      else
        (if enable then h\<lparr>RCER := RCER h OR bit_mask channel\<rparr>
         else h\<lparr>RCER := RCER h AND NOT (bit_mask channel)\<rparr>))"

definition spll_debug :: "int \<Rightarrow> int \<Rightarrow> int \<Rightarrow> bool \<Rightarrow> hw \<Rightarrow> hw" where
  "spll_debug src what value last_item h = h\<lparr>DFR_SPLL := DFR_SPLL h @
     [(if last_item then 0x80000000 else 0) OR (word_of_int value AND 0xffffff)
      OR push_bit 28 (word_of_int src) OR push_bit 24 (word_of_int what)]\<rparr>"

section \<open>PI regulator\<close>

record spll_pi =
  pi_ki :: int
  pi_kp :: int
  pi_shift :: int
  pi_bias :: int
  pi_integrator :: int
  pi_anti_windup :: bool
  pi_y_min :: int
  pi_y_max :: int
  pi_x :: int
  pi_y :: int

text \<open>The new integrator value and the output before clamping.\<close>

definition pi_i_new :: "int \<Rightarrow> spll_pi \<Rightarrow> int" where
  "pi_i_new x pi = i64 (pi_integrator pi + i64 (pi_ki pi * x))"

definition pi_unclamped :: "int \<Rightarrow> spll_pi \<Rightarrow> int" where
  "pi_unclamped x pi =
     (let y_preround = i64 (i64 (pi_i_new x pi + i64 (x * pi_kp pi)) + shl32 1 (pi_shift pi - 1))
      in i32 (i64 (sar64 y_preround (pi_shift pi) + pi_bias pi)))"

definition pi_update :: "int \<Rightarrow> spll_pi \<Rightarrow> int \<times> spll_pi" where
  "pi_update x pi =
     (let i_new = pi_i_new x pi;
          y = pi_unclamped x pi;
          (y', keep) =
            (if y < pi_y_min pi then
               (pi_y_min pi, (pi_anti_windup pi \<and> i_new > pi_integrator pi) \<or> \<not> pi_anti_windup pi)
             else if y > pi_y_max pi then
               (pi_y_max pi, (pi_anti_windup pi \<and> i_new < pi_integrator pi) \<or> \<not> pi_anti_windup pi)
             else (y, True))
      in (y', pi\<lparr>pi_x := x, pi_y := y',
                 pi_integrator := (if keep then i_new else pi_integrator pi)\<rparr>))"

definition pi_init :: "spll_pi \<Rightarrow> spll_pi" where
  "pi_init pi = pi\<lparr>pi_integrator := 0, pi_y := pi_bias pi\<rparr>"

section \<open>Lock detector\<close>

record spll_lock_det =
  ld_lock_cnt :: int
  ld_lock_samples :: int
  ld_delock_samples :: int
  ld_threshold :: int
  ld_locked :: bool
  ld_lock_changed :: bool

definition c_abs :: "int \<Rightarrow> int" where
  "c_abs x = (if x \<ge> 0 then x else i32 (- x))"

definition ld_update :: "int \<Rightarrow> spll_lock_det \<Rightarrow> int \<times> spll_lock_det" where
  "ld_update y ld0 =
     (let ld = ld0\<lparr>ld_lock_changed := False\<rparr> in
      if c_abs y \<le> ld_threshold ld then
        (let ld = (if ld_lock_cnt ld < ld_lock_samples ld
                   then ld\<lparr>ld_lock_cnt := i32 (ld_lock_cnt ld + 1)\<rparr> else ld) in
         if ld_lock_cnt ld = ld_lock_samples ld
         then (1, ld\<lparr>ld_lock_changed := \<not> ld_locked ld, ld_locked := True\<rparr>)
         else (of_bool (ld_locked ld), ld))
      else
        (let ld = (if ld_lock_cnt ld > ld_delock_samples ld
                   then ld\<lparr>ld_lock_cnt := i32 (ld_lock_cnt ld - 1)\<rparr> else ld) in
         if ld_lock_cnt ld = ld_delock_samples ld \<and> ld_locked ld
         then (- 1, ld\<lparr>ld_lock_cnt := 0, ld_lock_changed := ld_locked ld, ld_locked := False\<rparr>)
         else (of_bool (ld_locked ld), ld)))"

definition ld_init :: "spll_lock_det \<Rightarrow> spll_lock_det" where
  "ld_init ld = ld\<lparr>ld_locked := False, ld_lock_cnt := 0, ld_lock_changed := False\<rparr>"


text \<open>
  The reference law of the regulator, on unbounded integers: integrate, add the proportional term,
  round at half a unit, clamp; with anti-windup the integrator only moves back towards the range
  while the output saturates.
\<close>

definition pi_raw :: "int \<Rightarrow> spll_pi \<Rightarrow> int" where
  "pi_raw x pi = (pi_integrator pi + pi_ki pi * x + pi_kp pi * x + 2 ^ nat (pi_shift pi - 1))
                 div 2 ^ nat (pi_shift pi) + pi_bias pi"

definition pi_ideal :: "int \<Rightarrow> spll_pi \<Rightarrow> int \<times> spll_pi" where
  "pi_ideal x pi =
     (let i_new = pi_integrator pi + pi_ki pi * x;
          y = max (pi_y_min pi) (min (pi_y_max pi) (pi_raw x pi));
          keep = (\<not> pi_anti_windup pi
                  \<or> (pi_raw x pi < pi_y_min pi \<longrightarrow> i_new > pi_integrator pi)
                    \<and> (pi_raw x pi > pi_y_max pi \<longrightarrow> i_new < pi_integrator pi))
      in (y, pi\<lparr>pi_x := x, pi_y := y,
                pi_integrator := (if keep then i_new else pi_integrator pi)\<rparr>))"

text \<open>
  The configurations for which the regulator is used: 24-bit DAC ranges, a sensible shift, and
  gains whose product with the largest error \<open>X\<close> stays below \<open>2^30\<close>. The integrator bound is
  the one anti-windup maintains.
\<close>

definition pi_gains_ok :: "int \<Rightarrow> spll_pi \<Rightarrow> bool" where
  "pi_gains_ok X pi \<longleftrightarrow> pi_anti_windup pi \<and> 1 \<le> pi_shift pi \<and> pi_shift pi \<le> 20
     \<and> pi_y_min pi \<le> pi_y_max pi \<and> \<bar>pi_y_min pi\<bar> \<le> 2 ^ 24 \<and> \<bar>pi_y_max pi\<bar> \<le> 2 ^ 24
     \<and> \<bar>pi_bias pi\<bar> \<le> 2 ^ 24 \<and> 0 \<le> X \<and> (\<bar>pi_ki pi\<bar> + \<bar>pi_kp pi\<bar>) * X \<le> 2 ^ 30"

definition pi_wf :: "int \<Rightarrow> spll_pi \<Rightarrow> bool" where
  "pi_wf X pi \<longleftrightarrow> pi_gains_ok X pi
     \<and> \<bar>pi_integrator pi\<bar> \<le> 2 ^ 26 * 2 ^ nat (pi_shift pi) + 2 ^ 30"

text \<open>
  The lock detector's invariant: the documented ordering \<open>delock_samples < lock_samples\<close> of the
  thresholds, the counter in range, and on which side of the thresholds each state lives.
\<close>

definition ld_wf :: "spll_lock_det \<Rightarrow> bool" where
  "ld_wf ld \<longleftrightarrow> 0 \<le> ld_delock_samples ld \<and> ld_delock_samples ld < ld_lock_samples ld
     \<and> ld_lock_samples ld < 2147483648 \<and> 0 \<le> ld_lock_cnt ld
     \<and> ld_lock_cnt ld \<le> ld_lock_samples ld
     \<and> (ld_locked ld \<longrightarrow> ld_delock_samples ld < ld_lock_cnt ld)
     \<and> (\<not> ld_locked ld \<longrightarrow> ld_lock_cnt ld < ld_lock_samples ld)"

definition ld_good :: "spll_lock_det \<Rightarrow> int \<Rightarrow> bool" where
  "ld_good ld y \<longleftrightarrow> c_abs y \<le> ld_threshold ld"

definition ld_run :: "int list \<Rightarrow> spll_lock_det \<Rightarrow> spll_lock_det" where
  "ld_run ys ld = fold (\<lambda>y. snd \<circ> ld_update y) ys ld"

section \<open>Facts about the regulator\<close>

lemma pi_update_out:
  "fst (pi_update x pi) = pi_y (snd (pi_update x pi))"
  "pi_y_min pi \<le> pi_y_max pi \<Longrightarrow>
     pi_y_min pi \<le> fst (pi_update x pi) \<and> fst (pi_update x pi) \<le> pi_y_max pi"
  by (auto simp: pi_update_def Let_def)

lemma pi_update_frame [simp]:
  "pi_ki (snd (pi_update x pi)) = pi_ki pi" "pi_kp (snd (pi_update x pi)) = pi_kp pi"
  "pi_shift (snd (pi_update x pi)) = pi_shift pi" "pi_bias (snd (pi_update x pi)) = pi_bias pi"
  "pi_y_min (snd (pi_update x pi)) = pi_y_min pi" "pi_y_max (snd (pi_update x pi)) = pi_y_max pi"
  "pi_anti_windup (snd (pi_update x pi)) = pi_anti_windup pi" "pi_x (snd (pi_update x pi)) = x"
  by (auto simp: pi_update_def Let_def split: prod.splits)

lemma gain_bound:
  assumes "pi_gains_ok X pi" "\<bar>x\<bar> \<le> X"
  shows "\<bar>pi_ki pi * x\<bar> + \<bar>pi_kp pi * x\<bar> \<le> 2 ^ 30"
proof -
  have "\<bar>pi_ki pi * x\<bar> + \<bar>pi_kp pi * x\<bar> = (\<bar>pi_ki pi\<bar> + \<bar>pi_kp pi\<bar>) * \<bar>x\<bar>"
    by (simp add: abs_mult algebra_simps)
  also have "\<dots> \<le> (\<bar>pi_ki pi\<bar> + \<bar>pi_kp pi\<bar>) * X"
    using assms(2) by (intro mult_left_mono) auto
  also have "\<dots> \<le> 2 ^ 30" using assms(1) by (simp add: pi_gains_ok_def)
  finally show ?thesis .
qed

text \<open>The rounding shift stays within a unit of the exact quotient.\<close>

lemma shift_div_bound:
  fixes v c :: int
  assumes "1 \<le> s" "\<bar>v\<bar> \<le> c * 2 ^ s + 2 ^ 31"
  shows "\<bar>v div 2 ^ s\<bar> \<le> c + 2 ^ 30"
proof -
  have pow: "(2::int) \<le> 2 ^ s" using assms(1) by (cases s) auto
  have "(2::int) ^ 31 \<le> 2 ^ 30 * 2 ^ s" using pow by simp
  then have b: "\<bar>v\<bar> \<le> (c + 2 ^ 30) * 2 ^ s" using assms(2) by (simp add: algebra_simps)
  have "v div 2 ^ s \<le> (c + 2 ^ 30) * 2 ^ s div 2 ^ s"
    using b by (intro zdiv_mono1) auto
  moreover have "- (c + 2 ^ 30) * 2 ^ s \<le> v"
    using b unfolding mult_minus_left by linarith
  then have "- (c + 2 ^ 30) * 2 ^ s div 2 ^ s \<le> v div 2 ^ s"
    by (rule zdiv_mono1) simp
  ultimately show ?thesis by simp
qed

lemma pi_raw_small:
  assumes wf: "pi_wf X pi" and x: "\<bar>x\<bar> \<le> X"
  defines "v \<equiv> pi_integrator pi + pi_ki pi * x + pi_kp pi * x + 2 ^ nat (pi_shift pi - 1)"
  shows "\<bar>v\<bar> \<le> (2 ^ 26 + 1) * 2 ^ nat (pi_shift pi) + 2 ^ 31"
    and "\<bar>v div 2 ^ nat (pi_shift pi)\<bar> \<le> 2 ^ 26 + 1 + 2 ^ 30"
proof -
  have ok: "pi_gains_ok X pi" and i: "\<bar>pi_integrator pi\<bar> \<le> 2 ^ 26 * 2 ^ nat (pi_shift pi) + 2 ^ 30"
    using wf by (simp_all add: pi_wf_def)
  have g: "\<bar>pi_ki pi * x\<bar> + \<bar>pi_kp pi * x\<bar> \<le> 2 ^ 30" using ok x by (rule gain_bound)
  have h: "(2::int) ^ nat (pi_shift pi - 1) \<le> 2 ^ nat (pi_shift pi)"
    by (rule power_increasing) auto
  have "\<bar>I + a + b + Q\<bar> \<le> (2 ^ 26 + 1) * P + 2 ^ 31"
    if "\<bar>I\<bar> \<le> 2 ^ 26 * P + 2 ^ 30" "\<bar>a\<bar> + \<bar>b\<bar> \<le> 2 ^ 30" "0 < Q" "Q \<le> P" for I a b Q P :: int
    using that by simp
  from this [OF i g _ h] show b: "\<bar>v\<bar> \<le> (2 ^ 26 + 1) * 2 ^ nat (pi_shift pi) + 2 ^ 31"
    unfolding v_def by simp
  have "1 \<le> nat (pi_shift pi)" using ok by (simp add: pi_gains_ok_def Suc_le_eq)
  from shift_div_bound [OF this b]
  show "\<bar>v div 2 ^ nat (pi_shift pi)\<bar> \<le> 2 ^ 26 + 1 + 2 ^ 30" .
qed

text \<open>Under \<open>pi_wf\<close> no conversion in \<open>pi_update\<close> changes a value.\<close>

lemma pi_update_raw:
  assumes wf: "pi_wf X pi" and x: "\<bar>x\<bar> \<le> X"
  shows "pi_i_new x pi = pi_integrator pi + pi_ki pi * x"
    and "pi_unclamped x pi = pi_raw x pi"
proof -
  let ?P = "(2::int) ^ nat (pi_shift pi)" and ?Q = "(2::int) ^ nat (pi_shift pi - 1)"
  let ?k = "pi_ki pi * x" and ?p = "pi_kp pi * x" and ?I = "pi_integrator pi"
  have ok: "pi_gains_ok X pi" and i: "\<bar>?I\<bar> \<le> 67108864 * ?P + 1073741824"
    using wf by (simp_all add: pi_wf_def)
  have s: "1 \<le> pi_shift pi" "pi_shift pi \<le> 20" and bias: "\<bar>pi_bias pi\<bar> \<le> 16777216"
    using ok by (simp_all add: pi_gains_ok_def)
  have g: "\<bar>?k\<bar> + \<bar>?p\<bar> \<le> 1073741824" using gain_bound [OF ok x] by simp
  have P: "?P \<le> 1048576" "?Q \<le> 1048576" "0 < ?Q"
    using power_increasing [of "nat (pi_shift pi)" 20 "2::int"]
      power_increasing [of "nat (pi_shift pi - 1)" 20 "2::int"] s by simp_all
  have "fits32 ?Q" using P(2,3) by (intro fits32I) linarith+
  then have sh: "shl32 1 (pi_shift pi - 1) = ?Q" using s by (simp add: shl32_def)
  have m: "nat (pi_shift pi mod 64) = nat (pi_shift pi)" using s by simp
  have f: "fits64 ?k" "fits64 ?p" "fits64 (?I + ?k)" "fits64 (?I + ?k + ?p)" "fits64 (?I + ?k + ?p + ?Q)"
    using i g P by (intro fits64I; linarith)+
  show new: "pi_i_new x pi = ?I + ?k" using f by (simp add: pi_i_new_def)
  have "i64 (i64 (?I + ?k + i64 (x * pi_kp pi)) + shl32 1 (pi_shift pi - 1)) = ?I + ?k + ?p + ?Q"
    using f by (simp add: sh mult.commute [of x])
  moreover have d: "\<bar>(?I + ?k + ?p + ?Q) div ?P\<bar> \<le> 1140850689"
    using pi_raw_small(2) [OF wf x] by simp
  moreover have "fits64 ((?I + ?k + ?p + ?Q) div ?P + pi_bias pi)"
    "fits32 ((?I + ?k + ?p + ?Q) div ?P + pi_bias pi)"
    using d bias by (intro fits64I fits32I; linarith)+
  ultimately show "pi_unclamped x pi = pi_raw x pi"
    by (simp add: pi_unclamped_def new sar64_def m pi_raw_def)
qed

lemma pi_update_ideal:
  assumes "pi_wf X pi" "\<bar>x\<bar> \<le> X"
  shows "pi_update x pi = pi_ideal x pi"
proof -
  have yy: "pi_y_min pi \<le> pi_y_max pi" "pi_anti_windup pi"
    using assms(1) by (simp_all add: pi_wf_def pi_gains_ok_def)
  show ?thesis
    unfolding pi_update_def pi_ideal_def pi_update_raw [OF assms] Let_def
    using yy by (auto simp: max_def min_def)
qed

text \<open>The bound on the integrator is an invariant of the regulator.\<close>

lemma pi_raw_bounds_integrator:
  assumes wf: "pi_wf X pi" and x: "\<bar>x\<bar> \<le> X"
  shows "pi_raw x pi \<le> pi_y_max pi \<Longrightarrow>
      pi_integrator pi + pi_ki pi * x \<le> 67108864 * 2 ^ nat (pi_shift pi) + 1073741824"
    and "pi_y_min pi \<le> pi_raw x pi \<Longrightarrow>
      - (67108864 * 2 ^ nat (pi_shift pi) + 1073741824) \<le> pi_integrator pi + pi_ki pi * x"
proof -
  let ?P = "(2::int) ^ nat (pi_shift pi)" and ?Q = "(2::int) ^ nat (pi_shift pi - 1)"
  let ?v = "pi_integrator pi + pi_ki pi * x + pi_kp pi * x + ?Q"
  have ok: "pi_gains_ok X pi" using wf by (simp add: pi_wf_def)
  have b: "\<bar>pi_y_min pi\<bar> \<le> 16777216" "\<bar>pi_y_max pi\<bar> \<le> 16777216" "\<bar>pi_bias pi\<bar> \<le> 16777216"
    using ok by (simp_all add: pi_gains_ok_def)
  have g: "\<bar>pi_ki pi * x\<bar> + \<bar>pi_kp pi * x\<bar> \<le> 1073741824" using gain_bound [OF ok x] by simp
  have h: "0 < ?Q" "?Q \<le> ?P" "0 < ?P" by (auto intro!: power_increasing)
  have dm: "?v div ?P * ?P + ?v mod ?P = ?v" "0 \<le> ?v mod ?P" "?v mod ?P < ?P"
    using h(3) by (simp_all only: div_mult_mod_eq pos_mod_sign pos_mod_bound)
  show "pi_integrator pi + pi_ki pi * x \<le> 67108864 * ?P + 1073741824" if "pi_raw x pi \<le> pi_y_max pi"
  proof -
    have "?v div ?P \<le> 33554432" using that b by (simp add: pi_raw_def)
    then have "?v div ?P * ?P \<le> 33554432 * ?P" using h(3) by (intro mult_right_mono) auto
    then show ?thesis using dm g h by linarith
  qed
  show "- (67108864 * ?P + 1073741824) \<le> pi_integrator pi + pi_ki pi * x" if "pi_y_min pi \<le> pi_raw x pi"
  proof -
    have "- 33554432 \<le> ?v div ?P" using that b by (simp add: pi_raw_def)
    then have "- 33554432 * ?P \<le> ?v div ?P * ?P" using h(3) by (intro mult_right_mono) auto
    then show ?thesis using dm g h by linarith
  qed
qed

lemma pi_ideal_wf:
  assumes wf: "pi_wf X pi" and x: "\<bar>x\<bar> \<le> X"
  shows "pi_wf X (snd (pi_ideal x pi))"
proof -
  let ?B = "67108864 * 2 ^ nat (pi_shift pi) + 1073741824"
  have ok: "pi_gains_ok X pi" and i: "\<bar>pi_integrator pi\<bar> \<le> ?B"
    using wf by (simp_all add: pi_wf_def)
  have ok': "pi_gains_ok X (snd (pi_ideal x pi))"
    and sh: "pi_shift (snd (pi_ideal x pi)) = pi_shift pi"
    using ok by (simp_all add: pi_gains_ok_def pi_ideal_def Let_def)
  have aw: "pi_anti_windup pi" "pi_y_min pi \<le> pi_y_max pi" using ok by (simp_all add: pi_gains_ok_def)
  note rb = pi_raw_bounds_integrator [OF wf x]
  have "\<bar>pi_integrator (snd (pi_ideal x pi))\<bar> \<le> ?B"
  proof (cases "pi_integrator (snd (pi_ideal x pi)) = pi_integrator pi")
    case True
    then show ?thesis using i by simp
  next
    case False
    then have new: "pi_integrator (snd (pi_ideal x pi)) = pi_integrator pi + pi_ki pi * x"
      and up: "pi_raw x pi < pi_y_min pi \<longrightarrow> pi_integrator pi < pi_integrator pi + pi_ki pi * x"
      and dn: "pi_raw x pi > pi_y_max pi \<longrightarrow> pi_integrator pi > pi_integrator pi + pi_ki pi * x"
      using aw by (auto simp: pi_ideal_def Let_def split: if_splits)
    show ?thesis
    proof (cases "pi_raw x pi < pi_y_min pi")
      case True
      then show ?thesis using new up rb(1) i aw(2) by linarith
    next
      case ge: False
      show ?thesis
      proof (cases "pi_raw x pi > pi_y_max pi")
        case True
        then show ?thesis using new dn rb(2) i ge by linarith
      next
        case False
        then show ?thesis using new rb ge by linarith
      qed
    qed
  qed
  then show ?thesis using ok' sh by (simp add: pi_wf_def)
qed

lemma pi_update_wf: "\<lbrakk>pi_wf X pi; \<bar>x\<bar> \<le> X\<rbrakk> \<Longrightarrow> pi_wf X (snd (pi_update x pi))"
  by (simp add: pi_update_ideal pi_ideal_wf)

interpretation regulator: machine "\<lambda>x. snd \<circ> pi_update x" "\<lambda>x. \<bar>x\<bar> \<le> X" "pi_wf X" for X
  by unfold_locales (simp add: pi_update_wf)

lemma pi_init_wf: "pi_gains_ok X pi \<Longrightarrow> pi_wf X (pi_init pi)"
  by (simp add: pi_wf_def pi_gains_ok_def pi_init_def)

section \<open>Facts about the lock detector\<close>

lemma ld_update_frame [simp]:
  "ld_lock_samples (snd (ld_update y ld)) = ld_lock_samples ld"
  "ld_delock_samples (snd (ld_update y ld)) = ld_delock_samples ld"
  "ld_threshold (snd (ld_update y ld)) = ld_threshold ld"
  by (simp_all add: ld_update_def Let_def)

lemma ld_run_frame [simp]:
  "ld_lock_samples (ld_run ys ld) = ld_lock_samples ld"
  "ld_delock_samples (ld_run ys ld) = ld_delock_samples ld"
  "ld_threshold (ld_run ys ld) = ld_threshold ld"
  by (induction ys arbitrary: ld) (simp_all add: ld_run_def)

lemma ld_run_simps [simp]:
  "ld_run [] ld = ld" "ld_run (y # ys) ld = ld_run ys (snd (ld_update y ld))"
  "ld_run (ys @ zs) ld = ld_run zs (ld_run ys ld)"
  by (simp_all add: ld_run_def)

lemma ld_good_frame [simp]:
  "ld_good (snd (ld_update y ld)) z = ld_good ld z" "ld_good (ld_run ys ld) z = ld_good ld z"
  by (simp_all add: ld_good_def)

lemma ld_update_good:
  assumes "ld_wf ld" "ld_good ld y"
  shows "ld_update y ld =
    (let full = (ld_lock_cnt ld + 1 \<ge> ld_lock_samples ld)
     in (of_bool (full \<or> ld_locked ld),
         ld\<lparr>ld_lock_cnt := min (ld_lock_cnt ld + 1) (ld_lock_samples ld),
            ld_lock_changed := full \<and> \<not> ld_locked ld, ld_locked := full \<or> ld_locked ld\<rparr>))"
  using assms by (auto simp: ld_update_def ld_good_def ld_wf_def Let_def fits32_def min_def)

lemma ld_update_bad:
  assumes "ld_wf ld" "\<not> ld_good ld y"
  shows "ld_update y ld =
    (let cnt = (if ld_lock_cnt ld > ld_delock_samples ld then ld_lock_cnt ld - 1 else ld_lock_cnt ld);
         lost = (ld_locked ld \<and> cnt = ld_delock_samples ld)
     in (if lost then - 1 else of_bool (ld_locked ld),
         ld\<lparr>ld_lock_cnt := (if lost then 0 else cnt),
            ld_lock_changed := lost, ld_locked := ld_locked ld \<and> \<not> lost\<rparr>))"
  using assms by (auto simp: ld_update_def ld_good_def ld_wf_def Let_def fits32_def)

lemma ld_update_wf: "ld_wf ld \<Longrightarrow> ld_wf (snd (ld_update y ld))"
  by (cases "ld_good ld y") (auto simp: ld_update_good ld_update_bad ld_wf_def Let_def min_def)

interpretation lock_det: machine "\<lambda>y. snd \<circ> ld_update y" "\<lambda>_. True" ld_wf
  by unfold_locales (simp add: ld_update_wf)

lemma ld_run_wf: "ld_wf ld \<Longrightarrow> ld_wf (ld_run ys ld)"
  unfolding ld_run_def by (rule lock_det.run_inv) (simp_all add: list_all_iff)

lemma ld_init_wf:
  "\<lbrakk>0 \<le> ld_delock_samples ld; ld_delock_samples ld < ld_lock_samples ld; fits32 (ld_lock_samples ld)\<rbrakk>
    \<Longrightarrow> ld_wf (ld_init ld)"
  by (simp add: ld_wf_def ld_init_def fits32_def)

lemma ld_cnt_le_good:
  "ld_wf ld \<Longrightarrow> ld_lock_cnt (ld_run ys ld) \<le> ld_lock_cnt ld + int (length (filter (ld_good ld) ys))"
proof (induction ys arbitrary: ld)
  case Nil
  then show ?case by simp
next
  case (Cons y ys)
  have "ld_lock_cnt (snd (ld_update y ld)) \<le> ld_lock_cnt ld + of_bool (ld_good ld y)"
    using Cons.prems
    by (cases "ld_good ld y") (auto simp: ld_update_good ld_update_bad Let_def ld_wf_def)
  moreover have "ld_good (snd (ld_update y ld)) = ld_good ld" by (rule ext) simp
  ultimately show ?case
    using Cons.IH [of "snd (ld_update y ld)"] ld_update_wf [OF Cons.prems, of y]
    by (cases "ld_good ld y") simp_all
qed

lemma ld_good_run:
  assumes "ld_wf ld" "list_all (ld_good ld) ys"
  shows "ld_lock_cnt (ld_run ys ld) = min (ld_lock_cnt ld + int (length ys)) (ld_lock_samples ld)
    \<and> (ld_locked (ld_run ys ld) \<longleftrightarrow> ld_locked ld \<or> ld_lock_samples ld \<le> ld_lock_cnt ld + int (length ys))"
  using assms
proof (induction ys arbitrary: ld)
  case Nil
  then show ?case by (auto simp: ld_wf_def)
next
  case (Cons y ys)
  let ?ld = "snd (ld_update y ld)"
  have "list_all (ld_good ?ld) ys" using Cons.prems by (simp add: list_all_iff)
  from Cons.IH [OF ld_update_wf [OF Cons.prems(1)] this] Cons.prems
  show ?case by (auto simp: ld_update_good Let_def)
qed

lemma ld_bad_run:
  assumes "ld_wf ld" "ld_locked ld" "list_all (\<lambda>y. \<not> ld_good ld y) ys"
    and "int (length ys) < ld_lock_cnt ld - ld_delock_samples ld"
  shows "ld_locked (ld_run ys ld) \<and> ld_lock_cnt (ld_run ys ld) = ld_lock_cnt ld - int (length ys)"
  using assms
proof (induction ys arbitrary: ld)
  case Nil
  then show ?case by simp
next
  case (Cons y ys)
  let ?ld = "snd (ld_update y ld)"
  have st: "ld_locked ?ld" "ld_lock_cnt ?ld = ld_lock_cnt ld - 1"
    using Cons.prems by (auto simp: ld_update_bad Let_def)
  have "list_all (\<lambda>y. \<not> ld_good ?ld y) ys" using Cons.prems by (simp add: list_all_iff)
  from Cons.IH [OF ld_update_wf [OF Cons.prems(1)] st(1) this] Cons.prems st
  show ?case by simp
qed

section \<open>Properties\<close>

text \<open>A regulator configured as the helper PLL of a WR node with a 16-bit DAC.\<close>

definition example_pi :: spll_pi where
  "example_pi = \<lparr>pi_ki = - 2, pi_kp = - 150, pi_shift = 12, pi_bias = 65531, pi_integrator = 0,
     pi_anti_windup = True, pi_y_min = 5, pi_y_max = 65531, pi_x = 0, pi_y = 65531\<rparr>"

definition example_ld :: spll_lock_det where
  "example_ld = \<lparr>ld_lock_cnt = 0, ld_lock_samples = 4, ld_delock_samples = 1, ld_threshold = 200,
     ld_locked = False, ld_lock_changed = False\<rparr>"

text \<open>
  The value \<open>pi_update\<close> returns, which the callers write to the oscillator DACs, always lies
  in the regulator's range \<open>[y_min, y_max]\<close>, whatever the error sample, the gains, the state of the
  integrator and however the 32- and 64-bit arithmetic wraps, and it is the value stored as \<open>y\<close>.
\<close>

theorem pi_update_in_range:
  assumes "pi_y_min pi \<le> pi_y_max pi"
  shows "pi_y_min pi \<le> fst (pi_update x pi) \<and> fst (pi_update x pi) \<le> pi_y_max pi
    \<and> pi_y (snd (pi_update x pi)) = fst (pi_update x pi)"
  using pi_update_out(1) [of x pi] pi_update_out(2) [OF assms, of x] by simp

theorem pi_update_in_range_witness:
  "5 \<le> fst (pi_update 1000 example_pi) \<and> fst (pi_update 1000 example_pi) \<le> 65531"
  using pi_update_in_range [of example_pi 1000] by (simp add: example_pi_def)

text \<open>
  C1. For every sequence of error samples bounded by \<open>X\<close>, a regulator with anti-windup whose gains
  satisfy \<open>(|ki| + |kp|) * X \<le> 2^30\<close> never wraps any of its 32- or 64-bit operations: after each
  prefix of the sequence it is in the state the ideal PI law on unbounded integers reaches, and
  its integrator stays within \<open>2^26 * 2^shift + 2^30\<close>.
\<close>

theorem pi_run_is_ideal:
  assumes "pi_gains_ok X pi" "list_all (\<lambda>x. \<bar>x\<bar> \<le> X) xs"
  shows "fold (\<lambda>x. snd \<circ> pi_update x) xs (pi_init pi) = fold (\<lambda>x. snd \<circ> pi_ideal x) xs (pi_init pi)
    \<and> \<bar>pi_integrator (fold (\<lambda>x. snd \<circ> pi_update x) xs (pi_init pi))\<bar> \<le> 2 ^ 26 * 2 ^ nat (pi_shift pi) + 2 ^ 30"
proof -
  have wf: "pi_wf X (pi_init pi)" using assms(1) by (rule pi_init_wf)
  have eq: "pi_wf X p \<Longrightarrow> list_all (\<lambda>x. \<bar>x\<bar> \<le> X) ys \<Longrightarrow>
      fold (\<lambda>x. snd \<circ> pi_update x) ys p = fold (\<lambda>x. snd \<circ> pi_ideal x) ys p" for ys p
    by (induction ys arbitrary: p) (simp_all add: pi_update_ideal [symmetric] pi_update_wf)
  have sh: "pi_shift (fold (\<lambda>x. snd \<circ> pi_update x) ys p) = pi_shift p" for ys p
    by (induction ys arbitrary: p) simp_all
  have "pi_wf X (fold (\<lambda>x. snd \<circ> pi_update x) xs (pi_init pi))"
    using wf assms(2) by (rule regulator.run_inv)
  then show ?thesis using eq [OF wf assms(2)] sh [of xs "pi_init pi"]
    by (simp add: pi_wf_def) (simp add: pi_init_def)
qed

theorem pi_run_is_ideal_witness:
  "pi_gains_ok 150000 example_pi
    \<and> fold (\<lambda>x. snd \<circ> pi_update x) [150000, - 150000, 12] (pi_init example_pi)
      = fold (\<lambda>x. snd \<circ> pi_ideal x) [150000, - 150000, 12] (pi_init example_pi)"
proof -
  have h1: "pi_gains_ok 150000 example_pi" by (simp add: pi_gains_ok_def example_pi_def)
  have h2: "list_all (\<lambda>x. \<bar>x\<bar> \<le> 150000) [150000, - 150000, 12 :: int]" by simp
  show ?thesis using h1 pi_run_is_ideal [OF h1 h2] by blast
qed

text \<open>
  Saturation and anti-windup. Below the range the output is \<open>y_min\<close> and the integrator may
  only grow; above the range the output is \<open>y_max\<close> and it may only shrink; within the range the
  output is the unclamped value and the new integrator is stored.
\<close>

theorem pi_update_saturation:
  assumes "pi_anti_windup pi" "pi_y_min pi \<le> pi_y_max pi"
  shows "(pi_unclamped x pi < pi_y_min pi \<longrightarrow>
            fst (pi_update x pi) = pi_y_min pi \<and> pi_integrator (snd (pi_update x pi)) = max (pi_integrator pi) (pi_i_new x pi))
       \<and> (pi_y_max pi < pi_unclamped x pi \<longrightarrow>
            fst (pi_update x pi) = pi_y_max pi \<and> pi_integrator (snd (pi_update x pi)) = min (pi_integrator pi) (pi_i_new x pi))
       \<and> (pi_y_min pi \<le> pi_unclamped x pi \<and> pi_unclamped x pi \<le> pi_y_max pi \<longrightarrow>
            fst (pi_update x pi) = pi_unclamped x pi \<and> pi_integrator (snd (pi_update x pi)) = pi_i_new x pi)"
  using assms by (auto simp: pi_update_def Let_def max_def min_def)

theorem pi_update_saturation_witness:
  "pi_integrator (snd (pi_update (- 100000) example_pi)) = min 0 (pi_i_new (- 100000) example_pi)
    \<and> fst (pi_update (- 100000) example_pi) = 65531"
proof -
  have "pi_y_max example_pi < pi_unclamped (- 100000) example_pi" by code_simp
  then show ?thesis
    using pi_update_saturation [of example_pi "- 100000"] by (simp add: example_pi_def)
qed

text \<open>
  C2. From \<open>ld_init\<close>, whatever the samples, the detector is locked only after at least
  \<open>lock_samples\<close> of them were within the threshold.
\<close>

theorem ld_lock_needs_good_samples:
  assumes "0 \<le> ld_delock_samples ld" "ld_delock_samples ld < ld_lock_samples ld"
    "fits32 (ld_lock_samples ld)" "ld_locked (ld_run (ys @ [y]) (ld_init ld))"
    "\<not> ld_locked (ld_run ys (ld_init ld))"
  shows "ld_lock_samples ld \<le> int (length (filter (ld_good ld) (ys @ [y])))"
proof -
  let ?s = "ld_run ys (ld_init ld)"
  have wf0: "ld_wf (ld_init ld)" using assms(1-3) by (rule ld_init_wf)
  then have wf: "ld_wf ?s" by (rule ld_run_wf)
  have g: "ld_good (ld_init ld) = ld_good ld" by (rule ext) (simp add: ld_good_def ld_init_def)
  have good: "ld_good ?s y"
  proof (rule ccontr)
    assume "\<not> ld_good ?s y"
    from ld_update_bad [OF wf this] assms(4,5) show False by (simp add: Let_def)
  qed
  then have "ld_lock_samples ld \<le> ld_lock_cnt ?s + 1" "ld_good ld y"
    using assms(4,5) ld_update_good [OF wf good] by (auto simp: Let_def g) (simp add: ld_init_def)
  moreover have "ld_lock_cnt ?s \<le> int (length (filter (ld_good ld) ys))"
    using ld_cnt_le_good [OF wf0, of ys] by (simp add: g) (simp add: ld_init_def)
  ultimately show ?thesis by simp
qed

theorem ld_lock_needs_good_samples_witness:
  "4 \<le> int (length (filter (ld_good example_ld) ([10, 10, 900, 10] @ [10])))"
  using ld_lock_needs_good_samples [of example_ld "[10, 10, 900, 10]" 10]
  by (simp add: example_ld_def ld_good_def ld_init_def ld_update_def c_abs_def i32_def fits32_def)

text \<open>
  Progress and hysteresis. From every well-formed state, \<open>lock_samples\<close> good samples in a row
  lock the detector. From a fully counted lock, \<open>lock_samples - delock_samples - 1\<close> bad samples in a
  row leave it locked and one more unlocks it.
\<close>

theorem ld_lock_unlock_progress:
  assumes wf: "ld_wf ld"
  shows "(list_all (ld_good ld) ys \<and> int (length ys) = ld_lock_samples ld \<longrightarrow> ld_locked (ld_run ys ld))
    \<and> (ld_locked ld \<and> ld_lock_cnt ld = ld_lock_samples ld \<and> list_all (\<lambda>y. \<not> ld_good ld y) (ys @ [y])
         \<and> int (length ys) + 1 = ld_lock_samples ld - ld_delock_samples ld
       \<longrightarrow> ld_locked (ld_run ys ld) \<and> \<not> ld_locked (ld_run (ys @ [y]) ld)
           \<and> fst (ld_update y (ld_run ys ld)) = - 1)"
proof (intro conjI impI)
  assume "list_all (ld_good ld) ys \<and> int (length ys) = ld_lock_samples ld"
  then show "ld_locked (ld_run ys ld)" using ld_good_run [OF wf] wf by (auto simp: ld_wf_def)
next
  assume a: "ld_locked ld \<and> ld_lock_cnt ld = ld_lock_samples ld \<and> list_all (\<lambda>y. \<not> ld_good ld y) (ys @ [y])
         \<and> int (length ys) + 1 = ld_lock_samples ld - ld_delock_samples ld"
  let ?s = "ld_run ys ld"
  have s: "ld_locked ?s" "ld_lock_cnt ?s = ld_delock_samples ?s + 1"
    using ld_bad_run [OF wf, of ys] a by simp_all
  have bad: "\<not> ld_good ?s y" using a by simp
  show "ld_locked ?s" by (rule s)
  show "\<not> ld_locked (ld_run (ys @ [y]) ld)" "fst (ld_update y ?s) = - 1"
    using s ld_update_bad [OF ld_run_wf [OF wf] bad] by (simp_all add: Let_def)
qed

theorem ld_lock_unlock_progress_witness:
  "ld_locked (ld_run [1, 2, 3, 4] example_ld)
    \<and> \<not> ld_locked (ld_run [999, 999, 999] (ld_run [1, 2, 3, 4] example_ld))"
  using ld_lock_unlock_progress [of example_ld "[1, 2, 3, 4]" 0]
    ld_lock_unlock_progress [of "ld_run [1, 2, 3, 4] example_ld" "[999, 999]" 999]
  by (simp add: example_ld_def ld_good_def ld_wf_def ld_update_def c_abs_def i32_def)

text \<open>
  \<open>ld_update\<close> reports lock edges exactly: it returns -1 precisely on the sample that loses the
  lock, otherwise 1 or 0 as the detector is locked afterwards, and \<open>lock_changed\<close> is set precisely
  when the locked flag changed; the invariant of the detector is kept.
\<close>

theorem ld_update_reports_edges:
  assumes "ld_wf ld"
  shows "fst (ld_update y ld) =
      (if ld_locked ld \<and> \<not> ld_locked (snd (ld_update y ld)) then - 1
       else of_bool (ld_locked (snd (ld_update y ld))))
    \<and> ld_lock_changed (snd (ld_update y ld)) = (ld_locked ld \<noteq> ld_locked (snd (ld_update y ld)))
    \<and> ld_wf (snd (ld_update y ld))"
  using assms ld_update_wf [OF assms, of y]
  by (cases "ld_good ld y") (auto simp: ld_update_good ld_update_bad Let_def)

theorem ld_update_reports_edges_witness:
  "ld_lock_changed (snd (ld_update 3 example_ld)) = (ld_locked example_ld \<noteq> ld_locked (snd (ld_update 3 example_ld)))"
  using ld_update_reports_edges [of example_ld 3] by (simp add: example_ld_def ld_wf_def)

end
