(* ===== verification/Spll_Ptracker.thy ===== *)
theory Spll_Ptracker
  imports Spll_Common
begin

text \<open>
  \<^verbatim>\<open>softpll/spll_ptracker.c\<close>: the phase trackers, which average the phase between a reference
  channel and the main output channel over \<open>n_avg\<close> tags. Phases live on a circle of \<open>2^HPLL_N\<close>
  units; the first sample of an average fixes the quarter of the circle, and later samples that
  fall in the opposite end quarter are unwrapped by one turn through a lookup table.

  Results: the table index is always in bounds, every accumulated value is congruent to the
  measured phase and within half a turn of the circle's end quarter, the average is the truncated
  mean of the unwrapped samples after exactly \<open>n_avg\<close> tags, and the published phase stays within
  one turn of the circle, which is what \<open>spll_read_ptracker\<close> relies on.
\<close>

section \<open>Definitions\<close>

record ptracker =
  pt_enabled :: int
  pt_id :: int
  pt_n_avg :: int
  pt_acc :: int
  pt_avg_count :: int
  pt_preserve_sign :: int
  pt_phase_val :: int
  pt_ready :: int
  pt_dbg_channel :: int

definition ptracker_init :: "int \<Rightarrow> int \<Rightarrow> ptracker \<Rightarrow> ptracker" where
  "ptracker_init ident num_avgs s = s\<lparr>pt_id := ident, pt_ready := 0, pt_n_avg := num_avgs,
     pt_acc := 0, pt_avg_count := 0, pt_enabled := 0, pt_dbg_channel := - 1\<rparr>"

text \<open>\<open>MAIN_CHANNEL\<close> is \<open>spll_n_chan_ref\<close>.\<close>

definition ptracker_start :: "int \<Rightarrow> ptracker \<Rightarrow> hw \<Rightarrow> ptracker \<times> hw" where
  "ptracker_start n_chan_ref s h =
     (s\<lparr>pt_preserve_sign := 0, pt_enabled := 1, pt_ready := 0, pt_acc := 0, pt_avg_count := 0\<rparr>,
      spll_enable_tagger n_chan_ref n_chan_ref True
        (spll_enable_tagger n_chan_ref (pt_id s) True h))"

definition adj_tab :: "int list" where
  "adj_tab = [0, 0, 0, - (2 ^ HPLL_N),
              0, 0, 0, 0,
              0, 0, 0, 0,
              2 ^ HPLL_N, 0, 0, 0]"

text \<open>
  The part of \<open>ptrackers_update\<close> after the source check: one tag for one enabled tracker. \<open>tag_ref\<close>
  is the latest tag of the main channel and \<open>rev_spll\<close> the global \<open>reverse_spll\<close>.
\<close>

definition pt_delta :: "int \<Rightarrow> int \<Rightarrow> int \<Rightarrow> int" where
  "pt_delta rev_spll tag_ref tag =
     (if rev_spll = 0 then low_bits HPLL_N (i32 (tag_ref - tag))
      else low_bits HPLL_N (i32 (tag - tag_ref)))"

definition pt_sample :: "int \<Rightarrow> ptracker \<Rightarrow> ptracker" where
  "pt_sample delta s =
     (let index = sar32 delta (int HPLL_N - 2) in
      if pt_avg_count s = 0 then
        s\<lparr>pt_preserve_sign := shl32 index 2, pt_acc := delta, pt_avg_count := i32 (pt_avg_count s + 1)\<rparr>
      else
        (let acc = i32 (pt_acc s + i32 (delta + adj_tab ! nat (index + pt_preserve_sign s)));
             cnt = i32 (pt_avg_count s + 1) in
         if cnt = pt_n_avg s then
           s\<lparr>pt_phase_val := acc sdiv pt_n_avg s, pt_ready := 1, pt_acc := 0, pt_avg_count := 0\<rparr>
         else s\<lparr>pt_acc := acc, pt_avg_count := cnt\<rparr>))"

text \<open>
  \<open>ptrackers_update\<close> on the array of trackers: a tag of the main channel only updates \<open>tag_ref\<close>;
  otherwise the tracker of the source takes the sample. \<open>None\<close> is an index outside the array.
\<close>

definition ptrackers_update ::
  "int \<Rightarrow> int \<Rightarrow> int \<Rightarrow> int \<Rightarrow> int \<times> ptracker list \<times> hw \<Rightarrow> (int \<times> ptracker list \<times> hw) option" where
  "ptrackers_update n_chan_ref rev_spll tag source st =
     (case st of (tag_ref, pts, h) \<Rightarrow>
      if source = n_chan_ref then Some (tag, pts, h)
      else if \<not> (0 \<le> source \<and> nat source < length pts) then None
      else
        (let s = pts ! nat source in
         if pt_enabled s = 0 then Some (tag_ref, pts, h)
         else
           (let h = (if pt_dbg_channel s \<ge> 0
                     then spll_debug (3 + low_bits 2 (pt_dbg_channel s)) 1 (i32 (tag_ref - tag)) True h
                     else h)
            in Some (tag_ref, pts[nat source := pt_sample (pt_delta rev_spll tag_ref tag) s], h))))"

text \<open>
  Specification. \<open>unwrap p d\<close> is the sample \<open>d\<close> on the turn chosen by the first sample \<open>p\<close>: one
  turn down when \<open>p\<close> is in the first quarter and \<open>d\<close> in the last, one turn up in the mirror case.
\<close>

definition turn :: int where "turn = 2 ^ HPLL_N"

definition unwrap :: "int \<Rightarrow> int \<Rightarrow> int" where
  "unwrap p d =
     (if 4 * p < turn \<and> 3 * turn \<le> 4 * d then d - turn
      else if 3 * turn \<le> 4 * p \<and> 4 * d < turn then d + turn else d)"

definition on_circle :: "int \<Rightarrow> bool" where
  "on_circle d \<longleftrightarrow> 0 \<le> d \<and> d < turn"

text \<open>The invariant: the state after the first sample \<open>p\<close> and the further samples \<open>ds\<close> of an average.\<close>

definition pt_averaging :: "int \<Rightarrow> int list \<Rightarrow> ptracker \<Rightarrow> bool" where
  "pt_averaging p ds s \<longleftrightarrow> on_circle p \<and> list_all on_circle ds
     \<and> int (length ds) + 1 < pt_n_avg s \<and> pt_n_avg s \<le> 65536
     \<and> pt_avg_count s = int (length ds) + 1
     \<and> pt_preserve_sign s = p div 2 ^ (HPLL_N - 2) * 4
     \<and> pt_acc s = p + (\<Sum>d \<leftarrow> ds. unwrap p d)"

section \<open>Facts\<close>

lemma turn_val [simp]: "turn = 16384" by (simp add: turn_def HPLL_N_def)

lemma quarter_index:
  assumes "on_circle d"
  shows "sar32 d (int HPLL_N - 2) = d div 4096" "0 \<le> d div 4096" "d div 4096 \<le> 3"
  using assms by (auto simp: sar32_def HPLL_N_def on_circle_def)

lemma pt_delta_on_circle: "on_circle (pt_delta r t u)"
  using low_bits_range [of HPLL_N] by (simp add: pt_delta_def on_circle_def HPLL_N_def)

lemma quarter_cases: "0 \<le> (q::int) \<Longrightarrow> q \<le> 3 \<Longrightarrow> q = 0 \<or> q = 1 \<or> q = 2 \<or> q = 3"
  by arith

lemma adj_tab_unwrap:
  assumes "on_circle p" "on_circle d"
  shows "d + adj_tab ! nat (d div 4096 + p div 4096 * 4) = unwrap p d"
proof -
  let ?P = "p div 4096" and ?D = "d div 4096"
  have r: "0 \<le> ?P" "?P \<le> 3" "0 \<le> ?D" "?D \<le> 3" using assms by (auto simp: on_circle_def)
  have tab: "adj_tab ! nat (b + a * 4) =
      (if a = 0 \<and> b = 3 then - 16384 else if a = 3 \<and> b = 0 then 16384 else 0)"
    if "0 \<le> a" "a \<le> 3" "0 \<le> b" "b \<le> 3" for a b :: int
    using quarter_cases [OF that(1,2)] quarter_cases [OF that(3,4)]
    by (auto simp: adj_tab_def HPLL_N_def)
  have "?P = 0 \<longleftrightarrow> 4 * p < 16384" "?D = 3 \<longleftrightarrow> 49152 \<le> 4 * d"
    "?P = 3 \<longleftrightarrow> 49152 \<le> 4 * p" "?D = 0 \<longleftrightarrow> 4 * d < 16384"
    using assms by (auto simp: on_circle_def)
  then show ?thesis by (simp add: tab r unwrap_def)
qed

lemma unwrap_bounds:
  "\<lbrakk>on_circle p; on_circle d\<rbrakk> \<Longrightarrow> - 4096 \<le> unwrap p d \<and> unwrap p d < 20480"
  by (auto simp: unwrap_def on_circle_def)

lemma unwrap_cong: "unwrap p d mod turn = d mod turn"
  by (simp add: unwrap_def mod_simps)

lemma sum_unwrap_bounds:
  "\<lbrakk>on_circle p; list_all on_circle ds\<rbrakk> \<Longrightarrow>
     - 4096 * int (length ds) \<le> (\<Sum>d \<leftarrow> ds. unwrap p d)
     \<and> (\<Sum>d \<leftarrow> ds. unwrap p d) \<le> 20480 * int (length ds)"
proof (induction ds)
  case Nil
  then show ?case by simp
next
  case (Cons d ds)
  then show ?case using unwrap_bounds [of p d] by simp
qed

text \<open>The three ways a tag advances an average.\<close>

lemma pt_sample_first:
  assumes "pt_avg_count s = 0" "on_circle p" "2 \<le> pt_n_avg s" "pt_n_avg s \<le> 65536"
  shows "pt_averaging p [] (pt_sample p s)" "pt_n_avg (pt_sample p s) = pt_n_avg s"
    "pt_ready (pt_sample p s) = pt_ready s"
proof -
  have "shl32 (p div 4096) 2 = p div 4096 * 4"
    using quarter_index(2,3) [OF assms(2)] by (simp add: shl32_def fits32_def)
  then show "pt_averaging p [] (pt_sample p s)" "pt_n_avg (pt_sample p s) = pt_n_avg s"
    "pt_ready (pt_sample p s) = pt_ready s"
    using assms quarter_index(1) [OF assms(2)]
    by (simp_all add: pt_sample_def pt_averaging_def Let_def HPLL_N_def fits32_def)
qed

lemma pt_sample_acc:
  assumes av: "pt_averaging p ds s" and d: "on_circle d"
  shows "i32 (pt_acc s + i32 (d + adj_tab ! nat (sar32 d (int HPLL_N - 2) + pt_preserve_sign s)))
      = p + (\<Sum>d \<leftarrow> ds @ [d]. unwrap p d)"
    and "i32 (pt_avg_count s + 1) = int (length ds) + 2"
proof -
  have a: "on_circle p" "list_all on_circle ds" "pt_acc s = p + (\<Sum>d \<leftarrow> ds. unwrap p d)"
    "pt_preserve_sign s = p div 4096 * 4" "int (length ds) + 1 < 65536"
    "pt_avg_count s = int (length ds) + 1"
    using av by (simp_all add: pt_averaging_def HPLL_N_def)
  have u: "- 4096 \<le> unwrap p d" "unwrap p d < 20480" using unwrap_bounds [OF a(1) d] by simp_all
  have b: "- 4096 * int (length ds) \<le> (\<Sum>d \<leftarrow> ds. unwrap p d)"
    "(\<Sum>d \<leftarrow> ds. unwrap p d) \<le> 20480 * int (length ds)"
    using sum_unwrap_bounds [OF a(1,2)] by simp_all
  have p: "0 \<le> p" "p < 16384" using a(1) by (simp_all add: on_circle_def)
  have e: "d + adj_tab ! nat (sar32 d (int HPLL_N - 2) + pt_preserve_sign s) = unwrap p d"
    using adj_tab_unwrap [OF a(1) d] by (simp add: quarter_index(1) [OF d] a(4))
  have "fits32 (unwrap p d)" using u by (intro fits32I) linarith+
  moreover have "fits32 (pt_acc s + unwrap p d)"
    using a(3,5) u b p by (intro fits32I) linarith+
  ultimately show "i32 (pt_acc s + i32 (d + adj_tab ! nat (sar32 d (int HPLL_N - 2) + pt_preserve_sign s)))
      = p + (\<Sum>d \<leftarrow> ds @ [d]. unwrap p d)"
    by (simp add: e a(3))
  show "i32 (pt_avg_count s + 1) = int (length ds) + 2" using a(5,6) by (simp add: fits32_def)
qed

lemma pt_sample_more:
  assumes "pt_averaging p ds s" "on_circle d" "int (length ds) + 2 < pt_n_avg s"
  shows "pt_averaging p (ds @ [d]) (pt_sample d s)" "pt_n_avg (pt_sample d s) = pt_n_avg s"
    "pt_ready (pt_sample d s) = pt_ready s"
proof -
  have "pt_avg_count s \<noteq> 0" using assms(1) by (simp add: pt_averaging_def)
  then have eq: "pt_sample d s = s\<lparr>pt_acc := p + (\<Sum>d \<leftarrow> ds @ [d]. unwrap p d),
      pt_avg_count := int (length ds) + 2\<rparr>"
    using assms(3) pt_sample_acc [OF assms(1,2)] by (simp add: pt_sample_def Let_def)
  show "pt_averaging p (ds @ [d]) (pt_sample d s)" "pt_n_avg (pt_sample d s) = pt_n_avg s"
    "pt_ready (pt_sample d s) = pt_ready s"
    using assms by (simp_all add: eq pt_averaging_def)
qed

lemma pt_sample_last:
  assumes "pt_averaging p ds s" "on_circle d" "int (length ds) + 2 = pt_n_avg s"
  shows "pt_sample d s = s\<lparr>pt_phase_val := (p + (\<Sum>d \<leftarrow> ds @ [d]. unwrap p d)) sdiv pt_n_avg s,
      pt_ready := 1, pt_acc := 0, pt_avg_count := 0\<rparr>"
proof -
  have "pt_avg_count s \<noteq> 0" using assms(1) by (simp add: pt_averaging_def)
  then show ?thesis
    using assms(3) pt_sample_acc [OF assms(1,2)] by (simp add: pt_sample_def Let_def)
qed

lemma pt_run_partial:
  assumes "pt_avg_count s = 0" "2 \<le> pt_n_avg s" "pt_n_avg s \<le> 65536" "on_circle p" "list_all on_circle ds"
    "int (length ds) + 1 < pt_n_avg s"
  shows "pt_averaging p ds (fold pt_sample (p # ds) s) \<and> pt_n_avg (fold pt_sample (p # ds) s) = pt_n_avg s
    \<and> pt_ready (fold pt_sample (p # ds) s) = pt_ready s"
  using assms(5,6)
proof (induction ds rule: rev_induct)
  case Nil
  then show ?case using pt_sample_first assms by simp
next
  case (snoc d ds)
  then show ?case using pt_sample_more [of p ds "fold pt_sample (p # ds) s" d] by simp
qed

lemma sdiv_bounds:
  assumes "0 < (n::int)" "- a * n < v" "v < b * n" "0 \<le> a" "0 \<le> b"
  shows "- a \<le> v sdiv n \<and> v sdiv n < b + 1"
proof -
  have q: "v sdiv n = sgn v * (\<bar>v\<bar> div n)" using assms(1) by (simp add: signed_divide_int_def)
  show ?thesis
  proof (cases "0 \<le> v")
    case True
    have "v div n \<le> b * n div n" using assms by (intro zdiv_mono1) auto
    then have "v div n < b + 1" "0 \<le> v div n" using assms(1) True by (auto simp: pos_imp_zdiv_nonneg_iff)
    then show ?thesis using True assms(4) by (cases "v = 0") (simp_all add: q)
  next
    case False
    have "- v div n \<le> a * n div n" using assms by (intro zdiv_mono1) auto
    then have "- v div n \<le> a" "0 \<le> - v div n"
      using assms(1) False by (auto simp: pos_imp_zdiv_nonneg_iff)
    then show ?thesis using False assms(5) by (simp add: q)
  qed
qed

section \<open>Properties\<close>

definition example_pt :: ptracker where
  "example_pt = \<lparr>pt_enabled = 1, pt_id = 0, pt_n_avg = 4, pt_acc = 0, pt_avg_count = 0,
     pt_preserve_sign = 0, pt_phase_val = 0, pt_ready = 0, pt_dbg_channel = - 1\<rparr>"

text \<open>
  C3. A phase tracker that starts an average publishes, after exactly \<open>n_avg\<close> tags and not before,
  the mean (truncated towards zero) of the samples unwrapped onto the first sample's turn, and
  starts the next average; every lookup in the wrap-around table is in bounds, the 32-bit
  accumulator does not overflow, and the published value is within \<open>[-1/4, 5/4]\<close> of a turn.
\<close>

theorem ptracker_average:
  assumes "pt_avg_count s = 0" "2 \<le> pt_n_avg s" "pt_n_avg s \<le> 65536" "pt_ready s = 0"
    "on_circle p" "list_all on_circle (ds @ [d])" "int (length ds) + 2 = pt_n_avg s"
  shows "pt_ready (fold pt_sample (p # ds) s) = 0
    \<and> pt_ready (fold pt_sample (p # ds @ [d]) s) = 1
    \<and> pt_phase_val (fold pt_sample (p # ds @ [d]) s)
        = (p + (\<Sum>d \<leftarrow> ds @ [d]. unwrap p d)) sdiv pt_n_avg s
    \<and> pt_avg_count (fold pt_sample (p # ds @ [d]) s) = 0
    \<and> - 4096 \<le> pt_phase_val (fold pt_sample (p # ds @ [d]) s)
    \<and> pt_phase_val (fold pt_sample (p # ds @ [d]) s) \<le> 20480"
proof -
  let ?s = "fold pt_sample (p # ds) s"
  let ?v = "p + (\<Sum>d \<leftarrow> ds @ [d]. unwrap p d)"
  have av: "pt_averaging p ds ?s" and n: "pt_n_avg ?s = pt_n_avg s" and nr: "pt_ready ?s = 0"
    using pt_run_partial [of s p ds] assms by simp_all
  have last: "fold pt_sample (p # ds @ [d]) s = pt_sample d ?s" by simp
  have dd: "on_circle d" "list_all on_circle ds" using assms(6) by simp_all
  have e: "int (length ds) + 2 = pt_n_avg ?s" using assms(7) n by simp
  note fin = pt_sample_last [OF av dd(1) e]
  have "- 4096 * pt_n_avg s < ?v" "?v < 20480 * pt_n_avg s"
    using sum_unwrap_bounds [OF assms(5,6)] assms(5,7) by (auto simp: on_circle_def)
  then have "- 4096 \<le> ?v sdiv pt_n_avg s \<and> ?v sdiv pt_n_avg s < 20480 + 1"
    using assms(2) by (intro sdiv_bounds) auto
  then show ?thesis unfolding last using nr fin n by simp
qed

theorem ptracker_average_witness:
  "pt_phase_val (fold pt_sample [100, 16300, 50, 16384 - 20] example_pt)
     = (100 + (- 84) + 50 + (- 20)) sdiv 4
   \<and> pt_ready (fold pt_sample [100, 16300, 50, 16384 - 20] example_pt) = 1"
  using ptracker_average [of example_pt 100 "[16300, 50]" 16364]
  by (simp add: example_pt_def on_circle_def unwrap_def)

text \<open>
  A tracker configured to average a single tag (\<open>n_avg = 1\<close>, which the host can request through
  \<open>spll_set_ptracker_average_samples\<close>) never publishes a phase: the first sample is stored without
  comparing the count with \<open>n_avg\<close>, and the count only passes 1 again after \<open>2^32\<close> tags.
\<close>

theorem ptracker_single_sample_never_ready:
  assumes "pt_n_avg s = 1" "pt_avg_count s = 0" "pt_ready s = 0" "length ds < 2147483648"
  shows "pt_ready (fold pt_sample ds s) = 0"
proof -
  have "pt_n_avg (fold pt_sample ds s) = 1 \<and> pt_avg_count (fold pt_sample ds s) = int (length ds)
    \<and> pt_ready (fold pt_sample ds s) = 0"
    using assms(4)
  proof (induction ds rule: rev_induct)
    case Nil
    then show ?case using assms by simp
  next
    case (snoc d ds)
    then show ?case using assms(1-3)
      by (auto simp: pt_sample_def [of d "fold pt_sample ds s"] Let_def fits32_def)
  qed
  then show ?thesis by simp
qed

theorem ptracker_single_sample_never_ready_witness:
  "pt_ready (fold pt_sample [5, 6, 7] (example_pt\<lparr>pt_n_avg := 1\<rparr>)) = 0"
  by (rule ptracker_single_sample_never_ready) (simp_all add: example_pt_def)

end
