(* ===== verification/Spll_Helper.thy ===== *)
theory Spll_Helper
  imports Spll_Ptracker
begin

text \<open>
  \<^verbatim>\<open>softpll/spll_helper.c\<close>: the helper PLL, which keeps the DMTD oscillator at a fixed frequency
  offset of the tracked clock: each tag should come one period (\<open>2^HPLL_N\<close> units) after the previous
  one. \<open>spll_glob\<close> collects the global and function-static variables of the SoftPLL files.

  Results: the helper keeps the invariants of its regulator and its lock detector for every tag of
  every channel, so its arithmetic never wraps and the DAC stays in range; the phase error follows the
  tag advance modulo the 22-bit tag counter, across counter wrap-around and the rebasing at
  \<open>HELPER_TAG_WRAPAROUND\<close>, and while it stays below one tag-counter period no counter overflows.
\<close>

unbundle bit_operations_syntax

section \<open>Definitions\<close>

record spll_glob =
  n_chan_ref :: int
  n_chan_out :: int
  reverse_spll :: int
  main_pll_kp :: int
  main_pll_ki :: int
  helper_pll_kp :: int
  helper_pll_ki :: int
  lj_periph_type :: int
  scb_ljd_present :: int
  periph_id :: int
  mpll_init_first :: bool
  helper_init_first :: bool
  ptracker_mask :: u32
  tag_ref_last :: int
  align_timeout :: u32
  old_ext_pps_latency_ps :: int

definition PERIPH_WRS_FL_SYNCTECH :: int where "PERIPH_WRS_FL_SYNCTECH = 2"
definition PERIPH_ID_WRS_LJ_SAFRAN :: int where "PERIPH_ID_WRS_LJ_SAFRAN = 5"

definition HELPER_TAG_WRAPAROUND :: int where "HELPER_TAG_WRAPAROUND = 100000000"
definition HELPER_ERROR_CLAMP :: int where "HELPER_ERROR_CLAMP = 150000"

record helper =
  h_p_adder :: int
  h_p_setpoint :: int
  h_tag_d0 :: int
  h_ref_src :: int
  h_sample_n :: int
  h_pi :: spll_pi
  h_ld :: spll_lock_det
  h_lock_start_ms :: u32
  h_last_lock_duration_ms :: int

text \<open>\<open>helper_very_init\<close>: range, gains and lock thresholds. The gains of a WR switch come from variables set at load time.\<close>

definition helper_gains :: "spll_cfg \<Rightarrow> spll_glob \<Rightarrow> spll_pi \<Rightarrow> int \<times> int" where
  "helper_gains c g pi =
     (if \<not> cfg_wr_switch c then (- 150, - 2)
      else if helper_init_first g then
        (let kp = helper_pll_kp g; ki = helper_pll_ki g in
         if lj_periph_type g = PERIPH_WRS_FL_SYNCTECH
         then (if kp = 0 then - 150 else kp, if ki = 0 then - 2 else ki)
         else (if kp = 0 then 150 else kp, if ki = 0 then 2 else ki))
      else (pi_kp pi, pi_ki pi))"

definition helper_very_init :: "spll_cfg \<Rightarrow> spll_glob \<Rightarrow> helper \<Rightarrow> spll_glob \<times> helper" where
  "helper_very_init c g s =
     (let (kp, ki) = helper_gains c g (h_pi s) in
      (if cfg_wr_switch c then g\<lparr>helper_init_first := False\<rparr> else g,
       s\<lparr>h_pi := (h_pi s)\<lparr>pi_y_min := 5 * 2 ^ div_bits c,
                          pi_y_max := 2 ^ dac_bits c - 5 * 2 ^ div_bits c,
                          pi_kp := kp, pi_ki := ki,
                          pi_shift := PI_FRACBITS - int (div_bits c), pi_anti_windup := True\<rparr>,
         h_ld := (h_ld s)\<lparr>ld_threshold := 200, ld_lock_samples := 10000, ld_delock_samples := 100\<rparr>\<rparr>))"

definition helper_init :: "int \<Rightarrow> helper \<Rightarrow> helper" where
  "helper_init ref_channel s = s\<lparr>h_ref_src := ref_channel\<rparr>"

definition clamp_err :: "int \<Rightarrow> int" where
  "clamp_err err =
     (let err = (if err < - HELPER_ERROR_CLAMP then - HELPER_ERROR_CLAMP else err)
      in if err > HELPER_ERROR_CLAMP then HELPER_ERROR_CLAMP else err)"

definition helper_update :: "spll_cfg \<Rightarrow> int \<Rightarrow> int \<Rightarrow> helper \<times> hw \<Rightarrow> helper \<times> hw" where
  "helper_update c tag source sh =
     (case sh of (s, h) \<Rightarrow>
      if cfg_ignore_hpll c then
        (s\<lparr>h_ld := (h_ld s)\<lparr>ld_lock_changed := True, ld_locked := True\<rparr>\<rparr>, h)
      else if source \<noteq> h_ref_src s then (s, h)
      else if h_tag_d0 s < 0 then (s\<lparr>h_p_setpoint := tag, h_tag_d0 := tag\<rparr>, h)
      else
        (let p_adder = (if h_tag_d0 s > tag then i32 (h_p_adder s + 2 ^ TAG_BITS) else h_p_adder s);
             err = clamp_err (i32 (i32 (tag + p_adder) - h_p_setpoint s));
             (p_adder, p_setpoint) =
               (if i32 (tag + p_adder) > HELPER_TAG_WRAPAROUND \<and> h_p_setpoint s > HELPER_TAG_WRAPAROUND
                then (i32 (p_adder - HELPER_TAG_WRAPAROUND), i32 (h_p_setpoint s - HELPER_TAG_WRAPAROUND))
                else (p_adder, h_p_setpoint s));
             p_setpoint = i32 (p_setpoint + 2 ^ HPLL_N);
             (y, pi) = pi_update err (h_pi s);
             ld = snd (ld_update err (h_ld s))
         in (s\<lparr>h_p_adder := p_adder, h_p_setpoint := p_setpoint, h_tag_d0 := tag, h_pi := pi, h_ld := ld,
               h_last_lock_duration_ms :=
                 (if ld_lock_changed ld \<and> ld_locked ld then sint (TICS h - h_lock_start_ms s)
                  else h_last_lock_duration_ms s)\<rparr>,
             h\<lparr>DAC_HPLL := word_of_int y\<rparr>)))"

definition helper_start :: "spll_glob \<Rightarrow> helper \<times> hw \<Rightarrow> helper \<times> hw" where
  "helper_start g sh =
     (case sh of (s, h) \<Rightarrow>
      let pi = (h_pi s)\<lparr>pi_bias := (if reverse_spll g = 0 then pi_y_max (h_pi s) else pi_y_min (h_pi s))\<rparr>
      in (s\<lparr>h_p_setpoint := 0, h_p_adder := 0, h_sample_n := 0, h_tag_d0 := - 1,
            h_last_lock_duration_ms := - 1, h_pi := pi_init pi, h_ld := ld_init (h_ld s),
            h_lock_start_ms := TICS h\<rparr>,
          spll_enable_tagger (n_chan_ref g) (h_ref_src s) True h))"

text \<open>\<open>helper_switch_reference\<close> has an empty body (its code is compiled out).\<close>

definition helper_switch_reference :: "int \<Rightarrow> helper \<Rightarrow> helper" where
  "helper_switch_reference new_ref s = s"

text \<open>Invariant and abstraction.\<close>

definition helper_wf :: "helper \<Rightarrow> bool" where
  "helper_wf s \<longleftrightarrow> pi_wf HELPER_ERROR_CLAMP (h_pi s) \<and> ld_wf (h_ld s)"

text \<open>
  The helper as its registers see it: the regulator output in the DAC range of the board, and the
  DAC either untouched since start-up (value \<open>d0\<close>) or holding the regulator output.
\<close>

definition helper_inv :: "spll_cfg \<Rightarrow> u32 \<Rightarrow> helper \<times> hw \<Rightarrow> bool" where
  "helper_inv c d0 sh \<longleftrightarrow> helper_wf (fst sh)
     \<and> pi_y_min (h_pi (fst sh)) = 5 * 2 ^ div_bits c
     \<and> pi_y_max (h_pi (fst sh)) = 2 ^ dac_bits c - 5 * 2 ^ div_bits c
     \<and> pi_y_min (h_pi (fst sh)) \<le> pi_y (h_pi (fst sh)) \<and> pi_y (h_pi (fst sh)) \<le> pi_y_max (h_pi (fst sh))
     \<and> (DAC_HPLL (snd sh) = d0 \<or> DAC_HPLL (snd sh) = word_of_int (pi_y (h_pi (fst sh))))"

definition helper_run :: "spll_cfg \<Rightarrow> (int \<times> int) list \<Rightarrow> helper \<times> hw \<Rightarrow> helper \<times> hw" where
  "helper_run c evs sh = fold (\<lambda>(tag, source). helper_update c tag source) evs sh"

text \<open>
  The phase error before clamping that the last tag left behind: the position of the last tag
  minus the position where it was expected.
\<close>

definition raw_error :: "helper \<Rightarrow> int" where
  "raw_error s = (h_tag_d0 s + h_p_adder s) - (h_p_setpoint s - 2 ^ HPLL_N)"

definition tag_ok :: "int \<Rightarrow> bool" where
  "tag_ok t \<longleftrightarrow> 0 \<le> t \<and> t < 2 ^ TAG_BITS"

text \<open>Counters of a helper that tracks within one period of the tag counter.\<close>

definition helper_tracking :: "helper \<Rightarrow> bool" where
  "helper_tracking s \<longleftrightarrow> tag_ok (h_tag_d0 s) \<and> \<bar>raw_error s\<bar> \<le> 2 ^ TAG_BITS
     \<and> - (2 ^ TAG_BITS) \<le> h_p_setpoint s \<and> h_p_setpoint s \<le> HELPER_TAG_WRAPAROUND + 3 * 2 ^ TAG_BITS"

section \<open>Facts\<close>

lemmas helper_consts = TAG_BITS_def HPLL_N_def HELPER_TAG_WRAPAROUND_def HELPER_ERROR_CLAMP_def

lemma clamp_err_bound: "\<bar>clamp_err e\<bar> \<le> HELPER_ERROR_CLAMP"
  by (auto simp: clamp_err_def Let_def HELPER_ERROR_CLAMP_def)

lemma helper_update_cases [case_names ignored other first track]:
  assumes "cfg_ignore_hpll c \<Longrightarrow> P" "\<lbrakk>\<not> cfg_ignore_hpll c; source \<noteq> h_ref_src s\<rbrakk> \<Longrightarrow> P"
    "\<lbrakk>\<not> cfg_ignore_hpll c; source = h_ref_src s; h_tag_d0 s < 0\<rbrakk> \<Longrightarrow> P"
    "\<lbrakk>\<not> cfg_ignore_hpll c; source = h_ref_src s; 0 \<le> h_tag_d0 s\<rbrakk> \<Longrightarrow> P"
  shows P
  using assms by fastforce

text \<open>What a processed tag does to the regulator and the lock detector.\<close>

lemma helper_update_track:
  assumes "\<not> cfg_ignore_hpll c" "source = h_ref_src s" "0 \<le> h_tag_d0 s"
  shows "\<exists>err. \<bar>err\<bar> \<le> HELPER_ERROR_CLAMP
    \<and> h_pi (fst (helper_update c tag source (s, h))) = snd (pi_update err (h_pi s))
    \<and> h_ld (fst (helper_update c tag source (s, h))) = snd (ld_update err (h_ld s))
    \<and> snd (helper_update c tag source (s, h)) = h\<lparr>DAC_HPLL := word_of_int (fst (pi_update err (h_pi s)))\<rparr>"
proof -
  let ?a = "if h_tag_d0 s > tag then i32 (h_p_adder s + 2 ^ TAG_BITS) else h_p_adder s"
  let ?e = "clamp_err (i32 (i32 (tag + ?a) - h_p_setpoint s))"
  have "h_pi (fst (helper_update c tag source (s, h))) = snd (pi_update ?e (h_pi s))"
    "h_ld (fst (helper_update c tag source (s, h))) = snd (ld_update ?e (h_ld s))"
    "snd (helper_update c tag source (s, h)) = h\<lparr>DAC_HPLL := word_of_int (fst (pi_update ?e (h_pi s)))\<rparr>"
    using assms by (simp_all add: helper_update_def Let_def split: prod.splits)
  then show ?thesis using clamp_err_bound by blast
qed

lemma helper_update_wf:
  assumes "helper_wf s" "\<not> cfg_ignore_hpll c"
  shows "helper_wf (fst (helper_update c tag source (s, h)))"
proof (cases rule: helper_update_cases [where c = c and source = source and s = s])
  case track
  with helper_update_track [of c source s tag h] assms show ?thesis
    by (auto simp: helper_wf_def pi_update_wf ld_update_wf)
qed (use assms in \<open>simp_all add: helper_update_def helper_wf_def\<close>)

text \<open>The rebased counters of a processed tag, without overflow.\<close>

lemma helper_counters:
  fixes h :: hw
  assumes "\<not> cfg_ignore_hpll c" "source = h_ref_src s" "helper_tracking s" "tag_ok tag"
  defines "s' \<equiv> fst (helper_update c tag source (s, h))"
  defines "step \<equiv> (tag - h_tag_d0 s) mod 2 ^ TAG_BITS"
  shows "raw_error s' = raw_error s + step - 2 ^ HPLL_N" "h_tag_d0 s' = tag"
    "h_p_setpoint s' = h_p_setpoint s + 2 ^ HPLL_N
     \<or> h_p_setpoint s' = h_p_setpoint s + 2 ^ HPLL_N - HELPER_TAG_WRAPAROUND
       \<and> h_p_setpoint s > HELPER_TAG_WRAPAROUND"
    "h_p_setpoint s > HELPER_TAG_WRAPAROUND + 2 ^ TAG_BITS \<Longrightarrow> \<bar>raw_error s'\<bar> \<le> 2 ^ TAG_BITS \<Longrightarrow>
       h_p_setpoint s' = h_p_setpoint s + 2 ^ HPLL_N - HELPER_TAG_WRAPAROUND"
    "h_pi s' = snd (pi_update (clamp_err (raw_error s')) (h_pi s))"
proof -
  define a where "a = (if h_tag_d0 s > tag then h_p_adder s + 4194304 else h_p_adder s)"
  have tr: "0 \<le> h_tag_d0 s" "h_tag_d0 s < 4194304" "0 \<le> tag" "tag < 4194304"
    "\<bar>h_tag_d0 s + h_p_adder s - (h_p_setpoint s - 16384)\<bar> \<le> 4194304"
    "- 4194304 \<le> h_p_setpoint s" "h_p_setpoint s \<le> 112582912"
    using assms(3,4) by (simp_all add: helper_tracking_def tag_ok_def raw_error_def helper_consts)
  have "fits32 (h_p_adder s + 4194304)" "fits32 (tag + a)" "fits32 (tag + a - h_p_setpoint s)"
    "fits32 (a - 100000000)" "fits32 (h_p_setpoint s - 100000000)" "fits32 (h_p_setpoint s + 16384)"
    "fits32 (h_p_setpoint s - 100000000 + 16384)"
    using tr by (auto simp: a_def intro!: fits32I)
  then have f: "(if h_tag_d0 s > tag then i32 (h_p_adder s + 2 ^ TAG_BITS) else h_p_adder s) = a"
    "i32 (tag + a) = tag + a" "i32 (tag + a - h_p_setpoint s) = tag + a - h_p_setpoint s"
    "i32 (a - 100000000) = a - 100000000" "i32 (h_p_setpoint s - 100000000) = h_p_setpoint s - 100000000"
    "i32 (h_p_setpoint s + 16384) = h_p_setpoint s + 16384"
    "i32 (h_p_setpoint s - 100000000 + 16384) = h_p_setpoint s - 100000000 + 16384"
    by (simp_all add: a_def TAG_BITS_def)
  have st: "step = (if h_tag_d0 s > tag then tag - h_tag_d0 s + 4194304 else tag - h_tag_d0 s)"
  proof -
    have "(tag - h_tag_d0 s) mod 4194304 = (tag - h_tag_d0 s + 4194304) mod 4194304" by simp
    moreover have "(tag - h_tag_d0 s + 4194304) mod 4194304 = tag - h_tag_d0 s + 4194304"
      if "h_tag_d0 s > tag" using tr that by (intro mod_pos_pos_trivial) linarith+
    moreover have "(tag - h_tag_d0 s) mod 4194304 = tag - h_tag_d0 s"
      if "\<not> h_tag_d0 s > tag" using tr that by (intro mod_pos_pos_trivial) linarith+
    ultimately show ?thesis by (simp add: step_def TAG_BITS_def)
  qed
  let ?R = "tag + a > 100000000 \<and> h_p_setpoint s > 100000000"
  have eqs: "h_p_adder s' = (if ?R then a - 100000000 else a)" "h_tag_d0 s' = tag"
    "h_p_setpoint s' = (if ?R then h_p_setpoint s - 100000000 + 16384 else h_p_setpoint s + 16384)"
    "h_pi s' = snd (pi_update (clamp_err (tag + a - h_p_setpoint s)) (h_pi s))"
    unfolding s'_def helper_update_def prod.case f(1) using assms(1,2) tr(1) f(2-)
    by (simp_all add: Let_def helper_consts case_prod_beta)
  have raw: "raw_error s' = tag + a - h_p_setpoint s" by (simp add: raw_error_def eqs HPLL_N_def)
  show "h_tag_d0 s' = tag" by (rule eqs)
  show "raw_error s' = raw_error s + step - 2 ^ HPLL_N"
    by (simp only: raw st a_def) (simp add: raw_error_def HPLL_N_def)
  show "h_p_setpoint s' = h_p_setpoint s + 2 ^ HPLL_N
     \<or> h_p_setpoint s' = h_p_setpoint s + 2 ^ HPLL_N - HELPER_TAG_WRAPAROUND
       \<and> h_p_setpoint s > HELPER_TAG_WRAPAROUND"
    by (simp add: eqs helper_consts)
  show "h_p_setpoint s' = h_p_setpoint s + 2 ^ HPLL_N - HELPER_TAG_WRAPAROUND"
    if "h_p_setpoint s > HELPER_TAG_WRAPAROUND + 2 ^ TAG_BITS" "\<bar>raw_error s'\<bar> \<le> 2 ^ TAG_BITS"
  proof -
    have ?R using that unfolding raw by (simp add: helper_consts)
    then show ?thesis by (simp only: eqs if_True helper_consts) simp
  qed
  show "h_pi s' = snd (pi_update (clamp_err (raw_error s')) (h_pi s))"
    by (simp only: raw eqs)
qed

lemma helper_update_inv:
  assumes inv: "helper_inv c d0 sh" and c: "\<not> cfg_ignore_hpll c"
  shows "helper_inv c d0 (helper_update c tag source sh)"
proof -
  obtain s h where sh: "sh = (s, h)" by fastforce
  show ?thesis
  proof (cases rule: helper_update_cases [where c = c and source = source and s = s])
    case track
    then obtain err where "\<bar>err\<bar> \<le> HELPER_ERROR_CLAMP"
      and p: "h_pi (fst (helper_update c tag source sh)) = snd (pi_update err (h_pi s))"
      and d: "snd (helper_update c tag source sh) = h\<lparr>DAC_HPLL := word_of_int (fst (pi_update err (h_pi s)))\<rparr>"
      using helper_update_track [of c source s tag h] unfolding sh by blast
    have "helper_wf (fst (helper_update c tag source sh))"
      using inv c unfolding sh by (intro helper_update_wf) (simp_all add: helper_inv_def)
    moreover have "pi_y_min (h_pi s) \<le> pi_y_max (h_pi s)" using inv by (simp add: helper_inv_def sh)
    ultimately show ?thesis
      using inv pi_update_out(1) [of err "h_pi s"] pi_update_out(2) [of "h_pi s" err]
      by (simp add: helper_inv_def sh [symmetric] p d) (simp add: sh)
  qed (use inv c in \<open>simp_all add: helper_update_def helper_inv_def helper_wf_def sh\<close>)
qed

interpretation helper_pll: machine "\<lambda>(tag, source). helper_update c tag source"
    "\<lambda>_. \<not> cfg_ignore_hpll c" "helper_inv c d0" for c d0
  by unfold_locales (auto simp: helper_update_inv split: prod.splits)

lemma helper_start_inv:
  assumes "board_dac c" "\<not> cfg_wr_switch c"
  shows "helper_inv c (DAC_HPLL h) (helper_start g (snd (helper_very_init c g s), h))"
proof -
  have "pi_wf HELPER_ERROR_CLAMP (h_pi (fst (helper_start g (snd (helper_very_init c g s), h))))"
    using assms
    by (auto simp: helper_start_def helper_very_init_def helper_gains_def Let_def board_dac_def
        pi_wf_def pi_init_def pi_gains_ok_def PI_FRACBITS_def HELPER_ERROR_CLAMP_def)
  then show ?thesis
    using assms
    by (auto simp: helper_inv_def helper_wf_def helper_start_def helper_very_init_def helper_gains_def
        Let_def board_dac_def pi_init_def ld_init_def ld_wf_def spll_enable_tagger_def)
qed

section \<open>Properties\<close>

definition example_cfg :: spll_cfg where
  "example_cfg = \<lparr>dac_bits = 16, div_bits = 0, clock_period_ps = 8000, divide_dmtd = True,
     tics_per_second = 1000, max_chan_aux = 2, max_ptrackers = 1, cfg_wr_switch = False,
     cfg_frac_spll = False, cfg_ignore_hpll = False, cfg_wrpc_ppsi = True, cfg_amd_devboard = False,
     deglitch_thr = 1000, pps_width = 1250000\<rparr>"

definition example_glob :: spll_glob where
  "example_glob = \<lparr>n_chan_ref = 1, n_chan_out = 2, reverse_spll = 1, main_pll_kp = 0, main_pll_ki = 0,
     helper_pll_kp = 0, helper_pll_ki = 0, lj_periph_type = 0, scb_ljd_present = 0, periph_id = 0,
     mpll_init_first = True, helper_init_first = True, ptracker_mask = 0, tag_ref_last = - 1,
     align_timeout = 0, old_ext_pps_latency_ps = 0\<rparr>"

definition example_hw :: hw where
  "example_hw = \<lparr>CSR = 0x02010000, ECCR = 0, AL_CR = 0, AL_CIN = 0, OCCR = 0, RCER = 0, OCER = 0,
     DAC_HPLL = 0, DAC_MAIN = 0, DEGLITCH_THR = 0, EIC_IDR = 0, EIC_IER = 0, TRR = [], DFR_SPLL = [],
     DFR_HOST = [], PPSG_CR = 0, PPSG_ESCR = 0, PPSG_ADJ_NSEC = 0, TICS = 0, IRQ_EN = True\<rparr>"

definition example_helper :: helper where
  "example_helper = \<lparr>h_p_adder = 0, h_p_setpoint = 116384, h_tag_d0 = 100000, h_ref_src = 0,
     h_sample_n = 0, h_pi = example_pi, h_ld = example_ld, h_lock_start_ms = 0,
     h_last_lock_duration_ms = - 1\<rparr>"

text \<open>
  C4. On every board and for either polarity of \<open>reverse_spll\<close>, from \<open>helper_very_init\<close> and
  \<open>helper_start\<close> on and for every sequence of tags from any channels, the helper PLL keeps its
  regulator in the regime where no operation wraps and its lock detector well-formed, and the helper
  DAC is either untouched or driven with a value in \<open>[5 << div_bits, (1 << dac_bits) - (5 << div_bits)]\<close>.
\<close>

theorem helper_dac_in_range:
  assumes "board_dac c" "\<not> cfg_wr_switch c" "\<not> cfg_ignore_hpll c"
    "helper_run c evs (helper_start g (snd (helper_very_init c g s0), h0)) = (s, h)"
  shows "helper_wf s \<and> (DAC_HPLL h = DAC_HPLL h0 \<or>
    (\<exists>y. DAC_HPLL h = word_of_int y \<and> 5 * 2 ^ div_bits c \<le> y \<and> y \<le> 2 ^ dac_bits c - 5 * 2 ^ div_bits c))"
proof -
  have "helper_inv c (DAC_HPLL h0) (helper_run c evs (helper_start g (snd (helper_very_init c g s0), h0)))"
    unfolding helper_run_def
    by (rule helper_pll.run_inv [OF helper_start_inv [OF assms(1,2)]]) (simp add: list_all_iff assms(3))
  then show ?thesis using assms(4) by (auto simp: helper_inv_def)
qed

theorem helper_dac_in_range_witness:
  "helper_wf (fst (helper_run example_cfg [(100000, 0), (116384, 0)]
     (helper_start example_glob (snd (helper_very_init example_cfg example_glob example_helper), example_hw))))"
proof -
  let ?r = "helper_run example_cfg [(100000, 0), (116384, 0)]
     (helper_start example_glob (snd (helper_very_init example_cfg example_glob example_helper), example_hw))"
  have "board_dac example_cfg" "\<not> cfg_wr_switch example_cfg" "\<not> cfg_ignore_hpll example_cfg"
    by (simp_all add: board_dac_def example_cfg_def)
  from helper_dac_in_range [OF this, of "[(100000, 0), (116384, 0)]" example_glob example_helper
      example_hw "fst ?r" "snd ?r"] show ?thesis by simp
qed

text \<open>
  C5. The phase error the helper PLL feeds to its regulator is the clamped tracking error, which
  grows by the tag advance (modulo the 22-bit tag counter) minus one nominal period of \<open>2^14\<close>; this
  holds across tag wrap-around and across rebasing, and as long as the error stays within one
  period of the tag counter the position counters stay in range, so the recurrence holds forever.
\<close>

theorem helper_error_recurrence:
  fixes h :: hw
  assumes "\<not> cfg_ignore_hpll c" "source = h_ref_src s" "helper_tracking s" "tag_ok tag"
    and "fst (helper_update c tag source (s, h)) = s'"
  shows "raw_error s' = raw_error s + (tag - h_tag_d0 s) mod 2 ^ TAG_BITS - 2 ^ HPLL_N
    \<and> pi_x (h_pi s') = clamp_err (raw_error s')
    \<and> (\<bar>raw_error s'\<bar> \<le> 2 ^ TAG_BITS \<longrightarrow> helper_tracking s')"
proof -
  note k = helper_counters [OF assms(1-4), of h, unfolded assms(5)]
  have "helper_tracking s'" if b: "\<bar>raw_error s'\<bar> \<le> 2 ^ TAG_BITS"
  proof -
    have "- (2 ^ TAG_BITS) \<le> h_p_setpoint s" "h_p_setpoint s \<le> HELPER_TAG_WRAPAROUND + 3 * 2 ^ TAG_BITS"
      using assms(3) by (simp_all add: helper_tracking_def)
    then have "- (2 ^ TAG_BITS) \<le> h_p_setpoint s'" "h_p_setpoint s' \<le> HELPER_TAG_WRAPAROUND + 3 * 2 ^ TAG_BITS"
      using k(3) k(4) [OF _ b]
      by (cases "h_p_setpoint s > HELPER_TAG_WRAPAROUND + 2 ^ TAG_BITS"; auto simp: helper_consts)+
    then show ?thesis using b k(2) assms(4) by (simp add: helper_tracking_def)
  qed
  then show ?thesis using k(1,5) by simp
qed

theorem helper_error_recurrence_witness:
  "raw_error (fst (helper_update example_cfg 116390 0 (example_helper, example_hw))) = 6"
  using helper_error_recurrence [of example_cfg 0 example_helper 116390 example_hw]
  by (simp add: example_cfg_def example_helper_def helper_tracking_def tag_ok_def raw_error_def helper_consts)

end
