(* ===== verification/Div64.thy ===== *)
theory Div64
  imports Wrpc_Prelude
begin

text \<open>
  \<^verbatim>\<open>pp_printf/div64.c\<close>: the 64-by-32-bit division \<open>__div64_32\<close> the firmware uses instead of
  libgcc's, and the signed wrappers of \<^verbatim>\<open>lib/util.c\<close> (\<open>__divdi3\<close>, \<open>__umoddi3\<close>) built on
  unsigned division. 64-bit unsigned values are \<^typ>\<open>nat\<close> with the wrap-around written out.

  Results: for every dividend below \<open>2^64\<close> and every divisor from 1 to \<open>2^32 - 1\<close> the
  shift-and-subtract loop returns quotient and remainder, its doublings never wrap, and
  \<open>__divdi3\<close> is C's truncating division.
\<close>

section \<open>Definitions\<close>

definition u64 :: "nat \<Rightarrow> nat" where "u64 x = x mod 18446744073709551616"
definition u32n :: "nat \<Rightarrow> nat" where "u32n x = x mod 4294967296"

text \<open>\<open>while ((int64_t)b > 0 && b < rem) { b = b+b; d = d+d; }\<close>\<close>

function div64_scale :: "nat \<Rightarrow> nat \<Rightarrow> nat \<Rightarrow> nat \<times> nat" where
  "div64_scale rm b d =
     (if 0 < b \<and> b < 9223372036854775808 \<and> b < rm then div64_scale rm (u64 (b + b)) (u64 (d + d))
      else (b, d))"
  by pat_completeness auto
termination
  by (relation "measure (\<lambda>(rm, b, d). rm - b)") (auto simp: u64_def)

declare div64_scale.simps [simp del]

text \<open>\<open>do { if (rem >= b) { rem -= b; res += d; } b >>= 1; d >>= 1; } while (d);\<close>\<close>

function div64_sub :: "nat \<Rightarrow> nat \<Rightarrow> nat \<Rightarrow> nat \<Rightarrow> nat \<times> nat" where
  "div64_sub rm res b d =
     (let rm' = (if rm \<ge> b then rm - b else rm);
          res' = (if rm \<ge> b then u64 (res + d) else res)
      in if d div 2 = 0 then (res', rm') else div64_sub rm' res' (b div 2) (d div 2))"
  by pat_completeness auto
termination
  by (relation "measure (\<lambda>(rm, res, b, d). d)") auto

declare div64_sub.simps [simp del]

text \<open>\<open>None\<close> is the division by zero of \<open>high /= base\<close> when \<open>base\<close> is 0.\<close>

definition div64_32 :: "nat \<Rightarrow> nat \<Rightarrow> (nat \<times> nat) option" where
  "div64_32 n base =
     (let rm = n; high = u32n (rm div 4294967296) in
      if high \<ge> base \<and> base = 0 then None
      else
        (let (res, rm) =
               (if high \<ge> base
                then (high div base * 4294967296, rm - u32n (high div base * base) * 4294967296)
                else (0, rm));
             (b, d) = div64_scale rm base 1
         in Some (div64_sub rm res b d)))"

text \<open>\<open>__divdi3\<close>, the signed 64-bit division (\<open>None\<close>: division by zero), and \<open>__umoddi3\<close>.\<close>

definition divdi3 :: "int \<Rightarrow> int \<Rightarrow> int option" where
  "divdi3 A B =
     (let a_u = (if A < 0 then u64 (nat (i64 (- A) mod 18446744073709551616)) else nat A);
          b_u = (if B < 0 then u64 (nat (i64 (- B) mod 18446744073709551616)) else nat B);
          neg = ((A < 0) \<noteq> (B < 0))
      in if b_u = 0 then None
         else (let res = i64 (int (a_u div b_u)) in Some (if neg then i64 (- res) else res)))"

definition umoddi3 :: "nat \<Rightarrow> nat \<Rightarrow> nat option" where
  "umoddi3 A B = (if B = 0 then None else Some (u64 (A - u64 (A div B * B))))"

section \<open>Facts\<close>

lemma div64_scale_spec:
  assumes "b = base * d" "d = 2 ^ k" "0 < base" "base < 2 ^ 32" "rm < 2 ^ 64" "rm div 2 ^ 32 < base"
    "d * base \<le> rm \<or> d = 1"
  shows "\<exists>k'. div64_scale rm b d = (base * 2 ^ k', 2 ^ k') \<and> rm < 2 * (base * 2 ^ k') \<and> k' \<le> 32"
  using assms
proof (induction rm b d arbitrary: k rule: div64_scale.induct)
  case (1 rm b d)
  have rmb: "rm < base * 4294967296"
    using "1.prems"(6) by (simp add: div_less_iff_less_mult)
  have dle: "k \<le> 32"
  proof (rule ccontr)
    assume "\<not> k \<le> 32"
    then have "(2::nat) ^ 33 \<le> 2 ^ k" by (intro power_increasing) auto
    then have d: "8589934592 \<le> d" using "1.prems"(2) by simp
    have "base * 8589934592 \<le> base * d" using d by (rule mult_le_mono2)
    moreover have "base * d \<le> rm" using "1.prems"(7) d by (auto simp: mult.commute)
    ultimately show False using rmb by linarith
  qed
  show ?case
  proof (cases "0 < b \<and> b < 9223372036854775808 \<and> b < rm")
    case True
    then have u: "u64 (b + b) = base * (d + d)" "u64 (d + d) = d + d"
    proof -
      have "d \<le> b" using "1.prems"(1,3) by simp
      with True have "d + d < 18446744073709551616" "b + b < 18446744073709551616" by linarith+
      then show "u64 (b + b) = base * (d + d)" "u64 (d + d) = d + d"
        using "1.prems"(1) by (simp_all add: u64_def distrib_left)
    qed
    have le: "(d + d) * base \<le> rm \<or> rm < (d + d) * base" by auto
    show ?thesis
    proof (cases "(d + d) * base \<le> rm")
      case small: True
      have "\<exists>k'. div64_scale rm (u64 (b + b)) (u64 (d + d)) = (base * 2 ^ k', 2 ^ k')
          \<and> rm < 2 * (base * 2 ^ k') \<and> k' \<le> 32"
        using True u "1.prems" small by (intro "1.IH" [where k = "Suc k"]) auto
      then show ?thesis using True by (simp add: div64_scale.simps [of rm b d])
    next
      case big: False
      have stop: "div64_scale rm (u64 (b + b)) (u64 (d + d)) = (base * (d + d), d + d)"
        using big by (subst div64_scale.simps) (simp add: u mult.commute)
      have "Suc k \<le> 32"
      proof (rule ccontr)
        assume "\<not> Suc k \<le> 32"
        with dle have "k = 32" by simp
        then have "d = 2 ^ 32" using "1.prems"(2) by simp
        then have "base * 2 ^ 32 < rm" using True "1.prems"(1) by simp
        then show False using rmb by simp
      qed
      moreover have "div64_scale rm b d = div64_scale rm (u64 (b + b)) (u64 (d + d))"
        using True by (simp add: div64_scale.simps [of rm b d])
      ultimately show ?thesis
        using stop big "1.prems"(2) by (intro exI [of _ "Suc k"]) (simp add: algebra_simps mult_2)
    qed
  next
    case False
    have "rm \<le> b"
    proof (rule ccontr)
      assume "\<not> rm \<le> b"
      with False have big: "9223372036854775808 \<le> b" using "1.prems"(1-3) by auto
      have "k = 32"
      proof (rule ccontr)
        assume "k \<noteq> 32"
        with dle have "(2::nat) ^ k \<le> 2 ^ 31" by (intro power_increasing) auto
        then have "base * d \<le> base * 2147483648" using "1.prems"(2) by simp
        moreover have "base < 4294967296" "b = base * d" using "1.prems"(1,4) by simp_all
        ultimately show False using big by linarith
      qed
      then show False using rmb \<open>\<not> rm \<le> b\<close> "1.prems"(1,2) by simp
    qed
    moreover have "0 < b" using "1.prems"(1-3) by simp
    moreover have "div64_scale rm b d = (b, d)" using False by (subst div64_scale.simps) auto
    ultimately have "div64_scale rm b d = (base * 2 ^ k, 2 ^ k) \<and> rm < 2 * (base * 2 ^ k) \<and> k \<le> 32"
      using dle "1.prems"(1,2) by (simp only: simp_thms)
    then show ?thesis by blast
  qed
qed

lemma div64_sub_spec:
  assumes "b = base * 2 ^ k" "d = 2 ^ k" "0 < base" "rm < 2 * b" "res * base + rm < 2 ^ 64"
  shows "div64_sub rm res b d = (res + rm div base, rm mod base)"
  using assms
proof (induction k arbitrary: rm res b d)
  case 0
  then have "rm < 2 * base" "b = base" "d = 1" by simp_all
  then have q: "rm div base = (if base \<le> rm then 1 else 0)"
    "rm mod base = (if base \<le> rm then rm - base else rm)"
    using "0.prems"(3) by (auto simp: div_if [of rm base] le_mod_geq)
  have "res + 1 < 18446744073709551616" if "base \<le> rm"
  proof -
    have "res \<le> res * base" "res * base + rm < 18446744073709551616" using "0.prems"(3,5) by simp_all
    then show ?thesis using that "0.prems"(3) by linarith
  qed
  then show ?case by (subst div64_sub.simps) (simp add: q u64_def Let_def \<open>b = base\<close> \<open>d = 1\<close>)
next
  case (Suc k)
  let ?rm = "if rm \<ge> b then rm - b else rm" and ?res = "if rm \<ge> b then res + d else res"
  have half: "b div 2 = base * 2 ^ k" "d div 2 = 2 ^ k" "d div 2 \<noteq> 0" using Suc.prems(1,2) by simp_all
  have sum: "?res * base + ?rm = res * base + rm"
    using Suc.prems(1,2) by (auto simp: algebra_simps)
  have "?res \<le> ?res * base" using Suc.prems(3) by simp
  moreover have "res * base + rm < 18446744073709551616" using Suc.prems(5) by simp
  ultimately have "?res < 18446744073709551616" using sum by linarith
  then have fit: "(if rm \<ge> b then u64 (res + d) else res) = ?res" by (auto simp: u64_def split: if_splits)
  have small: "?rm < 2 * (b div 2)" using Suc.prems(1,4) by auto
  have "div64_sub ?rm ?res (b div 2) (d div 2) = (?res + ?rm div base, ?rm mod base)"
    using half sum small Suc.prems(3,5) by (intro Suc.IH) simp_all
  moreover have "?res + ?rm div base = res + rm div base" "?rm mod base = rm mod base"
  proof -
    have "(?res * base + ?rm) div base = ?res + ?rm div base" "(?res * base + ?rm) mod base = ?rm mod base"
      "(res * base + rm) div base = res + rm div base" "(res * base + rm) mod base = rm mod base"
      using Suc.prems(3) by simp_all
    then show "?res + ?rm div base = res + rm div base" "?rm mod base = rm mod base"
      by (simp_all only: sum)
  qed
  ultimately show ?case
    by (subst div64_sub.simps) (simp only: Let_def fit half(3) if_False)
qed

lemma div64_32_spec:
  assumes "n < 2 ^ 64" "0 < base" "base < 2 ^ 32"
  shows "div64_32 n base = Some (n div base, n mod base)"
proof -
  define high where "high = n div 4294967296"
  define q where "q = (if high \<ge> base then high div base else 0)"
  define rm where "rm = n - q * base * 4294967296"
  have h: "high < 4294967296" using assms(1) by (simp add: high_def div_less_iff_less_mult)
  have qb: "q * base \<le> high" by (simp add: q_def)
  then have qbn: "q * base * 4294967296 \<le> n" unfolding high_def by (simp add: less_eq_div_iff_mult_less_eq)
  have top: "rm div 2 ^ 32 < base"
  proof -
    have "rm div 4294967296 = high - q * base" by (simp add: rm_def high_def)
    also have "\<dots> < base"
      using assms(2) by (auto simp: q_def minus_div_mult_eq_mod)
    finally show ?thesis by simp
  qed
  have rml: "rm < 2 ^ 64" using assms(1) by (simp add: rm_def)
  obtain k where sc: "div64_scale rm base 1 = (base * 2 ^ k, 2 ^ k)" "rm < 2 * (base * 2 ^ k)"
    using div64_scale_spec [of base base 1 0 rm] assms(2,3) rml top by auto
  have n: "q * 4294967296 * base + rm = n" using qbn by (simp add: rm_def algebra_simps)
  have "div64_sub rm (q * 4294967296) (base * 2 ^ k) (2 ^ k) = (q * 4294967296 + rm div base, rm mod base)"
    using sc(2) assms n by (intro div64_sub_spec) simp_all
  also have "\<dots> = (n div base, n mod base)"
    using assms(2) by (simp flip: n)
  finally have sub: "div64_sub rm (q * 4294967296) (base * 2 ^ k) (2 ^ k) = (n div base, n mod base)" .
  have hi: "u32n (n div 4294967296) = high" using h by (simp add: u32n_def high_def)
  have qq: "u32n (high div base * base) = high div base * base"
  proof -
    have "high div base * base < 4294967296" using h by (meson div_times_less_eq_dividend le_less_trans)
    then show ?thesis by (simp add: u32n_def)
  qed
  show ?thesis
    using assms(2) sub sc(1)
    by (cases "high \<ge> base") (simp_all add: div64_32_def Let_def hi qq q_def rm_def)
qed

section \<open>Properties\<close>

text \<open>
  C6. \<open>__div64_32\<close> is division: for every 64-bit dividend and every non-zero 32-bit divisor it
  terminates, leaves the quotient in the dividend and returns the remainder.
\<close>

theorem div64_32_correct:
  assumes "n < 2 ^ 64" "0 < base" "base < 2 ^ 32"
  shows "div64_32 n base = Some (n div base, n mod base)"
  using assms by (rule div64_32_spec)

theorem div64_32_correct_witness:
  "div64_32 131072000123 8000 = Some (16384000, 123)"
  using div64_32_correct [of 131072000123 8000] by simp

text \<open>
  \<open>__divdi3\<close> agrees with C's truncating division on every pair of \<open>int64_t\<close> operands but the
  division by zero and the one overflowing quotient, and \<open>__umoddi3\<close> returns the remainder.
\<close>

theorem divdi3_truncates:
  assumes "fits64 A" "fits64 B" "B \<noteq> 0" "fits64 (A sdiv B)" "m < 2 ^ 64" "0 < n"
  shows "divdi3 A B = Some (A sdiv B) \<and> umoddi3 m n = Some (m mod n)"
proof -
  have mag: "(if X < 0 then u64 (nat (i64 (- X) mod 18446744073709551616)) else nat X) = nat \<bar>X\<bar>"
    if "fits64 X" for X
  proof (cases "X < 0")
    case True
    have "i64 (- X) mod 18446744073709551616 = (- X) mod 18446744073709551616"
      by (simp add: i64_def mod_simps)
    also have "\<dots> = - X" using that True by (intro mod_pos_pos_trivial) (simp_all add: fits64_def)
    finally show ?thesis using that True by (simp add: u64_def fits64_def nat_mod_distrib)
  qed simp
  have bz: "nat \<bar>B\<bar> \<noteq> 0" using assms(3) by simp
  have q: "int (nat \<bar>A\<bar> div nat \<bar>B\<bar>) = \<bar>A\<bar> div \<bar>B\<bar>" by (simp add: zdiv_int)
  have sd: "A sdiv B = (if (A < 0) \<noteq> (B < 0) then - (\<bar>A\<bar> div \<bar>B\<bar>) else \<bar>A\<bar> div \<bar>B\<bar>)"
    using assms(3) by (auto simp: signed_divide_int_def sgn_if)
  have "i64 (- i64 (\<bar>A\<bar> div \<bar>B\<bar>)) = i64 (- (\<bar>A\<bar> div \<bar>B\<bar>))"
    by (rule i64_eqI) (metis i64_cong mod_minus_eq)
  then have "divdi3 A B = Some (A sdiv B)"
    using assms(4) bz unfolding divdi3_def mag [OF assms(1)] mag [OF assms(2)] Let_def q
    by (simp add: sd split: if_splits)
  moreover have "umoddi3 m n = Some (m mod n)"
  proof -
    have "m div n * n < 18446744073709551616"
      using assms(5) le_less_trans [OF div_times_less_eq_dividend, of m "2 ^ 64" n] by simp
    then have "u64 (m div n * n) = m div n * n" by (simp add: u64_def)
    moreover have "m mod n < 18446744073709551616"
      using assms(5) le_less_trans [OF mod_less_eq_dividend, of m "2 ^ 64" n] by simp
    ultimately show ?thesis using assms(6) by (simp add: umoddi3_def u64_def minus_div_mult_eq_mod)
  qed
  ultimately show ?thesis ..
qed

theorem divdi3_truncates_witness: "divdi3 (- 7) 2 = Some (- 3) \<and> umoddi3 7 4 = Some 3"
  using divdi3_truncates [of "- 7" 2 7 4] by (simp add: fits64_def)

end
