(* ===== verification/Spll_Main.thy ===== *)
theory Spll_Main
  imports Spll_Helper Div64
begin

text \<open>
  \<^verbatim>\<open>softpll/spll_main.c\<close>: the main DDMTD PLL, which locks an output channel to a reference channel
  with a programmable phase shift; also used for the auxiliary clocks. \<open>mpll_update\<close> is split at the
  source's own blocks: capturing the tag, unwrapping the two tag streams, the early alignment, the
  error, driving the DAC, the phase shifter, and lock detection with gain scheduling.

  Results: the error a locked loop uses is the signed residue of the phase difference modulo
  one period; the DAC word always carries an in-range value and the channel's select field; the
  phase shifter moves by one unit per sample pair towards its target, moves nothing else, and
  reaches it; the loop reports lock with gain scheduling only from the last stage; the frequency lock
  detector as configured can never lose its lock; the conversion of negative phase set-points
  overflows 32 bits.
\<close>

unbundle bit_operations_syntax

section \<open>Definitions\<close>

definition MPLL_TAG_WRAPAROUND :: int where "MPLL_TAG_WRAPAROUND = 100000000"
definition MPLL_DISCARD_EARLY_TAGS :: int where "MPLL_DISCARD_EARLY_TAGS = 10"
definition REVERSE_SPLL_WRS_START_VALUE :: int where "REVERSE_SPLL_WRS_START_VALUE = 2"

record gain_item =
  gi_kp :: int
  gi_ki :: int
  gi_shift :: int
  gi_lock_samples :: int

record gain_schedule =
  gs_n_stages :: int
  gs_current_stage :: int
  gs_stages :: "gain_item list"
  gs_locked_d :: bool

record mpll =
  m_state :: int
  m_pi :: spll_pi
  m_phase_ld :: spll_lock_det
  m_freq_ld :: spll_lock_det
  m_gain_sched :: "gain_schedule option"
  m_div_cnt :: int
  m_div_fb :: int
  m_div_ref :: int
  m_n_ref :: int
  m_n_out :: int
  m_tag_out_raw_d :: int
  m_tag_out_raw :: int
  m_tag_out_interp :: int
  m_dref_dt :: int
  m_dout_dt :: int
  m_tag_ref_raw_d :: int
  m_tag_out_raw_d2 :: int
  m_freq_prelock_gain_boost :: int
  m_discard_early_cnt :: int
  m_adder_ref :: int
  m_adder_out :: int
  m_tag_ref :: int
  m_tag_ref_d :: int
  m_tag_out :: int
  m_tag_out_d :: int
  m_locked :: bool
  m_phase_shift_target :: int
  m_phase_shift_current :: int
  m_id_ref :: int
  m_id_out :: int
  m_sample_n :: int
  m_dac_index :: int
  m_enabled :: bool
  m_ps_freeze :: bool
  m_vco_freeze :: bool
  m_dbg_src_id :: int
  m_lock_start_ms :: u32
  m_last_phase_lock_duration_ms :: int
  m_last_freq_lock_duration_ms :: int

subsection \<open>Initialisation\<close>

text \<open>The gains and, on a WR switch, the polarity: load-time values first, hardware variants next.\<close>

definition or_default :: "int \<Rightarrow> int \<Rightarrow> int" where
  "or_default v d = (if v = 0 then d else v)"

definition mpll_gains :: "spll_cfg \<Rightarrow> spll_glob \<Rightarrow> spll_pi \<Rightarrow> (int \<times> int) \<times> spll_glob" where
  "mpll_gains c g pi =
     (if cfg_wr_switch c then
        (if mpll_init_first g then
           (let kp = main_pll_kp g; ki = main_pll_ki g;
                (gains, g) =
                  (if scb_ljd_present g \<noteq> 0 \<and> periph_id g = PERIPH_ID_WRS_LJ_SAFRAN then
                     ((or_default kp 1100, or_default ki 30), g)
                   else if lj_periph_type g = PERIPH_WRS_FL_SYNCTECH then
                     ((or_default kp (- 1100), or_default ki (- 30)),
                      if reverse_spll g = REVERSE_SPLL_WRS_START_VALUE then g\<lparr>reverse_spll := 1\<rparr> else g)
                   else if scb_ljd_present g \<noteq> 0 then
                     ((or_default kp 2000, or_default ki 15), g)
                   else ((or_default kp 1100, or_default ki 30), g));
                g = (if reverse_spll g = REVERSE_SPLL_WRS_START_VALUE then g\<lparr>reverse_spll := 0\<rparr> else g)
            in (gains, g\<lparr>mpll_init_first := False\<rparr>))
         else ((pi_kp pi, pi_ki pi), g\<lparr>mpll_init_first := False\<rparr>))
      else ((- 1100, - 30), g))"

definition mpll_init :: "spll_cfg \<Rightarrow> int \<Rightarrow> int \<Rightarrow> spll_glob \<times> mpll \<Rightarrow> spll_glob \<times> mpll" where
  "mpll_init c id_ref id_out gs =
     (case gs of (g, s) \<Rightarrow>
      let ((kp, ki), g) = mpll_gains c g (m_pi s);
          pi = (m_pi s)\<lparr>pi_y_min := 5 * 2 ^ div_bits c, pi_y_max := 2 ^ dac_bits c - 5 * 2 ^ div_bits c,
                 pi_anti_windup := True, pi_bias := 2 ^ (dac_bits c - 1),
                 pi_shift := PI_FRACBITS - int (div_bits c), pi_kp := kp, pi_ki := ki\<rparr>;
          freq = (m_freq_ld s)\<lparr>ld_threshold := 50, ld_lock_samples := 50, ld_delock_samples := 20000\<rparr>;
          phase = (m_phase_ld s)\<lparr>ld_threshold := 1200, ld_lock_samples := 1000, ld_delock_samples := 100\<rparr>;
          idx = i32 (id_out - n_chan_ref g);
          s = (if cfg_frac_spll c then s\<lparr>m_div_ref := 0, m_div_fb := 0\<rparr> else s)
      in (g, s\<lparr>m_ps_freeze := False, m_vco_freeze := False, m_enabled := False,
               m_freq_prelock_gain_boost := (if cfg_amd_devboard c then 1 else 20),
               m_id_ref := id_ref, m_id_out := id_out, m_dac_index := idx,
               m_dbg_src_id := (if idx = 0 then 1 else 3 + low_bits 2 (idx - 1)),
               m_gain_sched := map_option (\<lambda>gs. gs\<lparr>gs_current_stage := 0, gs_locked_d := False\<rparr>) (m_gain_sched s),
               m_pi := pi_init pi, m_freq_ld := ld_init freq, m_phase_ld := ld_init phase\<rparr>))"

subsection \<open>Gain scheduling\<close>

text \<open>Loading a stage of the schedule into the regulator and the phase lock detector.\<close>

definition load_stage :: "gain_item \<Rightarrow> mpll \<Rightarrow> mpll" where
  "load_stage st s =
     s\<lparr>m_pi := (m_pi s)\<lparr>pi_kp := gi_kp st, pi_ki := gi_ki st, pi_shift := gi_shift st\<rparr>,
       m_phase_ld := (m_phase_ld s)\<lparr>ld_lock_samples := gi_lock_samples st, ld_lock_cnt := 0\<rparr>\<rparr>"

definition mpll_handle_gain_schedule :: "mpll \<Rightarrow> hw \<Rightarrow> mpll \<times> hw" where
  "mpll_handle_gain_schedule s h =
     (case m_gain_sched s of
        None \<Rightarrow> (s\<lparr>m_locked := ld_locked (m_phase_ld s)\<rparr>, h)
      | Some gs \<Rightarrow>
          (let restart = (gs_locked_d gs \<and> \<not> ld_locked (m_phase_ld s));
               acquired = (\<not> gs_locked_d gs \<and> ld_locked (m_phase_ld s));
               h' = (if acquired then spll_debug (m_dbg_src_id s) 6 3 False h else h)
           in if acquired \<and> gs_current_stage gs = gs_n_stages gs - 1 then
                (s\<lparr>m_locked := True, m_gain_sched := Some (gs\<lparr>gs_locked_d := True\<rparr>)\<rparr>, h')
              else if restart \<or> acquired then
                (let cur = (if restart then 0 else i32 (gs_current_stage gs + 1));
                     s = (if restart then s\<lparr>m_locked := False\<rparr> else s);
                     s = load_stage (gs_stages gs ! nat cur) s;
                     ph = (m_phase_ld s)\<lparr>ld_lock_changed := False, ld_locked := False\<rparr>
                 in (s\<lparr>m_phase_ld := ph, m_gain_sched := Some (gs\<lparr>gs_current_stage := cur, gs_locked_d := False\<rparr>)\<rparr>, h'))
              else (s\<lparr>m_gain_sched := Some (gs\<lparr>gs_locked_d := ld_locked (m_phase_ld s)\<rparr>)\<rparr>, h')))"

definition mpll_start :: "spll_cfg \<Rightarrow> spll_glob \<Rightarrow> mpll \<times> hw \<Rightarrow> mpll \<times> hw" where
  "mpll_start c g sh =
     (case sh of (s, h) \<Rightarrow>
      let s = s\<lparr>m_discard_early_cnt := MPLL_DISCARD_EARLY_TAGS, m_ps_freeze := False, m_vco_freeze := False,
                m_adder_ref := 0, m_adder_out := 0, m_tag_ref := - 1, m_tag_out := - 1,
                m_tag_ref_d := - 1, m_tag_out_d := - 1, m_tag_ref_raw_d := - 1, m_tag_out_raw_d2 := - 1,
                m_phase_shift_target := 0, m_phase_shift_current := 0, m_sample_n := 0,
                m_enabled := True, m_locked := False\<rparr>;
          s = (if cfg_frac_spll c then
                 s\<lparr>m_tag_out_raw_d := - 1, m_tag_out_interp := - 1, m_tag_out_raw := - 1,
                   m_n_ref := 0, m_n_out := 0, m_div_cnt := 0\<rparr> else s);
          s = s\<lparr>m_last_freq_lock_duration_ms := - 1, m_last_phase_lock_duration_ms := - 1\<rparr>;
          s = (case m_gain_sched s of None \<Rightarrow> s
               | Some gs \<Rightarrow> (load_stage (gs_stages gs ! 0) s)
                   \<lparr>m_gain_sched := Some (gs\<lparr>gs_current_stage := 0, gs_locked_d := False\<rparr>)\<rparr>)
      in (s\<lparr>m_pi := pi_init (m_pi s), m_phase_ld := ld_init (m_phase_ld s),
            m_freq_ld := ld_init (m_freq_ld s), m_lock_start_ms := TICS h\<rparr>,
          spll_debug (m_dbg_src_id s) 6 1 True
            (spll_enable_tagger (n_chan_ref g) (m_id_out s) True
              (spll_enable_tagger (n_chan_ref g) (m_id_ref s) True h))))"

definition mpll_stop :: "spll_glob \<Rightarrow> mpll \<times> hw \<Rightarrow> mpll \<times> hw" where
  "mpll_stop g sh =
     (case sh of (s, h) \<Rightarrow> (s\<lparr>m_enabled := False\<rparr>, spll_enable_tagger (n_chan_ref g) (m_id_out s) False h))"

subsection \<open>One tag\<close>

definition update_dtag_dt :: "int \<Rightarrow> int \<Rightarrow> int \<Rightarrow> int \<times> int" where
  "update_dtag_dt dtag_dt tag tag_d =
     (if tag = tag_d then (dtag_dt, tag_d)
      else (let dt = i32 (tag - tag_d) in (if dt < 0 then i32 (dt + 2 ^ TAG_BITS) else dt, tag)))"

text \<open>The fractional-ratio interpolation of an output tag (\<open>CONFIG_FRAC_SPLL\<close>).\<close>

definition mpll_frac_out :: "int \<Rightarrow> mpll \<Rightarrow> mpll" where
  "mpll_frac_out tag s =
     (let raw_d = m_tag_out_raw s; dref = m_div_ref s in
      if dref = 0 then
        s\<lparr>m_tag_out_raw_d := raw_d, m_tag_out_raw := tag, m_tag_out := tag, m_n_out := i32 (m_n_out s + 1)\<rparr>
      else
        (let t_raw = (if tag < raw_d then i32 (tag + 2 ^ TAG_BITS) else tag);
             w0 = i32 (m_div_cnt s * m_div_fb s);
             w1 = i32 (i32 (m_div_cnt s + 1) * m_div_fb s);
             f0 = w0 smod dref; f1 = w1 smod dref;
             c0 = i32 (w0 sdiv dref); c1 = i32 (w1 sdiv dref);
             interp = (\<lambda>f. i32 (i32 (i32 (i32 (dref - f) * raw_d) + i32 (f * t_raw)) sdiv dref));
             slip = (c0 = c1);
             cnt = i32 ((if slip then i32 (m_div_cnt s + 1) else m_div_cnt s) + 1)
         in s\<lparr>m_tag_out_raw_d := raw_d, m_tag_out_raw := tag,
              m_tag_out := interp f0, m_n_out := i32 (m_n_out s + 1),
              m_tag_out_interp := (if slip then interp f1 else - 1),
              m_div_cnt := (if cnt = dref then 0 else cnt)\<rparr>))"

definition mpll_capture :: "spll_cfg \<Rightarrow> int \<Rightarrow> int \<Rightarrow> mpll \<Rightarrow> mpll" where
  "mpll_capture c tag source s =
     (let s = (if source = m_id_ref s then
                 (let s = s\<lparr>m_tag_ref := tag\<rparr> in
                  if cfg_frac_spll c then
                    (let s = s\<lparr>m_n_ref := i32 (m_n_ref s + 1)\<rparr> in
                     if m_tag_out_interp s \<ge> 0
                     then s\<lparr>m_tag_out := m_tag_out_interp s, m_n_out := i32 (m_n_out s + 1), m_tag_out_interp := - 1\<rparr>
                     else s)
                  else s)
               else s)
      in if source = m_id_out s then
           (if cfg_frac_spll c then mpll_frac_out tag s else s\<lparr>m_tag_out := tag\<rparr>)
         else s)"

definition mpll_unwrap_ref :: "mpll \<Rightarrow> mpll" where
  "mpll_unwrap_ref s =
     (if m_tag_ref s \<ge> 0 then
        (let (dt, d) = update_dtag_dt (m_dref_dt s) (m_tag_ref s) (m_tag_ref_raw_d s);
             add = (if m_tag_ref_d s \<ge> 0 \<and> m_tag_ref_d s > m_tag_ref s
                    then i32 (m_adder_ref s + 2 ^ TAG_BITS) else m_adder_ref s)
         in s\<lparr>m_dref_dt := dt, m_tag_ref_raw_d := d, m_adder_ref := add, m_tag_ref_d := m_tag_ref s\<rparr>)
      else s)"

definition mpll_unwrap_out :: "mpll \<Rightarrow> mpll" where
  "mpll_unwrap_out s =
     (if m_tag_out s \<ge> 0 then
        (let (dt, d) = update_dtag_dt (m_dout_dt s) (m_tag_out s) (m_tag_out_raw_d2 s);
             add = (if m_tag_out_d s \<ge> 0 \<and> m_tag_out_d s > m_tag_out s
                    then i32 (m_adder_out s + 2 ^ TAG_BITS) else m_adder_out s)
         in s\<lparr>m_dout_dt := dt, m_tag_out_raw_d2 := d, m_adder_out := add, m_tag_out_d := m_tag_out s\<rparr>)
      else s)"

text \<open>Without fractional ratios: on the last discarded tag pair, remove whole periods from the phase difference.\<close>

definition mpll_align_early :: "mpll \<Rightarrow> mpll" where
  "mpll_align_early s =
     (let s = (if m_discard_early_cnt s = 1 then
                 (let adj_ref = i32 (m_tag_ref s + m_adder_ref s);
                      adj_out = i32 (m_tag_out s + m_adder_out s);
                      s = (if adj_ref > adj_out
                           then s\<lparr>m_adder_ref := i32 (m_adder_ref s - shl32 (sar32 (i32 (adj_ref - adj_out)) (int HPLL_N)) (int HPLL_N))\<rparr>
                           else s\<lparr>m_adder_out := i32 (m_adder_out s - shl32 (sar32 (i32 (adj_out - adj_ref)) (int HPLL_N)) (int HPLL_N))\<rparr>)
                  in if m_adder_ref s < 0 \<or> m_adder_out s < 0
                     then s\<lparr>m_adder_ref := i32 (m_adder_ref s + MPLL_TAG_WRAPAROUND),
                            m_adder_out := i32 (m_adder_out s + MPLL_TAG_WRAPAROUND)\<rparr>
                     else s)
               else s)
      in if m_discard_early_cnt s > 0 then s\<lparr>m_discard_early_cnt := i32 (m_discard_early_cnt s - 1)\<rparr> else s)"

text \<open>\<open>err &= (1<<n)-1; if (err & (1<<(n-1))) err |= ~((1<<n)-1);\<close>\<close>

definition sign_extend :: "nat \<Rightarrow> int \<Rightarrow> int" where
  "sign_extend n x = (let e = low_bits n x in if odd (e div 2 ^ (n - 1)) then e - 2 ^ n else e)"

definition mpll_freq_lock :: "mpll \<Rightarrow> hw \<Rightarrow> mpll" where
  "mpll_freq_lock s h =
     (let ld = snd (ld_update (i32 (m_dout_dt s - m_dref_dt s)) (m_freq_ld s))
      in s\<lparr>m_freq_ld := ld,
           m_last_freq_lock_duration_ms :=
             (if ld_lock_changed ld \<and> ld_locked ld then sint (TICS h - m_lock_start_ms s)
              else m_last_freq_lock_duration_ms s)\<rparr>)"

definition mpll_error :: "mpll \<Rightarrow> int" where
  "mpll_error s =
     (if \<not> ld_locked (m_freq_ld s)
      then i32 (i32 (- m_freq_prelock_gain_boost s) * i32 (m_dout_dt s - m_dref_dt s))
      else sign_extend HPLL_N (i32 (i32 (i32 (m_adder_ref s + m_tag_ref s) - m_adder_out s) - m_tag_out s)))"

definition dac_main_word :: "int \<Rightarrow> int \<Rightarrow> u32" where
  "dac_main_word y dac_index = (word_of_int y AND 0xffffff) OR push_bit 24 (word_of_int dac_index AND 0xf)"

definition mpll_drive :: "int \<Rightarrow> mpll \<times> hw \<Rightarrow> mpll \<times> hw" where
  "mpll_drive err sh =
     (case sh of (s, h) \<Rightarrow>
      let (y, pi) = pi_update err (m_pi s);
          h = (if \<not> m_vco_freeze s then h\<lparr>DAC_MAIN := dac_main_word y (m_dac_index s)\<rparr> else h);
          dbg = (\<lambda>what v l. spll_debug (m_dbg_src_id s) what v l);
          h = (dbg 0 y True \<circ> dbg 5 (m_sample_n s) False \<circ> dbg 1 err False \<circ> dbg 2 (m_dout_dt s) False
               \<circ> dbg 3 (m_dref_dt s) False \<circ> dbg 7 (uint (TICS h)) False
               \<circ> dbg 9 (m_phase_shift_target s) False \<circ> dbg 8 (m_phase_shift_current s) False) h
      in (s\<lparr>m_pi := pi, m_sample_n := i32 (m_sample_n s + 1), m_tag_out := - 1, m_tag_ref := - 1\<rparr>, h))"

definition mpll_rebase :: "mpll \<Rightarrow> mpll" where
  "mpll_rebase s =
     (if m_adder_ref s > 2 * MPLL_TAG_WRAPAROUND \<and> m_adder_out s > 2 * MPLL_TAG_WRAPAROUND
      then s\<lparr>m_adder_ref := i32 (m_adder_ref s - MPLL_TAG_WRAPAROUND),
             m_adder_out := i32 (m_adder_out s - MPLL_TAG_WRAPAROUND)\<rparr>
      else s)"

definition mpll_shift_phase :: "spll_glob \<Rightarrow> mpll \<Rightarrow> mpll" where
  "mpll_shift_phase g s =
     (if m_locked s \<and> \<not> m_ps_freeze s then
        (if m_phase_shift_current s < m_phase_shift_target s then
           s\<lparr>m_phase_shift_current := i32 (m_phase_shift_current s + 1),
             m_adder_ref := (if reverse_spll g = 0 then i32 (m_adder_ref s + 1) else i32 (m_adder_ref s - 1))\<rparr>
         else if m_phase_shift_current s > m_phase_shift_target s then
           s\<lparr>m_phase_shift_current := i32 (m_phase_shift_current s - 1),
             m_adder_ref := (if reverse_spll g = 0 then i32 (m_adder_ref s - 1) else i32 (m_adder_ref s + 1))\<rparr>
         else s)
      else s)"

definition mpll_phase_lock :: "int \<Rightarrow> mpll \<times> hw \<Rightarrow> mpll \<times> hw" where
  "mpll_phase_lock err sh =
     (case sh of (s, h) \<Rightarrow>
      if ld_locked (m_freq_ld s) then
        (let ld = snd (ld_update err (m_phase_ld s));
             s = s\<lparr>m_phase_ld := ld\<rparr>;
             h' = (if ld_lock_changed ld
                   then spll_debug (m_dbg_src_id s) 6 (if ld_locked ld then 2 else 4) True h else h);
             s = (if ld_lock_changed ld \<and> ld_locked ld
                  then s\<lparr>m_last_phase_lock_duration_ms := sint (TICS h - m_lock_start_ms s)\<rparr> else s)
         in mpll_handle_gain_schedule s h')
      else (s, h))"

definition mpll_pair :: "spll_cfg \<Rightarrow> spll_glob \<Rightarrow> mpll \<times> hw \<Rightarrow> mpll \<times> hw" where
  "mpll_pair c g sh =
     (case sh of (s, h) \<Rightarrow>
      let s = (if cfg_frac_spll c then s else mpll_align_early s);
          s = mpll_freq_lock s h;
          err = mpll_error s;
          (s, h) = mpll_drive err (s, h)
      in mpll_phase_lock err (mpll_shift_phase g (mpll_rebase s), h))"

definition mpll_update :: "spll_cfg \<Rightarrow> spll_glob \<Rightarrow> int \<Rightarrow> int \<Rightarrow> mpll \<times> hw \<Rightarrow> int \<times> mpll \<times> hw" where
  "mpll_update c g tag source sh =
     (case sh of (s, h) \<Rightarrow>
      if \<not> m_enabled s then (SPLL_LOCKED, s, h)
      else
        (let s = mpll_unwrap_out (mpll_unwrap_ref (mpll_capture c tag source s)) in
         if m_tag_ref s \<ge> 0 \<and> m_tag_out s \<ge> 0 then
           (let (s, h) = mpll_pair c g (s, h)
            in (if ld_locked (m_freq_ld s) \<and> m_locked s then SPLL_LOCKED else SPLL_LOCKING, s, h))
         else (SPLL_LOCKING, s, h)))"

subsection \<open>Phase shift set-points\<close>

definition from_picos :: "spll_cfg \<Rightarrow> int \<Rightarrow> int" where
  "from_picos c ps =
     (if cfg_wrpc_ppsi c then
        (let ups = (if ps \<ge> 0 then u64 (nat ps * 2 ^ HPLL_N)
                    else u64 (nat (i32 (i32 (- ps) * 2 ^ HPLL_N) mod 18446744073709551616)));
             q = (case div64_32 ups (nat (clock_period_ps c)) of None \<Rightarrow> 0 | Some (q, _) \<Rightarrow> q)
         in if ps \<ge> 0 then i32 (int q) else i32 (- int q))
      else i32 (i64 (ps * 2 ^ HPLL_N) sdiv clock_period_ps c))"

definition mpll_set_phase_shift :: "spll_cfg \<Rightarrow> int \<Rightarrow> mpll \<Rightarrow> mpll" where
  "mpll_set_phase_shift c desired_shift_ps s =
     s\<lparr>m_phase_shift_target := from_picos c desired_shift_ps sdiv (if divide_dmtd c then 2 else 1)\<rparr>"

definition mpll_shifter_busy :: "mpll \<Rightarrow> bool" where
  "mpll_shifter_busy s \<longleftrightarrow> m_phase_shift_target s \<noteq> m_phase_shift_current s"

subsection \<open>Specification notions\<close>

text \<open>Distance of the phase shifter from its target, and whether a tag makes it move.\<close>

definition shift_dist :: "mpll \<Rightarrow> nat" where
  "shift_dist s = nat \<bar>m_phase_shift_target s - m_phase_shift_current s\<bar>"

definition shift_wf :: "mpll \<Rightarrow> bool" where
  "shift_wf s \<longleftrightarrow> fits32 (m_phase_shift_target s) \<and> fits32 (m_phase_shift_current s)"

definition completes_pair :: "spll_cfg \<Rightarrow> int \<Rightarrow> int \<Rightarrow> mpll \<Rightarrow> bool" where
  "completes_pair c tag source s \<longleftrightarrow> m_enabled s
     \<and> m_tag_ref (mpll_unwrap_out (mpll_unwrap_ref (mpll_capture c tag source s))) \<ge> 0
     \<and> m_tag_out (mpll_unwrap_out (mpll_unwrap_ref (mpll_capture c tag source s))) \<ge> 0"

definition shifts :: "spll_cfg \<Rightarrow> int \<times> int \<Rightarrow> mpll \<Rightarrow> bool" where
  "shifts c ev s \<longleftrightarrow> completes_pair c (fst ev) (snd ev) s \<and> m_locked s \<and> \<not> m_ps_freeze s"

definition mpll_step :: "spll_cfg \<Rightarrow> spll_glob \<Rightarrow> int \<times> int \<Rightarrow> mpll \<times> hw \<Rightarrow> mpll \<times> hw" where
  "mpll_step c g ev sh = snd (mpll_update c g (fst ev) (snd ev) sh)"

fun shift_count :: "spll_cfg \<Rightarrow> spll_glob \<Rightarrow> (int \<times> int) list \<Rightarrow> mpll \<times> hw \<Rightarrow> nat" where
  "shift_count c g [] sh = 0"
| "shift_count c g (ev # evs) sh =
     of_bool (shifts c ev (fst sh)) + shift_count c g evs (mpll_step c g ev sh)"

text \<open>A gain schedule in use, and when a scheduled loop may call itself locked.\<close>

definition sched_wf :: "gain_schedule \<Rightarrow> bool" where
  "sched_wf gs \<longleftrightarrow> 0 \<le> gs_current_stage gs \<and> gs_current_stage gs < gs_n_stages gs
     \<and> gs_n_stages gs \<le> int (length (gs_stages gs)) \<and> fits32 (gs_n_stages gs)"

definition stage_loaded :: "gain_item \<Rightarrow> mpll \<Rightarrow> bool" where
  "stage_loaded st s \<longleftrightarrow> pi_kp (m_pi s) = gi_kp st \<and> pi_ki (m_pi s) = gi_ki st \<and> pi_shift (m_pi s) = gi_shift st
     \<and> ld_lock_samples (m_phase_ld s) = gi_lock_samples st"

definition sched_pre :: "mpll \<Rightarrow> bool" where
  "sched_pre s \<longleftrightarrow> (case m_gain_sched s of None \<Rightarrow> True
     | Some gs \<Rightarrow> sched_wf gs \<and> stage_loaded (gs_stages gs ! nat (gs_current_stage gs)) s
         \<and> (m_locked s \<longrightarrow> gs_locked_d gs \<and> gs_current_stage gs = gs_n_stages gs - 1))"

definition sched_inv :: "mpll \<Rightarrow> bool" where
  "sched_inv s \<longleftrightarrow> sched_pre s \<and> (case m_gain_sched s of None \<Rightarrow> m_locked s = ld_locked (m_phase_ld s)
     | Some gs \<Rightarrow> gs_locked_d gs = ld_locked (m_phase_ld s))"

definition freq_ld_conf :: "spll_lock_det \<Rightarrow> bool" where
  "freq_ld_conf ld \<longleftrightarrow> ld_lock_samples ld = 50 \<and> ld_delock_samples ld = 20000
     \<and> 0 \<le> ld_lock_cnt ld \<and> ld_lock_cnt ld \<le> 50"

section \<open>Facts\<close>

lemma sign_extend_spec:
  assumes "0 < n"
  shows "- (2 ^ (n - 1)) \<le> sign_extend n x" "sign_extend n x < 2 ^ (n - 1)"
    "sign_extend n x mod 2 ^ n = x mod 2 ^ n"
proof -
  let ?e = "low_bits n x"
  have p: "(2::int) ^ n = 2 * 2 ^ (n - 1)" using assms by (cases n) auto
  have e: "0 \<le> ?e" "?e < 2 * 2 ^ (n - 1)" using low_bits_range [of n x] p by linarith+
  have P: "(0::int) < 2 ^ (n - 1)" by simp
  have o: "odd (?e div 2 ^ (n - 1)) \<longleftrightarrow> 2 ^ (n - 1) \<le> ?e"
  proof (cases "2 ^ (n - 1) \<le> ?e")
    case True
    have "?e div 2 ^ (n - 1) = 1"
      using e True by (intro int_div_pos_eq [of _ _ _ "?e - 2 ^ (n - 1)"]) auto
    then show ?thesis using True by simp
  next
    case False
    then have "?e div 2 ^ (n - 1) = 0" using e by (intro div_pos_pos_trivial) auto
    then show ?thesis using False by simp
  qed
  have v: "sign_extend n x = (if 2 ^ (n - 1) \<le> ?e then ?e - 2 * 2 ^ (n - 1) else ?e)"
    unfolding sign_extend_def Let_def o p ..
  show "- (2 ^ (n - 1)) \<le> sign_extend n x" "sign_extend n x < 2 ^ (n - 1)"
    using e P v by (cases "2 ^ (n - 1) \<le> ?e"; simp only: if_True if_False; linarith)+
  show "sign_extend n x mod 2 ^ n = x mod 2 ^ n"
    by (simp add: sign_extend_def Let_def low_bits_def mod_simps)
qed

lemma mpll_frac_out_frame [simp]:
  "m_phase_shift_target (mpll_frac_out tag s) = m_phase_shift_target s"
  "m_phase_shift_current (mpll_frac_out tag s) = m_phase_shift_current s"
  "m_locked (mpll_frac_out tag s) = m_locked s" "m_ps_freeze (mpll_frac_out tag s) = m_ps_freeze s"
  "m_gain_sched (mpll_frac_out tag s) = m_gain_sched s"
  "m_freq_ld (mpll_frac_out tag s) = m_freq_ld s" "m_enabled (mpll_frac_out tag s) = m_enabled s"
  "m_phase_ld (mpll_frac_out tag s) = m_phase_ld s" "m_pi (mpll_frac_out tag s) = m_pi s"
  by (simp_all add: mpll_frac_out_def Let_def del: i32_id)

lemma mpll_capture_frame [simp]:
  "m_phase_shift_target (mpll_capture c tag src s) = m_phase_shift_target s"
  "m_phase_shift_current (mpll_capture c tag src s) = m_phase_shift_current s"
  "m_locked (mpll_capture c tag src s) = m_locked s" "m_ps_freeze (mpll_capture c tag src s) = m_ps_freeze s"
  "m_gain_sched (mpll_capture c tag src s) = m_gain_sched s"
  "m_freq_ld (mpll_capture c tag src s) = m_freq_ld s" "m_enabled (mpll_capture c tag src s) = m_enabled s"
  "m_phase_ld (mpll_capture c tag src s) = m_phase_ld s" "m_pi (mpll_capture c tag src s) = m_pi s"
  by (simp_all add: mpll_capture_def Let_def)

lemma mpll_unwrap_frame [simp]:
  "m_phase_shift_target (mpll_unwrap_ref s) = m_phase_shift_target s"
  "m_phase_shift_current (mpll_unwrap_ref s) = m_phase_shift_current s"
  "m_locked (mpll_unwrap_ref s) = m_locked s" "m_ps_freeze (mpll_unwrap_ref s) = m_ps_freeze s"
  "m_gain_sched (mpll_unwrap_ref s) = m_gain_sched s" "m_freq_ld (mpll_unwrap_ref s) = m_freq_ld s"
  "m_enabled (mpll_unwrap_ref s) = m_enabled s" "m_phase_ld (mpll_unwrap_ref s) = m_phase_ld s"
  "m_pi (mpll_unwrap_ref s) = m_pi s"
  "m_phase_shift_target (mpll_unwrap_out s) = m_phase_shift_target s"
  "m_phase_shift_current (mpll_unwrap_out s) = m_phase_shift_current s"
  "m_locked (mpll_unwrap_out s) = m_locked s" "m_ps_freeze (mpll_unwrap_out s) = m_ps_freeze s"
  "m_gain_sched (mpll_unwrap_out s) = m_gain_sched s" "m_freq_ld (mpll_unwrap_out s) = m_freq_ld s"
  "m_enabled (mpll_unwrap_out s) = m_enabled s" "m_phase_ld (mpll_unwrap_out s) = m_phase_ld s"
  "m_pi (mpll_unwrap_out s) = m_pi s"
  by (simp_all add: mpll_unwrap_ref_def mpll_unwrap_out_def Let_def split: prod.splits)

lemma mpll_prepare_frame [simp]:
  "m_phase_shift_target (mpll_align_early s) = m_phase_shift_target s"
  "m_phase_shift_current (mpll_align_early s) = m_phase_shift_current s"
  "m_locked (mpll_align_early s) = m_locked s" "m_ps_freeze (mpll_align_early s) = m_ps_freeze s"
  "m_gain_sched (mpll_align_early s) = m_gain_sched s" "m_freq_ld (mpll_align_early s) = m_freq_ld s"
  "m_phase_ld (mpll_align_early s) = m_phase_ld s" "m_pi (mpll_align_early s) = m_pi s"
  "m_phase_shift_target (mpll_freq_lock s h) = m_phase_shift_target s"
  "m_phase_shift_current (mpll_freq_lock s h) = m_phase_shift_current s"
  "m_locked (mpll_freq_lock s h) = m_locked s" "m_ps_freeze (mpll_freq_lock s h) = m_ps_freeze s"
  "m_gain_sched (mpll_freq_lock s h) = m_gain_sched s" "m_phase_ld (mpll_freq_lock s h) = m_phase_ld s"
  "m_pi (mpll_freq_lock s h) = m_pi s"
  by (simp_all add: mpll_align_early_def mpll_freq_lock_def Let_def)

lemma mpll_drive_frame [simp]:
  "m_phase_shift_target (fst (mpll_drive e (s, h))) = m_phase_shift_target s"
  "m_phase_shift_current (fst (mpll_drive e (s, h))) = m_phase_shift_current s"
  "m_locked (fst (mpll_drive e (s, h))) = m_locked s" "m_ps_freeze (fst (mpll_drive e (s, h))) = m_ps_freeze s"
  "m_gain_sched (fst (mpll_drive e (s, h))) = m_gain_sched s"
  "m_freq_ld (fst (mpll_drive e (s, h))) = m_freq_ld s" "m_phase_ld (fst (mpll_drive e (s, h))) = m_phase_ld s"
  by (simp_all add: mpll_drive_def Let_def split: prod.splits)

lemma mpll_rebase_frame [simp]:
  "m_phase_shift_target (mpll_rebase s) = m_phase_shift_target s"
  "m_phase_shift_current (mpll_rebase s) = m_phase_shift_current s"
  "m_locked (mpll_rebase s) = m_locked s" "m_ps_freeze (mpll_rebase s) = m_ps_freeze s"
  "m_gain_sched (mpll_rebase s) = m_gain_sched s" "m_freq_ld (mpll_rebase s) = m_freq_ld s"
  "m_phase_ld (mpll_rebase s) = m_phase_ld s"
  by (simp_all add: mpll_rebase_def)

lemma mpll_shift_frame [simp]:
  "m_phase_shift_target (mpll_shift_phase g s) = m_phase_shift_target s"
  "m_locked (mpll_shift_phase g s) = m_locked s" "m_ps_freeze (mpll_shift_phase g s) = m_ps_freeze s"
  "m_gain_sched (mpll_shift_phase g s) = m_gain_sched s" "m_freq_ld (mpll_shift_phase g s) = m_freq_ld s"
  "m_phase_ld (mpll_shift_phase g s) = m_phase_ld s"
  by (simp_all add: mpll_shift_phase_def)

lemma mpll_phase_lock_frame [simp]:
  "m_phase_shift_target (fst (mpll_phase_lock e (s, h))) = m_phase_shift_target s"
  "m_phase_shift_current (fst (mpll_phase_lock e (s, h))) = m_phase_shift_current s"
  "m_ps_freeze (fst (mpll_phase_lock e (s, h))) = m_ps_freeze s"
  "m_freq_ld (fst (mpll_phase_lock e (s, h))) = m_freq_ld s"
  by (simp_all add: mpll_phase_lock_def mpll_handle_gain_schedule_def load_stage_def Let_def split: option.splits)

lemma mpll_pair_frame:
  "m_phase_shift_target (fst (mpll_pair c g (s, h))) = m_phase_shift_target s"
  "m_ps_freeze (fst (mpll_pair c g (s, h))) = m_ps_freeze s"
  by (simp_all add: mpll_pair_def Let_def case_prod_beta)

lemma mpll_shift_phase_current:
  "m_phase_shift_current (mpll_shift_phase g s) =
     (if m_locked s \<and> \<not> m_ps_freeze s
      then (if m_phase_shift_current s = m_phase_shift_target s then m_phase_shift_current s
            else i32 (m_phase_shift_current s + sgn (m_phase_shift_target s - m_phase_shift_current s)))
      else m_phase_shift_current s)"
  by (simp add: mpll_shift_phase_def)

lemma mpll_pair_current:
  "m_phase_shift_current (fst (mpll_pair c g (s, h))) =
     (if m_locked s \<and> \<not> m_ps_freeze s
      then (if m_phase_shift_current s = m_phase_shift_target s then m_phase_shift_current s
            else i32 (m_phase_shift_current s + sgn (m_phase_shift_target s - m_phase_shift_current s)))
      else m_phase_shift_current s)"
  by (auto simp: mpll_pair_def Let_def case_prod_beta mpll_shift_phase_current)

text \<open>\<open>mpll_step\<close> either takes a tag in or, on the tag that completes a pair, runs the loop once.\<close>

abbreviation mpll_taken :: "spll_cfg \<Rightarrow> int \<times> int \<Rightarrow> mpll \<Rightarrow> mpll" where
  "mpll_taken c ev s \<equiv> mpll_unwrap_out (mpll_unwrap_ref (mpll_capture c (fst ev) (snd ev) s))"

lemma mpll_step_cases:
  "mpll_step c g ev (s, h) =
     (if \<not> m_enabled s then (s, h)
      else if completes_pair c (fst ev) (snd ev) s then mpll_pair c g (mpll_taken c ev s, h)
      else (mpll_taken c ev s, h))"
  by (auto simp: mpll_step_def mpll_update_def completes_pair_def Let_def split: prod.splits)

lemma mpll_taken_shift_wf: "shift_wf s \<Longrightarrow> shift_wf (mpll_taken c ev s)"
  by (simp add: shift_wf_def)

lemma shift_wf_step: "shift_wf (fst sh) \<Longrightarrow> shift_wf (fst (mpll_step c g ev sh))"
  by (cases sh) (auto simp: mpll_step_cases shift_wf_def mpll_pair_frame mpll_pair_current)

lemma shift_dist_step:
  assumes "shift_wf (fst sh)"
  shows "shift_dist (fst (mpll_step c g ev sh)) = shift_dist (fst sh) - of_bool (shifts c ev (fst sh))"
    "m_phase_shift_target (fst (mpll_step c g ev sh)) = m_phase_shift_target (fst sh)"
proof -
  obtain s h where sh: "sh = (s, h)" by fastforce
  let ?t = "m_phase_shift_target s" and ?c = "m_phase_shift_current s"
  have f: "fits32 ?t" "fits32 ?c" using assms by (simp_all add: sh shift_wf_def)
  have i: "?c < ?t \<Longrightarrow> i32 (?c + 1) = ?c + 1" "?t < ?c \<Longrightarrow> i32 (?c - 1) = ?c - 1"
    using f by (auto simp: fits32_def intro!: i32_id)
  consider "?c < ?t" | "?c = ?t" | "?t < ?c" by linarith
  then show "shift_dist (fst (mpll_step c g ev sh)) = shift_dist (fst sh) - of_bool (shifts c ev (fst sh))"
    unfolding sh mpll_step_cases shift_dist_def
    by cases (auto simp: shifts_def completes_pair_def mpll_pair_frame mpll_pair_current i sgn_if
        nat_diff_distrib' abs_if)
  show "m_phase_shift_target (fst (mpll_step c g ev sh)) = m_phase_shift_target (fst sh)"
    unfolding sh mpll_step_cases by (simp add: mpll_pair_frame)
qed

lemma shift_dist_run:
  assumes "shift_wf (fst sh)"
  shows "shift_dist (fst (fold (mpll_step c g) evs sh)) = shift_dist (fst sh) - shift_count c g evs sh
    \<and> m_phase_shift_target (fst (fold (mpll_step c g) evs sh)) = m_phase_shift_target (fst sh)"
  using assms
proof (induction evs arbitrary: sh)
  case Nil
  then show ?case by simp
next
  case (Cons ev evs)
  from Cons.IH [OF shift_wf_step [OF Cons.prems], of c g ev] shift_dist_step [OF Cons.prems, of c g ev]
  show ?case by simp
qed

subsection \<open>Gain scheduling\<close>

lemma sched_handle:
  assumes "sched_pre s"
  shows "sched_inv (fst (mpll_handle_gain_schedule s h))"
proof (cases "m_gain_sched s")
  case None
  then show ?thesis by (simp add: mpll_handle_gain_schedule_def sched_inv_def sched_pre_def)
next
  case (Some gs)
  have w: "sched_wf gs" "stage_loaded (gs_stages gs ! nat (gs_current_stage gs)) s"
    "m_locked s \<Longrightarrow> gs_locked_d gs \<and> gs_current_stage gs = gs_n_stages gs - 1"
    using assms by (simp_all add: sched_pre_def Some)
  have nx: "gs_current_stage gs \<noteq> gs_n_stages gs - 1 \<Longrightarrow> fits32 (gs_current_stage gs + 1)"
    using w(1) by (auto simp: sched_wf_def fits32_def)
  show ?thesis
    using w nx
    by (auto simp: mpll_handle_gain_schedule_def Some sched_inv_def sched_pre_def Let_def load_stage_def
        stage_loaded_def sched_wf_def)
qed

lemma sched_pre_cong:
  assumes "m_gain_sched s' = m_gain_sched s" "m_locked s' = m_locked s"
    "ld_lock_samples (m_phase_ld s') = ld_lock_samples (m_phase_ld s)"
    "pi_kp (m_pi s') = pi_kp (m_pi s)" "pi_ki (m_pi s') = pi_ki (m_pi s)" "pi_shift (m_pi s') = pi_shift (m_pi s)"
  shows "sched_pre s' = sched_pre s"
  using assms by (simp add: sched_pre_def stage_loaded_def split: option.splits)

lemma sched_inv_cong:
  assumes "m_gain_sched s' = m_gain_sched s" "m_locked s' = m_locked s" "m_phase_ld s' = m_phase_ld s"
    "pi_kp (m_pi s') = pi_kp (m_pi s)" "pi_ki (m_pi s') = pi_ki (m_pi s)" "pi_shift (m_pi s') = pi_shift (m_pi s)"
  shows "sched_inv s' = sched_inv s"
  using assms sched_pre_cong [of s' s] by (simp add: sched_inv_def split: option.splits)

lemma mpll_pi_frame [simp]:
  "m_pi (mpll_rebase s) = m_pi s" "m_pi (mpll_shift_phase g s) = m_pi s"
  "m_pi (fst (mpll_drive e (s, h))) = snd (pi_update e (m_pi s))"
  by (simp_all add: mpll_rebase_def mpll_shift_phase_def mpll_drive_def Let_def split: prod.splits)

lemma sched_pair:
  assumes "sched_inv s"
  shows "sched_inv (fst (mpll_pair c g (s, h)))"
proof -
  define s1 where "s1 = mpll_freq_lock (if cfg_frac_spll c then s else mpll_align_early s) h"
  define e where "e = mpll_error s1"
  define s2 where "s2 = mpll_shift_phase g (mpll_rebase (fst (mpll_drive e (s1, h))))"
  define h2 where "h2 = snd (mpll_drive e (s1, h))"
  have p: "mpll_pair c g (s, h) = mpll_phase_lock e (s2, h2)"
    by (simp add: mpll_pair_def Let_def case_prod_beta s1_def e_def s2_def h2_def)
  have inv: "sched_inv s2"
    using assms by (subst sched_inv_cong [of s2 s]) (simp_all add: s2_def s1_def)
  show ?thesis
  proof (cases "ld_locked (m_freq_ld s2)")
    case False
    then show ?thesis using inv by (simp add: p mpll_phase_lock_def)
  next
    case True
    have pre: "sched_pre s2" using inv by (simp add: sched_inv_def)
    show ?thesis
      unfolding p mpll_phase_lock_def prod.case Let_def if_P [OF True]
      by (rule sched_handle) (simp add: sched_pre_cong [of _ s2] pre)
  qed
qed

lemma sched_taken: "sched_inv s \<Longrightarrow> sched_inv (mpll_taken c ev s)"
  by (simp add: sched_inv_cong [of "mpll_taken c ev s" s])

lemma sched_step: "sched_inv (fst sh) \<Longrightarrow> sched_inv (fst (mpll_step c g ev sh))"
  by (cases sh) (simp add: mpll_step_cases sched_pair sched_taken)


subsection \<open>DAC word\<close>

lemma take_bit_word_of_int: "take_bit n (word_of_int x :: 'a :: len word) = word_of_int (take_bit n x)"
  by (simp add: take_bit_of_int)

lemma dac_main_word_fields:
  assumes "0 \<le> y" "y < 2 ^ 24" "0 \<le> i" "i < 16"
  shows "uint (dac_main_word y i AND 0xffffff) = y" "uint (drop_bit 24 (dac_main_word y i)) = i"
proof -
  have m: "(0xffffff :: u32) = mask 24" "(0xf :: u32) = mask 4" by (simp_all add: mask_eq_exp_minus_1)
  have t: "take_bit 24 y = y" "take_bit 4 i = i" "take_bit 8 i = i" "take_bit 32 y = y" "take_bit 32 i = i"
    using assms by (simp_all add: take_bit_int_eq_self)
  have w: "dac_main_word y i = word_of_int y OR push_bit 24 (word_of_int i)"
    unfolding dac_main_word_def m take_bit_eq_mask [symmetric] take_bit_word_of_int t ..
  have y24: "take_bit 24 (word_of_int y :: u32) = word_of_int y" by (simp only: take_bit_word_of_int t)
  have "dac_main_word y i AND 0xffffff = word_of_int y"
    unfolding w m take_bit_eq_mask [symmetric] by (simp add: take_bit_push_bit y24)
  then show "uint (dac_main_word y i AND 0xffffff) = y" using assms by (simp add: unsigned_of_int t)
  have "drop_bit 24 (word_of_int y :: u32) = 0"
    by (subst y24 [symmetric]) (simp only: drop_bit_take_bit, simp)
  moreover have "drop_bit 24 (push_bit 24 (word_of_int i :: u32)) = word_of_int i"
  proof -
    have "drop_bit 24 (push_bit 24 (word_of_int i :: u32)) = take_bit 8 (word_of_int i)"
      by (rule bit_word_eqI) (auto simp: bit_simps)
    then show ?thesis by (simp only: take_bit_word_of_int t)
  qed
  ultimately show "uint (drop_bit 24 (dac_main_word y i)) = i"
    unfolding w using assms by (simp add: unsigned_of_int t)
qed

subsection \<open>The error of a locked loop\<close>

lemma HPLL_N_vals: "(2::int) ^ HPLL_N = 16384" "HPLL_N \<le> 32" "0 < HPLL_N" "(2::int) ^ (HPLL_N - 1) = 8192"
  by (simp_all add: HPLL_N_def)

definition phase_diff :: "mpll \<Rightarrow> int" where
  "phase_diff s = m_adder_ref s + m_tag_ref s - m_adder_out s - m_tag_out s"

lemma i32_mod_HPLL: "i32 x mod 16384 = x mod 16384"
  using i32_mod_pow2 [of 14 x] by simp

lemma phase_diff_mod:
  "i32 (i32 (i32 (m_adder_ref s + m_tag_ref s) - m_adder_out s) - m_tag_out s) mod 16384 = phase_diff s mod 16384"
  by (simp add: i32_mod_HPLL phase_diff_def mod_diff_left_eq [of "i32 _", symmetric] mod_simps)
     

lemma mpll_error_locked:
  assumes "ld_locked (m_freq_ld s)"
  shows "- 8192 \<le> mpll_error s" "mpll_error s < 8192" "mpll_error s mod 16384 = phase_diff s mod 16384"
  using sign_extend_spec [OF HPLL_N_vals(3), of "i32 (i32 (i32 (m_adder_ref s + m_tag_ref s) - m_adder_out s) - m_tag_out s)",
      unfolded HPLL_N_vals phase_diff_mod] assms
  by (simp_all add: mpll_error_def)

lemma i32_periods: "\<exists>k. i32 x = x + 16384 * k"
proof -
  have "(i32 x - x) mod 16384 = 0" using i32_mod_HPLL [of x] by (simp add: mod_eq_dvd_iff)
  then obtain k where "i32 x - x = 16384 * k" by auto
  then show ?thesis by (intro exI [of _ k]) linarith
qed

lemma signed_residue_unique:
  fixes a b :: int
  assumes "- 8192 \<le> a" "a < 8192" "- 8192 \<le> b" "b < 8192" "a mod 16384 = b mod 16384"
  shows "a = b"
proof -
  obtain k where k: "a - b = 16384 * k" using assms(5) by (auto simp: mod_eq_dvd_iff)
  then have "k = 0" using assms(1-4) by arith
  then show ?thesis using k by simp
qed

lemma mpll_error_eqI:
  assumes "ld_locked (m_freq_ld s)" "m_freq_ld s' = m_freq_ld s" "phase_diff s' = phase_diff s + 16384 * k"
  shows "mpll_error s' = mpll_error s"
proof -
  have "ld_locked (m_freq_ld s')" using assms(1,2) by simp
  note a = mpll_error_locked [OF this] and b = mpll_error_locked [OF assms(1)]
  have "mpll_error s' mod 16384 = mpll_error s mod 16384" unfolding a(3) b(3) assms(3) by simp
  from signed_residue_unique [OF a(1,2) b(1,2) this] show ?thesis .
qed

lemma phase_diff_rebase: "\<exists>k. phase_diff (mpll_rebase s) = phase_diff s + 16384 * k"
proof (cases "m_adder_ref s > 2 * MPLL_TAG_WRAPAROUND \<and> m_adder_out s > 2 * MPLL_TAG_WRAPAROUND")
  case True
  obtain k l where "i32 (m_adder_ref s - MPLL_TAG_WRAPAROUND) = m_adder_ref s - MPLL_TAG_WRAPAROUND + 16384 * k"
    "i32 (m_adder_out s - MPLL_TAG_WRAPAROUND) = m_adder_out s - MPLL_TAG_WRAPAROUND + 16384 * l"
    using i32_periods by blast
  then show ?thesis using True
    by (intro exI [of _ "k - l"]) (simp add: mpll_rebase_def phase_diff_def)
qed (auto simp: mpll_rebase_def)

lemma shl32_periods: "\<exists>k. shl32 x (int HPLL_N) = 16384 * k"
proof -
  obtain k where "shl32 x (int HPLL_N) = x * 16384 + 16384 * k"
    using i32_periods [of "x * 16384"] by (auto simp: shl32_def HPLL_N_def)
  then show ?thesis by (intro exI [of _ "x + k"]) simp
qed

lemma drop_periods: "\<exists>k. i32 (a - shl32 x (int HPLL_N)) = a + 16384 * k"
proof -
  obtain k l where "shl32 x (int HPLL_N) = 16384 * k"
    "i32 (a - shl32 x (int HPLL_N)) = a - shl32 x (int HPLL_N) + 16384 * l"
    using shl32_periods i32_periods by blast
  then show ?thesis by (intro exI [of _ "l - k"]) simp
qed

lemma add_wraparound: "\<exists>k. i32 (a + w) - i32 (b + w) = a - b + 16384 * k"
proof -
  obtain k l where "i32 (a + w) = a + w + 16384 * k" "i32 (b + w) = b + w + 16384 * l"
    using i32_periods by blast
  then show ?thesis by (intro exI [of _ "k - l"]) simp
qed

text \<open>Subtracting \<open>x\<close> or \<open>y\<close> whole periods from one side, then \<open>MPLL_TAG_WRAPAROUND\<close> on both.\<close>

lemma phase_diff_align: "\<exists>k. phase_diff (mpll_align_early s) = phase_diff s + 16384 * k"
proof (cases "m_discard_early_cnt s = 1")
  case True
  let ?ar = "i32 (m_tag_ref s + m_adder_ref s)" and ?ao = "i32 (m_tag_out s + m_adder_out s)"
  define s1 where "s1 =
    (if ?ar > ?ao then s\<lparr>m_adder_ref := i32 (m_adder_ref s - shl32 (sar32 (i32 (?ar - ?ao)) (int HPLL_N)) (int HPLL_N))\<rparr>
     else s\<lparr>m_adder_out := i32 (m_adder_out s - shl32 (sar32 (i32 (?ao - ?ar)) (int HPLL_N)) (int HPLL_N))\<rparr>)"
  obtain k1 where k1: "i32 (m_adder_ref s - shl32 (sar32 (i32 (?ar - ?ao)) (int HPLL_N)) (int HPLL_N)) = m_adder_ref s + 16384 * k1"
    using drop_periods by blast
  obtain k2 where k2: "i32 (m_adder_out s - shl32 (sar32 (i32 (?ao - ?ar)) (int HPLL_N)) (int HPLL_N)) = m_adder_out s + 16384 * k2"
    using drop_periods by blast
  obtain l where l: "i32 (m_adder_ref s1 + MPLL_TAG_WRAPAROUND) - i32 (m_adder_out s1 + MPLL_TAG_WRAPAROUND)
      = m_adder_ref s1 - m_adder_out s1 + 16384 * l"
    using add_wraparound by blast
  have d1: "\<exists>k. phase_diff s1 = phase_diff s + 16384 * k"
    unfolding s1_def k1 k2 phase_diff_def
    by (cases "?ar > ?ao") (auto intro: exI [of _ k1] exI [of _ "- k2"])
  have "phase_diff (mpll_align_early s) = (if m_adder_ref s1 < 0 \<or> m_adder_out s1 < 0
      then phase_diff s1 + 16384 * l else phase_diff s1)"
    unfolding mpll_align_early_def Let_def s1_def [symmetric]
    using True l by (simp add: phase_diff_def)
  moreover obtain k where "phase_diff s1 = phase_diff s + 16384 * k" using d1 by blast
  ultimately show ?thesis
    by (intro exI [of _ "if m_adder_ref s1 < 0 \<or> m_adder_out s1 < 0 then k + l else k"]) simp
next
  case False
  then show ?thesis by (intro exI [of _ 0]) (simp add: mpll_align_early_def phase_diff_def)
qed

subsection \<open>The frequency lock detector and the DAC\<close>

lemma ld_delock_unreachable:
  assumes "freq_ld_conf ld"
  shows "freq_ld_conf (snd (ld_update y ld))" "ld_locked ld \<Longrightarrow> ld_locked (snd (ld_update y ld))"
  using assms by (auto simp: freq_ld_conf_def ld_update_def Let_def fits32_def)

lemma mpll_pair_freq:
  "m_freq_ld (fst (mpll_pair c g (s, h))) =
     m_freq_ld (mpll_freq_lock (if cfg_frac_spll c then s else mpll_align_early s) h)"
  by (simp add: mpll_pair_def Let_def case_prod_beta)

lemma mpll_pair_freq_ld:
  "\<exists>y. m_freq_ld (fst (mpll_pair c g (s, h))) = snd (ld_update y (m_freq_ld s))"
  by (cases "cfg_frac_spll c") (auto simp: mpll_pair_freq mpll_freq_lock_def Let_def)

lemma freq_lock_step:
  assumes "freq_ld_conf (m_freq_ld (fst sh))"
  shows "freq_ld_conf (m_freq_ld (fst (mpll_step c g ev sh)))"
    "ld_locked (m_freq_ld (fst sh)) \<Longrightarrow> ld_locked (m_freq_ld (fst (mpll_step c g ev sh)))"
proof -
  obtain s h where sh: "sh = (s, h)" by fastforce
  obtain y where y: "m_freq_ld (fst (mpll_pair c g (mpll_taken c ev s, h))) = snd (ld_update y (m_freq_ld s))"
    using mpll_pair_freq_ld [of c g "mpll_taken c ev s" h] by auto
  show "freq_ld_conf (m_freq_ld (fst (mpll_step c g ev sh)))"
    "ld_locked (m_freq_ld (fst sh)) \<Longrightarrow> ld_locked (m_freq_ld (fst (mpll_step c g ev sh)))"
    using assms ld_delock_unreachable [of "m_freq_ld s" y] by (simp_all add: sh mpll_step_cases y)
qed

text \<open>The invariant of a started main PLL on output \<open>idx\<close>; \<open>d0\<close> is the DAC word before the start.\<close>

definition mpll_inv :: "spll_cfg \<Rightarrow> int \<Rightarrow> u32 \<Rightarrow> mpll \<times> hw \<Rightarrow> bool" where
  "mpll_inv c idx d0 sh \<longleftrightarrow> sched_inv (fst sh) \<and> freq_ld_conf (m_freq_ld (fst sh))
     \<and> m_dac_index (fst sh) = idx
     \<and> pi_y_min (m_pi (fst sh)) = 5 * 2 ^ div_bits c
     \<and> pi_y_max (m_pi (fst sh)) = 2 ^ dac_bits c - 5 * 2 ^ div_bits c
     \<and> (DAC_MAIN (snd sh) = d0 \<or> (\<exists>y. DAC_MAIN (snd sh) = dac_main_word y idx
           \<and> 5 * 2 ^ div_bits c \<le> y \<and> y \<le> 2 ^ dac_bits c - 5 * 2 ^ div_bits c))"

lemma mpll_index_frame [simp]:
  "m_dac_index (mpll_capture c tag src s) = m_dac_index s" "m_dac_index (mpll_unwrap_ref s) = m_dac_index s"
  "m_dac_index (mpll_unwrap_out s) = m_dac_index s" "m_dac_index (mpll_align_early s) = m_dac_index s"
  "m_dac_index (mpll_freq_lock s h) = m_dac_index s" "m_dac_index (mpll_rebase s) = m_dac_index s"
  "m_dac_index (mpll_shift_phase g s) = m_dac_index s" "m_dac_index (fst (mpll_drive e (s, h))) = m_dac_index s"
  "m_dac_index (fst (mpll_phase_lock e (s, h))) = m_dac_index s"
  by (simp_all add: mpll_capture_def mpll_frac_out_def mpll_unwrap_ref_def mpll_unwrap_out_def
      mpll_align_early_def mpll_freq_lock_def mpll_rebase_def mpll_shift_phase_def mpll_drive_def
      mpll_phase_lock_def mpll_handle_gain_schedule_def load_stage_def Let_def del: i32_id
      split: prod.splits option.splits)

lemma mpll_phase_lock_range [simp]:
  "pi_y_min (m_pi (fst (mpll_phase_lock e (s, h)))) = pi_y_min (m_pi s)"
  "pi_y_max (m_pi (fst (mpll_phase_lock e (s, h)))) = pi_y_max (m_pi s)"
  "DAC_MAIN (snd (mpll_phase_lock e (s, h))) = DAC_MAIN h"
  by (simp_all add: mpll_phase_lock_def mpll_handle_gain_schedule_def load_stage_def Let_def spll_debug_def
      split: option.splits)

lemma mpll_drive_dac:
  "DAC_MAIN (snd (mpll_drive e (s, h))) =
     (if m_vco_freeze s then DAC_MAIN h else dac_main_word (fst (pi_update e (m_pi s))) (m_dac_index s))"
  by (simp add: mpll_drive_def Let_def spll_debug_def split: prod.splits)

lemma mpll_pair_dac:
  "m_dac_index (fst (mpll_pair c g (s, h))) = m_dac_index s"
  "pi_y_min (m_pi (fst (mpll_pair c g (s, h)))) = pi_y_min (m_pi s)"
  "pi_y_max (m_pi (fst (mpll_pair c g (s, h)))) = pi_y_max (m_pi s)"
  "DAC_MAIN (snd (mpll_pair c g (s, h))) = DAC_MAIN h
   \<or> (\<exists>e. DAC_MAIN (snd (mpll_pair c g (s, h))) = dac_main_word (fst (pi_update e (m_pi s))) (m_dac_index s))"
  by (auto simp: mpll_pair_def Let_def case_prod_beta mpll_drive_dac)

lemma mpll_step_inv:
  assumes "mpll_inv c idx d0 sh" "board_dac c"
  shows "mpll_inv c idx d0 (mpll_step c g ev sh)"
proof -
  obtain s h where sh: "sh = (s, h)" by fastforce
  let ?t = "mpll_taken c ev s"
  have r: "pi_y_min (m_pi s) = 5 * 2 ^ div_bits c" "pi_y_max (m_pi s) = 2 ^ dac_bits c - 5 * 2 ^ div_bits c"
    "m_dac_index s = idx" using assms(1) by (simp_all add: mpll_inv_def sh)
  have "pi_y_min (m_pi s) \<le> pi_y_max (m_pi s)" using assms(2) by (auto simp: r board_dac_def)
  then have y: "5 * 2 ^ div_bits c \<le> fst (pi_update e (m_pi s))"
    "fst (pi_update e (m_pi s)) \<le> 2 ^ dac_bits c - 5 * 2 ^ div_bits c" for e
    using pi_update_out(2) [of "m_pi s" e] by (simp_all add: r)
  have d: "DAC_MAIN (snd (mpll_step c g ev sh)) = DAC_MAIN h
     \<or> (\<exists>e. DAC_MAIN (snd (mpll_step c g ev sh)) = dac_main_word (fst (pi_update e (m_pi s))) idx)"
    using mpll_pair_dac(4) [of c g ?t h] by (auto simp: sh mpll_step_cases r(3))
  have "m_dac_index (fst (mpll_step c g ev sh)) = idx"
    "pi_y_min (m_pi (fst (mpll_step c g ev sh))) = 5 * 2 ^ div_bits c"
    "pi_y_max (m_pi (fst (mpll_step c g ev sh))) = 2 ^ dac_bits c - 5 * 2 ^ div_bits c"
    by (simp_all add: sh mpll_step_cases mpll_pair_dac r)
  then show ?thesis
    using assms(1) sched_step [of sh c g ev] freq_lock_step(1) [of sh c g ev] d y
    unfolding mpll_inv_def by (auto simp: sh)
qed

interpretation main_pll: machine "mpll_step c g" "\<lambda>_. board_dac c" "mpll_inv c idx d0" for c g idx d0
  by unfold_locales (rule mpll_step_inv)

interpretation freq_locked: machine "mpll_step c g" "\<lambda>_. True"
    "\<lambda>sh. freq_ld_conf (m_freq_ld (fst sh)) \<and> ld_locked (m_freq_ld (fst sh))" for c g
  by unfold_locales (simp add: freq_lock_step)

definition sched_startable :: "mpll \<Rightarrow> bool" where
  "sched_startable s \<longleftrightarrow> (case m_gain_sched s of None \<Rightarrow> True
     | Some gs \<Rightarrow> 0 < gs_n_stages gs \<and> gs_n_stages gs \<le> int (length (gs_stages gs)) \<and> fits32 (gs_n_stages gs))"

lemma mpll_gains_frame [simp]: "n_chan_ref (snd (mpll_gains c g pi)) = n_chan_ref g"
  by (simp add: mpll_gains_def Let_def)

lemma mpll_init_fields:
  fixes c g s id_ref id_out
  defines "s' \<equiv> snd (mpll_init c id_ref id_out (g, s))"
  shows "m_dac_index s' = i32 (id_out - n_chan_ref g)" "pi_y_min (m_pi s') = 5 * 2 ^ div_bits c"
    "pi_y_max (m_pi s') = 2 ^ dac_bits c - 5 * 2 ^ div_bits c"
    "ld_lock_samples (m_freq_ld s') = 50" "ld_delock_samples (m_freq_ld s') = 20000"
    "sched_startable s \<Longrightarrow> sched_startable s'"
  unfolding s'_def mpll_init_def prod.case case_prod_beta Let_def
  by (simp_all add: pi_init_def ld_init_def sched_startable_def split: option.splits)

lemma mpll_start_fields:
  fixes c g s h
  defines "s' \<equiv> fst (mpll_start c g (s, h))"
  shows "m_dac_index s' = m_dac_index s" "pi_y_min (m_pi s') = pi_y_min (m_pi s)"
    "pi_y_max (m_pi s') = pi_y_max (m_pi s)" "m_freq_ld s' = ld_init (m_freq_ld s)"
    "DAC_MAIN (snd (mpll_start c g (s, h))) = DAC_MAIN h"
  unfolding s'_def mpll_start_def prod.case case_prod_beta Let_def
  by (simp_all add: pi_init_def load_stage_def spll_debug_def spll_enable_tagger_def split: option.splits)

lemma mpll_start_sched:
  assumes "sched_startable s"
  shows "sched_inv (fst (mpll_start c g (s, h)))"
proof (cases "m_gain_sched s")
  case None
  then show ?thesis
    by (simp add: sched_inv_def sched_pre_def mpll_start_def Let_def ld_init_def)
next
  case (Some gs)
  then show ?thesis using assms
    by (simp add: sched_inv_def sched_pre_def mpll_start_def Let_def ld_init_def pi_init_def
        stage_loaded_def load_stage_def sched_wf_def sched_startable_def)
qed

lemma mpll_start_inv:
  assumes "sched_startable s"
  shows "mpll_inv c (i32 (id_out - n_chan_ref g)) (DAC_MAIN h)
    (mpll_start c g' (snd (mpll_init c id_ref id_out (g, s)), h))"
  using assms mpll_start_sched [OF mpll_init_fields(6)]
  by (simp add: mpll_inv_def mpll_start_fields mpll_init_fields) (simp add: freq_ld_conf_def ld_init_def mpll_init_fields)

subsection \<open>Phase shift set-points\<close>

lemma from_picos_spec:
  assumes ps: "- 131072 < ps" "ps < 2147483648" and per: "0 < clock_period_ps c" "clock_period_ps c < 4294967296"
  shows "from_picos c ps = i32 ((ps * 16384) sdiv clock_period_ps c)"
proof -
  let ?p = "clock_period_ps c"
  have f: "fits64 (ps * 16384)" using ps by (intro fits64I) linarith+
  have d: "(case div64_32 n (nat ?p) of None \<Rightarrow> 0 | Some (q, _) \<Rightarrow> q) = n div nat ?p" if "n < 2 ^ 64" for n
    using div64_32_spec [OF that, of "nat ?p"] per by (simp add: nat_less_iff)
  show ?thesis
  proof (cases "0 \<le> ps")
    case True
    have n: "nat ps * 16384 < 2 ^ 64" using ps(2) by simp
    have "int (nat ps * 16384 div nat ?p) = (ps * 16384) sdiv ?p"
      using True per by (simp add: zdiv_int signed_divide_int_def sgn_if)
    then show ?thesis using True f n
      by (simp add: from_picos_def HPLL_N_def u64_def d)
  next
    case False
    have g: "fits32 (- ps)" "fits32 (- ps * 16384)" using ps False by (intro fits32I; linarith)+
    have n: "nat (- ps * 16384) < 2 ^ 64" using ps(1) by simp
    have m: "- ps * 16384 mod 18446744073709551616 = - ps * 16384"
      using ps False by (intro mod_pos_pos_trivial) linarith+
    have "int (nat (- ps * 16384) div nat ?p) = - ps * 16384 div ?p"
      using False per by (simp add: zdiv_int)
    moreover have "(ps * 16384) sdiv ?p = - (- ps * 16384 div ?p)"
      using False per by (simp add: signed_divide_int_def sgn_if abs_mult)
    ultimately show ?thesis using False f g n m
      by (simp add: from_picos_def HPLL_N_def u64_def d)
  qed
qed

section \<open>Properties\<close>

definition example_sched :: gain_schedule where
  "example_sched = \<lparr>gs_n_stages = 2, gs_current_stage = 0,
     gs_stages = [\<lparr>gi_kp = - 1100, gi_ki = - 30, gi_shift = 12, gi_lock_samples = 1000\<rparr>,
                  \<lparr>gi_kp = - 550, gi_ki = - 3, gi_shift = 12, gi_lock_samples = 2000\<rparr>],
     gs_locked_d = False\<rparr>"

definition example_mpll :: mpll where
  "example_mpll = \<lparr>m_state = 0, m_pi = example_pi, m_phase_ld = example_ld, m_freq_ld = example_ld,
     m_gain_sched = Some example_sched, m_div_cnt = 0, m_div_fb = 0, m_div_ref = 0, m_n_ref = 0, m_n_out = 0,
     m_tag_out_raw_d = - 1, m_tag_out_raw = - 1, m_tag_out_interp = - 1, m_dref_dt = 0, m_dout_dt = 0,
     m_tag_ref_raw_d = - 1, m_tag_out_raw_d2 = - 1, m_freq_prelock_gain_boost = 20, m_discard_early_cnt = 0,
     m_adder_ref = 0, m_adder_out = 0, m_tag_ref = - 1, m_tag_ref_d = - 1, m_tag_out = - 1, m_tag_out_d = - 1,
     m_locked = True, m_phase_shift_target = 2, m_phase_shift_current = 0, m_id_ref = 0, m_id_out = 1,
     m_sample_n = 0, m_dac_index = 0, m_enabled = True, m_ps_freeze = False, m_vco_freeze = False,
     m_dbg_src_id = 1, m_lock_start_ms = 0, m_last_phase_lock_duration_ms = - 1,
     m_last_freq_lock_duration_ms = - 1\<rparr>"

lemma example_startable: "sched_startable example_mpll" "board_dac example_cfg"
  by (simp_all add: sched_startable_def example_mpll_def example_sched_def fits32_def board_dac_def example_cfg_def)

text \<open>A main PLL from \<open>mpll_init\<close> and \<open>mpll_start\<close> through any sequence of tags.\<close>

definition mpll_session :: "spll_cfg \<Rightarrow> spll_glob \<Rightarrow> int \<Rightarrow> int \<Rightarrow> (int \<times> int) list \<Rightarrow> mpll \<times> hw \<Rightarrow> mpll \<times> hw" where
  "mpll_session c g id_ref id_out evs sh =
     (let (g, s) = mpll_init c id_ref id_out (g, fst sh)
      in fold (mpll_step c g) evs (mpll_start c g (s, snd sh)))"

lemma mpll_session_inv:
  assumes "board_dac c" "sched_startable (fst sh)"
  shows "mpll_inv c (i32 (id_out - n_chan_ref g)) (DAC_MAIN (snd sh)) (mpll_session c g id_ref id_out evs sh)"
  unfolding mpll_session_def case_prod_beta Let_def
  by (rule main_pll.run_inv [OF mpll_start_inv [OF assms(2)]]) (simp add: list_all_iff assms(1))

text \<open>
  Every word a started main PLL writes to the DAC register, for every tag sequence, carries in
  its value field a number in \<open>[5 << div_bits, (1 << dac_bits) - (5 << div_bits)]\<close> and in its select
  field the index of the PLL's own output: a PLL never drives another channel's oscillator.
\<close>

theorem mpll_dac_in_range:
  assumes "board_dac c" "sched_startable (fst sh)" "0 \<le> id_out - n_chan_ref g" "id_out - n_chan_ref g < 16"
    "mpll_session c g id_ref id_out evs sh = (s', h')"
  shows "DAC_MAIN h' = DAC_MAIN (snd sh)
    \<or> 5 * 2 ^ div_bits c \<le> uint (DAC_MAIN h' AND 0xffffff)
      \<and> uint (DAC_MAIN h' AND 0xffffff) \<le> 2 ^ dac_bits c - 5 * 2 ^ div_bits c
      \<and> uint (drop_bit 24 (DAC_MAIN h')) = id_out - n_chan_ref g"
proof -
  let ?i = "id_out - n_chan_ref g"
  have i: "i32 ?i = ?i" using assms(3,4) by (intro i32_id fits32I) linarith+
  have "mpll_inv c ?i (DAC_MAIN (snd sh)) (s', h')"
    using mpll_session_inv [OF assms(1,2), of id_out g id_ref evs] by (simp add: assms(5) i)
  then consider "DAC_MAIN h' = DAC_MAIN (snd sh)"
    | y where "DAC_MAIN h' = dac_main_word y ?i" "5 * 2 ^ div_bits c \<le> y" "y \<le> 2 ^ dac_bits c - 5 * 2 ^ div_bits c"
    unfolding mpll_inv_def by auto
  then show ?thesis
  proof cases
    case 2
    have "0 \<le> y" "y < 2 ^ 24" using 2(2,3) assms(1) by (auto simp: board_dac_def)
    from dac_main_word_fields [OF this assms(3,4)] 2 show ?thesis by simp
  qed simp
qed

theorem mpll_dac_in_range_witness:
  "let h' = snd (mpll_session example_cfg example_glob 0 1 [(100, 0), (200, 1)] (example_mpll, example_hw))
   in DAC_MAIN h' = 0 \<or> 5 \<le> uint (DAC_MAIN h' AND 0xffffff) \<and> uint (drop_bit 24 (DAC_MAIN h')) = 0"
proof -
  let ?r = "mpll_session example_cfg example_glob 0 1 [(100, 0), (200, 1)] (example_mpll, example_hw)"
  have n: "n_chan_ref example_glob = 1" "div_bits example_cfg = 0" "DAC_MAIN example_hw = 0"
    by (simp_all add: example_glob_def example_cfg_def example_hw_def)
  from mpll_dac_in_range [OF example_startable(2), of "(example_mpll, example_hw)" 1 example_glob 0
      "[(100, 0), (200, 1)]" "fst ?r" "snd ?r"]
  show ?thesis by (auto simp: example_startable n Let_def)
qed

text \<open>
  C7. With gain scheduling the gains, shift and lock count in force are always those of the current
  stage, and the PLL calls itself locked only in the last stage; with or without a schedule it calls
  itself locked only while its phase lock detector is locked. This holds after every tag from
  \<open>mpll_start\<close> on: a loss of lock in any stage clears the flag with the same tag.
\<close>

theorem mpll_lock_only_in_last_stage:
  assumes "board_dac c" "sched_startable (fst sh)" "mpll_session c g id_ref id_out evs sh = (s', h')"
  shows "(m_locked s' \<longrightarrow> ld_locked (m_phase_ld s'))
    \<and> (\<forall>gs. m_gain_sched s' = Some gs \<longrightarrow>
         0 \<le> gs_current_stage gs \<and> gs_current_stage gs < gs_n_stages gs
         \<and> gs_n_stages gs \<le> int (length (gs_stages gs))
         \<and> stage_loaded (gs_stages gs ! nat (gs_current_stage gs)) s'
         \<and> (m_locked s' \<longrightarrow> gs_current_stage gs = gs_n_stages gs - 1))"
proof -
  have "sched_inv s'"
    using mpll_session_inv [OF assms(1,2), of id_out g id_ref evs] by (simp add: assms(3) mpll_inv_def)
  then show ?thesis
    by (auto simp: sched_inv_def sched_pre_def sched_wf_def split: option.splits)
qed

theorem mpll_lock_only_in_last_stage_witness:
  "let s' = fst (mpll_session example_cfg example_glob 0 1 [(100, 0), (200, 1)] (example_mpll, example_hw))
   in m_locked s' \<longrightarrow> ld_locked (m_phase_ld s')"
proof -
  let ?r = "mpll_session example_cfg example_glob 0 1 [(100, 0), (200, 1)] (example_mpll, example_hw)"
  from mpll_lock_only_in_last_stage [OF example_startable(2), of "(example_mpll, example_hw)" example_glob 0 1
      "[(100, 0), (200, 1)]" "fst ?r" "snd ?r"]
  show ?thesis by (simp add: example_startable Let_def)
qed

text \<open>
  The frequency lock detector of a main PLL can never lose its lock: \<open>mpll_init\<close> gives it
  \<open>delock_samples = 20000\<close> above \<open>lock_samples = 50\<close>, so once frequency-locked the PLL stays in its phase
  branch for every further tag sequence, whatever the frequency error, until the next \<open>mpll_start\<close>.
\<close>

theorem mpll_freq_lock_is_permanent:
  assumes "freq_ld_conf (m_freq_ld s')" "ld_locked (m_freq_ld s')"
  shows "ld_locked (m_freq_ld (fst (fold (mpll_step c g) evs (s', h'))))
    \<and> freq_ld_conf (m_freq_ld (fst (mpll_start c g (snd (mpll_init c id_ref id_out (g, s)), h))))"
  using freq_locked.run_inv [of "(s', h')" evs c g] assms
  by (simp add: list_all_iff mpll_start_fields freq_ld_conf_def ld_init_def mpll_init_fields)

theorem mpll_freq_lock_is_permanent_witness:
  "ld_locked (m_freq_ld (fst (fold (mpll_step example_cfg example_glob) [(5000, 0), (90000, 1)]
     (example_mpll\<lparr>m_freq_ld := \<lparr>ld_lock_cnt = 50, ld_lock_samples = 50, ld_delock_samples = 20000,
        ld_threshold = 50, ld_locked = True, ld_lock_changed = False\<rparr>\<rparr>, example_hw))))"
  using mpll_freq_lock_is_permanent [of "example_mpll\<lparr>m_freq_ld := \<lparr>ld_lock_cnt = 50, ld_lock_samples = 50,
      ld_delock_samples = 20000, ld_threshold = 50, ld_locked = True, ld_lock_changed = False\<rparr>\<rparr>"
      example_cfg example_glob "[(5000, 0), (90000, 1)]" example_hw]
  by (simp only: freq_ld_conf_def) simp



text \<open>
  The phase error of a frequency-locked main PLL is the signed residue, in \<open>[-2^13, 2^13)\<close>, of the
  phase difference modulo one period of \<open>2^14\<close>; neither the alignment of the first tags nor the
  rebasing of the counters, nor any 32-bit wrap-around in them, changes it.
\<close>

theorem mpll_error_is_signed_residue:
  assumes "ld_locked (m_freq_ld s)"
  shows "- 8192 \<le> mpll_error s \<and> mpll_error s < 8192 \<and> 2 ^ HPLL_N dvd (mpll_error s - phase_diff s)
    \<and> mpll_error (mpll_align_early s) = mpll_error s \<and> mpll_error (mpll_rebase s) = mpll_error s"
proof (intro conjI)
  note e = mpll_error_locked [OF assms]
  show "- 8192 \<le> mpll_error s" "mpll_error s < 8192" by (rule e)+
  show "2 ^ HPLL_N dvd (mpll_error s - phase_diff s)"
    using e(3) by (simp add: HPLL_N_vals(1) mod_eq_dvd_iff)
  show "mpll_error (mpll_align_early s) = mpll_error s"
    using phase_diff_align [of s] mpll_error_eqI [OF assms, of "mpll_align_early s"] by auto
  show "mpll_error (mpll_rebase s) = mpll_error s"
    using phase_diff_rebase [of s] mpll_error_eqI [OF assms, of "mpll_rebase s"] by auto
qed

theorem mpll_error_is_signed_residue_witness:
  "mpll_error (mpll_rebase (example_mpll\<lparr>m_freq_ld := example_ld\<lparr>ld_locked := True\<rparr>, m_tag_ref := 0, m_tag_out := 16383\<rparr>)) = 1"
proof -
  let ?s = "example_mpll\<lparr>m_freq_ld := example_ld\<lparr>ld_locked := True\<rparr>, m_tag_ref := 0, m_tag_out := 16383\<rparr>"
  have "mpll_error ?s = 1" by code_simp
  then show ?thesis using mpll_error_is_signed_residue [of ?s] by simp
qed

text \<open>
  For phase set-points above -131072 ps the two build variants of \<open>from_picos\<close>, the one on the
  64-by-32-bit division of the C library and the one on native 64-bit division, give the same
  result: the set-point in units of \<open>1/2^14\<close> of the clock period, truncated towards zero.
\<close>

theorem from_picos_variants_agree:
  assumes "- 131072 < ps" "ps < 2147483648" "0 < clock_period_ps c" "clock_period_ps c < 4294967296"
  shows "from_picos (c\<lparr>cfg_wrpc_ppsi := True\<rparr>) ps = i32 ((ps * 2 ^ HPLL_N) sdiv clock_period_ps c)
    \<and> from_picos (c\<lparr>cfg_wrpc_ppsi := False\<rparr>) ps = i32 ((ps * 2 ^ HPLL_N) sdiv clock_period_ps c)"
  using assms from_picos_spec [of ps "c\<lparr>cfg_wrpc_ppsi := True\<rparr>"] from_picos_spec [of ps "c\<lparr>cfg_wrpc_ppsi := False\<rparr>"]
  by (simp add: HPLL_N_vals(1))

theorem from_picos_variants_agree_witness: "from_picos example_cfg (- 1000) = - 2048"
proof -
  have e: "example_cfg\<lparr>cfg_wrpc_ppsi := True\<rparr> = example_cfg" by (simp add: example_cfg_def)
  have "i32 ((- 1000 * 2 ^ HPLL_N) sdiv clock_period_ps example_cfg) = - 2048" by code_simp
  then show ?thesis
    using from_picos_variants_agree [of "- 1000" example_cfg] by (simp add: e) (simp add: example_cfg_def)
qed

text \<open>
  Below that bound the variant on the C library's division is wrong: \<open>-ps * (1 << HPLL_N)\<close> is
  computed in 32 bits, so at -200 ns the two variants of \<open>from_picos\<close> disagree, and the set-point the
  library variant gives has the wrong sign.
\<close>

theorem from_picos_negative_overflow:
  "from_picos (example_cfg\<lparr>cfg_wrpc_ppsi := False\<rparr>) (- 200000) = - 409600
    \<and> from_picos (example_cfg\<lparr>cfg_wrpc_ppsi := True\<rparr>) (- 200000) > 0"
proof -
  have "div64_32 18446744072691384320 8000 = Some (2305843009086423, 320)"
    by (subst div64_32_spec) simp_all
  then show ?thesis
    by (simp add: from_picos_def example_cfg_def HPLL_N_def u64_def i32_def i64_def signed_divide_int_def)
qed

end
