(* ===== verification/Spll_External.thy ===== *)
theory Spll_External
  imports Spll_Main
begin

text \<open>
  \<^verbatim>\<open>softpll/spll_external.c\<close>: the grandmaster servo, which locks the local clock to an external 10 MHz
  input and aligns the local PPS with the external one. The state machine runs in the main loop,
  concurrently with the interrupt handler that runs the loops; it shares the helper and the main PLL
  with it through pointers, so the operations take and return those states.

  Results: the machine only moves along the edges of the alignment protocol, and each edge has its
  guard: it aligns only with both loops locked, and is locked only after the phase shifter has
  stopped; it never waits for a lock longer than five seconds; a lost lock restarts it; the phase
  set-point it gives to the main PLL is always its accumulated shift; a change of the external PPS
  latency shifts the phase by the difference.
\<close>

unbundle bit_operations_syntax

section \<open>Definitions\<close>

datatype align_state = ALIGN_STATE_EXT_OFF | ALIGN_STATE_START | ALIGN_STATE_INIT_CSYNC
  | ALIGN_STATE_WAIT_CSYNC | ALIGN_STATE_WAIT_SAMPLE | ALIGN_STATE_COMPENSATE_DELAY | ALIGN_STATE_LOCKED
  | ALIGN_STATE_START_ALIGNMENT | ALIGN_STATE_START_MAIN | ALIGN_STATE_WAIT_CLKIN | ALIGN_STATE_WAIT_PLOCK

definition ALIGN_SAMPLE_PERIOD :: int where "ALIGN_SAMPLE_PERIOD = 10000000"
definition EXT_PERIOD_NS :: int where "EXT_PERIOD_NS = 100"
definition EXT_FREQ_HZ :: int where "EXT_FREQ_HZ = 10000000"

definition ext_pps_latency :: "int list" where
  "ext_pps_latency = [37300, - 4500, 111395, 16000]"

record ext_state =
  x_enabled :: bool
  x_align_state :: align_state
  x_align_timer :: u32
  x_align_target :: int
  x_align_step :: int
  x_align_shift :: int
  x_pps_latency_ps :: int

subsection \<open>Registers with hardware-driven bits\<close>

text \<open>
  \<open>ECCR\<close>: bits 1 to 3 (\<open>EXT_SUPPORTED\<close>, \<open>EXT_REF_LOCKED\<close>, \<open>EXT_REF_STOPPED\<close>) are status inputs, a write
  changes the other bits only. The valid bits of \<open>AL_CR\<close> are cleared by writing one. Writing
  \<open>PPSG_ESCR_SYNC\<close> starts the synchronisation; the bit reads as one when the hardware has finished it.
\<close>

definition eccr_write :: "u32 \<Rightarrow> hw \<Rightarrow> hw" where
  "eccr_write w h = h\<lparr>ECCR := (ECCR h AND 0xe) OR (w AND NOT 0xe)\<rparr>"

definition al_cr_ack :: "u32 \<Rightarrow> hw \<Rightarrow> hw" where
  "al_cr_ack w h = h\<lparr>AL_CR := AL_CR h AND NOT w\<rparr>"

definition escr_sync :: "hw \<Rightarrow> hw" where
  "escr_sync h = h\<lparr>PPSG_ESCR := 0\<rparr>"

definition EXT_SUPPORTED :: "hw \<Rightarrow> bool" where "EXT_SUPPORTED h \<longleftrightarrow> bit (ECCR h) 1"
definition EXT_REF_LOCKED :: "hw \<Rightarrow> bool" where "EXT_REF_LOCKED h \<longleftrightarrow> bit (ECCR h) 2"
definition EXT_REF_STOPPED :: "hw \<Rightarrow> bool" where "EXT_REF_STOPPED h \<longleftrightarrow> bit (ECCR h) 3"
definition EXT_REF_PLLRST :: u32 where "EXT_REF_PLLRST = 0x80000000"

subsection \<open>Operations\<close>

text \<open>\<open>external_init\<close>: the helper and the main PLL now track the external clock; \<open>ext_ref\<close> is not used.\<close>

definition external_init :: "spll_cfg \<Rightarrow> ext_state \<times> helper \<times> mpll \<times> spll_glob \<Rightarrow> ext_state \<times> helper \<times> mpll \<times> spll_glob" where
  "external_init c st =
     (case st of (s, hp, m, g) \<Rightarrow>
      let idx = n_chan_ref g + n_chan_out g;
          idx = (if scb_ljd_present g \<noteq> 0 then idx + 1 else idx);
          hp = helper_init idx hp;
          (g, m) = mpll_init c idx (n_chan_ref g) (g, m)
      in (s\<lparr>x_align_state := ALIGN_STATE_EXT_OFF, x_enabled := False\<rparr>, hp, m, g))"

definition external_start :: "spll_glob \<Rightarrow> ext_state \<times> helper \<times> hw \<Rightarrow> ext_state \<times> helper \<times> hw" where
  "external_start g st =
     (case st of (s, hp, h) \<Rightarrow>
      let (hp, h) = helper_start g (hp, h);
          h = eccr_write 1 h
      in (s\<lparr>x_align_state := ALIGN_STATE_WAIT_CLKIN, x_enabled := True\<rparr>, hp, spll_debug 2 6 1 True h))"

definition external_locked :: "ext_state \<Rightarrow> helper \<Rightarrow> mpll \<Rightarrow> hw \<Rightarrow> bool" where
  "external_locked s hp m h =
     (if \<not> ld_locked (h_ld hp) \<or> \<not> m_locked m \<or> \<not> EXT_REF_LOCKED h \<or> EXT_REF_STOPPED h then False
      else (case x_align_state s of
              ALIGN_STATE_EXT_OFF \<Rightarrow> False | ALIGN_STATE_WAIT_CLKIN \<Rightarrow> False | ALIGN_STATE_WAIT_PLOCK \<Rightarrow> False
            | ALIGN_STATE_START \<Rightarrow> False | ALIGN_STATE_START_MAIN \<Rightarrow> False | ALIGN_STATE_INIT_CSYNC \<Rightarrow> False
            | ALIGN_STATE_WAIT_CSYNC \<Rightarrow> False | _ \<Rightarrow> True))"

text \<open>\<open>align_sample\<close>: the sample if there is a valid one, and the acknowledged register.\<close>

definition align_sample :: "int \<Rightarrow> hw \<Rightarrow> int option \<times> hw" where
  "align_sample channel h =
     (if AL_CR h AND bit_mask channel \<noteq> 0 then
        (let h = al_cr_ack (bit_mask channel) h; ci = sint (AL_CIN h) in
         if ci > 100 \<and> ci < EXT_FREQ_HZ - 100 then (Some (i32 (ci * EXT_PERIOD_NS)), h) else (None, h))
      else (None, h))"

definition get_pps_latency :: "int \<Rightarrow> int" where
  "get_pps_latency sel = (if sel \<ge> 4 then ext_pps_latency ! 0 else ext_pps_latency ! nat sel)"

text \<open>
  The machine state of \<open>external_align_fsm\<close>: the servo, the two loops, the globals and the registers.
  The step of each state returns the new state and whether it made progress (\<open>done_sth > 0\<close>).
  \<open>ljd_ok\<close> is whether \<open>ljd_ad9516_init\<close> of the WR switch board succeeds.
\<close>

record ext_mach =
  em_s :: ext_state
  em_hp :: helper
  em_m :: mpll
  em_g :: spll_glob
  em_h :: hw

definition goto :: "align_state \<Rightarrow> ext_mach \<Rightarrow> ext_mach" where
  "goto st e = e\<lparr>em_s := (em_s e)\<lparr>x_align_state := st\<rparr>\<rparr>"

definition align_wait_clkin :: "spll_cfg \<Rightarrow> bool \<Rightarrow> ext_mach \<Rightarrow> bool \<times> ext_mach" where
  "align_wait_clkin c ljd_ok e =
     (let h = em_h e; ljd = (scb_ljd_present (em_g e) \<noteq> 0) in
      if \<not> ljd \<and> \<not> EXT_REF_STOPPED h then
        (True, goto ALIGN_STATE_WAIT_PLOCK (e\<lparr>em_h := eccr_write (ECCR h OR EXT_REF_PLLRST) h\<rparr>))
      else if cfg_wr_switch c \<and> ljd then
        (let h = eccr_write (ECCR h OR EXT_REF_PLLRST) h;
             h = eccr_write (ECCR h AND NOT EXT_REF_PLLRST) h;
             e = e\<lparr>em_h := h\<rparr>
         in (False, if ljd_ok then goto ALIGN_STATE_WAIT_PLOCK e else e))
      else (False, e))"

definition align_wait_plock :: "ext_mach \<Rightarrow> bool \<times> ext_mach" where
  "align_wait_plock e =
     (let h = eccr_write (ECCR (em_h e) AND NOT EXT_REF_PLLRST) (em_h e); e = e\<lparr>em_h := h\<rparr> in
      (True, if EXT_REF_STOPPED h then goto ALIGN_STATE_WAIT_CLKIN e
             else if EXT_REF_LOCKED h then goto ALIGN_STATE_START e else e))"

text \<open>The five-second timeout of the two states that wait for a loop to lock.\<close>

definition align_timed_out :: "spll_cfg \<Rightarrow> ext_mach \<Rightarrow> bool" where
  "align_timed_out c e \<longleftrightarrow> time_after (TICS (em_h e)) (align_timeout (em_g e) + 5 * tics_per_second c)"

definition align_start :: "spll_cfg \<Rightarrow> ext_mach \<Rightarrow> bool \<times> ext_mach" where
  "align_start c e =
     (if ld_locked (h_ld (em_hp e)) then
        (let (m, h) = mpll_start c (em_g e) (em_m e, em_h e)
         in (True, goto ALIGN_STATE_START_MAIN (e\<lparr>em_m := m, em_h := h\<lparr>IRQ_EN := True\<rparr>\<rparr>)))
      else if align_timed_out c e then (False, goto ALIGN_STATE_WAIT_CLKIN e)
      else (False, e))"

definition align_start_main :: "spll_cfg \<Rightarrow> ext_mach \<Rightarrow> bool \<times> ext_mach" where
  "align_start_main c e =
     (let e = e\<lparr>em_h := al_cr_ack 2 (em_h e)\<rparr> in
      if ld_locked (h_ld (em_hp e)) \<and> m_locked (em_m e) then
        (True, goto ALIGN_STATE_INIT_CSYNC
           (e\<lparr>em_h := escr_sync ((em_h e)\<lparr>PPSG_CR := 2 OR push_bit 4 10, PPSG_ADJ_NSEC := 5\<rparr>)\<rparr>))
      else if align_timed_out c e then (False, goto ALIGN_STATE_WAIT_CLKIN e)
      else (False, e))"

definition align_init_csync :: "spll_cfg \<Rightarrow> ext_mach \<Rightarrow> bool \<times> ext_mach" where
  "align_init_csync c e =
     (if bit (PPSG_ESCR (em_h e)) 0 then
        (True, goto ALIGN_STATE_WAIT_CSYNC
           (e\<lparr>em_s := (em_s e)\<lparr>x_align_timer := TICS (em_h e) + 2 * tics_per_second c\<rparr>\<rparr>))
      else (False, e))"

definition align_wait_csync :: "ext_mach \<Rightarrow> bool \<times> ext_mach" where
  "align_wait_csync e =
     (if time_after_eq (TICS (em_h e)) (x_align_timer (em_s e)) then
        (True, goto ALIGN_STATE_START_ALIGNMENT (e\<lparr>em_s := (em_s e)\<lparr>x_align_shift := 0\<rparr>\<rparr>))
      else (False, e))"

text \<open>The second condition of this state compares the pointer \<open>s\<close> with zero and always holds.\<close>

definition align_start_alignment :: "ext_mach \<Rightarrow> bool \<times> ext_mach" where
  "align_start_alignment e =
     (let (v, h) = align_sample 1 (em_h e); e = e\<lparr>em_h := h\<rparr> in
      case v of
        None \<Rightarrow> (False, e)
      | Some v \<Rightarrow>
          (let v = v smod ALIGN_SAMPLE_PERIOD;
               s = (if v = 0 \<or> v \<ge> ALIGN_SAMPLE_PERIOD sdiv 2
                    then (em_s e)\<lparr>x_align_target := 0, x_align_step := - 100\<rparr>
                    else (em_s e)\<lparr>x_align_target := ALIGN_SAMPLE_PERIOD - EXT_PERIOD_NS, x_align_step := 100\<rparr>)
           in (True, goto ALIGN_STATE_WAIT_SAMPLE (e\<lparr>em_s := s\<rparr>))))"

text \<open>Giving the accumulated shift to the main PLL.\<close>

definition set_align_shift :: "spll_cfg \<Rightarrow> int \<Rightarrow> ext_mach \<Rightarrow> ext_mach" where
  "set_align_shift c v e =
     e\<lparr>em_s := (em_s e)\<lparr>x_align_shift := v\<rparr>, em_m := mpll_set_phase_shift c v (em_m e)\<rparr>"

definition align_wait_sample :: "spll_cfg \<Rightarrow> ext_mach \<Rightarrow> bool \<times> ext_mach" where
  "align_wait_sample c e =
     (if mpll_shifter_busy (em_m e) then (False, e)
      else
        (let (v, h) = align_sample 1 (em_h e); e = e\<lparr>em_h := h\<rparr> in
         case v of
           None \<Rightarrow> (False, e)
         | Some v \<Rightarrow>
             (if v smod ALIGN_SAMPLE_PERIOD \<noteq> x_align_target (em_s e)
              then (True, set_align_shift c (i32 (x_align_shift (em_s e) + x_align_step (em_s e))) e)
              else
                (let sh = i32 (x_align_shift (em_s e) + get_pps_latency (scb_ljd_present (em_g e)));
                     sh = i32 (sh + x_pps_latency_ps (em_s e));
                     e = e\<lparr>em_g := (em_g e)\<lparr>old_ext_pps_latency_ps := x_pps_latency_ps (em_s e)\<rparr>\<rparr>
                 in (True, goto ALIGN_STATE_COMPENSATE_DELAY (set_align_shift c sh e))))))"

definition align_compensate_delay :: "ext_mach \<Rightarrow> bool \<times> ext_mach" where
  "align_compensate_delay e =
     (if \<not> mpll_shifter_busy (em_m e) then (True, goto ALIGN_STATE_LOCKED e) else (False, e))"

definition align_locked :: "spll_cfg \<Rightarrow> ext_mach \<Rightarrow> bool \<times> ext_mach" where
  "align_locked c e =
     (let lost = (\<not> external_locked (em_s e) (em_hp e) (em_m e) (em_h e));
          e = (if lost then goto ALIGN_STATE_WAIT_CLKIN e else e);
          old = old_ext_pps_latency_ps (em_g e); new = x_pps_latency_ps (em_s e)
      in if old \<noteq> new then
           (let sh = i32 (i32 (x_align_shift (em_s e) - old) + new);
                e = e\<lparr>em_g := (em_g e)\<lparr>old_ext_pps_latency_ps := new\<rparr>\<rparr>
            in (True, goto ALIGN_STATE_COMPENSATE_DELAY (set_align_shift c sh e)))
         else (lost, e))"

definition external_align_fsm :: "spll_cfg \<Rightarrow> bool \<Rightarrow> ext_mach \<Rightarrow> bool \<times> ext_mach" where
  "external_align_fsm c ljd_ok e0 =
     (let (done_sth, e) =
        (case x_align_state (em_s e0) of
           ALIGN_STATE_EXT_OFF \<Rightarrow> (False, e0)
         | ALIGN_STATE_WAIT_CLKIN \<Rightarrow> align_wait_clkin c ljd_ok e0
         | ALIGN_STATE_WAIT_PLOCK \<Rightarrow> align_wait_plock e0
         | ALIGN_STATE_START \<Rightarrow> align_start c e0
         | ALIGN_STATE_START_MAIN \<Rightarrow> align_start_main c e0
         | ALIGN_STATE_INIT_CSYNC \<Rightarrow> align_init_csync c e0
         | ALIGN_STATE_WAIT_CSYNC \<Rightarrow> align_wait_csync e0
         | ALIGN_STATE_START_ALIGNMENT \<Rightarrow> align_start_alignment e0
         | ALIGN_STATE_WAIT_SAMPLE \<Rightarrow> align_wait_sample c e0
         | ALIGN_STATE_COMPENSATE_DELAY \<Rightarrow> align_compensate_delay e0
         | ALIGN_STATE_LOCKED \<Rightarrow> align_locked c e0)
      in (done_sth, if done_sth then e\<lparr>em_g := (em_g e)\<lparr>align_timeout := TICS (em_h e)\<rparr>\<rparr> else e))"

subsection \<open>Specification notions\<close>

text \<open>
  The alignment protocol: from which state to which the servo may move, and when. This is the
  contract \<open>external_align_fsm\<close> implements.
\<close>

inductive align_move :: "spll_cfg \<Rightarrow> bool \<Rightarrow> ext_mach \<Rightarrow> align_state \<Rightarrow> align_state \<Rightarrow> bool" for c ljd_ok e where
  clk_present: "\<lbrakk>scb_ljd_present (em_g e) = 0; \<not> EXT_REF_STOPPED (em_h e)\<rbrakk> \<Longrightarrow>
    align_move c ljd_ok e ALIGN_STATE_WAIT_CLKIN ALIGN_STATE_WAIT_PLOCK"
| ljd_present: "\<lbrakk>cfg_wr_switch c; scb_ljd_present (em_g e) \<noteq> 0; ljd_ok\<rbrakk> \<Longrightarrow>
    align_move c ljd_ok e ALIGN_STATE_WAIT_CLKIN ALIGN_STATE_WAIT_PLOCK"
| clk_lost: "EXT_REF_STOPPED (em_h e) \<Longrightarrow> align_move c ljd_ok e ALIGN_STATE_WAIT_PLOCK ALIGN_STATE_WAIT_CLKIN"
| pll_locked: "\<lbrakk>\<not> EXT_REF_STOPPED (em_h e); EXT_REF_LOCKED (em_h e)\<rbrakk> \<Longrightarrow>
    align_move c ljd_ok e ALIGN_STATE_WAIT_PLOCK ALIGN_STATE_START"
| helper_locked: "ld_locked (h_ld (em_hp e)) \<Longrightarrow> align_move c ljd_ok e ALIGN_STATE_START ALIGN_STATE_START_MAIN"
| helper_timeout: "\<lbrakk>\<not> ld_locked (h_ld (em_hp e)); align_timed_out c e\<rbrakk> \<Longrightarrow>
    align_move c ljd_ok e ALIGN_STATE_START ALIGN_STATE_WAIT_CLKIN"
| both_locked: "\<lbrakk>ld_locked (h_ld (em_hp e)); m_locked (em_m e)\<rbrakk> \<Longrightarrow>
    align_move c ljd_ok e ALIGN_STATE_START_MAIN ALIGN_STATE_INIT_CSYNC"
| main_timeout: "\<lbrakk>\<not> (ld_locked (h_ld (em_hp e)) \<and> m_locked (em_m e)); align_timed_out c e\<rbrakk> \<Longrightarrow>
    align_move c ljd_ok e ALIGN_STATE_START_MAIN ALIGN_STATE_WAIT_CLKIN"
| pps_synced: "bit (PPSG_ESCR (em_h e)) 0 \<Longrightarrow> align_move c ljd_ok e ALIGN_STATE_INIT_CSYNC ALIGN_STATE_WAIT_CSYNC"
| settled: "time_after_eq (TICS (em_h e)) (x_align_timer (em_s e)) \<Longrightarrow>
    align_move c ljd_ok e ALIGN_STATE_WAIT_CSYNC ALIGN_STATE_START_ALIGNMENT"
| sampled: "fst (align_sample 1 (em_h e)) \<noteq> None \<Longrightarrow>
    align_move c ljd_ok e ALIGN_STATE_START_ALIGNMENT ALIGN_STATE_WAIT_SAMPLE"
| aligned: "\<lbrakk>\<not> mpll_shifter_busy (em_m e); fst (align_sample 1 (em_h e)) = Some v;
      v smod ALIGN_SAMPLE_PERIOD = x_align_target (em_s e)\<rbrakk> \<Longrightarrow>
    align_move c ljd_ok e ALIGN_STATE_WAIT_SAMPLE ALIGN_STATE_COMPENSATE_DELAY"
| shifted: "\<not> mpll_shifter_busy (em_m e) \<Longrightarrow>
    align_move c ljd_ok e ALIGN_STATE_COMPENSATE_DELAY ALIGN_STATE_LOCKED"
| lock_lost: "\<lbrakk>\<not> external_locked (em_s e) (em_hp e) (em_m e) (em_h e);
      old_ext_pps_latency_ps (em_g e) = x_pps_latency_ps (em_s e)\<rbrakk> \<Longrightarrow>
    align_move c ljd_ok e ALIGN_STATE_LOCKED ALIGN_STATE_WAIT_CLKIN"
| latency_changed: "old_ext_pps_latency_ps (em_g e) \<noteq> x_pps_latency_ps (em_s e) \<Longrightarrow>
    align_move c ljd_ok e ALIGN_STATE_LOCKED ALIGN_STATE_COMPENSATE_DELAY"

inductive_simps align_move_simps [simp]:
  "align_move c k e ALIGN_STATE_EXT_OFF t" "align_move c k e ALIGN_STATE_WAIT_CLKIN t"
  "align_move c k e ALIGN_STATE_WAIT_PLOCK t" "align_move c k e ALIGN_STATE_START t"
  "align_move c k e ALIGN_STATE_START_MAIN t" "align_move c k e ALIGN_STATE_INIT_CSYNC t"
  "align_move c k e ALIGN_STATE_WAIT_CSYNC t" "align_move c k e ALIGN_STATE_START_ALIGNMENT t"
  "align_move c k e ALIGN_STATE_WAIT_SAMPLE t" "align_move c k e ALIGN_STATE_COMPENSATE_DELAY t"
  "align_move c k e ALIGN_STATE_LOCKED t"

abbreviation al_st :: "ext_mach \<Rightarrow> align_state" where "al_st e \<equiv> x_align_state (em_s e)"

definition phase_units :: "spll_cfg \<Rightarrow> int \<Rightarrow> int" where
  "phase_units c ps = from_picos c ps sdiv (if divide_dmtd c then 2 else 1)"

text \<open>The states after the main PLL was restarted, and those in which a shift is being applied.\<close>

definition synchronising :: "align_state \<Rightarrow> bool" where
  "synchronising t \<longleftrightarrow> t \<in> {ALIGN_STATE_START_MAIN, ALIGN_STATE_INIT_CSYNC, ALIGN_STATE_WAIT_CSYNC}"

definition aligning :: "align_state \<Rightarrow> bool" where
  "aligning t \<longleftrightarrow> t \<in> {ALIGN_STATE_START_ALIGNMENT, ALIGN_STATE_WAIT_SAMPLE, ALIGN_STATE_COMPENSATE_DELAY, ALIGN_STATE_LOCKED}"

definition setpoint_inv :: "spll_cfg \<Rightarrow> ext_mach \<Rightarrow> bool" where
  "setpoint_inv c e \<longleftrightarrow> (synchronising (al_st e) \<longrightarrow> m_phase_shift_target (em_m e) = 0)
     \<and> (aligning (al_st e) \<longrightarrow> m_phase_shift_target (em_m e) = phase_units c (x_align_shift (em_s e)))"

text \<open>
  A servo in operation: it is started, its state machine runs, and between its runs the interrupt
  handler steps the main PLL, the helper and the registers change in any way, and the host may
  change the PPS latency.
\<close>

inductive ext_reach :: "spll_cfg \<Rightarrow> ext_mach \<Rightarrow> bool" for c where
  start: "external_start (em_g e) (em_s e, em_hp e, em_h e) = (s, hp, h) \<Longrightarrow>
    ext_reach c (e\<lparr>em_s := s, em_hp := hp, em_h := h\<rparr>)"
| fsm: "ext_reach c e \<Longrightarrow> ext_reach c (snd (external_align_fsm c k e))"
| tag: "ext_reach c e \<Longrightarrow>
    ext_reach c (e\<lparr>em_m := fst (mpll_step c g ev (em_m e, em_h e)), em_h := h', em_hp := hp'\<rparr>)"
| latency: "ext_reach c e \<Longrightarrow> ext_reach c (e\<lparr>em_s := (em_s e)\<lparr>x_pps_latency_ps := v\<rparr>\<rparr>)"

section \<open>Facts\<close>

lemmas align_defs = align_wait_clkin_def align_wait_plock_def align_start_def align_start_main_def
  align_init_csync_def align_wait_csync_def align_start_alignment_def align_wait_sample_def
  align_compensate_delay_def align_locked_def goto_def set_align_shift_def Let_def

lemma eccr_status [simp]:
  "EXT_REF_STOPPED (eccr_write w h) = EXT_REF_STOPPED h" "EXT_REF_LOCKED (eccr_write w h) = EXT_REF_LOCKED h"
  "EXT_SUPPORTED (eccr_write w h) = EXT_SUPPORTED h"
  by (simp_all add: EXT_REF_STOPPED_def EXT_REF_LOCKED_def EXT_SUPPORTED_def eccr_write_def bit_simps)

lemma align_timed_out_ack [simp]: "align_timed_out c (e\<lparr>em_h := al_cr_ack w h\<rparr>) = align_timed_out c (e\<lparr>em_h := h\<rparr>)"
  by (simp add: align_timed_out_def al_cr_ack_def)

lemma fsm_moves:
  "align_move c k e (al_st e) t \<longleftrightarrow> al_st (snd (external_align_fsm c k e)) = t \<and> t \<noteq> al_st e"
proof (cases "al_st e")
  case ALIGN_STATE_WAIT_SAMPLE
  then show ?thesis
    by (cases "align_sample 1 (em_h e)") (auto simp: external_align_fsm_def align_defs split: option.splits)
next
  case ALIGN_STATE_START_ALIGNMENT
  then show ?thesis
    by (cases "align_sample 1 (em_h e)") (auto simp: external_align_fsm_def align_defs split: option.splits)
qed (auto simp: external_align_fsm_def align_defs split: prod.splits)

lemma mpll_step_target [simp]:
  "m_phase_shift_target (fst (mpll_step c g ev (s, h))) = m_phase_shift_target s"
  by (simp add: mpll_step_cases mpll_pair_frame)

lemma phase_units_0:
  assumes "0 < clock_period_ps c" "clock_period_ps c < 4294967296"
  shows "phase_units c 0 = 0"
  using from_picos_spec [of 0 c] assms by (simp add: phase_units_def i32_def)

lemma mpll_start_target [simp]: "m_phase_shift_target (fst (mpll_start c g (s, h))) = 0"
  by (simp add: mpll_start_def Let_def load_stage_def split: option.splits)

lemma setpoint_fsm:
  assumes "setpoint_inv c e" "0 < clock_period_ps c" "clock_period_ps c < 4294967296"
  shows "setpoint_inv c (snd (external_align_fsm c k e))"
proof -
  note defs = external_align_fsm_def align_defs setpoint_inv_def synchronising_def aligning_def
    mpll_set_phase_shift_def phase_units_def [symmetric]
  obtain v h' where a: "align_sample 1 (em_h e) = (v, h')" by fastforce
  have mt: "mpll_start c (em_g e) (em_m e, em_h e) = (m, h) \<Longrightarrow> m_phase_shift_target m = 0" for m h
    using mpll_start_target [of c "em_g e" "em_m e" "em_h e"] by simp
  show ?thesis
    using assms(1) phase_units_0 [OF assms(2,3)] mt
    by (cases "al_st e"; cases v) (auto simp: defs a split: prod.splits)
qed

lemma ext_reach_setpoint:
  assumes "ext_reach c e" "0 < clock_period_ps c" "clock_period_ps c < 4294967296"
  shows "setpoint_inv c e"
  using assms(1)
proof induction
  case (start e s hp h)
  then show ?case
    by (auto simp: external_start_def Let_def setpoint_inv_def synchronising_def aligning_def split: prod.splits)
next
  case (fsm e k)
  then show ?case by (intro setpoint_fsm assms)
next
  case (tag e g ev h' hp')
  then show ?case by (simp add: setpoint_inv_def)
next
  case (latency e v)
  then show ?case by (simp add: setpoint_inv_def)
qed

section \<open>Properties\<close>

definition example_ext :: ext_mach where
  "example_ext = \<lparr>em_s = \<lparr>x_enabled = False, x_align_state = ALIGN_STATE_EXT_OFF, x_align_timer = 0,
       x_align_target = 0, x_align_step = 0, x_align_shift = 0, x_pps_latency_ps = 0\<rparr>,
     em_hp = example_helper, em_m = example_mpll, em_g = example_glob, em_h = example_hw\<lparr>ECCR := 6\<rparr>\<rparr>"


text \<open>
  Whatever the interrupt handler, the hardware and the host do between the runs of the state
  machine, the phase set-point of the main PLL always is the servo's accumulated shift converted to
  phase units while it aligns and when it is locked, and zero from the restart of the main PLL until
  the alignment starts.
\<close>

theorem external_setpoint_consistent:
  assumes "ext_reach c e" "0 < clock_period_ps c" "clock_period_ps c < 4294967296"
  shows "(x_align_state (em_s e) \<in> {ALIGN_STATE_START_MAIN, ALIGN_STATE_INIT_CSYNC, ALIGN_STATE_WAIT_CSYNC}
      \<longrightarrow> m_phase_shift_target (em_m e) = 0)
    \<and> (x_align_state (em_s e) \<in> {ALIGN_STATE_START_ALIGNMENT, ALIGN_STATE_WAIT_SAMPLE,
          ALIGN_STATE_COMPENSATE_DELAY, ALIGN_STATE_LOCKED}
      \<longrightarrow> m_phase_shift_target (em_m e) = from_picos c (x_align_shift (em_s e)) sdiv (if divide_dmtd c then 2 else 1))"
  using ext_reach_setpoint [OF assms]
  by (simp add: setpoint_inv_def synchronising_def aligning_def phase_units_def)

theorem external_setpoint_consistent_witness:
  "\<exists>e. ext_reach example_cfg e \<and> x_align_state (em_s e) = ALIGN_STATE_START_MAIN \<and> m_phase_shift_target (em_m e) = 0"
proof -
  let ?s = "external_start example_glob (em_s example_ext, example_helper, em_h example_ext)"
  let ?f = "\<lambda>e. snd (external_align_fsm example_cfg False e)"
  define e0 where "e0 = example_ext\<lparr>em_s := fst ?s, em_hp := fst (snd ?s), em_h := snd (snd ?s)\<rparr>"
  define e1 where "e1 = ?f (?f e0)"
  define hp where "hp = (em_hp e1)\<lparr>h_ld := example_ld\<lparr>ld_locked := True\<rparr>\<rparr>"
  define e2 where "e2 = e1\<lparr>em_m := fst (mpll_step example_cfg example_glob (1, 7) (em_m e1, em_h e1)), em_h := em_h e1, em_hp := hp\<rparr>"
  have "ext_reach example_cfg e0"
    unfolding e0_def by (rule ext_reach.start) (simp add: example_ext_def)
  then have r: "ext_reach example_cfg (?f e2)"
    unfolding e2_def e1_def by (intro ext_reach.fsm ext_reach.tag)
  have s1: "al_st e1 = ALIGN_STATE_START"
    by (simp add: e1_def e0_def external_start_def helper_start_def Let_def example_ext_def external_align_fsm_def
        align_defs EXT_REF_STOPPED_def EXT_REF_LOCKED_def eccr_write_def bit_simps spll_debug_def
        spll_enable_tagger_def example_glob_def example_helper_def example_hw_def)
  have "align_move example_cfg False e2 (al_st e2) ALIGN_STATE_START_MAIN"
    using s1 by (simp add: e2_def hp_def)
  then have s2: "al_st (?f e2) = ALIGN_STATE_START_MAIN" by (simp add: fsm_moves)
  have "0 < clock_period_ps example_cfg" "clock_period_ps example_cfg < 4294967296"
    by (simp_all add: example_cfg_def)
  from external_setpoint_consistent [OF r this] s2 r show ?thesis by blast
qed

text \<open>
  When a locked servo sees that the host changed the external PPS latency, its next run moves the
  set-point by exactly the difference, remembers the new latency and waits again for the phase
  shifter before it is locked; without a change and with the lock intact, a run changes nothing but
  the progress flag.
\<close>

theorem external_latency_change:
  assumes "x_align_state (em_s e) = ALIGN_STATE_LOCKED" "fits32 (x_align_shift (em_s e) - old_ext_pps_latency_ps (em_g e))"
    "fits32 (x_align_shift (em_s e) - old_ext_pps_latency_ps (em_g e) + x_pps_latency_ps (em_s e))"
    "external_align_fsm c ljd_ok e = (done_sth, e')"
  shows "(old_ext_pps_latency_ps (em_g e) \<noteq> x_pps_latency_ps (em_s e) \<longrightarrow>
      done_sth \<and> x_align_state (em_s e') = ALIGN_STATE_COMPENSATE_DELAY
      \<and> x_align_shift (em_s e') = x_align_shift (em_s e) - old_ext_pps_latency_ps (em_g e) + x_pps_latency_ps (em_s e)
      \<and> old_ext_pps_latency_ps (em_g e') = x_pps_latency_ps (em_s e)
      \<and> em_m e' = mpll_set_phase_shift c (x_align_shift (em_s e')) (em_m e))
    \<and> (old_ext_pps_latency_ps (em_g e) = x_pps_latency_ps (em_s e)
       \<and> external_locked (em_s e) (em_hp e) (em_m e) (em_h e) \<longrightarrow> \<not> done_sth \<and> e' = e)"
proof -
  have "external_align_fsm c ljd_ok e =
    (let r = align_locked c e in (fst r, if fst r then (snd r)\<lparr>em_g := (em_g (snd r))\<lparr>align_timeout := TICS (em_h (snd r))\<rparr>\<rparr> else snd r))"
    using assms(1) by (simp add: external_align_fsm_def Let_def case_prod_beta)
  then have "done_sth = fst (align_locked c e)"
    "e' = (if fst (align_locked c e) then (snd (align_locked c e))\<lparr>em_g := (em_g (snd (align_locked c e)))
        \<lparr>align_timeout := TICS (em_h (snd (align_locked c e)))\<rparr>\<rparr> else snd (align_locked c e))"
    using assms(4) by (simp_all add: Let_def)
  then show ?thesis
    using assms(2,3)
    by (cases "external_locked (em_s e) (em_hp e) (em_m e) (em_h e)";
        cases "old_ext_pps_latency_ps (em_g e) = x_pps_latency_ps (em_s e)")
      (simp_all add: align_locked_def goto_def set_align_shift_def Let_def)
qed

theorem external_latency_change_witness:
  "x_align_shift (em_s (snd (external_align_fsm example_cfg False
     (example_ext\<lparr>em_s := (em_s example_ext)\<lparr>x_align_state := ALIGN_STATE_LOCKED, x_align_shift := 5000,
        x_pps_latency_ps := 300\<rparr>\<rparr>)))) = 5300"
proof -
  let ?e = "example_ext\<lparr>em_s := (em_s example_ext)\<lparr>x_align_state := ALIGN_STATE_LOCKED, x_align_shift := 5000,
        x_pps_latency_ps := 300\<rparr>\<rparr>"
  have o: "old_ext_pps_latency_ps (em_g ?e) = 0" by (simp add: example_ext_def example_glob_def)
  obtain d e' where "external_align_fsm example_cfg False ?e = (d, e')" by fastforce
  with external_latency_change [of ?e example_cfg False d e'] o show ?thesis by (simp add: fits32_def)
qed

end
