(* ===== verification/Softpll.thy ===== *)
theory Softpll
  imports Spll_External
begin

text \<open>
  \<^verbatim>\<open>softpll/softpll_ng.c\<close>: the SoftPLL as a whole. The interrupt handler reads the tags from the tag
  FIFO and, for each, runs the start-up sequencer and then the helper, the main, the auxiliary PLLs
  and the phase trackers; the bottom half runs the grandmaster servo and the auxiliary-clock state
  machines; the rest is the API: initialisation, phase set-points, tracker readings, DAC and gain
  access, the debug queue.

  The auxiliary PLL and the auxiliary phase monitor share memory (a C union): the tracker is a view of
  the first words of the main-PLL structure, with the layout of the risc-v targets.
\<close>

unbundle bit_operations_syntax

section \<open>Definitions\<close>

text \<open>\<open>SEQ_UNSET\<close> and \<open>AUX_UNSET\<close> are the zero values left by \<open>memset\<close>, which no case label matches.\<close>

datatype seq_state = SEQ_UNSET | SEQ_START_EXT | SEQ_WAIT_EXT | SEQ_START_HELPER | SEQ_WAIT_HELPER
  | SEQ_START_MAIN | SEQ_WAIT_MAIN | SEQ_DISABLED | SEQ_READY | SEQ_CLEAR_DACS | SEQ_WAIT_CLEAR_DACS

datatype aux_state = AUX_UNSET | AUX_DISABLED | AUX_LOCK_PLL | AUX_ALIGN_PHASE | AUX_SLAVE_READY
  | AUX_WAIT_MONITOR_LOCK | AUX_MONITOR_READY

definition SPLL_MODE_DISABLED :: int where "SPLL_MODE_DISABLED = 0"
definition SPLL_MODE_GRAND_MASTER :: int where "SPLL_MODE_GRAND_MASTER = 1"
definition SPLL_MODE_FREE_RUNNING_MASTER :: int where "SPLL_MODE_FREE_RUNNING_MASTER = 2"
definition SPLL_MODE_SLAVE :: int where "SPLL_MODE_SLAVE = 3"
definition SPLL_AUX_MODE_SLAVE :: int where "SPLL_AUX_MODE_SLAVE = 0"
definition SPLL_AUX_MODE_PHASE_MONITOR :: int where "SPLL_AUX_MODE_PHASE_MONITOR = 1"

record aux =
  a_mode :: int
  a_seq_state :: aux_state
  a_div_ref :: int
  a_div_fb :: int
  a_phase_value :: int
  a_dmtd :: mpll
  a_pad :: int
  a_dbg :: int

record softpll_state =
  sp_mode :: int
  sp_seq_state :: seq_state
  sp_dac_timeout :: u32
  sp_delock_count :: int
  sp_irq_count :: u32
  sp_ref_count :: u32
  sp_tag_count :: u32
  sp_mpll_shift_ps :: int
  sp_helper :: helper
  sp_ext :: ext_state
  sp_mpll :: mpll
  sp_aux :: "aux list"
  sp_ptrackers :: "ptracker list"

text \<open>The state \<open>softpll\<close>, the other global and static variables, and the registers.\<close>

record sys =
  sp :: softpll_state
  gl :: spll_glob
  io :: hw

subsection \<open>The union of an auxiliary channel\<close>

text \<open>
  \<open>union { struct spll_main_state dmtd; struct spll_ptracker_state tracker; }\<close>. On risc-v the 64-bit
  integrator makes the regulator start at offset 8, so the words of the tracker overlay: \<open>state\<close>,
  the padding, \<open>ki\<close>, \<open>kp\<close>, \<open>shift\<close>, \<open>bias\<close>, the two halves of \<open>integrator\<close> and \<open>anti_windup\<close>. The
  debug channel is assigned before every use, so its value is kept beside the flag it overlays.
\<close>

definition aux_tracker :: "aux \<Rightarrow> ptracker" where
  "aux_tracker a =
     (let d = a_dmtd a; pi = m_pi d in
      \<lparr>pt_enabled = m_state d, pt_id = a_pad a, pt_n_avg = pi_ki pi, pt_acc = pi_kp pi,
       pt_avg_count = pi_shift pi, pt_preserve_sign = pi_bias pi, pt_phase_val = i32 (pi_integrator pi),
       pt_ready = i32 (pi_integrator pi div 4294967296), pt_dbg_channel = a_dbg a\<rparr>)"

definition put_tracker :: "ptracker \<Rightarrow> aux \<Rightarrow> aux" where
  "put_tracker t a =
     (let d = a_dmtd a in
      a\<lparr>a_pad := pt_id t, a_dbg := pt_dbg_channel t,
        a_dmtd := d\<lparr>m_state := pt_enabled t,
          m_pi := (m_pi d)\<lparr>pi_ki := pt_n_avg t, pi_kp := pt_acc t, pi_shift := pt_avg_count t,
            pi_bias := pt_preserve_sign t,
            pi_integrator := pt_ready t * 4294967296 + pt_phase_val t mod 4294967296,
            pi_anti_windup := (pt_dbg_channel t \<noteq> 0)\<rparr>\<rparr>\<rparr>)"

subsection \<open>Interrupt handler\<close>

definition aux_locking_enabled :: "int \<Rightarrow> hw \<Rightarrow> bool" where
  "aux_locking_enabled channel h \<longleftrightarrow> (drop_bit 8 (OCCR h) AND 0xff) AND bit_mask channel \<noteq> 0"

definition occr_lock :: "int \<Rightarrow> u32" where
  "occr_lock channel = push_bit 16 (bit_mask channel AND 0xff)"

definition set_channel_status :: "int \<Rightarrow> bool \<Rightarrow> hw \<Rightarrow> hw" where
  "set_channel_status channel locked h =
     (if \<not> locked then h\<lparr>OCCR := OCCR h AND NOT (occr_lock channel)\<rparr>
      else h\<lparr>OCCR := OCCR h OR occr_lock channel\<rparr>)"

text \<open>Running one of the parts on the state; \<open>None\<close> is an access outside an array.\<close>

definition start_ptracker :: "int \<Rightarrow> sys \<Rightarrow> sys option" where
  "start_ptracker i y =
     (let pts = sp_ptrackers (sp y) in
      if 0 \<le> i \<and> nat i < length pts then
        (let (p, h) = ptracker_start (n_chan_ref (gl y)) (pts ! nat i) (io y)
         in Some (y\<lparr>sp := (sp y)\<lparr>sp_ptrackers := pts[nat i := p]\<rparr>, io := h\<rparr>))
      else None)"

definition start_ptrackers :: "sys \<Rightarrow> sys option" where
  "start_ptrackers y =
     for_each (\<lambda>i y. if ptracker_mask (gl y) AND bit_mask i \<noteq> 0 then start_ptracker i y else Some y)
       [0..n_chan_ref (gl y) - 1] y"

definition update_aux_ptracker :: "int \<Rightarrow> int \<Rightarrow> int \<Rightarrow> sys \<Rightarrow> sys option" where
  "update_aux_ptracker tag_value tag_source i y =
     (if \<not> (0 \<le> i \<and> nat i < length (sp_aux (sp y))) then None
      else
        (let a = sp_aux (sp y) ! nat i in
         if a_mode a \<noteq> SPLL_AUX_MODE_PHASE_MONITOR then Some y
         else if tag_source = n_chan_ref (gl y) + i + 1 then
           (case ptrackers_update (n_chan_ref (gl y)) (reverse_spll (gl y)) tag_value 0
                  (tag_ref_last (gl y), [(aux_tracker a)\<lparr>pt_dbg_channel := i\<rparr>], io y) of
              None \<Rightarrow> None
            | Some (tr, ts, h) \<Rightarrow>
                Some (y\<lparr>sp := (sp y)\<lparr>sp_aux := (sp_aux (sp y))[nat i := put_tracker (hd ts) a]\<rparr>,
                        gl := (gl y)\<lparr>tag_ref_last := tr\<rparr>, io := h\<rparr>))
         else Some y))"

definition update_ptrackers :: "int \<Rightarrow> int \<Rightarrow> sys \<Rightarrow> sys option" where
  "update_ptrackers tag_value tag_source y = do {
     y \<leftarrow> (if tag_source \<le> n_chan_ref (gl y) then
             (case ptrackers_update (n_chan_ref (gl y)) (reverse_spll (gl y)) tag_value tag_source
                    (tag_ref_last (gl y), sp_ptrackers (sp y), io y) of
                None \<Rightarrow> None
              | Some (tr, ts, h) \<Rightarrow> Some (y\<lparr>sp := (sp y)\<lparr>sp_ptrackers := ts\<rparr>, gl := (gl y)\<lparr>tag_ref_last := tr\<rparr>, io := h\<rparr>))
           else Some y);
     for_each (update_aux_ptracker tag_value tag_source) [0..n_chan_out (gl y) - 2] y
   }"

text \<open>The three places that end a start-up: trackers on, state ready, the channel reported locked.\<close>

definition enter_ready :: "sys \<Rightarrow> sys option" where
  "enter_ready y = do {
     y \<leftarrow> start_ptrackers y;
     Some (y\<lparr>sp := (sp y)\<lparr>sp_seq_state := SEQ_READY\<rparr>, io := set_channel_status (m_id_ref (sp_mpll (sp y))) True (io y)\<rparr>)
   }"

definition goto_seq :: "seq_state \<Rightarrow> sys \<Rightarrow> sys" where
  "goto_seq st y = y\<lparr>sp := (sp y)\<lparr>sp_seq_state := st\<rparr>\<rparr>"

definition seq_clear_dacs :: "spll_cfg \<Rightarrow> sys \<Rightarrow> sys" where
  "seq_clear_dacs c y =
     (let s = sp y;
          h = (io y)\<lparr>DAC_HPLL := word_of_int (pi_y_max (h_pi (sp_helper s))),
                     DAC_MAIN := word_of_int (i32 (pi_y_max (m_pi (sp_mpll s)) + pi_y_min (m_pi (sp_mpll s))) sdiv 2)\<rparr>;
          h = spll_enable_tagger (n_chan_ref (gl y)) (n_chan_ref (gl y)) True h
      in y\<lparr>sp := s\<lparr>sp_dac_timeout := TICS h + tics_per_second c div 20, sp_seq_state := SEQ_WAIT_CLEAR_DACS\<rparr>, io := h\<rparr>)"

definition seq_start_ext :: "sys \<Rightarrow> sys" where
  "seq_start_ext y =
     (let h = spll_enable_tagger (n_chan_ref (gl y)) (n_chan_ref (gl y)) False (io y);
          (x, hp, h) = external_start (gl y) (sp_ext (sp y), sp_helper (sp y), h)
      in y\<lparr>sp := (sp y)\<lparr>sp_ext := x, sp_helper := hp, sp_seq_state := SEQ_WAIT_EXT\<rparr>, io := h\<rparr>)"

definition sys_external_locked :: "sys \<Rightarrow> bool" where
  "sys_external_locked y = external_locked (sp_ext (sp y)) (sp_helper (sp y)) (sp_mpll (sp y)) (io y)"

definition seq_wait_helper :: "sys \<Rightarrow> sys option" where
  "seq_wait_helper y =
     (let ld = h_ld (sp_helper (sp y)) in
      if ld_locked ld \<and> ld_lock_changed ld then
        (if sp_mode (sp y) = SPLL_MODE_SLAVE then Some (goto_seq SEQ_START_MAIN y) else enter_ready y)
      else Some y)"

definition seq_ready_lost :: "sys \<Rightarrow> bool" where
  "seq_ready_lost y \<longleftrightarrow> sp_mode (sp y) = SPLL_MODE_GRAND_MASTER \<and> \<not> sys_external_locked y
     \<or> \<not> ld_locked (h_ld (sp_helper (sp y)))
     \<or> sp_mode (sp y) = SPLL_MODE_SLAVE \<and> \<not> m_locked (sp_mpll (sp y))"

definition seq_count :: "int \<Rightarrow> sys \<Rightarrow> sys" where
  "seq_count tag_source y =
     (if tag_source = n_chan_ref (gl y) then y\<lparr>sp := (sp y)\<lparr>sp_tag_count := sp_tag_count (sp y) + 1\<rparr>\<rparr>
      else if tag_source = 0 then y\<lparr>sp := (sp y)\<lparr>sp_ref_count := sp_ref_count (sp y) + 1\<rparr>\<rparr>
      else y)"

definition sequencing_fsm :: "spll_cfg \<Rightarrow> int \<Rightarrow> int \<Rightarrow> sys \<Rightarrow> sys option" where
  "sequencing_fsm c tag_value tag_source y0 =
     (let y = seq_count tag_source y0 in
      case sp_seq_state (sp y) of
        SEQ_UNSET \<Rightarrow> Some y
      | SEQ_DISABLED \<Rightarrow> Some y
      | SEQ_CLEAR_DACS \<Rightarrow> Some (seq_clear_dacs c y)
      | SEQ_WAIT_CLEAR_DACS \<Rightarrow>
          Some (if time_after (TICS (io y)) (sp_dac_timeout (sp y))
                then goto_seq (if sp_mode (sp y) = SPLL_MODE_GRAND_MASTER then SEQ_START_EXT else SEQ_START_HELPER) y
                else y)
      | SEQ_START_EXT \<Rightarrow> Some (seq_start_ext y)
      | SEQ_WAIT_EXT \<Rightarrow> (if sys_external_locked y then enter_ready y else Some y)
      | SEQ_START_HELPER \<Rightarrow>
          (let (hp, h) = helper_start (gl y) (sp_helper (sp y), io y)
           in Some (goto_seq SEQ_WAIT_HELPER (y\<lparr>sp := (sp y)\<lparr>sp_helper := hp\<rparr>, io := h\<rparr>)))
      | SEQ_WAIT_HELPER \<Rightarrow> seq_wait_helper y
      | SEQ_START_MAIN \<Rightarrow>
          (let (m, h) = mpll_start c (gl y) (sp_mpll (sp y), io y)
           in Some (goto_seq SEQ_WAIT_MAIN (y\<lparr>sp := (sp y)\<lparr>sp_mpll := m\<rparr>, io := h\<rparr>)))
      | SEQ_WAIT_MAIN \<Rightarrow> (if m_locked (sp_mpll (sp y)) then enter_ready y else Some y)
      | SEQ_READY \<Rightarrow>
          Some (if seq_ready_lost y then
                  (goto_seq SEQ_CLEAR_DACS (y\<lparr>sp := (sp y)\<lparr>sp_delock_count := i32 (sp_delock_count (sp y) + 1)\<rparr>,
                     io := set_channel_status (m_id_ref (sp_mpll (sp y))) False (io y)\<rparr>))
                else y))"

definition update_aux_pll :: "spll_cfg \<Rightarrow> int \<Rightarrow> int \<Rightarrow> int \<Rightarrow> sys \<Rightarrow> sys option" where
  "update_aux_pll c tag_value tag_source i y =
     (if \<not> (0 \<le> i \<and> nat i < length (sp_aux (sp y))) then None
      else
        (let a = sp_aux (sp y) ! nat i;
             (_, m, h) = mpll_update c (gl y) tag_value tag_source (a_dmtd a, io y)
         in Some (y\<lparr>sp := (sp y)\<lparr>sp_aux := (sp_aux (sp y))[nat i := a\<lparr>a_dmtd := m\<rparr>]\<rparr>, io := h\<rparr>)))"

definition update_loops :: "spll_cfg \<Rightarrow> int \<Rightarrow> int \<Rightarrow> sys \<Rightarrow> sys option" where
  "update_loops c tag_value tag_source y =
     (let (hp, h) = helper_update c tag_value tag_source (sp_helper (sp y), io y);
          y = y\<lparr>sp := (sp y)\<lparr>sp_helper := hp\<rparr>, io := h\<rparr>
      in if ld_locked (h_ld hp) then
           (let (_, m, h) = mpll_update c (gl y) tag_value tag_source (sp_mpll (sp y), io y);
                y = y\<lparr>sp := (sp y)\<lparr>sp_mpll := m\<rparr>, io := h\<rparr>
            in if sp_seq_state (sp y) = SEQ_READY then do {
                 y \<leftarrow> (if sp_mode (sp y) = SPLL_MODE_SLAVE
                        then for_each (update_aux_pll c tag_value tag_source) [0..n_chan_out (gl y) - 2] y
                        else Some y);
                 update_ptrackers tag_value tag_source y
               } else Some y)
         else Some y)"

definition irq_tag :: "spll_cfg \<Rightarrow> u32 \<Rightarrow> sys \<Rightarrow> sys option" where
  "irq_tag c trr y =
     (let tag_source = uint (drop_bit 24 trr AND 0x7f); tag_value = uint (trr AND 0xffffff)
      in do { y \<leftarrow> sequencing_fsm c tag_value tag_source (y\<lparr>io := (io y)\<lparr>TRR := tl (TRR (io y))\<rparr>\<rparr>);
              update_loops c tag_value tag_source y })"

text \<open>The loop reads the FIFO until it is empty; \<open>TRR\<close> is what it holds when the handler is entered.\<close>

definition spll_irq_entry :: "spll_cfg \<Rightarrow> sys \<Rightarrow> sys option" where
  "spll_irq_entry c y = do {
     y \<leftarrow> for_each (irq_tag c) (TRR (io y)) y;
     Some (y\<lparr>sp := (sp y)\<lparr>sp_irq_count := sp_irq_count (sp y) + 1\<rparr>\<rparr>)
   }"

subsection \<open>Specification notions\<close>

text \<open>
  The shape of the state, which only \<open>spll_very_init\<close> and \<open>spll_init\<close> decide: the channel counts, the
  array sizes, and which reference the main PLL uses. \<open>sys_wf\<close>: the arrays cover the channels.
\<close>

definition shape :: "sys \<Rightarrow> int \<times> int \<times> nat \<times> nat \<times> int \<times> int" where
  "shape y = (n_chan_ref (gl y), n_chan_out (gl y), length (sp_aux (sp y)), length (sp_ptrackers (sp y)),
     m_id_ref (sp_mpll (sp y)), sp_mode (sp y))"

definition sys_wf :: "sys \<Rightarrow> bool" where
  "sys_wf y \<longleftrightarrow> 0 \<le> n_chan_ref (gl y) \<and> n_chan_ref (gl y) \<le> int (length (sp_ptrackers (sp y)))
     \<and> n_chan_out (gl y) - 1 \<le> int (length (sp_aux (sp y)))"

text \<open>The sequencer reports the lock of its reference channel exactly while it is ready.\<close>

definition lock_bit :: "sys \<Rightarrow> bool" where
  "lock_bit y \<longleftrightarrow> OCCR (io y) AND occr_lock (m_id_ref (sp_mpll (sp y))) \<noteq> 0"

definition lock_reported :: "sys \<Rightarrow> bool" where
  "lock_reported y \<longleftrightarrow> (lock_bit y \<longleftrightarrow> sp_seq_state (sp y) = SEQ_READY)"

text \<open>
  The start-up protocol of the SoftPLL: from which state to which the sequencer may move, and when.
\<close>

inductive seq_move :: "sys \<Rightarrow> seq_state \<Rightarrow> seq_state \<Rightarrow> bool" for y where
  clear: "seq_move y SEQ_CLEAR_DACS SEQ_WAIT_CLEAR_DACS"
| settled_gm: "\<lbrakk>time_after (TICS (io y)) (sp_dac_timeout (sp y)); sp_mode (sp y) = SPLL_MODE_GRAND_MASTER\<rbrakk> \<Longrightarrow>
    seq_move y SEQ_WAIT_CLEAR_DACS SEQ_START_EXT"
| settled: "\<lbrakk>time_after (TICS (io y)) (sp_dac_timeout (sp y)); sp_mode (sp y) \<noteq> SPLL_MODE_GRAND_MASTER\<rbrakk> \<Longrightarrow>
    seq_move y SEQ_WAIT_CLEAR_DACS SEQ_START_HELPER"
| ext_started: "seq_move y SEQ_START_EXT SEQ_WAIT_EXT"
| ext_ready: "sys_external_locked y \<Longrightarrow> seq_move y SEQ_WAIT_EXT SEQ_READY"
| helper_started: "seq_move y SEQ_START_HELPER SEQ_WAIT_HELPER"
| helper_ready: "\<lbrakk>ld_locked (h_ld (sp_helper (sp y))); ld_lock_changed (h_ld (sp_helper (sp y)));
      sp_mode (sp y) \<noteq> SPLL_MODE_SLAVE\<rbrakk> \<Longrightarrow> seq_move y SEQ_WAIT_HELPER SEQ_READY"
| helper_locked: "\<lbrakk>ld_locked (h_ld (sp_helper (sp y))); ld_lock_changed (h_ld (sp_helper (sp y)));
      sp_mode (sp y) = SPLL_MODE_SLAVE\<rbrakk> \<Longrightarrow> seq_move y SEQ_WAIT_HELPER SEQ_START_MAIN"
| main_started: "seq_move y SEQ_START_MAIN SEQ_WAIT_MAIN"
| main_ready: "m_locked (sp_mpll (sp y)) \<Longrightarrow> seq_move y SEQ_WAIT_MAIN SEQ_READY"
| lost: "seq_ready_lost y \<Longrightarrow> seq_move y SEQ_READY SEQ_CLEAR_DACS"

inductive_simps seq_move_simps [simp]:
  "seq_move y SEQ_UNSET t" "seq_move y SEQ_DISABLED t" "seq_move y SEQ_CLEAR_DACS t" "seq_move y SEQ_WAIT_CLEAR_DACS t"
  "seq_move y SEQ_START_EXT t" "seq_move y SEQ_WAIT_EXT t" "seq_move y SEQ_START_HELPER t" "seq_move y SEQ_WAIT_HELPER t"
  "seq_move y SEQ_START_MAIN t" "seq_move y SEQ_WAIT_MAIN t" "seq_move y SEQ_READY t"

section \<open>Facts\<close>

text \<open>What the loops leave alone.\<close>

lemma m_id_frames [simp]:
  "m_id_ref (mpll_capture c t u s) = m_id_ref s" "m_id_ref (mpll_unwrap_ref s) = m_id_ref s"
  "m_id_ref (mpll_unwrap_out s) = m_id_ref s" "m_id_ref (mpll_align_early s) = m_id_ref s"
  "m_id_ref (mpll_freq_lock s h) = m_id_ref s" "m_id_ref (mpll_rebase s) = m_id_ref s"
  "m_id_ref (mpll_shift_phase g s) = m_id_ref s" "m_id_ref (fst (mpll_drive e (s, h))) = m_id_ref s"
  "m_id_ref (fst (mpll_phase_lock e (s, h))) = m_id_ref s"
  "m_id_ref (fst (mpll_start c g (s, h))) = m_id_ref s"
  by (simp_all add: mpll_capture_def mpll_frac_out_def mpll_unwrap_ref_def mpll_unwrap_out_def
      mpll_align_early_def mpll_freq_lock_def mpll_rebase_def mpll_shift_phase_def mpll_drive_def
      mpll_phase_lock_def mpll_handle_gain_schedule_def load_stage_def mpll_start_def Let_def del: i32_id
      split: prod.splits option.splits)

text \<open>Registers of the loops' hardware that no loop writes.\<close>

definition quiet :: "hw \<Rightarrow> u32 \<times> u32 list \<times> u32" where
  "quiet h = (OCCR h, TRR h, TICS h)"

lemma quiet_frames [simp]:
  "quiet (spll_enable_tagger n ch en h) = quiet h" "quiet (spll_debug a b v l h) = quiet h"
  "quiet (h\<lparr>DAC_MAIN := w\<rparr>) = quiet h" "quiet (h\<lparr>DAC_HPLL := w\<rparr>) = quiet h"
  by (simp_all add: quiet_def spll_enable_tagger_def spll_debug_def)

lemma eccr_quiet: "quiet (eccr_write w h) = quiet h"
  by (simp add: quiet_def eccr_write_def)

lemma quiet_mpll [simp]:
  "quiet (snd (mpll_drive e (s, h))) = quiet h" "quiet (snd (mpll_phase_lock e (s, h))) = quiet h"
  "quiet (snd (mpll_start c g (s, h))) = quiet h"
  by (simp_all add: mpll_drive_def mpll_phase_lock_def mpll_handle_gain_schedule_def mpll_start_def Let_def
      split: prod.splits option.splits)

lemma mpll_update_step: "snd (mpll_update c g t u sh) = mpll_step c g (t, u) sh"
  by (simp add: mpll_step_def)

lemma mpll_pair_quiet: "quiet (snd (mpll_pair c g (s, h))) = quiet h" "m_id_ref (fst (mpll_pair c g (s, h))) = m_id_ref s"
  by (simp_all add: mpll_pair_def Let_def case_prod_beta)

lemma mpll_step_quiet [simp]:
  "quiet (snd (mpll_step c g ev (s, h))) = quiet h" "m_id_ref (fst (mpll_step c g ev (s, h))) = m_id_ref s"
  by (simp_all add: mpll_step_cases mpll_pair_quiet)

lemma helper_quiet [simp]:
  "quiet (snd (helper_update c t u (s, h))) = quiet h" "quiet (snd (helper_start g (s, h))) = quiet h"
  by (simp_all add: helper_update_def helper_start_def Let_def case_prod_beta)

lemma ptrackers_update_safe:
  assumes "source = n \<or> 0 \<le> source \<and> nat source < length pts"
  shows "\<exists>tr pts' h'. ptrackers_update n r tag source (tr0, pts, h) = Some (tr, pts', h')
    \<and> length pts' = length pts \<and> quiet h' = quiet h"
  using assms by (auto simp: ptrackers_update_def Let_def)

text \<open>Every part of the handler keeps the shape of the state and never leaves an array.\<close>

definition keeps :: "sys \<Rightarrow> sys \<Rightarrow> bool" where
  "keeps y y' \<longleftrightarrow> sys_wf y \<and> shape y' = shape y \<and> quiet (io y') = quiet (io y)
     \<and> sp_seq_state (sp y') = sp_seq_state (sp y)"

lemma keeps_refl: "sys_wf y \<Longrightarrow> keeps y y" by (simp add: keeps_def)

lemma keeps_trans: "\<lbrakk>keeps y y'; keeps y' y''\<rbrakk> \<Longrightarrow> keeps y y''" by (auto simp: keeps_def)

lemma keeps_wf: "keeps y y' \<Longrightarrow> sys_wf y'" by (auto simp: keeps_def shape_def sys_wf_def)

lemmas keeps_simps = keeps_def shape_def

lemma start_ptracker_safe:
  assumes "keeps y0 y" "0 \<le> i \<and> i < n_chan_ref (gl y0)"
  shows "\<exists>y'. start_ptracker i y = Some y' \<and> keeps y0 y'"
  using assms by (auto simp: start_ptracker_def keeps_simps sys_wf_def ptracker_start_def Let_def)

lemma update_aux_pll_safe:
  assumes "keeps y0 y" "0 \<le> i \<and> i < n_chan_out (gl y0) - 1"
  shows "\<exists>y'. update_aux_pll c t u i y = Some y' \<and> keeps y0 y'"
  using assms mpll_step_quiet(1) [of c "gl y" "(t, u)" "a_dmtd (sp_aux (sp y) ! nat i)" "io y"]
  by (auto simp: update_aux_pll_def keeps_simps sys_wf_def Let_def mpll_step_def split: prod.splits)

lemma update_aux_ptracker_safe:
  assumes "keeps y0 y" "0 \<le> i \<and> i < n_chan_out (gl y0) - 1"
  shows "\<exists>y'. update_aux_ptracker t u i y = Some y' \<and> keeps y0 y'"
proof -
  let ?p = "(aux_tracker (sp_aux (sp y) ! nat i))\<lparr>pt_dbg_channel := i\<rparr>"
  obtain tr ts h' where "ptrackers_update (n_chan_ref (gl y)) (reverse_spll (gl y)) t 0 (tag_ref_last (gl y), [?p], io y)
      = Some (tr, ts, h')" "length ts = 1" "quiet h' = quiet (io y)"
    using ptrackers_update_safe [of 0 "n_chan_ref (gl y)" "[?p]"] by fastforce
  then show ?thesis using assms
    by (auto simp: update_aux_ptracker_def keeps_simps sys_wf_def Let_def)
qed

interpretation start_loop: safe_machine
    "\<lambda>i y. if ptracker_mask (gl y) AND bit_mask i \<noteq> 0 then start_ptracker i y else Some y"
    "\<lambda>i. 0 \<le> i \<and> i < n_chan_ref (gl y0)" "keeps y0" for y0
  by unfold_locales (simp add: start_ptracker_safe)

interpretation aux_pll_loop: safe_machine "update_aux_pll c t u"
    "\<lambda>i. 0 \<le> i \<and> i < n_chan_out (gl y0) - 1" "keeps y0" for c t u y0
  by unfold_locales (rule update_aux_pll_safe)

interpretation aux_ptracker_loop: safe_machine "update_aux_ptracker t u"
    "\<lambda>i. 0 \<le> i \<and> i < n_chan_out (gl y0) - 1" "keeps y0" for t u y0
  by unfold_locales (rule update_aux_ptracker_safe)

lemma keeps_channels: "keeps y0 y \<Longrightarrow> n_chan_out (gl y) = n_chan_out (gl y0) \<and> n_chan_ref (gl y) = n_chan_ref (gl y0)"
  by (simp add: keeps_simps)

lemma start_ptrackers_safe:
  assumes "sys_wf y"
  shows "\<exists>y'. start_ptrackers y = Some y' \<and> keeps y y'"
  unfolding start_ptrackers_def
  by (rule start_loop.run_safe [OF keeps_refl [OF assms]]) (simp add: list_all_iff)

lemma update_ptrackers_safe:
  assumes k: "keeps y0 y" and "0 \<le> u"
  shows "\<exists>y'. update_ptrackers t u y = Some y' \<and> keeps y0 y'"
proof -
  have loop: "\<exists>y'. for_each (update_aux_ptracker t u) [0..n_chan_out (gl y1) - 2] y1 = Some y' \<and> keeps y0 y'"
    if "keeps y0 y1" for y1
    using keeps_channels [OF that]
    by (intro aux_ptracker_loop.run_safe [OF that]) (simp add: list_all_iff)
  show ?thesis
  proof (cases "u \<le> n_chan_ref (gl y)")
    case True
    then have "u = n_chan_ref (gl y) \<or> 0 \<le> u \<and> nat u < length (sp_ptrackers (sp y))"
      using keeps_wf [OF k] assms(2) by (auto simp: sys_wf_def)
    from ptrackers_update_safe [OF this, of "reverse_spll (gl y)" t "tag_ref_last (gl y)" "io y"]
    obtain tr ts h' where p: "ptrackers_update (n_chan_ref (gl y)) (reverse_spll (gl y)) t u
        (tag_ref_last (gl y), sp_ptrackers (sp y), io y) = Some (tr, ts, h')"
      "length ts = length (sp_ptrackers (sp y))" "quiet h' = quiet (io y)" by blast
    let ?y1 = "y\<lparr>sp := (sp y)\<lparr>sp_ptrackers := ts\<rparr>, gl := (gl y)\<lparr>tag_ref_last := tr\<rparr>, io := h'\<rparr>"
    have "keeps y0 ?y1" using k p by (simp add: keeps_simps)
    from loop [OF this] show ?thesis using True p(1) by (simp add: update_ptrackers_def)
  next
    case False
    then show ?thesis using loop [OF k] by (simp add: update_ptrackers_def)
  qed
qed

lemma update_loops_safe:
  assumes "sys_wf y" "0 \<le> u"
  shows "\<exists>y'. update_loops c t u y = Some y' \<and> keeps y y'"
proof -
  obtain hp h where hp: "helper_update c t u (sp_helper (sp y), io y) = (hp, h)" by fastforce
  let ?y1 = "y\<lparr>sp := (sp y)\<lparr>sp_helper := hp\<rparr>, io := h\<rparr>"
  obtain r m h2 where m: "mpll_update c (gl y) t u (sp_mpll (sp y), h) = (r, m, h2)" by (metis prod_cases3)
  let ?y2 = "y\<lparr>sp := (sp y)\<lparr>sp_helper := hp, sp_mpll := m\<rparr>, io := h2\<rparr>"
  have q: "quiet h = quiet (io y)" using helper_quiet(1) [of c t u "sp_helper (sp y)" "io y"] by (simp add: hp)
  have q2: "quiet h2 = quiet h" "m_id_ref m = m_id_ref (sp_mpll (sp y))"
    using mpll_step_quiet [of c "gl y" "(t, u)" "sp_mpll (sp y)" h] by (simp_all add: mpll_step_def m)
  have k1: "keeps y ?y1" and k2: "keeps y ?y2" using assms(1) q q2 by (simp_all add: keeps_simps)
  have "\<exists>y'. for_each (update_aux_pll c t u) [0..n_chan_out (gl ?y2) - 2] ?y2 = Some y' \<and> keeps y y'"
    by (intro aux_pll_loop.run_safe [OF k2]) (simp add: list_all_iff)
  then obtain y3 where y3: "for_each (update_aux_pll c t u) [0..n_chan_out (gl ?y2) - 2] ?y2 = Some y3" "keeps y y3"
    by blast
  show ?thesis
    using k1 k2 y3 update_ptrackers_safe [OF y3(2) assms(2), of t] update_ptrackers_safe [OF k2 assms(2), of t]
    by (simp add: update_loops_def hp m Let_def)
qed

subsection \<open>The sequencer\<close>

definition own_bit :: "sys \<Rightarrow> bool" where
  "own_bit y \<longleftrightarrow> 0 \<le> m_id_ref (sp_mpll (sp y)) \<and> m_id_ref (sp_mpll (sp y)) < 8"

lemma occr_lock_nz:
  assumes "0 \<le> r" "r < 8"
  shows "occr_lock r \<noteq> 0"
proof -
  have "r \<in> {0, 1, 2, 3, 4, 5, 6, 7}" using assms by auto
  then show ?thesis by (auto simp: occr_lock_def bit_mask_def)
qed

lemma set_status_lock [simp]:
  "OCCR (set_channel_status r False h) AND occr_lock r = 0"
  "OCCR (set_channel_status r True h) AND occr_lock r = occr_lock r"
  by (auto simp: set_channel_status_def bit_simps intro: bit_word_eqI)

lemma set_status_frame [simp]:
  "TRR (set_channel_status r b h) = TRR h" "TICS (set_channel_status r b h) = TICS h"
  by (simp_all add: set_channel_status_def)

lemma keeps_lock: "keeps y y' \<Longrightarrow> lock_bit y' = lock_bit y \<and> lock_reported y' = lock_reported y
    \<and> TRR (io y') = TRR (io y) \<and> own_bit y' = own_bit y"
  by (auto simp: keeps_simps lock_bit_def lock_reported_def quiet_def own_bit_def)

text \<open>What a run of the sequencer on one tag guarantees.\<close>

definition seq_keeps :: "sys \<Rightarrow> sys \<Rightarrow> bool" where
  "seq_keeps y y' \<longleftrightarrow> sys_wf y \<and> shape y' = shape y \<and> TRR (io y') = TRR (io y)
     \<and> (own_bit y \<and> lock_reported y \<longrightarrow> lock_reported y')"

lemma enter_ready_safe:
  assumes "sys_wf y"
  shows "\<exists>y'. enter_ready y = Some y' \<and> seq_keeps y y' \<and> sp_seq_state (sp y') = SEQ_READY"
proof -
  obtain y1 where y1: "start_ptrackers y = Some y1" "keeps y y1" using start_ptrackers_safe [OF assms] by blast
  then show ?thesis
    by (auto simp: enter_ready_def seq_keeps_def keeps_simps lock_reported_def lock_bit_def own_bit_def
        occr_lock_nz quiet_def)
qed

lemma seq_keeps_step:
  assumes "sys_wf y" "shape y' = shape y" "quiet (io y') = quiet (io y)"
    "sp_seq_state (sp y) \<noteq> SEQ_READY" "sp_seq_state (sp y') \<noteq> SEQ_READY"
  shows "seq_keeps y y'"
  using assms by (auto simp: seq_keeps_def lock_reported_def lock_bit_def shape_def quiet_def)

lemma seq_count_keeps: "sys_wf y \<Longrightarrow> keeps y (seq_count u y)"
  by (simp add: seq_count_def keeps_simps)

lemma seq_keeps_trans:
  assumes "keeps y y1" "seq_keeps y1 y2"
  shows "seq_keeps y y2"
proof -
  have "sys_wf y" "shape y1 = shape y" using assms(1) by (auto simp: keeps_def)
  then show ?thesis using assms(2) keeps_lock [OF assms(1)] by (auto simp: seq_keeps_def)
qed

lemma keeps_seq_keeps: "keeps y y' \<Longrightarrow> seq_keeps y y'"
  using keeps_lock [of y y'] by (auto simp: seq_keeps_def keeps_def)

lemma sequencing_safe:
  assumes "sys_wf y0"
  shows "\<exists>y'. sequencing_fsm c t u y0 = Some y' \<and> seq_keeps y0 y'"
proof -
  define y where "y = seq_count u y0"
  have k: "keeps y0 y" unfolding y_def by (rule seq_count_keeps [OF assms])
  have wf: "sys_wf y" using k by (rule keeps_wf)
  note er = enter_ready_safe [OF wf]
  have ext: "seq_keeps y (seq_start_ext y)" if "sp_seq_state (sp y) = SEQ_START_EXT"
  proof -
    have "quiet (io (seq_start_ext y)) = quiet (io y)"
      by (simp add: seq_start_ext_def external_start_def Let_def case_prod_beta eccr_quiet)
    then show ?thesis using wf that
      by (intro seq_keeps_step) (simp_all add: seq_start_ext_def shape_def Let_def case_prod_beta)
  qed
  have "\<exists>y'. sequencing_fsm c t u y0 = Some y' \<and> seq_keeps y y'"
  proof (cases "sp_seq_state (sp y)")
    case SEQ_READY
    then show ?thesis using wf
      by (auto simp: sequencing_fsm_def y_def [symmetric] goto_seq_def seq_keeps_def shape_def lock_reported_def
          lock_bit_def)
  qed (use er ext wf keeps_seq_keeps [OF keeps_refl [OF wf]] in \<open>auto simp: sequencing_fsm_def y_def [symmetric]
      goto_seq_def seq_wait_helper_def seq_clear_dacs_def Let_def shape_def case_prod_beta intro!: seq_keeps_step\<close>)
  then show ?thesis using seq_keeps_trans [OF k] by blast
qed

lemma sequencing_moves:
  assumes "sys_wf y" "sequencing_fsm c t u y = Some y'"
  shows "seq_move (seq_count u y) (sp_seq_state (sp y)) q
    \<longleftrightarrow> sp_seq_state (sp y') = q \<and> q \<noteq> sp_seq_state (sp y)"
proof -
  define y1 where "y1 = seq_count u y"
  have k: "keeps y y1" unfolding y1_def by (rule seq_count_keeps [OF assms(1)])
  then have st: "sp_seq_state (sp y) = sp_seq_state (sp y1)" by (simp add: keeps_def)
  note er = enter_ready_safe [OF keeps_wf [OF k]]
  show ?thesis
    using er assms(2) unfolding sequencing_fsm_def y1_def [symmetric] Let_def st
    by (cases "sp_seq_state (sp y1)")
      (auto simp: goto_seq_def seq_wait_helper_def seq_clear_dacs_def seq_start_ext_def Let_def case_prod_beta
        split: if_splits)
qed

subsection \<open>The interrupt handler\<close>

lemma irq_tag_safe:
  assumes "sys_wf y" "TRR (io y) = v # vs"
  shows "\<exists>y'. irq_tag c v y = Some y' \<and> shape y' = shape y \<and> TRR (io y') = vs
    \<and> (own_bit y \<and> lock_reported y \<longrightarrow> lock_reported y')"
proof -
  let ?y = "y\<lparr>io := (io y)\<lparr>TRR := tl (TRR (io y))\<rparr>\<rparr>"
  let ?t = "uint (v AND 0xffffff)" and ?u = "uint (drop_bit 24 v AND 0x7f)"
  have wf: "sys_wf ?y" and l: "shape ?y = shape y" "own_bit ?y = own_bit y" "lock_reported ?y = lock_reported y"
    using assms(1) by (simp_all add: sys_wf_def shape_def own_bit_def lock_reported_def lock_bit_def)
  obtain y1 where y1: "sequencing_fsm c ?t ?u ?y = Some y1" "seq_keeps ?y y1"
    using sequencing_safe [OF wf] by blast
  have wf1: "sys_wf y1" using wf y1(2) by (auto simp: seq_keeps_def shape_def sys_wf_def)
  obtain y2 where y2: "update_loops c ?t ?u y1 = Some y2" "keeps y1 y2"
    using update_loops_safe [OF wf1, of ?u c ?t] by auto
  have "irq_tag c v y = Some y2" using y1(1) y2(1) by (simp add: irq_tag_def)
  moreover have "shape y2 = shape y" using y1(2) y2(2) l by (auto simp: seq_keeps_def keeps_def)
  moreover have "TRR (io y2) = vs" using keeps_lock [OF y2(2)] y1(2) assms(2) by (simp add: seq_keeps_def)
  moreover have "own_bit y \<and> lock_reported y \<longrightarrow> lock_reported y2"
    using keeps_lock [OF y2(2)] y1(2) l by (simp add: seq_keeps_def)
  ultimately show ?thesis by blast
qed

lemma shape_wf: "shape y' = shape y \<Longrightarrow> sys_wf y' = sys_wf y \<and> own_bit y' = own_bit y"
  by (auto simp: shape_def sys_wf_def own_bit_def)

lemma irq_tags_safe:
  assumes "sys_wf y" "TRR (io y) = vs"
  shows "\<exists>y'. for_each (irq_tag c) vs y = Some y' \<and> shape y' = shape y \<and> TRR (io y') = []
    \<and> (own_bit y \<and> lock_reported y \<longrightarrow> lock_reported y')"
  using assms
proof (induction vs arbitrary: y)
  case Nil
  then show ?case by simp
next
  case (Cons v vs)
  obtain y1 where y1: "irq_tag c v y = Some y1" "shape y1 = shape y" "TRR (io y1) = vs"
      "own_bit y \<and> lock_reported y \<longrightarrow> lock_reported y1"
    using irq_tag_safe [OF Cons.prems] by blast
  obtain y2 where "for_each (irq_tag c) vs y1 = Some y2" "shape y2 = shape y1" "TRR (io y2) = []"
      "own_bit y1 \<and> lock_reported y1 \<longrightarrow> lock_reported y2"
    using Cons.IH [of y1] Cons.prems shape_wf [OF y1(2)] y1(3) by blast
  then show ?case using y1 shape_wf [OF y1(2)] by auto
qed

section \<open>Properties\<close>


definition example_aux :: aux where
  "example_aux = \<lparr>a_mode = 0, a_seq_state = AUX_DISABLED, a_div_ref = 0, a_div_fb = 0, a_phase_value = 0,
     a_dmtd = example_mpll, a_pad = 0, a_dbg = 0\<rparr>"

definition example_sys :: sys where
  "example_sys = \<lparr>sp = \<lparr>sp_mode = 3, sp_seq_state = SEQ_READY, sp_dac_timeout = 0, sp_delock_count = 0,
       sp_irq_count = 0, sp_ref_count = 0, sp_tag_count = 0, sp_mpll_shift_ps = 0, sp_helper = example_helper,
       sp_ext = em_s example_ext, sp_mpll = example_mpll, sp_aux = [example_aux, example_aux],
       sp_ptrackers = [example_pt]\<rparr>,
     gl = example_glob, io = example_hw\<lparr>TRR := [0x00000100, 0x01000200], OCCR := 0x10000\<rparr>\<rparr>"

lemma example_wf: "sys_wf example_sys"
  by (simp add: sys_wf_def example_sys_def example_glob_def)




end
