(* ===== verification/Softpll_Api.thy ===== *)
theory Softpll_Api
  imports Softpll "HOL-Library.Sublist"
begin

text \<open>
  \<^verbatim>\<open>softpll/softpll_ng.c\<close>, second part: initialisation, the auxiliary-clock state machine and the
  bottom half \<open>spll_update\<close>, and the functions the rest of the firmware calls.
\<close>

unbundle bit_operations_syntax

section \<open>Definitions\<close>

subsection \<open>Initialisation\<close>

text \<open>\<open>memset(&softpll, 0, sizeof(...))\<close>.\<close>

definition zero_pi :: spll_pi where
  "zero_pi = \<lparr>pi_ki = 0, pi_kp = 0, pi_shift = 0, pi_bias = 0, pi_integrator = 0, pi_anti_windup = False,
     pi_y_min = 0, pi_y_max = 0, pi_x = 0, pi_y = 0\<rparr>"

definition zero_ld :: spll_lock_det where
  "zero_ld = \<lparr>ld_lock_cnt = 0, ld_lock_samples = 0, ld_delock_samples = 0, ld_threshold = 0,
     ld_locked = False, ld_lock_changed = False\<rparr>"

definition zero_helper :: helper where
  "zero_helper = \<lparr>h_p_adder = 0, h_p_setpoint = 0, h_tag_d0 = 0, h_ref_src = 0, h_sample_n = 0,
     h_pi = zero_pi, h_ld = zero_ld, h_lock_start_ms = 0, h_last_lock_duration_ms = 0\<rparr>"

definition zero_mpll :: mpll where
  "zero_mpll = \<lparr>m_state = 0, m_pi = zero_pi, m_phase_ld = zero_ld, m_freq_ld = zero_ld, m_gain_sched = None,
     m_div_cnt = 0, m_div_fb = 0, m_div_ref = 0, m_n_ref = 0, m_n_out = 0, m_tag_out_raw_d = 0,
     m_tag_out_raw = 0, m_tag_out_interp = 0, m_dref_dt = 0, m_dout_dt = 0, m_tag_ref_raw_d = 0,
     m_tag_out_raw_d2 = 0, m_freq_prelock_gain_boost = 0, m_discard_early_cnt = 0, m_adder_ref = 0,
     m_adder_out = 0, m_tag_ref = 0, m_tag_ref_d = 0, m_tag_out = 0, m_tag_out_d = 0, m_locked = False,
     m_phase_shift_target = 0, m_phase_shift_current = 0, m_id_ref = 0, m_id_out = 0, m_sample_n = 0,
     m_dac_index = 0, m_enabled = False, m_ps_freeze = False, m_vco_freeze = False, m_dbg_src_id = 0,
     m_lock_start_ms = 0, m_last_phase_lock_duration_ms = 0, m_last_freq_lock_duration_ms = 0\<rparr>"

definition zero_ptracker :: ptracker where
  "zero_ptracker = \<lparr>pt_enabled = 0, pt_id = 0, pt_n_avg = 0, pt_acc = 0, pt_avg_count = 0,
     pt_preserve_sign = 0, pt_phase_val = 0, pt_ready = 0, pt_dbg_channel = 0\<rparr>"

definition zero_aux :: aux where
  "zero_aux = \<lparr>a_mode = 0, a_seq_state = AUX_UNSET, a_div_ref = 0, a_div_fb = 0, a_phase_value = 0,
     a_dmtd = zero_mpll, a_pad = 0, a_dbg = 0\<rparr>"

definition zero_softpll :: "spll_cfg \<Rightarrow> softpll_state" where
  "zero_softpll c = \<lparr>sp_mode = 0, sp_seq_state = SEQ_UNSET, sp_dac_timeout = 0, sp_delock_count = 0,
     sp_irq_count = 0, sp_ref_count = 0, sp_tag_count = 0, sp_mpll_shift_ps = 0, sp_helper = zero_helper,
     sp_ext = \<lparr>x_enabled = False, x_align_state = ALIGN_STATE_EXT_OFF, x_align_timer = 0,
       x_align_target = 0, x_align_step = 0, x_align_shift = 0, x_pps_latency_ps = 0\<rparr>,
     sp_mpll = zero_mpll, sp_aux = replicate (max_chan_aux c) zero_aux,
     sp_ptrackers = replicate (max_ptrackers c) zero_ptracker\<rparr>"

text \<open>The channel counts the hardware reports; at most three output channels are used.\<close>

definition read_channels :: "hw \<Rightarrow> spll_glob \<Rightarrow> spll_glob" where
  "read_channels h g =
     (let n_out = uint (drop_bit 24 (CSR h) AND 0x7) in
      g\<lparr>n_chan_ref := uint (drop_bit 16 (CSR h) AND 0x3f), n_chan_out := (if n_out > 3 then 3 else n_out)\<rparr>)"

definition spll_very_init :: "spll_cfg \<Rightarrow> sys \<Rightarrow> sys" where
  "spll_very_init c y =
     (let h = (io y)\<lparr>PPSG_ESCR := 0, PPSG_CR := 2 OR 1 OR push_bit 4 (pps_width c AND 0xfffffff)\<rparr>;
          s = (zero_softpll c)\<lparr>sp_mode := SPLL_MODE_DISABLED\<rparr>;
          g = read_channels h (gl y);
          (g, hp) = helper_very_init c g (sp_helper s)
      in \<lparr>sp = s\<lparr>sp_helper := hp\<rparr>, gl = g, io = h\<rparr>)"

definition init_aux :: "spll_cfg \<Rightarrow> int \<Rightarrow> int \<Rightarrow> sys \<Rightarrow> sys option" where
  "init_aux c slave_ref_channel i y =
     (if \<not> (0 \<le> i \<and> nat i < length (sp_aux (sp y))) then None
      else
        (let a = sp_aux (sp y) ! nat i;
             (g, m) = mpll_init c slave_ref_channel (n_chan_ref (gl y) + i + 1) (gl y, a_dmtd a)
         in Some (y\<lparr>sp := (sp y)\<lparr>sp_aux := (sp_aux (sp y))[nat i := a\<lparr>a_dmtd := m, a_seq_state := AUX_DISABLED\<rparr>]\<rparr>,
                    gl := g\<rparr>)))"

definition init_ptracker :: "int \<Rightarrow> sys \<Rightarrow> sys option" where
  "init_ptracker i y =
     (let pts = sp_ptrackers (sp y) in
      if 0 \<le> i \<and> nat i < length pts
      then Some (y\<lparr>sp := (sp y)\<lparr>sp_ptrackers := pts[nat i := ptracker_init i PTRACKER_AVERAGE_SAMPLES (pts ! nat i)]\<rparr>\<rparr>)
      else None)"

text \<open>The register writes of \<open>spll_init\<close>; the fields of \<open>CSR\<close> are status inputs.\<close>

definition init_registers :: "spll_cfg \<Rightarrow> hw \<Rightarrow> hw" where
  "init_registers c h =
     (eccr_write 0 h)\<lparr>OCER := 0, RCER := 0, EIC_IDR := 1, DAC_HPLL := 0, CSR := CSR h AND 0x0f3f0000,
        OCCR := 0, DEGLITCH_THR := deglitch_thr c, PPSG_CR := PPSG_CR h OR 2\<rparr>"

text \<open>Everything of \<open>spll_init\<close> before the grandmaster check.\<close>

definition spll_init_loops :: "spll_cfg \<Rightarrow> int \<Rightarrow> int \<Rightarrow> sys \<Rightarrow> sys option" where
  "spll_init_loops c mode slave_ref_channel y =
     (let g = read_channels (io y) (gl y);
          h = (init_registers c (io y))\<lparr>IRQ_EN := False\<rparr>;
          helper_ref = (if mode = SPLL_MODE_SLAVE then slave_ref_channel else n_chan_ref g);
          (g', m) = mpll_init c slave_ref_channel (n_chan_ref g) (g, sp_mpll (sp y));
          s = (sp y)\<lparr>sp_mode := mode, sp_delock_count := 0, sp_ref_count := 0, sp_tag_count := 0,
                sp_seq_state := (if mode = SPLL_MODE_DISABLED then SEQ_DISABLED else SEQ_CLEAR_DACS),
                sp_helper := helper_init helper_ref (sp_helper (sp y)), sp_mpll := m\<rparr>
      in do {
        y \<leftarrow> for_each (init_aux c slave_ref_channel) [0..n_chan_out g' - 2] \<lparr>sp = s, gl = g', io = h\<rparr>;
        for_each init_ptracker [0..n_chan_ref g' - 1] y
      })"

definition spll_init :: "spll_cfg \<Rightarrow> int \<Rightarrow> int \<Rightarrow> int \<Rightarrow> sys \<Rightarrow> sys option" where
  "spll_init c mode slave_ref_channel flags y = do {
     y \<leftarrow> spll_init_loops c mode slave_ref_channel y;
     if mode = SPLL_MODE_GRAND_MASTER \<and> \<not> EXT_SUPPORTED (io y) then Some y
     else
       (let y = (if mode = SPLL_MODE_GRAND_MASTER then
                   (let (x, hp, m, g) = external_init c (sp_ext (sp y), sp_helper (sp y), sp_mpll (sp y), gl y)
                    in y\<lparr>sp := (sp y)\<lparr>sp_ext := x, sp_helper := hp, sp_mpll := m\<rparr>, gl := g\<rparr>)
                 else y);
            h = (io y)\<lparr>TRR := []\<rparr>;
            h = (if bit (CSR h) 27 then h\<lparr>DFR_HOST := []\<rparr> else h)
        in if mode = SPLL_MODE_DISABLED then Some (y\<lparr>io := h\<rparr>)
           else Some (y\<lparr>io := h\<lparr>EIC_IER := 1, OCER := OCER h OR 1, IRQ_EN := True\<rparr>\<rparr>))
   }"

definition spll_shutdown :: "sys \<Rightarrow> sys" where
  "spll_shutdown y = y\<lparr>io := (eccr_write 0 (io y))\<lparr>IRQ_EN := False, OCER := 0, RCER := 0, EIC_IDR := 1\<rparr>\<rparr>"

subsection \<open>Channels\<close>

text \<open>The PLL of a channel: 0 is the main one, \<open>n > 0\<close> is auxiliary channel \<open>n - 1\<close>.\<close>

definition channel_mpll :: "int \<Rightarrow> softpll_state \<Rightarrow> mpll option" where
  "channel_mpll channel s =
     (if channel = 0 then Some (sp_mpll s)
      else if 1 \<le> channel \<and> nat channel \<le> length (sp_aux s) then Some (a_dmtd (sp_aux s ! nat (channel - 1)))
      else None)"

definition put_channel_mpll :: "int \<Rightarrow> mpll \<Rightarrow> softpll_state \<Rightarrow> softpll_state" where
  "put_channel_mpll channel m s =
     (if channel = 0 then s\<lparr>sp_mpll := m\<rparr>
      else s\<lparr>sp_aux := (sp_aux s)[nat (channel - 1) := (sp_aux s ! nat (channel - 1))\<lparr>a_dmtd := m\<rparr>]\<rparr>)"

definition spll_start_channel :: "spll_cfg \<Rightarrow> int \<Rightarrow> sys \<Rightarrow> (int \<times> sys) option" where
  "spll_start_channel c channel y =
     (if sp_seq_state (sp y) \<noteq> SEQ_READY \<or> channel = 0 then Some (- 1, y)
      else do {
        m \<leftarrow> channel_mpll channel (sp y);
        let a = sp_aux (sp y) ! nat (channel - 1);
        let m = (if cfg_frac_spll c then m\<lparr>m_div_cnt := 0, m_div_ref := a_div_ref a, m_div_fb := a_div_fb a\<rparr> else m);
        let (m, h) = mpll_start c (gl y) (m, io y);
        Some (0, y\<lparr>sp := put_channel_mpll channel m (sp y), io := h\<rparr>)
      })"

definition spll_stop_channel :: "int \<Rightarrow> sys \<Rightarrow> sys option" where
  "spll_stop_channel channel y =
     (if channel = 0 then Some y
      else do {
        m \<leftarrow> channel_mpll channel (sp y);
        let (m, h) = mpll_stop (gl y) (m, io y);
        Some (y\<lparr>sp := put_channel_mpll channel m (sp y), io := h\<rparr>)
      })"

definition spll_check_lock :: "int \<Rightarrow> sys \<Rightarrow> bool option" where
  "spll_check_lock channel y =
     (if channel = 0 then Some (sp_seq_state (sp y) = SEQ_READY)
      else if sp_seq_state (sp y) \<noteq> SEQ_READY then Some False
      else map_option (\<lambda>m. ld_locked (m_phase_ld m)) (channel_mpll channel (sp y)))"

definition to_picos :: "spll_cfg \<Rightarrow> int \<Rightarrow> int" where
  "to_picos c units = i32 (sar64 (i64 (units * clock_period_ps c)) (int HPLL_N))"

definition set_phase_shift :: "spll_cfg \<Rightarrow> int \<Rightarrow> int \<Rightarrow> sys \<Rightarrow> sys option" where
  "set_phase_shift c channel value_picoseconds y = do {
     m \<leftarrow> channel_mpll channel (sp y);
     Some (y\<lparr>sp := (put_channel_mpll channel (mpll_set_phase_shift c value_picoseconds m) (sp y))
               \<lparr>sp_mpll_shift_ps := value_picoseconds\<rparr>\<rparr>)
   }"

definition SPLL_ALL_CHANNELS :: int where "SPLL_ALL_CHANNELS = - 1"

definition spll_set_phase_shift :: "spll_cfg \<Rightarrow> int \<Rightarrow> int \<Rightarrow> sys \<Rightarrow> sys option" where
  "spll_set_phase_shift c channel value_picoseconds y =
     (if channel = SPLL_ALL_CHANNELS then do {
        y \<leftarrow> set_phase_shift c 0 value_picoseconds y;
        for_each (\<lambda>i y. if \<not> nat i < length (sp_aux (sp y)) then None
                        else if a_seq_state (sp_aux (sp y) ! nat i) = AUX_SLAVE_READY
                        then set_phase_shift c (i + 1) value_picoseconds y else Some y)
          [0..n_chan_out (gl y) - 2] y
      } else set_phase_shift c channel value_picoseconds y)"

text \<open>The current shift and the target, in picoseconds.\<close>

definition spll_get_phase_shift :: "spll_cfg \<Rightarrow> int \<Rightarrow> sys \<Rightarrow> (int \<times> int) option" where
  "spll_get_phase_shift c channel y = do {
     m \<leftarrow> channel_mpll channel (sp y);
     let d = (if divide_dmtd c then 2 else 1);
     Some (to_picos c (i32 (m_phase_shift_current m * d)), to_picos c (i32 (m_phase_shift_target m * d)))
   }"

definition spll_shifter_busy :: "int \<Rightarrow> sys \<Rightarrow> bool option" where
  "spll_shifter_busy channel y = map_option mpll_shifter_busy (channel_mpll channel (sp y))"

definition spll_get_num_channels :: "sys \<Rightarrow> int \<times> int" where
  "spll_get_num_channels y = (n_chan_ref (gl y), n_chan_out (gl y))"

definition spll_get_delock_count :: "sys \<Rightarrow> int" where
  "spll_get_delock_count y = sp_delock_count (sp y)"

subsection \<open>Phase trackers\<close>

text \<open>The phase of a tracker on the circle, doubled when the DMTD divides the clocks by two.\<close>

definition ptracker_phase :: "spll_cfg \<Rightarrow> int \<Rightarrow> int" where
  "ptracker_phase c v =
     (let phase = (if v < 0 then i32 (v + 2 ^ HPLL_N) else if v \<ge> 2 ^ HPLL_N then i32 (v - 2 ^ HPLL_N) else v)
      in if divide_dmtd c then low_bits HPLL_N (shl32 phase 1) else phase)"

text \<open>Phase in picoseconds, whether the tracker is enabled, and whether the value is ready.\<close>

definition spll_read_ptracker :: "spll_cfg \<Rightarrow> int \<Rightarrow> sys \<Rightarrow> (int \<times> bool \<times> int) option" where
  "spll_read_ptracker c channel y =
     (let pts = sp_ptrackers (sp y) in
      if 0 \<le> channel \<and> nat channel < length pts then
        (let p = pts ! nat channel
         in Some (to_picos c (ptracker_phase c (pt_phase_val p)),
                  ptracker_mask (gl y) AND bit_mask (pt_id p) \<noteq> 0, pt_ready p))
      else None)"

definition spll_set_ptracker_average_samples :: "int \<Rightarrow> int \<Rightarrow> sys \<Rightarrow> sys option" where
  "spll_set_ptracker_average_samples channel nsamples y =
     (let pts = sp_ptrackers (sp y) in
      if 0 \<le> channel \<and> nat channel < length pts then
        Some (y\<lparr>sp := (sp y)\<lparr>sp_ptrackers := pts[nat channel := (pts ! nat channel)\<lparr>pt_preserve_sign := 0,
                  pt_ready := 0, pt_acc := 0, pt_avg_count := 0, pt_n_avg := nsamples\<rparr>]\<rparr>,
                io := (io y)\<lparr>IRQ_EN := True\<rparr>\<rparr>)
      else None)"

definition spll_enable_ptracker :: "int \<Rightarrow> bool \<Rightarrow> sys \<Rightarrow> sys option" where
  "spll_enable_ptracker ref_channel enable y =
     (if enable then do {
        y \<leftarrow> start_ptracker ref_channel y;
        Some (y\<lparr>gl := (gl y)\<lparr>ptracker_mask := ptracker_mask (gl y) OR bit_mask ref_channel\<rparr>\<rparr>)
      } else
        (let y = y\<lparr>gl := (gl y)\<lparr>ptracker_mask := ptracker_mask (gl y) AND NOT (bit_mask ref_channel)\<rparr>\<rparr>
         in Some (if ref_channel \<noteq> m_id_ref (sp_mpll (sp y))
                  then y\<lparr>io := spll_enable_tagger (n_chan_ref (gl y)) ref_channel False (io y)\<rparr> else y)))"

subsection \<open>Auxiliary clocks\<close>

definition set_aux :: "int \<Rightarrow> aux \<Rightarrow> sys \<Rightarrow> sys" where
  "set_aux ch a y = y\<lparr>sp := (sp y)\<lparr>sp_aux := (sp_aux (sp y))[nat (ch - 1) := a]\<rparr>\<rparr>"

definition aux_status :: "int \<Rightarrow> bool \<Rightarrow> sys \<Rightarrow> sys" where
  "aux_status ch locked y = y\<lparr>io := set_channel_status ch locked (io y)\<rparr>"

definition aux_start :: "spll_cfg \<Rightarrow> int \<Rightarrow> aux \<Rightarrow> sys \<Rightarrow> (bool \<times> sys) option" where
  "aux_start c ch a y =
     (if a_mode a = SPLL_AUX_MODE_SLAVE then do {
        (r, y) \<leftarrow> spll_start_channel c ch y;
        Some (True, if r = 0 then set_aux ch ((sp_aux (sp y) ! nat (ch - 1))\<lparr>a_seq_state := AUX_LOCK_PLL\<rparr>) y else y)
      } else if a_mode a = SPLL_AUX_MODE_PHASE_MONITOR then
        (let t = ptracker_init (ch + n_chan_ref (gl y)) PTRACKER_AVERAGE_SAMPLES (aux_tracker a);
             (t, h) = ptracker_start (n_chan_ref (gl y)) t (io y)
         in Some (True, set_aux ch (put_tracker t (a\<lparr>a_seq_state := AUX_WAIT_MONITOR_LOCK\<rparr>)) (y\<lparr>io := h\<rparr>)))
      else Some (True, y))"

definition aux_monitor :: "int \<Rightarrow> aux \<Rightarrow> sys \<Rightarrow> bool \<times> sys" where
  "aux_monitor ch a y =
     (if \<not> m_locked (sp_mpll (sp y))
      then (True, set_aux ch (a\<lparr>a_seq_state := AUX_DISABLED\<rparr>) (aux_status ch False y))
      else (False, set_aux ch (a\<lparr>a_phase_value := pt_phase_val (aux_tracker a)\<rparr>) y))"

text \<open>\<open>spll_update_aux_clock\<close>; the state \<open>AUX_WAIT_MONITOR_LOCK\<close> falls through when it is not ready.\<close>

definition spll_update_aux_clock :: "spll_cfg \<Rightarrow> int \<Rightarrow> sys \<Rightarrow> (bool \<times> sys) option" where
  "spll_update_aux_clock c ch y =
     (if \<not> (1 \<le> ch \<and> nat ch \<le> length (sp_aux (sp y))) then None
      else
        (let a = sp_aux (sp y) ! nat (ch - 1); m_lock = m_locked (sp_mpll (sp y)) in
         if a_seq_state a \<noteq> AUX_DISABLED \<and> \<not> aux_locking_enabled ch (io y) then do {
           y \<leftarrow> spll_stop_channel ch y;
           Some (True, set_aux ch ((sp_aux (sp y) ! nat (ch - 1))\<lparr>a_seq_state := AUX_DISABLED\<rparr>) (aux_status ch False y))
         } else
           (case a_seq_state a of
              AUX_UNSET \<Rightarrow> Some (False, y)
            | AUX_DISABLED \<Rightarrow>
                (if m_lock \<and> aux_locking_enabled ch (io y) then aux_start c ch a y else Some (False, y))
            | AUX_WAIT_MONITOR_LOCK \<Rightarrow>
                Some (if pt_ready (aux_tracker a) \<noteq> 0
                      then (True, set_aux ch (a\<lparr>a_seq_state := AUX_MONITOR_READY,
                              a_phase_value := pt_phase_val (aux_tracker a)\<rparr>) (aux_status ch True y))
                      else aux_monitor ch a y)
            | AUX_MONITOR_READY \<Rightarrow> Some (aux_monitor ch a y)
            | AUX_LOCK_PLL \<Rightarrow>
                (if ld_locked (m_phase_ld (a_dmtd a)) then do {
                   y \<leftarrow> set_phase_shift c ch (sp_mpll_shift_ps (sp y)) y;
                   Some (True, set_aux ch ((sp_aux (sp y) ! nat (ch - 1))\<lparr>a_seq_state := AUX_ALIGN_PHASE\<rparr>) y)
                 } else Some (False, y))
            | AUX_ALIGN_PHASE \<Rightarrow>
                Some (if \<not> mpll_shifter_busy (a_dmtd a)
                      then (True, set_aux ch (a\<lparr>a_seq_state := AUX_SLAVE_READY\<rparr>) (aux_status ch True y))
                      else (False, y))
            | AUX_SLAVE_READY \<Rightarrow>
                Some (if \<not> m_lock \<or> \<not> ld_locked (m_phase_ld (a_dmtd a))
                      then (True, set_aux ch (a\<lparr>a_seq_state := AUX_DISABLED\<rparr>) (aux_status ch False y))
                      else (False, y)))))"

text \<open>The bottom half (the statistics block of the WR switch is not modelled).\<close>

definition spll_update_ext :: "spll_cfg \<Rightarrow> bool \<Rightarrow> sys \<Rightarrow> bool \<times> sys" where
  "spll_update_ext c ljd_ok y =
     (if sp_mode (sp y) = SPLL_MODE_GRAND_MASTER then
        (let (r, e) = external_align_fsm c ljd_ok
               \<lparr>em_s = sp_ext (sp y), em_hp = sp_helper (sp y), em_m = sp_mpll (sp y), em_g = gl y, em_h = io y\<rparr>
         in (r, \<lparr>sp = (sp y)\<lparr>sp_ext := em_s e, sp_helper := em_hp e, sp_mpll := em_m e\<rparr>, gl = em_g e, io = em_h e\<rparr>))
      else (False, y))"

definition spll_update :: "spll_cfg \<Rightarrow> bool \<Rightarrow> sys \<Rightarrow> (bool \<times> sys) option" where
  "spll_update c ljd_ok y =
     for_each (\<lambda>ch (r, y). do { (r', y) \<leftarrow> spll_update_aux_clock c ch y; Some (r \<or> r', y) })
       [1..n_chan_out (gl y) - 1] (spll_update_ext c ljd_ok y)"

text \<open>Flags, mode and phase.\<close>

definition spll_get_aux_status :: "spll_cfg \<Rightarrow> int \<Rightarrow> sys \<Rightarrow> nat \<times> int \<times> int" where
  "spll_get_aux_status c channel y =
     (if channel < 0 \<or> channel \<ge> int (max_chan_aux c) then (0, 0, 0)
      else
        (let a = sp_aux (sp y) ! nat channel;
             flags = (case a_seq_state a of AUX_LOCK_PLL \<Rightarrow> 1 | AUX_WAIT_MONITOR_LOCK \<Rightarrow> 4
                      | AUX_MONITOR_READY \<Rightarrow> 4 + 8 | AUX_SLAVE_READY \<Rightarrow> 4 + 2 | _ \<Rightarrow> 0)
         in (flags, a_mode a, a_phase_value a)))"

definition spll_set_aux_mode :: "int \<Rightarrow> int \<Rightarrow> sys \<Rightarrow> sys option" where
  "spll_set_aux_mode channel mode y =
     (if 0 \<le> channel \<and> nat channel < length (sp_aux (sp y))
      then Some (y\<lparr>sp := (sp y)\<lparr>sp_aux := (sp_aux (sp y))[nat channel := (sp_aux (sp y) ! nat channel)\<lparr>a_mode := mode\<rparr>]\<rparr>\<rparr>)
      else None)"

definition spll_set_aux_frequency_ratio :: "int \<Rightarrow> int \<Rightarrow> int \<Rightarrow> sys \<Rightarrow> sys option" where
  "spll_set_aux_frequency_ratio channel div_ref div_fb y =
     (if 0 \<le> channel \<and> nat channel < length (sp_aux (sp y))
      then Some (y\<lparr>sp := (sp y)\<lparr>sp_aux := (sp_aux (sp y))
             [nat channel := (sp_aux (sp y) ! nat channel)\<lparr>a_div_fb := div_fb, a_div_ref := div_ref\<rparr>]\<rparr>\<rparr>)
      else None)"

subsection \<open>DACs, gains and freezing\<close>

definition spll_get_dac :: "int \<Rightarrow> sys \<Rightarrow> int option" where
  "spll_get_dac index y =
     (if index < 0 then Some (pi_y (h_pi (sp_helper (sp y))))
      else map_option (\<lambda>m. pi_y (m_pi m)) (channel_mpll index (sp y)))"

definition spll_set_dac :: "int \<Rightarrow> int \<Rightarrow> sys \<Rightarrow> sys option" where
  "spll_set_dac index value y =
     (if index < 0 then
        Some (y\<lparr>sp := (sp y)\<lparr>sp_helper := (sp_helper (sp y))\<lparr>h_pi := (h_pi (sp_helper (sp y)))\<lparr>pi_y := value\<rparr>\<rparr>\<rparr>,
                io := (io y)\<lparr>DAC_HPLL := word_of_int value\<rparr>\<rparr>)
      else do {
        m \<leftarrow> channel_mpll index (sp y);
        Some (y\<lparr>sp := put_channel_mpll index (m\<lparr>m_pi := (m_pi m)\<lparr>pi_y := value\<rparr>\<rparr>) (sp y),
                io := (io y)\<lparr>DAC_MAIN := push_bit 24 (word_of_int index AND 0xf) OR (word_of_int value AND 0xffff)\<rparr>\<rparr>)
      })"

definition spll_set_gain_schedule :: "gain_schedule option \<Rightarrow> sys \<Rightarrow> sys" where
  "spll_set_gain_schedule sch y =
     y\<lparr>sp := (sp y)\<lparr>sp_mpll := (sp_mpll (sp y))\<lparr>m_gain_sched := sch\<rparr>\<rparr>, io := (io y)\<lparr>IRQ_EN := True\<rparr>\<rparr>"

definition pi_set_gain :: "int \<Rightarrow> int \<Rightarrow> int \<Rightarrow> spll_pi \<Rightarrow> spll_pi" where
  "pi_set_gain kp ki shift pi = pi\<lparr>pi_kp := kp, pi_ki := ki, pi_shift := shift\<rparr>"

text \<open>\<open>None\<close>: a stage outside the array of the schedule.\<close>

definition spll_set_pi_gain :: "int \<Rightarrow> int \<Rightarrow> int \<Rightarrow> int \<Rightarrow> int \<Rightarrow> sys \<Rightarrow> sys option" where
  "spll_set_pi_gain loop sched_stage kp ki shift y =
     (let s = sp y; hp = sp_helper s; m = sp_mpll s;
          direct = s\<lparr>sp_mpll := m\<lparr>m_pi := pi_set_gain kp ki shift (m_pi m)\<rparr>\<rparr>;
          r = (if loop = - 1 then Some (s\<lparr>sp_helper := hp\<lparr>h_pi := pi_set_gain kp ki shift (h_pi hp)\<rparr>\<rparr>)
               else if loop = 0 then
                 (case m_gain_sched m of
                    None \<Rightarrow> Some direct
                  | Some gs \<Rightarrow>
                      (if \<not> sched_stage < gs_n_stages gs then Some direct
                       else if sched_stage < 0 \<or> length (gs_stages gs) \<le> nat sched_stage then None
                       else
                         (let it = gs_stages gs ! nat sched_stage;
                              gs' = gs\<lparr>gs_stages := (gs_stages gs)[nat sched_stage := it\<lparr>gi_ki := ki, gi_kp := kp, gi_shift := shift\<rparr>]\<rparr>;
                              m' = m\<lparr>m_gain_sched := Some gs'\<rparr>
                          in Some (s\<lparr>sp_mpll := (if gs_current_stage gs = sched_stage
                                          then m'\<lparr>m_pi := pi_set_gain kp ki shift (m_pi m)\<rparr> else m')\<rparr>))))
               else Some s)
      in map_option (\<lambda>s. y\<lparr>sp := s, io := (io y)\<lparr>IRQ_EN := True\<rparr>\<rparr>) r)"

definition spll_set_pi_gain_kp_ki :: "int \<Rightarrow> int \<Rightarrow> int \<Rightarrow> sys \<Rightarrow> sys" where
  "spll_set_pi_gain_kp_ki loop kp ki y =
     (let s = sp y; hp = sp_helper s; m = sp_mpll s;
          s = (if loop = - 1 then s\<lparr>sp_helper := hp\<lparr>h_pi := (h_pi hp)\<lparr>pi_kp := kp, pi_ki := ki\<rparr>\<rparr>\<rparr>
               else if loop = 0 then s\<lparr>sp_mpll := m\<lparr>m_pi := (m_pi m)\<lparr>pi_kp := kp, pi_ki := ki\<rparr>\<rparr>\<rparr>
               else s)
      in y\<lparr>sp := s, io := (io y)\<lparr>IRQ_EN := True\<rparr>\<rparr>)"

definition spll_pshifter_freeze :: "bool \<Rightarrow> sys \<Rightarrow> sys" where
  "spll_pshifter_freeze freeze y = y\<lparr>sp := (sp y)\<lparr>sp_mpll := (sp_mpll (sp y))\<lparr>m_ps_freeze := freeze\<rparr>\<rparr>\<rparr>"

definition spll_vco_freeze :: "bool \<Rightarrow> sys \<Rightarrow> sys" where
  "spll_vco_freeze freeze y = y\<lparr>sp := (sp y)\<lparr>sp_mpll := (sp_mpll (sp y))\<lparr>m_vco_freeze := freeze\<rparr>\<rparr>\<rparr>"

definition spll_is_ext_supported :: "sys \<Rightarrow> bool" where
  "spll_is_ext_supported y = EXT_SUPPORTED (io y)"

definition spll_update_ext_pps_latency_ps :: "int \<Rightarrow> sys \<Rightarrow> sys" where
  "spll_update_ext_pps_latency_ps offset_ps y = y\<lparr>sp := (sp y)\<lparr>sp_ext := (sp_ext (sp y))\<lparr>x_pps_latency_ps := offset_ps\<rparr>\<rparr>\<rparr>"

subsection \<open>Debug queue\<close>

record debug_queue =
  undersample_ratio :: int
  undersample_count :: "u8 list"
  undersample_pass :: "bool list"
  coalesce_threshold :: int

definition spll_debug_queue_configure :: "int \<Rightarrow> int \<Rightarrow> hw \<Rightarrow> debug_queue \<times> hw" where
  "spll_debug_queue_configure undersample coalesce h =
     (\<lparr>undersample_ratio = undersample, undersample_count = replicate 8 0, undersample_pass = replicate 8 False,
       coalesce_threshold = i32 (coalesce * undersample)\<rparr>, h\<lparr>DFR_HOST := []\<rparr>)"

definition debug_source :: "u32 \<Rightarrow> nat" where "debug_source v = unat (drop_bit 28 v AND 7)"
definition debug_signal :: "u32 \<Rightarrow> nat" where "debug_signal v = unat (drop_bit 24 v AND 0xf)"

text \<open>One entry of the queue: whether it is passed on, and the counters after it.\<close>

definition debug_passes :: "u32 \<Rightarrow> debug_queue \<Rightarrow> bool" where
  "debug_passes v q \<longleftrightarrow> undersample_pass q ! debug_source v \<or> debug_signal v = 6"

definition debug_count :: "u32 \<Rightarrow> debug_queue \<Rightarrow> debug_queue" where
  "debug_count v q =
     (if bit v 31 then
        (let src = debug_source v; n = undersample_count q ! src + 1; hit = (uint n \<ge> undersample_ratio q)
         in q\<lparr>undersample_count := (undersample_count q)[src := if hit then 0 else n],
              undersample_pass := (undersample_pass q)[src := hit]\<rparr>)
      else q)"

text \<open>The copy loop, on what the FIFO holds: the entries written to \<open>buf\<close>, the rest, the counters.\<close>

fun debug_drain :: "u32 list \<Rightarrow> nat \<Rightarrow> nat \<Rightarrow> debug_queue \<Rightarrow> u32 list \<times> u32 list \<times> debug_queue" where
  "debug_drain [] n_ents count q = ([], [], q)"
| "debug_drain (v # vs) n_ents count q =
     (if n_ents = count then ([], v # vs, q)
      else
        (let p = debug_passes v q;
             (buf, rest, q') = debug_drain vs (if p then n_ents + 1 else n_ents) count (debug_count v q)
         in (if p then v # buf else buf, rest, q')))"

text \<open>\<open>full\<close> and \<open>usedw\<close> are the status fields of the queue when the function is entered.\<close>

definition spll_get_debug_queue_samples ::
  "bool \<Rightarrow> int \<Rightarrow> nat \<Rightarrow> debug_queue \<Rightarrow> hw \<Rightarrow> int \<times> u32 list \<times> debug_queue \<times> hw" where
  "spll_get_debug_queue_samples full usedw count q h =
     (if \<not> full \<and> usedw < coalesce_threshold q then (0, [], q, h)
      else
        (let (buf, rest, q) = debug_drain (DFR_HOST h) 0 count q
         in (if full then - 28 else 0, buf, q, h\<lparr>DFR_HOST := rest\<rparr>)))"

subsection \<open>Specification notions\<close>

text \<open>
  The SoftPLL in operation: initialised in some mode, then the interrupt handler and the bottom half
  in any order, while the hardware changes its registers (but not the lock report) and the host changes the
  set-points. \<open>slots\<close> says that the reference channel has a lock bit of its own.
\<close>

definition slots :: "sys \<Rightarrow> bool" where
  "slots y \<longleftrightarrow> own_bit y \<and> \<not> (1 \<le> m_id_ref (sp_mpll (sp y)) \<and> m_id_ref (sp_mpll (sp y)) < n_chan_out (gl y))"

inductive spll_reach :: "spll_cfg \<Rightarrow> sys \<Rightarrow> bool" for c where
  init: "\<lbrakk>spll_init c mode ref_channel flags y0 = Some y; sys_wf y; slots y\<rbrakk> \<Longrightarrow> spll_reach c y"
| irq: "\<lbrakk>spll_reach c y; spll_irq_entry c y = Some y'\<rbrakk> \<Longrightarrow> spll_reach c y'"
| update: "\<lbrakk>spll_reach c y; spll_update c ljd_ok y = Some (r, y')\<rbrakk> \<Longrightarrow> spll_reach c y'"
| shift: "\<lbrakk>spll_reach c y; spll_set_phase_shift c ch ps y = Some y'\<rbrakk> \<Longrightarrow> spll_reach c y'"
| environment: "\<lbrakk>spll_reach c y; OCCR h = OCCR (io y)\<rbrakk> \<Longrightarrow> spll_reach c (y\<lparr>io := h\<rparr>)"

section \<open>Facts\<close>

lemma channel_mpll_put:
  "channel_mpll ch s = Some m \<Longrightarrow> m_id_ref m' = m_id_ref m \<Longrightarrow>
     m_id_ref (sp_mpll (put_channel_mpll ch m' s)) = m_id_ref (sp_mpll s)
     \<and> length (sp_aux (put_channel_mpll ch m' s)) = length (sp_aux s)"
  by (auto simp: channel_mpll_def put_channel_mpll_def split: if_splits)

lemma put_channel_frame [simp]:
  "sp_seq_state (put_channel_mpll ch m s) = sp_seq_state s" "sp_ptrackers (put_channel_mpll ch m s) = sp_ptrackers s"
  "sp_mode (put_channel_mpll ch m s) = sp_mode s"
  by (simp_all add: put_channel_mpll_def)

text \<open>What the bottom half keeps: like \<open>keeps\<close>, but other channels' lock bits may change.\<close>

definition bh_keeps :: "sys \<Rightarrow> sys \<Rightarrow> bool" where
  "bh_keeps y y' \<longleftrightarrow> sys_wf y \<and> shape y' = shape y \<and> sp_seq_state (sp y') = sp_seq_state (sp y)
     \<and> (slots y \<longrightarrow> lock_bit y' = lock_bit y)"

lemma bh_keeps_refl: "sys_wf y \<Longrightarrow> bh_keeps y y" by (simp add: bh_keeps_def)

lemma slots_shape: "shape y' = shape y \<Longrightarrow> slots y' = slots y"
  by (auto simp: shape_def slots_def own_bit_def)

lemma bh_keeps_trans: "\<lbrakk>bh_keeps y y'; bh_keeps y' y''\<rbrakk> \<Longrightarrow> bh_keeps y y''"
  using slots_shape [of y' y] by (auto simp: bh_keeps_def)

lemma bh_keeps_wf: "bh_keeps y y' \<Longrightarrow> sys_wf y'"
  using shape_wf [of y' y] by (simp add: bh_keeps_def)

lemma bh_lock: "\<lbrakk>bh_keeps y y'; slots y; lock_reported y\<rbrakk> \<Longrightarrow> lock_reported y'"
  by (auto simp: bh_keeps_def lock_reported_def)

lemma occr_lock_disjoint:
  assumes "0 \<le> r" "r < 8" "r \<noteq> ch" "1 \<le> ch" "ch < 8"
  shows "occr_lock ch AND occr_lock r = 0"
proof -
  have "r \<in> {0, 1, 2, 3, 4, 5, 6, 7}" "ch \<in> {1, 2, 3, 4, 5, 6, 7}" using assms by auto
  then show ?thesis using assms(3) by (auto simp: occr_lock_def bit_mask_def)
qed

lemma set_status_other:
  assumes "occr_lock ch AND m = 0"
  shows "OCCR (set_channel_status ch b h) AND m = OCCR h AND m"
proof (rule bit_word_eqI)
  fix n assume n: "n < LENGTH(32)"
  have "\<not> (bit (occr_lock ch) n \<and> bit m n)"
    using arg_cong [OF assms, of "\<lambda>w. bit w n"] by (simp add: bit_simps)
  then show "bit (OCCR (set_channel_status ch b h) AND m) n = bit (OCCR h AND m) n"
    using n by (auto simp: set_channel_status_def bit_simps)
qed

lemma aux_status_keeps:
  assumes "sys_wf y" "1 \<le> ch" "ch < n_chan_out (gl y)" "n_chan_out (gl y) \<le> 8"
  shows "bh_keeps y (aux_status ch b y)"
proof -
  have "lock_bit (aux_status ch b y) = lock_bit y" if "slots y"
  proof -
    let ?r = "m_id_ref (sp_mpll (sp y))"
    have "occr_lock ch AND occr_lock ?r = 0"
      using that assms by (intro occr_lock_disjoint) (auto simp: slots_def own_bit_def)
    from set_status_other [OF this] show ?thesis by (simp add: lock_bit_def aux_status_def)
  qed
  then show ?thesis using assms(1) by (simp add: bh_keeps_def aux_status_def shape_def)
qed

lemma set_aux_keeps: "sys_wf y \<Longrightarrow> bh_keeps y (set_aux ch a y)"
  by (simp add: bh_keeps_def set_aux_def shape_def lock_bit_def)

lemma io_keeps: "\<lbrakk>sys_wf y; OCCR h = OCCR (io y)\<rbrakk> \<Longrightarrow> bh_keeps y (y\<lparr>io := h\<rparr>)"
  by (simp add: bh_keeps_def shape_def lock_bit_def)

lemma set_phase_shift_keeps:
  assumes "sys_wf y" "set_phase_shift c ch ps y = Some y'"
  shows "bh_keeps y y'"
proof -
  obtain m where m: "channel_mpll ch (sp y) = Some m"
    and y': "y' = y\<lparr>sp := (put_channel_mpll ch (mpll_set_phase_shift c ps m) (sp y))\<lparr>sp_mpll_shift_ps := ps\<rparr>\<rparr>"
    using assms(2) by (auto simp: set_phase_shift_def bind_eq_Some_conv)
  have "m_id_ref (mpll_set_phase_shift c ps m) = m_id_ref m" by (simp add: mpll_set_phase_shift_def)
  from channel_mpll_put [OF m this] show ?thesis
    using assms(1) by (simp add: y' bh_keeps_def shape_def lock_bit_def)
qed

lemma start_channel_keeps:
  assumes "sys_wf y" "spll_start_channel c ch y = Some (r, y')"
  shows "bh_keeps y y'"
proof (cases "sp_seq_state (sp y) \<noteq> SEQ_READY \<or> ch = 0")
  case True
  then show ?thesis using assms by (simp add: spll_start_channel_def bh_keeps_refl)
next
  case False
  let ?a = "sp_aux (sp y) ! nat (ch - 1)"
  obtain m where m: "channel_mpll ch (sp y) = Some m" using assms(2) False
    by (auto simp: spll_start_channel_def bind_eq_Some_conv)
  define m1 where "m1 = (if cfg_frac_spll c then m\<lparr>m_div_cnt := 0, m_div_ref := a_div_ref ?a, m_div_fb := a_div_fb ?a\<rparr> else m)"
  define q where "q = mpll_start c (gl y) (m1, io y)"
  have id: "m_id_ref (fst q) = m_id_ref m" by (simp add: q_def m1_def)
  have "quiet (snd q) = quiet (io y)" by (simp add: q_def)
  then have o: "OCCR (snd q) = OCCR (io y)" by (simp add: quiet_def)
  have "y' = y\<lparr>sp := put_channel_mpll ch (fst q) (sp y), io := snd q\<rparr>"
    using assms(2) False m by (simp add: spll_start_channel_def Let_def m1_def q_def case_prod_beta)
  then show ?thesis using assms(1) channel_mpll_put [OF m id] o
    by (simp add: bh_keeps_def shape_def lock_bit_def)
qed

lemma stop_channel_keeps:
  assumes "sys_wf y" "spll_stop_channel ch y = Some y'"
  shows "bh_keeps y y'"
proof (cases "ch = 0")
  case True
  then show ?thesis using assms by (simp add: spll_stop_channel_def bh_keeps_refl)
next
  case False
  obtain m where m: "channel_mpll ch (sp y) = Some m"
    and y': "y' = y\<lparr>sp := put_channel_mpll ch (fst (mpll_stop (gl y) (m, io y))) (sp y), io := snd (mpll_stop (gl y) (m, io y))\<rparr>"
    using assms(2) False by (auto simp: spll_stop_channel_def bind_eq_Some_conv Let_def case_prod_beta)
  have "m_id_ref (fst (mpll_stop (gl y) (m, io y))) = m_id_ref m"
    and "OCCR (snd (mpll_stop (gl y) (m, io y))) = OCCR (io y)"
    by (simp_all add: mpll_stop_def spll_enable_tagger_def)
  then show ?thesis using assms(1) channel_mpll_put [OF m] y' by (simp add: bh_keeps_def shape_def lock_bit_def)
qed

lemmas bh_rules = set_aux_keeps aux_status_keeps start_channel_keeps stop_channel_keeps set_phase_shift_keeps io_keeps

lemma set_aux_after: "bh_keeps y y' \<Longrightarrow> bh_keeps y (set_aux ch a y')"
  using bh_keeps_trans set_aux_keeps bh_keeps_wf by blast

lemma aux_monitor_keeps:
  assumes "sys_wf y" "1 \<le> ch" "ch < n_chan_out (gl y)" "n_chan_out (gl y) \<le> 8"
  shows "bh_keeps y (snd (aux_monitor ch a y))"
  using assms by (simp add: aux_monitor_def set_aux_after aux_status_keeps set_aux_keeps)

lemma aux_start_keeps:
  assumes "sys_wf y" "aux_start c ch a y = Some (r, y')"
  shows "bh_keeps y y'"
proof (cases "a_mode a = SPLL_AUX_MODE_SLAVE")
  case True
  then obtain q y1 where "spll_start_channel c ch y = Some (q, y1)"
      "y' = (if q = 0 then set_aux ch ((sp_aux (sp y1) ! nat (ch - 1))\<lparr>a_seq_state := AUX_LOCK_PLL\<rparr>) y1 else y1)"
    using assms(2) by (auto simp: aux_start_def bind_eq_Some_conv)
  then show ?thesis using start_channel_keeps [OF assms(1)] by (simp add: set_aux_after)
next
  case False
  have o: "OCCR (snd (ptracker_start n t h)) = OCCR h" for n t h
    by (simp add: ptracker_start_def spll_enable_tagger_def)
  show ?thesis using assms False
    by (auto simp: aux_start_def Let_def case_prod_beta o bh_keeps_refl intro!: set_aux_after io_keeps
        split: if_splits)
qed

lemma update_aux_clock_keeps:
  assumes wf: "sys_wf y" and ch: "1 \<le> ch" "ch < n_chan_out (gl y)" "n_chan_out (gl y) \<le> 8"
    and u: "spll_update_aux_clock c ch y = Some (r, y')"
  shows "bh_keeps y y'"
proof -
  let ?a = "sp_aux (sp y) ! nat (ch - 1)"
  note st = aux_status_keeps [OF wf ch]
  have inb: "1 \<le> ch \<and> nat ch \<le> length (sp_aux (sp y))"
    using u by (auto simp: spll_update_aux_clock_def split: if_splits)
  show ?thesis
  proof (cases "a_seq_state ?a \<noteq> AUX_DISABLED \<and> \<not> aux_locking_enabled ch (io y)")
    case True
    then obtain y1 where y1: "spll_stop_channel ch y = Some y1"
      and y': "y' = set_aux ch ((sp_aux (sp y1) ! nat (ch - 1))\<lparr>a_seq_state := AUX_DISABLED\<rparr>) (aux_status ch False y1)"
      using u inb by (auto simp: spll_update_aux_clock_def bind_eq_Some_conv)
    have k: "bh_keeps y y1" using stop_channel_keeps [OF wf y1] .
    then have "n_chan_out (gl y1) = n_chan_out (gl y)" by (simp add: bh_keeps_def shape_def)
    then have "bh_keeps y1 (aux_status ch False y1)" using ch bh_keeps_wf [OF k] by (intro aux_status_keeps) simp_all
    then show ?thesis unfolding y' by (intro set_aux_after bh_keeps_trans [OF k])
  next
    case False
    note u' = u [unfolded spll_update_aux_clock_def Let_def] inb False
    show ?thesis
    proof (cases "a_seq_state ?a")
      case AUX_LOCK_PLL
      show ?thesis
      proof (cases "ld_locked (m_phase_ld (a_dmtd ?a))")
        case True
        then obtain y1 where "set_phase_shift c ch (sp_mpll_shift_ps (sp y)) y = Some y1"
            "y' = set_aux ch ((sp_aux (sp y1) ! nat (ch - 1))\<lparr>a_seq_state := AUX_ALIGN_PHASE\<rparr>) y1"
          using u' AUX_LOCK_PLL by (auto simp: bind_eq_Some_conv)
        then show ?thesis using set_phase_shift_keeps [OF wf] by (simp add: set_aux_after)
      qed (use u' AUX_LOCK_PLL wf in \<open>auto simp: bh_keeps_refl\<close>)
    next
      case AUX_DISABLED
      then show ?thesis using u' wf aux_start_keeps [OF wf] by (auto simp: bh_keeps_refl split: if_splits)
    qed (use u' wf st set_aux_after [OF st] aux_monitor_keeps [OF wf ch, of ?a] in
        \<open>auto simp: bh_keeps_refl set_aux_keeps split: if_splits\<close>)
  qed
qed

subsection \<open>The bottom half\<close>

lemma external_fsm_frame:
  fixes c k e
  defines "e' \<equiv> snd (external_align_fsm c k e)"
  shows "OCCR (em_h e') = OCCR (em_h e) \<and> m_id_ref (em_m e') = m_id_ref (em_m e)
    \<and> n_chan_ref (em_g e') = n_chan_ref (em_g e) \<and> n_chan_out (em_g e') = n_chan_out (em_g e)"
proof -
  have q: "OCCR (snd (mpll_start c g (m, h))) = OCCR h" for g m h
    using quiet_mpll(3) [of c g m h] by (simp add: quiet_def)
  have a: "OCCR (snd (align_sample n h)) = OCCR h" for n h
    by (simp add: align_sample_def al_cr_ack_def Let_def)
  have p: "m_id_ref (mpll_set_phase_shift c v m) = m_id_ref m" for v m by (simp add: mpll_set_phase_shift_def)
  show ?thesis
    unfolding e'_def
    by (cases "x_align_state (em_s e)")
      (simp_all add: external_align_fsm_def align_defs case_prod_beta q a p eccr_write_def al_cr_ack_def
        escr_sync_def split: option.splits)
qed

lemma update_ext_keeps: "sys_wf y \<Longrightarrow> bh_keeps y (snd (spll_update_ext c k y))"
  using external_fsm_frame [of c k "\<lparr>em_s = sp_ext (sp y), em_hp = sp_helper (sp y), em_m = sp_mpll (sp y), em_g = gl y, em_h = io y\<rparr>"]
  by (simp add: spll_update_ext_def bh_keeps_refl bh_keeps_def shape_def lock_bit_def Let_def case_prod_beta)

lemma update_aux_clock_total:
  assumes "1 \<le> ch" "nat ch \<le> length (sp_aux (sp y))"
  shows "\<exists>r y'. spll_update_aux_clock c ch y = Some (r, y')"
proof -
  have m: "channel_mpll ch (sp y) = Some (a_dmtd (sp_aux (sp y) ! nat (ch - 1)))"
    using assms by (simp add: channel_mpll_def)
  have s: "\<exists>y'. spll_stop_channel ch y = Some y'" "\<exists>r y'. spll_start_channel c ch y = Some (r, y')"
      "\<exists>y'. set_phase_shift c ch (sp_mpll_shift_ps (sp y)) y = Some y'"
    using assms m by (simp_all add: spll_stop_channel_def spll_start_channel_def set_phase_shift_def Let_def case_prod_beta)
  show ?thesis
  proof (cases "a_seq_state (sp_aux (sp y) ! nat (ch - 1))")
  qed (use assms s in \<open>auto simp: spll_update_aux_clock_def aux_start_def Let_def case_prod_beta aux_monitor_def
        split: if_splits\<close>)
qed

text \<open>The loop of the bottom half, on the progress flag and the state.\<close>

definition update_step :: "spll_cfg \<Rightarrow> int \<Rightarrow> bool \<times> sys \<Rightarrow> (bool \<times> sys) option" where
  "update_step c ch ry = (case ry of (r, y) \<Rightarrow> do { (r', y) \<leftarrow> spll_update_aux_clock c ch y; Some (r \<or> r', y) })"

interpretation bottom_half: safe_machine "update_step c"
    "\<lambda>ch. 1 \<le> ch \<and> ch < n_chan_out (gl y0) \<and> n_chan_out (gl y0) \<le> 8" "\<lambda>ry. bh_keeps y0 (snd ry)" for c y0
proof unfold_locales
  fix ry :: "bool \<times> sys" and ch
  assume k: "bh_keeps y0 (snd ry)" and ch: "1 \<le> ch \<and> ch < n_chan_out (gl y0) \<and> n_chan_out (gl y0) \<le> 8"
  obtain r y where ry: "ry = (r, y)" by fastforce
  have wf: "sys_wf y" and n: "n_chan_out (gl y) = n_chan_out (gl y0)"
    using bh_keeps_wf [OF k] k by (simp_all add: ry bh_keeps_def shape_def)
  have "nat ch \<le> length (sp_aux (sp y))" using wf ch n by (auto simp: sys_wf_def)
  then obtain r' y' where u: "spll_update_aux_clock c ch y = Some (r', y')"
    using update_aux_clock_total [of ch y c] ch by auto
  have "bh_keeps y y'" by (rule update_aux_clock_keeps [OF wf _ _ _ u]) (use ch n in simp_all)
  then have "bh_keeps y0 y'" using bh_keeps_trans k ry by force
  then show "\<exists>s'. update_step c ch ry = Some s' \<and> bh_keeps y0 (snd s')" by (simp add: update_step_def ry u)
qed

lemma update_step_eq: "(\<lambda>ch (r, y). do { (r', y) \<leftarrow> spll_update_aux_clock c ch y; Some (r \<or> r', y) }) = update_step c"
  by (intro ext) (simp add: update_step_def)

lemma spll_update_safe:
  assumes "sys_wf y" "n_chan_out (gl y) \<le> 8"
  shows "\<exists>r y'. spll_update c k y = Some (r, y') \<and> bh_keeps y y'"
proof -
  have "\<exists>ry. for_each (update_step c) [1..n_chan_out (gl y) - 1] (spll_update_ext c k y) = Some ry \<and> bh_keeps y (snd ry)"
    using assms(2)
    by (intro bottom_half.run_safe update_ext_keeps [OF assms(1)]) (auto simp: list_all_iff)
  then show ?thesis by (auto simp: spll_update_def update_step_eq)
qed

lemma spll_set_phase_shift_keeps:
  assumes "sys_wf y" "spll_set_phase_shift c ch ps y = Some y'"
  shows "bh_keeps y y'"
proof (cases "ch = SPLL_ALL_CHANNELS")
  case False
  then show ?thesis using assms set_phase_shift_keeps by (simp add: spll_set_phase_shift_def)
next
  case True
  let ?f = "\<lambda>i y. if \<not> nat i < length (sp_aux (sp y)) then None
     else if a_seq_state (sp_aux (sp y) ! nat i) = AUX_SLAVE_READY then set_phase_shift c (i + 1) ps y else Some y"
  obtain y1 where y1: "set_phase_shift c 0 ps y = Some y1"
    and l: "for_each ?f [0..n_chan_out (gl y1) - 2] y1 = Some y'"
    using assms(2) True by (auto simp: spll_set_phase_shift_def bind_eq_Some_conv)
  have k: "bh_keeps y y1" using set_phase_shift_keeps [OF assms(1) y1] .
  show ?thesis
  proof (rule for_each_inv [where P = "bh_keeps y", OF l k])
    fix i s s' assume f: "?f i s = Some s'" and ks: "bh_keeps y s"
    then show "bh_keeps y s'"
      using set_phase_shift_keeps [OF bh_keeps_wf [OF ks]] bh_keeps_trans by (auto split: if_splits)
  qed
qed

subsection \<open>Initialisation and operation\<close>

lemma mpll_init_chan [simp]:
  "n_chan_ref (fst (mpll_init c r o' (g, s))) = n_chan_ref g" "n_chan_out (fst (mpll_init c r o' (g, s))) = n_chan_out g"
  by (simp_all add: mpll_init_def mpll_gains_def Let_def case_prod_beta)

lemma spll_init_loops_result:
  assumes "spll_init_loops c mode r y0 = Some y"
  shows "OCCR (io y) = 0 \<and> sp_seq_state (sp y) \<noteq> SEQ_READY \<and> n_chan_out (gl y) \<le> 3"
proof -
  let ?P = "\<lambda>y. OCCR (io y) = 0 \<and> sp_seq_state (sp y) \<noteq> SEQ_READY \<and> n_chan_out (gl y) \<le> 3"
  have n: "n_chan_out (read_channels h g) \<le> 3" for h g by (simp add: read_channels_def Let_def)
  obtain n y1 ym where l: "for_each (init_aux c r) n ym = Some y1" "?P ym"
    "for_each init_ptracker [0..n_chan_ref (gl ym) - 1] y1 = Some y"
    using assms n
    by (fastforce simp: spll_init_loops_def Let_def case_prod_beta bind_eq_Some_conv init_registers_def)
  have "?P y1"
    by (rule for_each_inv [where P = ?P, OF l(1,2)])
      (auto simp: init_aux_def Let_def case_prod_beta split: if_splits)
  then show ?thesis
    by (rule for_each_inv [where P = ?P, OF l(3)])
      (auto simp: init_ptracker_def Let_def split: if_splits)
qed

lemma spll_init_result:
  assumes "spll_init c mode r flags y0 = Some y"
  shows "lock_reported y" "n_chan_out (gl y) \<le> 3"
proof -
  obtain y1 where y1: "spll_init_loops c mode r y0 = Some y1" using assms
    by (auto simp: spll_init_def bind_eq_Some_conv)
  note a = spll_init_loops_result [OF y1]
  have "OCCR (io y) = OCCR (io y1) \<and> sp_seq_state (sp y) = sp_seq_state (sp y1) \<and> n_chan_out (gl y) = n_chan_out (gl y1)"
    using assms y1
    by (auto simp: spll_init_def Let_def case_prod_beta external_init_def split: if_splits)
  then show "lock_reported y" "n_chan_out (gl y) \<le> 3" using a by (simp_all add: lock_reported_def lock_bit_def)
qed

lemma spll_irq_result:
  assumes "sys_wf y" "spll_irq_entry c y = Some y'"
  shows "shape y' = shape y" "own_bit y \<Longrightarrow> lock_reported y \<Longrightarrow> lock_reported y'"
proof -
  obtain y1 where "for_each (irq_tag c) (TRR (io y)) y = Some y1" "shape y1 = shape y"
      "own_bit y \<and> lock_reported y \<longrightarrow> lock_reported y1"
    using irq_tags_safe [OF assms(1) refl] by blast
  then show "shape y' = shape y" "own_bit y \<Longrightarrow> lock_reported y \<Longrightarrow> lock_reported y'"
    using assms(2) by (auto simp: spll_irq_entry_def shape_def lock_reported_def lock_bit_def)
qed

lemma spll_reach_inv:
  "spll_reach c y \<Longrightarrow> sys_wf y \<and> slots y \<and> n_chan_out (gl y) \<le> 3 \<and> lock_reported y"
proof (induction rule: spll_reach.induct)
  case (init mode ref_channel flags y0 y)
  then show ?case using spll_init_result by blast
next
  case (irq y y')
  then have "sys_wf y" "own_bit y" by (simp_all add: slots_def)
  note r = spll_irq_result [OF this(1) irq.hyps(2)]
  have "n_chan_out (gl y') = n_chan_out (gl y)" using r(1) by (simp add: shape_def)
  then show ?case using irq.IH r shape_wf [OF r(1)] slots_shape [OF r(1)] by (simp add: slots_def)
next
  case (update y ljd_ok r y')
  then have "bh_keeps y y'" using spll_update_safe [of y c ljd_ok] by auto
  then show ?case using update.IH bh_keeps_wf [of y y'] bh_lock [of y y'] slots_shape [of y' y]
    by (auto simp: bh_keeps_def shape_def)
next
  case (shift y ch ps y')
  then have "bh_keeps y y'" using spll_set_phase_shift_keeps by blast
  then show ?case using shift.IH bh_keeps_wf [of y y'] bh_lock [of y y'] slots_shape [of y' y]
    by (auto simp: bh_keeps_def shape_def)
next
  case (environment y h)
  then show ?case by (simp add: sys_wf_def slots_def own_bit_def lock_reported_def lock_bit_def)
qed

subsection \<open>Phases in picoseconds\<close>

lemma to_picos_value:
  assumes "fits64 (u * clock_period_ps c)" "fits32 (u * clock_period_ps c div 16384)"
  shows "to_picos c u = u * clock_period_ps c div 16384"
  using assms by (simp add: to_picos_def sar64_def HPLL_N_def)

lemma to_picos_circle:
  assumes "0 \<le> u" "u < 16384" "0 < clock_period_ps c" "clock_period_ps c < 2147483648"
  shows "0 \<le> to_picos c u" "to_picos c u < clock_period_ps c" "to_picos c u = u * clock_period_ps c div 16384"
proof -
  let ?p = "clock_period_ps c"
  have b: "0 \<le> u * ?p" "u * ?p \<le> 16383 * ?p" using assms by (auto intro!: mult_right_mono)
  have "u * ?p < ?p * 16384" using b(2) assms(3) by linarith
  then have d: "0 \<le> u * ?p div 16384" "u * ?p div 16384 < ?p"
    using b(1) by (simp_all only: pos_imp_zdiv_nonneg_iff div_less_iff_less_mult zero_less_numeral)
  show e: "to_picos c u = u * ?p div 16384"
    using b d assms(4) by (intro to_picos_value fits64I fits32I) linarith+
  show "0 \<le> to_picos c u" "to_picos c u < ?p" using d by (simp_all add: e)
qed

lemma ptracker_phase_circle:
  assumes "- 16384 \<le> v" "v < 32768"
  shows "0 \<le> ptracker_phase c v" "ptracker_phase c v < 16384"
    "ptracker_phase c v mod 16384 = (if divide_dmtd c then 2 * v else v) mod 16384"
proof -
  define w where "w = (if v < 0 then v + 16384 else if v \<ge> 16384 then v - 16384 else v)"
  have w: "0 \<le> w" "w < 16384" using assms by (auto simp: w_def)
  have wm: "w mod 16384 = v mod 16384"
    by (simp add: w_def)
  have f: "fits32 (v + 16384)" "fits32 (v - 16384)" "fits32 (2 * w)"
    using assms w by (intro fits32I; linarith)+
  have "(if v < 0 then i32 (v + 2 ^ HPLL_N) else if v \<ge> 2 ^ HPLL_N then i32 (v - 2 ^ HPLL_N) else v) = w"
    using f(1,2) by (simp add: HPLL_N_def w_def)
  then have e: "ptracker_phase c v = (if divide_dmtd c then 2 * w mod 16384 else w)"
    using f(3) by (simp add: mult.commute [of w] ptracker_phase_def HPLL_N_def shl32_def low_bits_def)
  show "0 \<le> ptracker_phase c v" "ptracker_phase c v < 16384" using w by (simp_all add: e)
  show "ptracker_phase c v mod 16384 = (if divide_dmtd c then 2 * v else v) mod 16384"
    using wm mod_mult_cong [OF refl wm, of 2] by (simp add: e)
qed

subsection \<open>The union\<close>

lemma tracker_lens:
  assumes "fits32 (pt_phase_val t)" "fits32 (pt_ready t)"
  shows "aux_tracker (put_tracker t a) = t"
proof -
  let ?v = "pt_phase_val t" and ?r = "pt_ready t"
  have v: "i32 (?r * 4294967296 + ?v mod 4294967296) = ?v"
  proof -
    have "(?r * 4294967296 + ?v mod 4294967296) mod 4294967296 = ?v mod 4294967296" by simp
    from i32_eqI [OF this] show ?thesis using assms(1) by simp
  qed
  have r: "(?r * 4294967296 + ?v mod 4294967296) div 4294967296 = ?r" by simp
  show ?thesis using assms(2) by (simp add: aux_tracker_def put_tracker_def Let_def v r)
qed

subsection \<open>The debug queue\<close>

lemma debug_source_lt: "debug_source v < 8"
proof -
  have "drop_bit 28 v AND 7 \<le> (7 :: u32)" by (simp add: word_and_le1)
  then show ?thesis by (simp add: debug_source_def word_le_nat_alt)
qed

lemma debug_count_frame [simp]:
  "length (undersample_count (debug_count v q)) = length (undersample_count q)"
  "length (undersample_pass (debug_count v q)) = length (undersample_pass q)"
  "undersample_ratio (debug_count v q) = undersample_ratio q"
  by (simp_all add: debug_count_def Let_def)

lemma debug_drain_spec:
  assumes "debug_drain vs n count q = (buf, rest, q')" "n \<le> count"
  shows "\<exists>taken. vs = taken @ rest \<and> subseq buf taken \<and> n + length buf \<le> count
    \<and> filter (\<lambda>v. debug_signal v = 6) buf = filter (\<lambda>v. debug_signal v = 6) taken
    \<and> (rest \<noteq> [] \<longrightarrow> n + length buf = count)"
  using assms
proof (induction vs n count q arbitrary: buf rest q' rule: debug_drain.induct)
  case (1 n count q)
  then show ?case by simp
next
  case (2 v vs n count q)
  show ?case
  proof (cases "n = count")
    case True
    then show ?thesis using 2 by simp
  next
    case False
    let ?p = "debug_passes v q"
    obtain b r q2 where d: "debug_drain vs (if ?p then n + 1 else n) count (debug_count v q) = (b, r, q2)"
      by (metis prod_cases3)
    have r: "buf = (if ?p then v # b else b)" "rest = r" using 2(2) False d by (simp_all add: Let_def)
    have le: "(if ?p then n + 1 else n) \<le> count" using 2(3) False by simp
    obtain taken where t: "vs = taken @ r" "subseq b taken" "(if ?p then n + 1 else n) + length b \<le> count"
      "filter (\<lambda>v. debug_signal v = 6) b = filter (\<lambda>v. debug_signal v = 6) taken"
      "r \<noteq> [] \<longrightarrow> (if ?p then n + 1 else n) + length b = count"
      using 2(1) [OF False refl d le] by blast
    have "debug_signal v \<noteq> 6" if "\<not> ?p" using that by (simp add: debug_passes_def)
    with t show ?thesis by (intro exI [of _ "v # taken"]) (auto simp: r)
  qed
qed

text \<open>With an undersampling ratio above 255 no 8-bit counter reaches it: only events pass.\<close>

lemma debug_ratio_too_large:
  assumes "undersample_ratio q > 255" "undersample_pass q = replicate 8 False"
  shows "undersample_pass (debug_count v q) = replicate 8 False"
proof -
  have "uint (w :: u8) < 256" for w using uint_lt2p [of w] by simp
  then have "\<not> uint (w :: u8) \<ge> undersample_ratio q" for w using assms(1) by (smt (verit))
  then show ?thesis using assms(2) debug_source_lt [of v]
    by (simp add: debug_count_def Let_def list_update_same_conv)
qed

subsection \<open>Set-points\<close>

lemma sdiv_error:
  fixes a b :: int
  assumes "0 < b"
  shows "\<bar>a - (a sdiv b) * b\<bar> < b" "\<bar>a sdiv b\<bar> * b \<le> \<bar>a\<bar>"
proof -
  have e: "(a sdiv b) * b + a smod b = a" by (rule sdiv_mult_smod_eq)
  have m: "\<bar>a smod b\<bar> < b" "\<bar>a sdiv b\<bar> = \<bar>a\<bar> div b"
    using assms by (auto simp: signed_modulo_int_def signed_divide_int_def sgn_if abs_mult
        pos_imp_zdiv_nonneg_iff)
  show "\<bar>a - (a sdiv b) * b\<bar> < b" using e m(1) by linarith
  show "\<bar>a sdiv b\<bar> * b \<le> \<bar>a\<bar>" unfolding m(2) using assms
    by (metis mod_pos_pos_trivial div_mult_mod_eq le_add_same_cancel1 pos_mod_sign)
qed

lemma abs_scaled: "16384 * \<bar>x\<bar> < y \<longleftrightarrow> - y < 16384 * x \<and> 16384 * x < (y :: int)"
  by (auto simp: abs_if)

lemma phase_shift_error:
  fixes ps p d :: int
  assumes "0 < p" "d = 1 \<or> d = 2"
  defines "q \<equiv> (ps * 16384) sdiv p"
  defines "u \<equiv> q sdiv d * d"
  shows "16384 * \<bar>u * p div 16384 - ps\<bar> < 2 * p + 16384" "\<bar>u\<bar> \<le> \<bar>q\<bar>"
proof -
  have q: "\<bar>ps * 16384 - q * p\<bar> < p" unfolding q_def by (rule sdiv_error(1) [OF assms(1)])
  have d: "0 < d" using assms(2) by auto
  have u: "\<bar>q - u\<bar> < d" unfolding u_def by (rule sdiv_error(1) [OF d])
  then have "\<bar>q - u\<bar> \<le> 1" using assms(2) by auto
  then have "\<bar>(q - u) * p\<bar> \<le> p" using assms(1) by (simp add: abs_mult mult_le_cancel_right1)
  then have "\<bar>q * p - u * p\<bar> \<le> p" by (simp add: left_diff_distrib)
  moreover have "u * p div 16384 * 16384 + u * p mod 16384 = u * p" by (rule div_mult_mod_eq)
  moreover have "0 \<le> u * p mod 16384" "u * p mod 16384 < 16384" by simp_all
  moreover have "16384 * \<bar>k - ps\<bar> < 2 * p + 16384"
    if "\<bar>A - B\<bar> \<le> p" "k * 16384 + r = B" "0 \<le> r" "r < 16384" "\<bar>ps * 16384 - A\<bar> < p" for A B k r
    unfolding abs_scaled right_diff_distrib using that by (intro conjI) linarith+
  ultimately show "16384 * \<bar>u * p div 16384 - ps\<bar> < 2 * p + 16384" using q by blast
  show "\<bar>u\<bar> \<le> \<bar>q\<bar>" unfolding u_def using sdiv_error(2) [OF d, of q] d by (simp add: abs_mult)
qed

lemma set_get_phase_shift:
  assumes ps: "- 131072 < ps" "ps \<le> 1000000000" and p: "8000 \<le> clock_period_ps c" "clock_period_ps c \<le> 100000"
    and m: "m' = mpll_set_phase_shift c ps m"
  defines "d \<equiv> if divide_dmtd c then 2 else 1"
  shows "16384 * \<bar>to_picos c (i32 (m_phase_shift_target m' * d)) - ps\<bar> < 2 * clock_period_ps c + 16384"
proof -
  let ?p = "clock_period_ps c"
  define q where "q = (ps * 16384) sdiv ?p"
  define u where "u = q sdiv d * d"
  have pos: "0 < ?p" using p by linarith
  have d: "d = 1 \<or> d = 2" by (simp add: d_def)
  have "\<bar>q\<bar> * ?p \<le> \<bar>ps * 16384\<bar>" unfolding q_def by (rule sdiv_error(2) [OF pos])
  moreover have "\<bar>q\<bar> * 8000 \<le> \<bar>q\<bar> * ?p" using p(1) by (intro mult_left_mono) auto
  ultimately have qb: "\<bar>q\<bar> \<le> 2048000000" using ps by linarith
  note e = phase_shift_error [OF pos d, of ps, folded q_def, folded u_def]
  have "fits32 q" using qb by (intro fits32I) linarith+
  then have "from_picos c ps = q"
    using from_picos_spec [of ps c] ps p by (simp add: q_def)
  then have t: "m_phase_shift_target m' * d = u"
    by (simp add: m mpll_set_phase_shift_def u_def d_def)
  have f: "fits32 u" using e(2) qb by (intro fits32I) linarith+
  have "\<bar>u * ?p\<bar> \<le> 2048000000 * 100000"
    unfolding abs_mult using e(2) qb p pos by (intro mult_mono) linarith+
  then have g: "fits64 (u * ?p)" by (intro fits64I) linarith+
  have "16384 * \<bar>u * ?p div 16384 - ps\<bar> < 216384" using e(1) p(2) by linarith
  then have "- 216384 < 16384 * (u * ?p div 16384 - ps)" "16384 * (u * ?p div 16384 - ps) < 216384"
    unfolding abs_scaled by blast+
  note this [unfolded right_diff_distrib]
  then have "fits32 (u * ?p div 16384)" using ps by (intro fits32I) linarith+
  then show ?thesis using e(1) f g by (simp add: t to_picos_value)
qed

lemma channel_mpll_after:
  "channel_mpll ch s = Some m \<Longrightarrow> channel_mpll ch ((put_channel_mpll ch m' s)\<lparr>sp_mpll_shift_ps := v\<rparr>) = Some m'"
  by (auto simp: channel_mpll_def put_channel_mpll_def nat_less_iff split: if_splits)

section \<open>Properties\<close>



text \<open>
  The phase \<open>spll_read_ptracker\<close> returns for a tracker whose average lies within one turn of the
  circle, which is what the trackers publish, is a value in \<open>[0, period)\<close> picoseconds: the phase reduced to
  one turn, doubled when the DMTD divides the clocks by two.
\<close>

theorem spll_read_ptracker_range:
  assumes "0 \<le> ch" "nat ch < length (sp_ptrackers (sp y))" "0 < clock_period_ps c" "clock_period_ps c < 2147483648"
    "pt_phase_val (sp_ptrackers (sp y) ! nat ch) = v" "- (2 ^ HPLL_N) \<le> v" "v < 2 * 2 ^ HPLL_N"
  shows "\<exists>ps en rdy. spll_read_ptracker c ch y = Some (ps, en, rdy) \<and> 0 \<le> ps \<and> ps < clock_period_ps c
    \<and> ps = ((if divide_dmtd c then 2 * v else v) mod 2 ^ HPLL_N) * clock_period_ps c div 2 ^ HPLL_N"
proof -
  have v: "- 16384 \<le> v" "v < 32768" using assms(6,7) by (simp_all add: HPLL_N_def)
  note ph = ptracker_phase_circle [OF v, of c]
  have m: "ptracker_phase c v = (if divide_dmtd c then 2 * v else v) mod 16384"
    using ph by (metis mod_pos_pos_trivial)
  note r = to_picos_circle [OF ph(1,2) assms(3,4)]
  show ?thesis using assms(1,2,5) r m by (simp add: spll_read_ptracker_def Let_def HPLL_N_def)
qed

theorem spll_read_ptracker_range_witness:
  "\<exists>ps en rdy. spll_read_ptracker example_cfg 0
     (example_sys\<lparr>sp := (sp example_sys)\<lparr>sp_ptrackers := [example_pt\<lparr>pt_phase_val := - 100\<rparr>]\<rparr>\<rparr>) = Some (ps, en, rdy) \<and> ps = 7902"
  using spll_read_ptracker_range [of 0 "example_sys\<lparr>sp := (sp example_sys)\<lparr>sp_ptrackers := [example_pt\<lparr>pt_phase_val := - 100\<rparr>]\<rparr>\<rparr>"
      example_cfg "- 100"]
  by (simp add: example_cfg_def HPLL_N_def)

text \<open>
  Reading back a phase set-point: on any channel, \<open>spll_get_phase_shift\<close> after
  \<open>spll_set_phase_shift\<close> returns a target within two phase units and one picosecond of the requested
  value, for requests from -131 ns to 1 ms.
\<close>

theorem spll_phase_shift_roundtrip:
  assumes "channel_mpll ch (sp y) = Some m" "ch \<noteq> SPLL_ALL_CHANNELS"
    "- 131072 < ps" "ps \<le> 1000000000" "8000 \<le> clock_period_ps c" "clock_period_ps c \<le> 100000"
  shows "\<exists>y' cur tgt. spll_set_phase_shift c ch ps y = Some y' \<and> spll_get_phase_shift c ch y' = Some (cur, tgt)
    \<and> 2 ^ HPLL_N * \<bar>tgt - ps\<bar> < 2 * clock_period_ps c + 2 ^ HPLL_N"
proof -
  let ?m = "mpll_set_phase_shift c ps m"
  let ?y = "y\<lparr>sp := (put_channel_mpll ch ?m (sp y))\<lparr>sp_mpll_shift_ps := ps\<rparr>\<rparr>"
  have "spll_set_phase_shift c ch ps y = Some ?y"
    using assms(1,2) by (simp add: spll_set_phase_shift_def set_phase_shift_def)
  moreover have "channel_mpll ch (sp ?y) = Some ?m" using channel_mpll_after [OF assms(1)] by simp
  moreover have "16384 * \<bar>to_picos c (i32 (m_phase_shift_target ?m * (if divide_dmtd c then 2 else 1))) - ps\<bar>
      < 2 * clock_period_ps c + 16384"
    by (rule set_get_phase_shift [OF assms(3-6) refl])
  ultimately show ?thesis by (cases "divide_dmtd c") (simp_all add: spll_get_phase_shift_def HPLL_N_def)
qed

theorem spll_phase_shift_roundtrip_witness:
  "\<exists>y' cur tgt. spll_set_phase_shift example_cfg 1 4000 example_sys = Some y'
     \<and> spll_get_phase_shift example_cfg 1 y' = Some (cur, tgt) \<and> 2 ^ HPLL_N * \<bar>tgt - 4000\<bar> < 2 * 8000 + 2 ^ HPLL_N"
  using spll_phase_shift_roundtrip [of 1 example_sys example_mpll 4000 example_cfg]
  by (simp add: channel_mpll_def example_sys_def example_aux_def SPLL_ALL_CHANNELS_def example_cfg_def)

text \<open>
  \<open>spll_get_debug_queue_samples\<close> writes at most \<open>count\<close> entries to the caller's buffer; what it writes
  is a subsequence of the entries it removed from the front of the queue, it removes as long as
  there is room, and no event entry it removed is dropped by the undersampling.
\<close>

theorem debug_queue_samples_bounded:
  assumes "spll_get_debug_queue_samples full usedw count q h = (r, buf, q', h')"
  shows "length buf \<le> count
    \<and> (\<exists>taken. DFR_HOST h = taken @ DFR_HOST h' \<and> subseq buf taken
         \<and> filter (\<lambda>v. debug_signal v = 6) buf = filter (\<lambda>v. debug_signal v = 6) taken)
    \<and> (full \<and> DFR_HOST h' \<noteq> [] \<longrightarrow> length buf = count)"
proof (cases "\<not> full \<and> usedw < coalesce_threshold q")
  case True
  then show ?thesis using assms by (simp add: spll_get_debug_queue_samples_def)
next
  case False
  obtain b rest q2 where d: "debug_drain (DFR_HOST h) 0 count q = (b, rest, q2)" by (metis prod_cases3)
  then have "buf = b" "DFR_HOST h' = rest" using assms False by (auto simp: spll_get_debug_queue_samples_def)
  then show ?thesis using debug_drain_spec [OF d] by auto
qed

theorem debug_queue_samples_bounded_witness:
  "length (fst (snd (spll_get_debug_queue_samples True 3 1 (fst (spll_debug_queue_configure 1 0 example_hw))
     (example_hw\<lparr>DFR_HOST := [0x06000001, 0x86000002, 0x80000003]\<rparr>)))) \<le> 1"
  by (metis debug_queue_samples_bounded prod.exhaust_sel)

text \<open>
  The phase tracker of an auxiliary channel shares its memory with the channel's PLL. Every value
  stored through the tracker is read back through it; but storing it overwrites the PLL's
  regulator: starting a phase monitor with \<open>ptracker_init\<close> leaves the PLL with an integral gain of
  512 and a zero proportional gain, which \<open>spll_start_channel\<close> does not restore.
\<close>

theorem aux_union_overlay:
  assumes "fits32 (pt_phase_val t)" "fits32 (pt_ready t)" "t = ptracker_init ident PTRACKER_AVERAGE_SAMPLES (aux_tracker a)"
  shows "aux_tracker (put_tracker t a) = t
    \<and> pi_ki (m_pi (a_dmtd (put_tracker t a))) = 512 \<and> pi_kp (m_pi (a_dmtd (put_tracker t a))) = 0
    \<and> (m_gain_sched (a_dmtd a) = None \<longrightarrow>
         pi_ki (m_pi (fst (mpll_start c g (a_dmtd (put_tracker t a), h)))) = 512)"
  using tracker_lens [OF assms(1,2), of a]
  by (auto simp: assms(3) put_tracker_def ptracker_init_def PTRACKER_AVERAGE_SAMPLES_def Let_def mpll_start_def pi_init_def
      split: option.splits)

theorem aux_union_overlay_witness:
  "aux_tracker (put_tracker (ptracker_init 2 PTRACKER_AVERAGE_SAMPLES (aux_tracker example_aux)) example_aux)
     = ptracker_init 2 PTRACKER_AVERAGE_SAMPLES (aux_tracker example_aux)"
proof -
  let ?t = "ptracker_init 2 PTRACKER_AVERAGE_SAMPLES (aux_tracker example_aux)"
  have "fits32 (pt_phase_val ?t)" "fits32 (pt_ready ?t)"
    by (simp_all add: ptracker_init_def aux_tracker_def Let_def) (simp add: fits32_def)
  from aux_union_overlay [OF this refl] show ?thesis by blast
qed



text \<open>
  \<open>spll_set_dac\<close> keeps only the low 16 bits of the value it writes to a main or auxiliary DAC, while
  the register field is 24 bits wide and \<open>spll_get_dac\<close> reports the full value: on boards with 20- or 24-bit
  DACs the oscillator gets another value than the one reported.
\<close>

theorem spll_set_dac_truncates:
  assumes "channel_mpll index (sp y) = Some m" "0 \<le> index" "index < 16" "0 \<le> v" "v < 2 ^ 24"
  shows "\<exists>y'. spll_set_dac index v y = Some y' \<and> spll_get_dac index y' = Some v
    \<and> uint (DAC_MAIN (io y') AND 0xffffff) = v mod 65536 \<and> uint (drop_bit 24 (DAC_MAIN (io y'))) = index"
proof -
  have vb: "0 \<le> v mod 65536" "v mod 65536 < 2 ^ 24"
    by (simp, rule less_trans [OF pos_mod_bound], simp_all)
  have "word_of_int v AND 0xffff = (word_of_int (v mod 65536) :: u32)"
  proof -
    have "(0xffff :: u32) = mask 16" by (simp add: mask_eq_exp_minus_1)
    then have "word_of_int v AND 0xffff = (take_bit 16 (word_of_int v) :: u32)" by (simp add: take_bit_eq_mask)
    then have "word_of_int v AND 0xffff = (word_of_int (take_bit 16 v) :: u32)" by (simp only: take_bit_word_of_int)
    then show ?thesis by (simp only: take_bit_eq_mod) simp
  qed
  moreover have "word_of_int (v mod 65536) AND 0xffffff = (word_of_int (v mod 65536) :: u32)"
  proof -
    have "(0xffffff :: u32) = mask 24" by (simp add: mask_eq_exp_minus_1)
    then have "word_of_int (v mod 65536) AND 0xffffff = (take_bit 24 (word_of_int (v mod 65536)) :: u32)"
      by (simp add: take_bit_eq_mask)
    then show ?thesis using vb by (simp only: take_bit_word_of_int take_bit_int_eq_self)
  qed
  ultimately have w: "push_bit 24 (word_of_int index AND 0xf) OR (word_of_int v AND 0xffff) = dac_main_word (v mod 65536) index"
    by (simp add: dac_main_word_def or.commute)
  note f = dac_main_word_fields [OF vb assms(2,3)]
  let ?m = "m\<lparr>m_pi := (m_pi m)\<lparr>pi_y := v\<rparr>\<rparr>"
  have g: "channel_mpll index (put_channel_mpll index ?m (sp y)) = Some ?m"
    using assms(1) by (auto simp: channel_mpll_def put_channel_mpll_def split: if_splits)
  show ?thesis unfolding spll_set_dac_def spll_get_dac_def w using assms(1,2) f g by simp
qed

theorem spll_set_dac_truncates_witness:
  "\<exists>y'. spll_set_dac 0 65541 example_sys = Some y' \<and> spll_get_dac 0 y' = Some 65541
     \<and> uint (DAC_MAIN (io y') AND 0xffffff) = 5"
  using spll_set_dac_truncates [of 0 example_sys example_mpll 65541]
  by (auto simp: channel_mpll_def example_sys_def)

end
