(* ===== verification/Event_Queue.thy ===== *)
theory Event_Queue
  imports Wrpc_Prelude
begin

text \<open>
  \<^verbatim>\<open>lib/event.c\<close>: event handlers, each with a ring of eight pending events. \<open>event_post\<close> puts an event in the ring
  of every enabled handler whose mask has it; \<open>event_poll\<close> takes the oldest one; \<open>events_dispatch\<close>
  calls every handler that has one pending. A callback is a value of type \<open>'f\<close> and \<open>call\<close>, an argument of the
  dispatcher, says what calling it does, to the event system included.

  Results: the ring is a bounded FIFO queue (an instance of the \<open>bounded_queue\<close> interface) whose indices
  never leave the array; what a handler has pending after any sequence of posts is what it had, followed by the
  matching events in order, cut at eight.
\<close>

unbundle bit_operations_syntax

section \<open>Definitions\<close>

definition MAX_EVENTS_PER_QUEUE :: nat where "MAX_EVENTS_PER_QUEUE = 8"
definition MAX_EVENT_HANDLERS :: nat where "MAX_EVENT_HANDLERS = 8"

record event_queue =
  eq_data :: "u8 list"
  eq_head :: u8
  eq_tail :: u8
  eq_count :: u8
  eq_size :: u8

record 'f event_handler =
  eh_queue :: event_queue
  eh_enabled :: bool
  eh_event_mask :: u32
  eh_handler :: "'f option"

record 'f events =
  ev_handlers :: "'f event_handler list"
  ev_count :: nat

definition queue_put :: "u8 \<Rightarrow> event_queue \<Rightarrow> event_queue" where
  "queue_put c q =
     (if eq_count q \<ge> eq_size q then q
      else
        (let q = q\<lparr>eq_data := (eq_data q)[unat (eq_head q) := c], eq_head := eq_head q + 1, eq_count := eq_count q + 1\<rparr>
         in if eq_head q \<ge> eq_size q then q\<lparr>eq_head := 0\<rparr> else q))"

text \<open>\<open>queue_get\<close> returns -1 on an empty queue; its callers never call it there. This is the other case.\<close>

definition queue_take :: "event_queue \<Rightarrow> u8 \<times> event_queue" where
  "queue_take q =
     (let rv = eq_data q ! unat (eq_tail q);
          q = q\<lparr>eq_tail := eq_tail q + 1\<rparr>;
          q = (if eq_tail q \<ge> eq_size q then q\<lparr>eq_tail := 0\<rparr> else q)
      in (rv, q\<lparr>eq_count := eq_count q - 1\<rparr>))"

definition queue_get :: "event_queue \<Rightarrow> int \<times> event_queue" where
  "queue_get q = (if eq_count q = 0 then (- 1, q) else (let (rv, q) = queue_take q in (uint rv, q)))"

definition queue_init :: "event_queue \<Rightarrow> event_queue" where
  "queue_init q = q\<lparr>eq_head := 0, eq_tail := 0, eq_count := 0, eq_size := of_nat MAX_EVENTS_PER_QUEUE\<rparr>"

definition queue_full :: "event_queue \<Rightarrow> bool" where
  "queue_full q \<longleftrightarrow> eq_size q = eq_count q"

definition queue_purge :: "event_queue \<Rightarrow> event_queue" where
  "queue_purge q = q\<lparr>eq_head := 0, eq_tail := 0, eq_count := 0\<rparr>"

definition event_handler_register :: "u32 \<Rightarrow> bool \<Rightarrow> 'f option \<Rightarrow> 'f events \<Rightarrow> int \<times> 'f events" where
  "event_handler_register emask enable func e =
     (if ev_count e \<ge> MAX_EVENT_HANDLERS then (- 1, e)
      else
        (let rv = ev_count e; eh = ev_handlers e ! rv
         in (int rv, e\<lparr>ev_count := rv + 1,
               ev_handlers := (ev_handlers e)[rv := eh\<lparr>eh_enabled := enable, eh_event_mask := emask,
                 eh_handler := func, eh_queue := queue_init (eh_queue eh)\<rparr>]\<rparr>)))"

definition event_listener_create :: "'f events \<Rightarrow> int \<times> 'f events" where
  "event_listener_create e = event_handler_register (- 1) True None e"

text \<open>\<open>None\<close>: a handler id outside the array.\<close>

definition event_handler_enable :: "nat \<Rightarrow> bool \<Rightarrow> 'f events \<Rightarrow> 'f events option" where
  "event_handler_enable ident enable e =
     (if ident < length (ev_handlers e)
      then Some (e\<lparr>ev_handlers := (ev_handlers e)[ident := (ev_handlers e ! ident)\<lparr>eh_enabled := enable\<rparr>]\<rparr>)
      else None)"

definition accepts :: "nat \<Rightarrow> 'f event_handler \<Rightarrow> bool" where
  "accepts event eh \<longleftrightarrow> eh_enabled eh \<and> eh_event_mask eh AND push_bit (event mod 32) 1 \<noteq> 0"

definition post_to :: "nat \<Rightarrow> 'f event_handler \<Rightarrow> 'f event_handler" where
  "post_to event eh = (if accepts event eh then eh\<lparr>eh_queue := queue_put (of_nat event) (eh_queue eh)\<rparr> else eh)"

text \<open>\<open>use_events\<close> is \<open>BOARD_USE_EVENTS\<close>.\<close>

definition event_post :: "bool \<Rightarrow> nat \<Rightarrow> 'f events \<Rightarrow> 'f events" where
  "event_post use_events event e =
     (if \<not> use_events then e
      else e\<lparr>ev_handlers := map (post_to event) (take (ev_count e) (ev_handlers e)) @ drop (ev_count e) (ev_handlers e)\<rparr>)"

definition event_poll :: "nat \<Rightarrow> 'f events \<Rightarrow> (int \<times> 'f events) option" where
  "event_poll handler e =
     (if \<not> handler < length (ev_handlers e) then None
      else
        (let eh = ev_handlers e ! handler in
         if \<not> eh_enabled eh then Some (0, e)
         else if eq_count (eh_queue eh) = 0 then Some (0, e)
         else
           (let (rv, q) = queue_get (eh_queue eh)
            in Some (rv, e\<lparr>ev_handlers := (ev_handlers e)[handler := eh\<lparr>eh_queue := q\<rparr>]\<rparr>))))"

definition events_init :: "'f events \<Rightarrow> 'f events" where
  "events_init e = e\<lparr>ev_count := 0, ev_handlers := map (eh_enabled_update (\<lambda>_. False)) (ev_handlers e)\<rparr>"

definition dispatch_one :: "('f \<Rightarrow> int \<Rightarrow> 'f events \<Rightarrow> 'f events) \<Rightarrow> nat \<Rightarrow> 'f events \<Rightarrow> 'f events" where
  "dispatch_one call i e =
     (let eh = ev_handlers e ! i in
      if \<not> eh_enabled eh \<or> eq_count (eh_queue eh) = 0 then e
      else
        (case eh_handler eh of
           None \<Rightarrow> e
         | Some f \<Rightarrow>
             (let (rv, q) = queue_get (eh_queue eh)
              in call f rv (e\<lparr>ev_handlers := (ev_handlers e)[i := eh\<lparr>eh_queue := q\<rparr>]\<rparr>))))"

text \<open>The loop re-reads the handler count, which a callback may have raised; at most eight handlers exist.\<close>

fun dispatch_from :: "('f \<Rightarrow> int \<Rightarrow> 'f events \<Rightarrow> 'f events) \<Rightarrow> nat \<Rightarrow> nat \<Rightarrow> 'f events \<Rightarrow> 'f events" where
  "dispatch_from call 0 i e = e"
| "dispatch_from call (Suc n) i e =
     (if i < ev_count e then dispatch_from call n (i + 1) (dispatch_one call i e) else e)"

definition events_dispatch :: "('f \<Rightarrow> int \<Rightarrow> 'f events \<Rightarrow> 'f events) \<Rightarrow> 'f events \<Rightarrow> 'f events" where
  "events_dispatch call e = dispatch_from call MAX_EVENT_HANDLERS 0 e"

text \<open>Specification: the pending events of a ring, oldest first, and its invariant.\<close>

definition pending :: "event_queue \<Rightarrow> u8 list" where
  "pending q = map (\<lambda>i. eq_data q ! ((unat (eq_tail q) + i) mod unat (eq_size q))) [0..<unat (eq_count q)]"

definition ring_ok :: "event_queue \<Rightarrow> bool" where
  "ring_ok q \<longleftrightarrow> 0 < unat (eq_size q) \<and> unat (eq_size q) \<le> length (eq_data q) \<and> unat (eq_size q) < 256
     \<and> unat (eq_tail q) < unat (eq_size q) \<and> unat (eq_count q) \<le> unat (eq_size q)
     \<and> unat (eq_head q) = (unat (eq_tail q) + unat (eq_count q)) mod unat (eq_size q)"

definition events_ok :: "'f events \<Rightarrow> bool" where
  "events_ok e \<longleftrightarrow> length (ev_handlers e) = MAX_EVENT_HANDLERS \<and> ev_count e \<le> MAX_EVENT_HANDLERS
     \<and> (\<forall>i < ev_count e. ring_ok (eh_queue (ev_handlers e ! i)))"

section \<open>Facts\<close>

lemma u8_next: "unat (w :: u8) + 1 < 256 \<Longrightarrow> unat (w + 1) = unat w + 1"
  using unat_add_lem [of w 1] by simp

lemma u8_prev: "0 < unat (w :: u8) \<Longrightarrow> unat (w - 1) = unat w - 1"
  by (subst unat_sub) (auto simp: word_le_nat_alt)

text \<open>Stepping an index around the ring.\<close>

lemma ring_step:
  assumes "unat (h :: u8) < unat n" "unat n < 256"
  shows "unat (if h + 1 \<ge> n then 0 else h + 1) = (unat h + 1) mod unat n"
proof -
  have "unat (h + 1) = unat h + 1" using assms by (intro u8_next) linarith
  then show ?thesis using assms by (cases "unat n = unat h + 1") (auto simp: word_le_nat_alt mod_less)
qed

lemma ring_distinct:
  assumes "i < c" "c < (n :: nat)"
  shows "(t + i) mod n \<noteq> (t + c) mod n"
proof
  assume "(t + i) mod n = (t + c) mod n"
  then have "n dvd (t + c) - (t + i)" by (metis assms(1) add_le_cancel_left less_imp_le mod_eq_dvd_iff_nat)
  then show False using assms by (auto dest: dvd_imp_le)
qed

lemma queue_put_fields:
  assumes "ring_ok q" "unat (eq_count q) < unat (eq_size q)"
  shows "eq_data (queue_put c q) = (eq_data q)[unat (eq_head q) := c]" "eq_tail (queue_put c q) = eq_tail q"
    "eq_size (queue_put c q) = eq_size q" "unat (eq_count (queue_put c q)) = unat (eq_count q) + 1"
    "unat (eq_head (queue_put c q)) = (unat (eq_head q) + 1) mod unat (eq_size q)"
proof -
  have n: "\<not> eq_count q \<ge> eq_size q" using assms(2) by (simp add: word_le_nat_alt)
  have h: "unat (eq_head q) < unat (eq_size q)" "unat (eq_size q) < 256" using assms(1) by (auto simp: ring_ok_def)
  show "eq_data (queue_put c q) = (eq_data q)[unat (eq_head q) := c]" "eq_tail (queue_put c q) = eq_tail q"
    "eq_size (queue_put c q) = eq_size q"
    using n by (simp_all add: queue_put_def Let_def)
  show "unat (eq_count (queue_put c q)) = unat (eq_count q) + 1"
    using n assms(2) h(2) by (simp add: queue_put_def Let_def u8_next)
  show "unat (eq_head (queue_put c q)) = (unat (eq_head q) + 1) mod unat (eq_size q)"
    using ring_step [OF h] n by (simp add: queue_put_def Let_def split: if_splits)
qed

lemma queue_put_spec:
  assumes ok: "ring_ok q" and room: "unat (eq_count q) < unat (eq_size q)"
  shows "ring_ok (queue_put c q)" "pending (queue_put c q) = pending q @ [c]"
proof -
  note f = queue_put_fields [OF ok room, of c]
  let ?n = "unat (eq_size q)" and ?t = "unat (eq_tail q)" and ?k = "unat (eq_count q)"
  have o: "0 < ?n" "?n \<le> length (eq_data q)" "unat (eq_head q) = (?t + ?k) mod ?n" "?t < ?n"
    using ok by (simp_all add: ring_ok_def)
  show "ring_ok (queue_put c q)"
    using ok room by (simp add: ring_ok_def f mod_Suc_eq)
  have hn: "unat (eq_head q) < length (eq_data q)" unfolding o(3) using mod_less_divisor [OF o(1), of "?t + ?k"] o(2) by linarith
  have "map (\<lambda>i. (eq_data q)[unat (eq_head q) := c] ! ((?t + i) mod ?n)) [0..<?k]
      = map (\<lambda>i. eq_data q ! ((?t + i) mod ?n)) [0..<?k]"
    using ring_distinct [OF _ room, THEN not_sym, of _ ?t] by (auto simp: o(3) nth_list_update)
  then show "pending (queue_put c q) = pending q @ [c]"
    using hn by (simp add: pending_def f o(3))
qed

lemma queue_take_spec:
  assumes ok: "ring_ok q" and ne: "0 < unat (eq_count q)"
  shows "ring_ok (snd (queue_take q))" "pending q = fst (queue_take q) # pending (snd (queue_take q))"
    "eq_size (snd (queue_take q)) = eq_size q"
proof -
  let ?n = "unat (eq_size q)" and ?t = "unat (eq_tail q)" and ?k = "unat (eq_count q)" and ?q = "snd (queue_take q)"
  have o: "0 < ?n" "?t < ?n" "?n < 256" "unat (eq_head q) = (?t + ?k) mod ?n" using ok by (simp_all add: ring_ok_def)
  have f: "eq_data ?q = eq_data q" "eq_head ?q = eq_head q" "eq_size ?q = eq_size q"
    "fst (queue_take q) = eq_data q ! ?t" by (simp_all add: queue_take_def Let_def)
  have t: "unat (eq_tail ?q) = (?t + 1) mod ?n"
    using ring_step [OF o(2,3)] by (simp add: queue_take_def Let_def split: if_splits)
  have c: "unat (eq_count ?q) = ?k - 1"
    using ne by (simp add: queue_take_def Let_def u8_prev)
  show "eq_size ?q = eq_size q" by (rule f)
  have h: "((?t + 1) mod ?n + (?k - 1)) mod ?n = (?t + ?k) mod ?n"
    using ne mod_add_left_eq [of "?t + 1" ?n "?k - 1"] by simp
  show "ring_ok ?q" using ok o h by (auto simp: ring_ok_def f t c)
  have "[0..<?k] = 0 # map Suc [0..<?k - 1]" using ne by (simp add: map_Suc_upt upt_conv_Cons)
  then have "pending q = eq_data q ! (?t mod ?n) # map (\<lambda>i. eq_data q ! ((?t + Suc i) mod ?n)) [0..<?k - 1]"
    by (simp add: pending_def comp_def)
  moreover have "(?t + Suc i) mod ?n = ((?t + 1) mod ?n + i) mod ?n" for i by (simp add: mod_add_left_eq)
  ultimately show "pending q = fst (queue_take q) # pending ?q"
    using o(2) by (simp add: pending_def f t c)
qed

lemma length_pending [simp]: "length (pending q) = unat (eq_count q)" by (simp add: pending_def)

lemma queue_put_full: "unat (eq_size q) \<le> unat (eq_count q) \<Longrightarrow> queue_put c q = q"
  by (simp add: queue_put_def word_le_nat_alt)

interpretation event_ring: bounded_queue "\<lambda>q. unat (eq_size q)" queue_put queue_take pending ring_ok
proof unfold_locales
  fix q :: event_queue and c
  assume ok: "ring_ok q"
  show "pending (queue_put c q) = (if length (pending q) < unat (eq_size q) then pending q @ [c] else pending q)"
    "ring_ok (queue_put c q)" "unat (eq_size (queue_put c q)) = unat (eq_size q)"
    using queue_put_spec [OF ok, of c] queue_put_fields(3) [OF ok, of c] queue_put_full [of q c] ok
    by (cases "unat (eq_count q) < unat (eq_size q)"; simp)+
next
  fix q :: event_queue
  assume ok: "ring_ok q" and "pending q \<noteq> []"
  then have "0 < unat (eq_count q)" using length_pending [of q] by (metis length_greater_0_conv)
  from queue_take_spec [OF ok this]
  show "pending q = fst (queue_take q) # pending (snd (queue_take q))" "ring_ok (snd (queue_take q))"
    "unat (eq_size (snd (queue_take q))) = unat (eq_size q)" by simp_all
qed

subsection \<open>Handlers\<close>

lemma post_to_frame [simp]:
  "eh_enabled (post_to ev eh) = eh_enabled eh" "eh_event_mask (post_to ev eh) = eh_event_mask eh"
  "eh_handler (post_to ev eh) = eh_handler eh" "accepts ev2 (post_to ev eh) = accepts ev2 eh"
  by (simp_all add: post_to_def accepts_def)

lemma event_post_handler:
  assumes "events_ok e" "h < ev_count e"
  shows "ev_handlers (event_post True ev e) ! h = post_to ev (ev_handlers e ! h)"
  using assms by (simp add: event_post_def nth_append events_ok_def)

lemma event_post_ok: "events_ok e \<Longrightarrow> events_ok (event_post True ev e)"
  using event_post_handler [of e _ ev] event_ring.enq_invar
  by (auto simp: events_ok_def post_to_def event_post_def)

lemma event_post_count [simp]: "ev_count (event_post b ev e) = ev_count e" by (simp add: event_post_def)

lemma events_posted:
  assumes "events_ok e" "h < ev_count e"
  shows "events_ok (fold (event_post True) evs e)
    \<and> ev_handlers (fold (event_post True) evs e) ! h = fold post_to evs (ev_handlers e ! h)"
  using assms
proof (induction evs arbitrary: e)
  case Nil
  then show ?case by simp
next
  case (Cons ev evs)
  have "events_ok (event_post True ev e)" "h < ev_count (event_post True ev e)"
    using Cons.prems event_post_ok by simp_all
  from Cons.IH [OF this] event_post_handler [OF Cons.prems] show ?case by simp
qed

lemma posts_are_enqueues:
  "eh_queue (fold post_to evs eh) = fold queue_put (map of_nat (filter (\<lambda>ev. accepts ev eh) evs)) (eh_queue eh)"
proof (induction evs arbitrary: eh)
  case Nil
  then show ?case by simp
next
  case (Cons ev evs)
  have "(\<lambda>e. accepts e (post_to ev eh)) = (\<lambda>e. accepts e eh)" by (rule ext) simp
  then show ?case using Cons.IH [of "post_to ev eh"] by (simp add: post_to_def)
qed

lemma events_ok_update:
  assumes "events_ok e" "ring_ok q"
  shows "events_ok (e\<lparr>ev_handlers := (ev_handlers e)[h := (ev_handlers e ! h)\<lparr>eh_queue := q\<rparr>]\<rparr>)"
proof -
  have "ring_ok (eh_queue ((ev_handlers e)[h := (ev_handlers e ! h)\<lparr>eh_queue := q\<rparr>] ! i))" if "i < ev_count e" for i
    using assms that by (cases "h = i") (auto simp: events_ok_def)
  then show ?thesis using assms(1) by (simp add: events_ok_def)
qed

text \<open>Eight turns of the dispatch loop are enough, if the callbacks keep the event system well-formed.\<close>

lemma dispatch_fuel:
  assumes "\<And>f v e. events_ok e \<Longrightarrow> events_ok (call f v e)" "events_ok e" "MAX_EVENT_HANDLERS \<le> i + n"
  shows "dispatch_from call (n + k) i e = dispatch_from call n i e"
  using assms(2,3)
proof (induction n arbitrary: i e)
  case 0
  then have "\<not> i < ev_count e" by (auto simp: events_ok_def)
  then show ?case by (cases k) simp_all
next
  case (Suc n)
  have "events_ok (dispatch_one call i e)" if "i < ev_count e"
  proof (cases "\<not> eh_enabled (ev_handlers e ! i) \<or> eq_count (eh_queue (ev_handlers e ! i)) = 0")
    case True
    then show ?thesis using Suc.prems by (simp add: dispatch_one_def)
  next
    case False
    let ?q = "eh_queue (ev_handlers e ! i)"
    have ok: "ring_ok ?q" using Suc.prems that by (simp add: events_ok_def)
    have "0 < unat (eq_count ?q)" using False by (simp add: unat_gt_0)
    from queue_take_spec(1) [OF ok this] have "ring_ok (snd (queue_get ?q))"
      using False by (simp add: queue_get_def case_prod_beta)
    then have "events_ok (e\<lparr>ev_handlers := (ev_handlers e)[i := (ev_handlers e ! i)\<lparr>eh_queue := snd (queue_get ?q)\<rparr>]\<rparr>)"
      by (rule events_ok_update [OF Suc.prems(1)])
    then show ?thesis using False Suc.prems assms(1)
      by (simp add: dispatch_one_def case_prod_beta Let_def split: option.splits)
  qed
  then show ?case using Suc by simp
qed

section \<open>Properties\<close>

definition example_handler :: "nat event_handler" where
  "example_handler = \<lparr>eh_queue = \<lparr>eq_data = replicate 8 0, eq_head = 6, eq_tail = 6, eq_count = 0, eq_size = 8\<rparr>,
     eh_enabled = True, eh_event_mask = 6, eh_handler = None\<rparr>"

definition example_events :: "nat events" where
  "example_events = \<lparr>ev_handlers = replicate 8 example_handler, ev_count = 2\<rparr>"

text \<open>
  C14. Event delivery. For every handler and every sequence of posted events, what the handler has
  pending is what it had before followed by the events it is enabled for and whose mask bit is set,
  in posting order, cut at the size of its ring; \<open>event_poll\<close> then returns the oldest pending event and
  removes exactly that one, and all ring indices stay inside the arrays.
\<close>

theorem event_delivery_fifo:
  assumes "events_ok e" "h < ev_count e" "fold (event_post True) evs e = e'"
  shows "pending (eh_queue (ev_handlers e' ! h)) = take (unat (eq_size (eh_queue (ev_handlers e ! h))))
       (pending (eh_queue (ev_handlers e ! h)) @ map of_nat (filter (\<lambda>ev. accepts ev (ev_handlers e ! h)) evs))
    \<and> events_ok e'
    \<and> (eh_enabled (ev_handlers e ! h) \<and> pending (eh_queue (ev_handlers e ! h)) = x # xs \<longrightarrow>
        (\<exists>e''. event_poll h e = Some (uint x, e'') \<and> events_ok e'' \<and> pending (eh_queue (ev_handlers e'' ! h)) = xs))"
proof (intro conjI impI)
  let ?eh = "ev_handlers e ! h" and ?q = "eh_queue (ev_handlers e ! h)"
  have ok: "ring_ok ?q" using assms(1,2) by (simp add: events_ok_def)
  then have len: "length (pending ?q) \<le> unat (eq_size ?q)" by (simp add: ring_ok_def)
  note p = events_posted [OF assms(1,2), of evs, unfolded assms(3)]
  show "events_ok e'" using p by simp
  show "pending (eh_queue (ev_handlers e' ! h)) = take (unat (eq_size ?q))
       (pending ?q @ map of_nat (filter (\<lambda>ev. accepts ev ?eh) evs))"
    using p event_ring.enq_all_take [OF ok len] by (simp add: posts_are_enqueues)
  assume a: "eh_enabled ?eh \<and> pending ?q = x # xs"
  then have c: "0 < unat (eq_count ?q)" using length_pending [of ?q] by simp
  note t = queue_take_spec [OF ok c]
  have hl: "h < length (ev_handlers e)" using assms(1,2) by (simp add: events_ok_def)
  let ?e = "e\<lparr>ev_handlers := (ev_handlers e)[h := ?eh\<lparr>eh_queue := snd (queue_take ?q)\<rparr>]\<rparr>"
  have "event_poll h e = Some (uint x, ?e)"
    using a c t(2) hl by (auto simp: event_poll_def queue_get_def case_prod_beta Let_def unat_gt_0)
  moreover have "events_ok ?e" by (rule events_ok_update [OF assms(1) t(1)])
  ultimately show "\<exists>e''. event_poll h e = Some (uint x, e'') \<and> events_ok e'' \<and> pending (eh_queue (ev_handlers e'' ! h)) = xs"
    using a t(2) hl by simp
qed

theorem event_delivery_fifo_witness:
  "pending (eh_queue (ev_handlers (fold (event_post True) [1, 3, 2, 1] example_events) ! 0)) = [1, 2, 1]"
proof -
  have "events_ok example_events"
    by (auto simp: events_ok_def example_events_def example_handler_def ring_ok_def MAX_EVENT_HANDLERS_def)
  moreover have "accepts n (ev_handlers example_events ! 0) \<longleftrightarrow> n \<in> {1, 2}" if "n \<in> {1, 2, 3}" for n
    using that by (auto simp: accepts_def example_events_def example_handler_def)
  ultimately show ?thesis
    using event_delivery_fifo [of example_events 0 "[1, 3, 2, 1]" _ 0 "[]"]
    by (simp add: pending_def) (simp add: example_events_def example_handler_def)
qed

end
