(* ===== verification/Wrc_Tasks.thy ===== *)
theory Wrc_Tasks
  imports Wrpc_Prelude
begin

text \<open>
  \<^verbatim>\<open>lib/wrc-tasks.c\<close>: the table of cooperative tasks and the accounting of their run time. The functions
  of a task act on the rest of the firmware, a state of type \<open>'w\<close>; the clock reads of the accounting
  (\<open>shw_pps_gen_get_time\<close>, \<open>timer_get_tics\<close>) are observations of that state.

  Results: every nanosecond of a poll is charged to exactly one task, so the charged total grows by the elapsed
  time; a periodic job checked with \<open>wrc_task_not_yet\<close> runs on a grid without drift; a new task takes the first
  free slot.
\<close>

section \<open>Definitions\<close>

definition WRC_MAX_TASKS :: nat where "WRC_MAX_TASKS = 20"

record 'w wrc_task =
  t_used :: bool
  t_name :: "u8 list"
  t_enabled :: "('w \<Rightarrow> bool) option"
  t_init :: "('w \<Rightarrow> 'w) option"
  t_job :: "('w \<Rightarrow> int \<times> 'w) option"
  t_nrun :: u32
  t_seconds :: u32
  t_nanos :: u32
  t_max_run_ticks :: u32

record 'w tasks_state =
  ts_tasks :: "'w wrc_task list"
  ts_prev_nanos :: u32
  ts_prev_ticks :: u32
  ts_world :: 'w

text \<open>The clocks: nanoseconds within the second, and the millisecond counter.\<close>

record 'w clocks =
  clk_nanos :: "'w \<Rightarrow> u32"
  clk_ticks :: "'w \<Rightarrow> u32"

definition task_time_normalize :: "'w wrc_task \<Rightarrow> 'w wrc_task" where
  "task_time_normalize t =
     (if t_nanos t > 1000000000 then t\<lparr>t_nanos := t_nanos t - 1000000000, t_seconds := t_seconds t + 1\<rparr> else t)"

definition elapsed :: "u32 \<Rightarrow> u32 \<Rightarrow> int \<Rightarrow> int" where
  "elapsed now prev wrap = (let d = sint (now - prev) in if d < 0 then i32 (d + wrap) else d)"

text \<open>
  Charging one task; \<open>max_run_ticks\<close> is compared as an unsigned number. \<open>second\<close> is \<open>TICS_PER_SECOND\<close>.
\<close>

definition charge :: "int \<Rightarrow> int \<Rightarrow> 'w wrc_task \<Rightarrow> 'w wrc_task" where
  "charge delta delta_ticks t =
     (let t = task_time_normalize (t\<lparr>t_nanos := t_nanos t + word_of_int delta\<rparr>)
      in if t_max_run_ticks t < word_of_int delta_ticks then t\<lparr>t_max_run_ticks := word_of_int delta_ticks\<rparr> else t)"

definition account_task :: "'w clocks \<Rightarrow> int \<Rightarrow> nat \<Rightarrow> int \<Rightarrow> 'w tasks_state \<Rightarrow> 'w tasks_state" where
  "account_task clk second i done_sth s =
     (let i = (if done_sth = 0 then 0 else i);
          nanos = clk_nanos clk (ts_world s); ticks = clk_ticks clk (ts_world s)
      in s\<lparr>ts_tasks := (ts_tasks s)[i := charge (elapsed nanos (ts_prev_nanos s) 1000000000)
                                             (elapsed ticks (ts_prev_ticks s) second) (ts_tasks s ! i)],
           ts_prev_nanos := nanos, ts_prev_ticks := ticks\<rparr>)"

definition wrc_run_task :: "'w clocks \<Rightarrow> int \<Rightarrow> nat \<Rightarrow> 'w tasks_state \<Rightarrow> 'w tasks_state" where
  "wrc_run_task clk second i s =
     (let t = ts_tasks s ! i in
      case t_job t of
        None \<Rightarrow> account_task clk second i 0 (s\<lparr>ts_tasks := (ts_tasks s)[i := t\<lparr>t_nrun := t_nrun t + 1\<rparr>]\<rparr>)
      | Some job \<Rightarrow>
          (if (case t_enabled t of None \<Rightarrow> True | Some en \<Rightarrow> en (ts_world s)) then
             (let (r, w) = job (ts_world s)
              in account_task clk second i r
                   (s\<lparr>ts_tasks := (ts_tasks s)[i := t\<lparr>t_nrun := t_nrun t + word_of_int r\<rparr>], ts_world := w\<rparr>))
           else account_task clk second i 0 s))"

definition free_slot :: "'w wrc_task list \<Rightarrow> nat option" where
  "free_slot ts = List.find (\<lambda>i. \<not> t_used (ts ! i)) [0..<length ts]"

text \<open>\<open>strncpy(t->name, name, 16)\<close> on the characters of the name without its terminator.\<close>

definition strncpy16 :: "u8 list \<Rightarrow> u8 list" where
  "strncpy16 name = take 16 (name @ replicate 16 0)"

definition wrc_task_create ::
  "u8 list \<Rightarrow> ('w \<Rightarrow> 'w) option \<Rightarrow> ('w \<Rightarrow> int \<times> 'w) option \<Rightarrow> 'w tasks_state \<Rightarrow> nat option \<times> 'w tasks_state" where
  "wrc_task_create name init job s =
     (case free_slot (ts_tasks s) of
        None \<Rightarrow> (None, s)
      | Some i \<Rightarrow>
          (Some i, s\<lparr>ts_tasks := (ts_tasks s)[i := (ts_tasks s ! i)\<lparr>t_used := True, t_init := init, t_job := job,
             t_enabled := None, t_name := strncpy16 name\<rparr>]\<rparr>))"

definition wrc_task_set_enable :: "nat \<Rightarrow> ('w \<Rightarrow> bool) option \<Rightarrow> 'w tasks_state \<Rightarrow> 'w tasks_state" where
  "wrc_task_set_enable i enabled s = s\<lparr>ts_tasks := (ts_tasks s)[i := (ts_tasks s ! i)\<lparr>t_enabled := enabled\<rparr>]\<rparr>"

definition zero_task :: "'w wrc_task" where
  "zero_task = \<lparr>t_used = False, t_name = replicate 16 0, t_enabled = None, t_init = None, t_job = None,
     t_nrun = 0, t_seconds = 0, t_nanos = 0, t_max_run_ticks = 0\<rparr>"

definition wrc_tasks_preinit :: "'w tasks_state \<Rightarrow> 'w tasks_state" where
  "wrc_tasks_preinit s = s\<lparr>ts_tasks := replicate WRC_MAX_TASKS zero_task\<rparr>"

definition wrc_poll_all_tasks :: "'w clocks \<Rightarrow> int \<Rightarrow> 'w tasks_state \<Rightarrow> 'w tasks_state" where
  "wrc_poll_all_tasks clk second s =
     fold (\<lambda>i s. if t_used (ts_tasks s ! i) then wrc_run_task clk second i s else s) [0..<WRC_MAX_TASKS] s"

definition wrc_tasks_run_inits :: "'w tasks_state \<Rightarrow> 'w tasks_state" where
  "wrc_tasks_run_inits s =
     fold (\<lambda>i s. if t_used (ts_tasks s ! i)
                 then (case t_init (ts_tasks s ! i) of None \<Rightarrow> s | Some f \<Rightarrow> s\<lparr>ts_world := f (ts_world s)\<rparr>)
                 else s) [0..<WRC_MAX_TASKS] s"

definition wrc_tasks_accounting_init :: "'w clocks \<Rightarrow> 'w tasks_state \<Rightarrow> 'w tasks_state" where
  "wrc_tasks_accounting_init clk s =
     s\<lparr>ts_prev_nanos := clk_nanos clk (ts_world s), ts_prev_ticks := clk_ticks clk (ts_world s)\<rparr>"

text \<open>Whether the period has not yet passed, and the new time stamp.\<close>

definition wrc_task_not_yet :: "u32 \<Rightarrow> u32 \<Rightarrow> u32 \<Rightarrow> bool \<times> u32" where
  "wrc_task_not_yet now lastt period =
     (if lastt = 0 then (False, now)
      else if time_before now (lastt + period) then (True, lastt)
      else (False, lastt + period))"

subsection \<open>Specification notions\<close>

text \<open>
  The time a task was charged, in nanoseconds, and the total. \<open>clock_ok\<close>: the nanosecond clock shows an
  absolute time modulo one second; \<open>jobs_ok\<close>: no job runs for a second or longer.
\<close>

definition task_ns :: "'w wrc_task \<Rightarrow> int" where
  "task_ns t = uint (t_seconds t) * 1000000000 + uint (t_nanos t)"

definition total_ns :: "'w tasks_state \<Rightarrow> int" where
  "total_ns s = (\<Sum>t \<leftarrow> ts_tasks s. task_ns t)"

definition clock_ok :: "('w \<Rightarrow> int) \<Rightarrow> 'w clocks \<Rightarrow> bool" where
  "clock_ok abst clk \<longleftrightarrow> (\<forall>w. uint (clk_nanos clk w) = abst w mod 1000000000)"

definition jobs_ok :: "('w \<Rightarrow> int) \<Rightarrow> 'w tasks_state \<Rightarrow> bool" where
  "jobs_ok abst s \<longleftrightarrow> (\<forall>t \<in> set (ts_tasks s). \<forall>job w. t_job t = Some job \<longrightarrow>
     abst w \<le> abst (snd (job w)) \<and> abst (snd (job w)) < abst w + 1000000000)"

definition acct_inv :: "('w \<Rightarrow> int) \<Rightarrow> int \<Rightarrow> 'w tasks_state \<Rightarrow> bool" where
  "acct_inv abst B s \<longleftrightarrow> length (ts_tasks s) = WRC_MAX_TASKS \<and> jobs_ok abst s
     \<and> uint (ts_prev_nanos s) = abst (ts_world s) mod 1000000000
     \<and> (\<forall>t \<in> set (ts_tasks s). uint (t_nanos t) \<le> 1000000000 \<and> uint (t_seconds t) \<le> B)"

section \<open>Facts\<close>

lemma elapsed_nanos:
  assumes "uint now = a mod 1000000000" "uint prev = b mod 1000000000" "b \<le> a" "a < b + 1000000000"
  shows "elapsed now prev 1000000000 = a - b"
proof -
  let ?d = "a mod 1000000000 - b mod 1000000000"
  have r: "0 \<le> a mod 1000000000" "a mod 1000000000 < 1000000000" "0 \<le> b mod 1000000000" "b mod 1000000000 < 1000000000"
    by simp_all
  have "now - prev = word_of_int ?d"
    by (simp only: wi_hom_sub [symmetric] assms(1,2) [symmetric] word_of_int_uint)
  then have "sint (now - prev) = i32 ?d"
    by (simp only: int_word_sint i32_def) simp
  also have "\<dots> = ?d" using r by (intro i32_id fits32I) linarith+
  finally have s: "sint (now - prev) = ?d" .
  have q: "a = 1000000000 * (a div 1000000000) + a mod 1000000000" "b = 1000000000 * (b div 1000000000) + b mod 1000000000"
    by (simp_all only: mult_div_mod_eq)
  have "a div 1000000000 = b div 1000000000 \<or> a div 1000000000 = b div 1000000000 + 1"
    using assms(3,4) q r by linarith
  then have "?d = a - b \<or> ?d + 1000000000 = a - b"
    using q by (elim disjE) linarith+
  then show ?thesis using r assms(3,4)
    by (auto simp: elapsed_def s Let_def intro!: i32_id fits32I)
qed

lemma charge_ns:
  assumes "uint (t_nanos t) \<le> 1000000000" "uint (t_seconds t) < 4294967295" "0 \<le> d" "d < 1000000000"
  shows "task_ns (charge d dt t) = task_ns t + d" "uint (t_nanos (charge d dt t)) \<le> 1000000000"
    "uint (t_seconds (charge d dt t)) \<le> uint (t_seconds t) + 1" "t_job (charge d dt t) = t_job t" "t_used (charge d dt t) = t_used t"
proof -
  have n: "uint (t_nanos t + word_of_int d) = uint (t_nanos t) + d"
  proof -
    have "uint (t_nanos t + word_of_int d) = (uint (t_nanos t) + d) mod 4294967296"
      by (simp add: uint_word_ariths unsigned_of_int take_bit_eq_mod mod_simps)
    also have "\<dots> = uint (t_nanos t) + d" using assms by (intro mod_pos_pos_trivial) auto
    finally show ?thesis .
  qed
  have s: "uint (t_seconds t + 1) = uint (t_seconds t) + 1"
  proof -
    have "uint (t_seconds t + 1) = (uint (t_seconds t) + 1) mod 4294967296" by (simp add: uint_word_ariths)
    also have "\<dots> = uint (t_seconds t) + 1" using assms(2) by (intro mod_pos_pos_trivial) auto
    finally show ?thesis .
  qed
  have m: "uint (t_nanos t + word_of_int d - 1000000000) = uint (t_nanos t) + d - 1000000000"
    if "t_nanos t + word_of_int d > 1000000000"
    using that n by (subst uint_sub_lem [THEN iffD1]) (simp_all add: word_less_def)
  have lt: "t_nanos t + word_of_int d > 1000000000 \<longleftrightarrow> uint (t_nanos t) + d > 1000000000"
    by (simp add: word_less_def n)
  show "task_ns (charge d dt t) = task_ns t + d" "uint (t_nanos (charge d dt t)) \<le> 1000000000"
    "uint (t_seconds (charge d dt t)) \<le> uint (t_seconds t) + 1" "t_job (charge d dt t) = t_job t" "t_used (charge d dt t) = t_used t"
    using m assms(1,4)
    by (simp_all add: charge_def task_time_normalize_def task_ns_def Let_def n s lt)
qed

lemma total_update:
  assumes "i < length ts"
  shows "(\<Sum>t \<leftarrow> ts[i := x]. task_ns t) = (\<Sum>t \<leftarrow> ts. task_ns t) + (task_ns x - task_ns (ts ! i))"
  using assms by (induction ts arbitrary: i) (auto split: nat.split)

text \<open>What the accounting needs of the task table, apart from the times.\<close>

definition table_ok :: "('w \<Rightarrow> int) \<Rightarrow> int \<Rightarrow> 'w wrc_task list \<Rightarrow> bool" where
  "table_ok abst B ts \<longleftrightarrow> length ts = WRC_MAX_TASKS
     \<and> (\<forall>t \<in> set ts. uint (t_nanos t) \<le> 1000000000 \<and> uint (t_seconds t) \<le> B
         \<and> (\<forall>job w. t_job t = Some job \<longrightarrow> abst w \<le> abst (snd (job w)) \<and> abst (snd (job w)) < abst w + 1000000000))"

lemma acct_inv_table:
  "acct_inv abst B s \<longleftrightarrow> table_ok abst B (ts_tasks s) \<and> uint (ts_prev_nanos s) = abst (ts_world s) mod 1000000000"
  by (auto simp: acct_inv_def table_ok_def jobs_ok_def)

lemma table_ok_update:
  assumes "table_ok abst B ts" "B \<le> C" "i < length ts" "t_job x = t_job (ts ! i)" "uint (t_nanos x) \<le> 1000000000" "uint (t_seconds x) \<le> C"
  shows "table_ok abst C (ts[i := x])"
proof -
  have "uint (t_nanos t) \<le> 1000000000 \<and> uint (t_seconds t) \<le> C
      \<and> (\<forall>job w. t_job t = Some job \<longrightarrow> abst w \<le> abst (snd (job w)) \<and> abst (snd (job w)) < abst w + 1000000000)"
    if t: "t \<in> set (ts[i := x])" for t
  proof (cases "t = x")
    case True
    then show ?thesis using assms nth_mem [OF assms(3)] unfolding table_ok_def by metis
  next
    case False
    then have "t \<in> set ts" using t set_update_subset_insert [of ts i x] by auto
    then show ?thesis using assms(1,2) unfolding table_ok_def by (meson order_trans)
  qed
  then show ?thesis using assms(1) by (simp add: table_ok_def)
qed

lemma account_task_ns:
  assumes clk: "clock_ok abst clk" and tab: "table_ok abst B (ts_tasks s)" and B: "B < 4294967295"
    and prev: "uint (ts_prev_nanos s) = b mod 1000000000" "b \<le> abst (ts_world s)" "abst (ts_world s) < b + 1000000000"
    and i: "i < WRC_MAX_TASKS" and s': "s' = account_task clk second i r s"
  shows "total_ns s' = total_ns s + (abst (ts_world s) - b) \<and> acct_inv abst (B + 1) s' \<and> ts_world s' = ts_world s"
proof -
  define j where "j = (if r = 0 then 0 else i)"
  let ?t = "ts_tasks s ! j" and ?d = "elapsed (clk_nanos clk (ts_world s)) (ts_prev_nanos s) 1000000000"
  have j: "j < length (ts_tasks s)" using i tab by (simp add: j_def table_ok_def)
  have d: "?d = abst (ts_world s) - b"
    using clk prev by (intro elapsed_nanos) (auto simp: clock_ok_def)
  have t: "uint (t_nanos ?t) \<le> 1000000000" "uint (t_seconds ?t) \<le> B"
    using tab nth_mem [OF j] by (auto simp: table_ok_def)
  have dd: "0 \<le> ?d" "?d < 1000000000" "uint (t_seconds ?t) < 4294967295" using d prev t B by linarith+
  note c = charge_ns [OF t(1) dd(3,1,2)]
  have acc: "ts_tasks s' = (ts_tasks s)[j := charge ?d (elapsed (clk_ticks clk (ts_world s)) (ts_prev_ticks s) second) ?t]"
    "ts_prev_nanos s' = clk_nanos clk (ts_world s)" "ts_world s' = ts_world s"
    unfolding s' by (simp_all add: account_task_def Let_def j_def)
  have "table_ok abst (B + 1) (ts_tasks s')"
    unfolding acc using tab j c(2,4) t(2) order_trans [OF c(3), of "B + 1"]
    by (intro table_ok_update [where B = B]) simp_all
  moreover have "uint (ts_prev_nanos s') = abst (ts_world s') mod 1000000000"
    using clk by (simp add: acc clock_ok_def)
  ultimately show ?thesis
    using d c(1) by (simp add: acct_inv_table total_ns_def total_update [OF j] acc(1,3))
qed

lemma nrun_ns [simp]: "task_ns (t\<lparr>t_nrun := n\<rparr>) = task_ns t" by (simp add: task_ns_def)

lemma wrc_run_task_ns:
  assumes clk: "clock_ok abst clk" and inv: "acct_inv abst B s" and B: "B < 4294967295" and i: "i < WRC_MAX_TASKS"
    and s': "s' = wrc_run_task clk second i s"
  shows "total_ns s' - total_ns s = abst (ts_world s') - abst (ts_world s) \<and> acct_inv abst (B + 1) s'"
proof -
  let ?t = "ts_tasks s ! i"
  have tab: "table_ok abst B (ts_tasks s)" and prev: "uint (ts_prev_nanos s) = abst (ts_world s) mod 1000000000"
    using inv by (simp_all add: acct_inv_table)
  have il: "i < length (ts_tasks s)" using tab i by (simp add: table_ok_def)
  have tm: "uint (t_nanos ?t) \<le> 1000000000" "uint (t_seconds ?t) \<le> B"
    using tab nth_mem [OF il] by (auto simp: table_ok_def)
  have job: "abst (ts_world s) \<le> abst (snd (job (ts_world s))) \<and> abst (snd (job (ts_world s))) < abst (ts_world s) + 1000000000"
    if "t_job ?t = Some job" for job
    using that tab nth_mem [OF il] unfolding table_ok_def by blast
  define upd where "upd n = (ts_tasks s)[i := ?t\<lparr>t_nrun := n\<rparr>]" for n
  have tabu: "table_ok abst B (upd n)" "(\<Sum>t \<leftarrow> upd n. task_ns t) = (\<Sum>t \<leftarrow> ts_tasks s. task_ns t)" for n
    unfolding upd_def using tab il tm by (auto intro!: table_ok_update simp: total_update)
  note acc = account_task_ns [OF clk _ B _ _ _ i refl, where b = "abst (ts_world s)" and second = second]
  show ?thesis
  proof (cases "t_job ?t")
    case None
    then have s'': "s' = account_task clk second i 0 (s\<lparr>ts_tasks := upd (t_nrun ?t + 1)\<rparr>)"
      by (simp add: s' wrc_run_task_def upd_def Let_def)
    show ?thesis unfolding s''
      using acc [of "s\<lparr>ts_tasks := upd (t_nrun ?t + 1)\<rparr>" 0] tabu prev by (simp add: total_ns_def)
  next
    case (Some job)
    obtain r w where rw: "job (ts_world s) = (r, w)" by (cases "job (ts_world s)")
    show ?thesis
    proof (cases "case t_enabled ?t of None \<Rightarrow> True | Some en \<Rightarrow> en (ts_world s)")
      case True
      then have s'': "s' = account_task clk second i r (s\<lparr>ts_tasks := upd (t_nrun ?t + word_of_int r), ts_world := w\<rparr>)"
        using Some by (simp add: s' wrc_run_task_def upd_def rw Let_def)
      show ?thesis unfolding s''
        using acc [of "s\<lparr>ts_tasks := upd (t_nrun ?t + word_of_int r), ts_world := w\<rparr>" r] tabu prev job [OF Some] rw
        by (simp add: total_ns_def)
    next
      case False
      then have s'': "s' = account_task clk second i 0 s" using Some by (simp add: s' wrc_run_task_def Let_def)
      show ?thesis unfolding s'' using acc [of s 0] tab prev by simp
    qed
  qed
qed

lemma acct_inv_mono: "acct_inv abst B s \<Longrightarrow> B \<le> C \<Longrightarrow> acct_inv abst C s"
  by (auto simp: acct_inv_def)

lemma poll_ns:
  assumes clk: "clock_ok abst clk" and "acct_inv abst B s" and "B + int (length is) < 4294967296" and "set is \<subseteq> {..<WRC_MAX_TASKS}"
  shows "let s' = fold (\<lambda>i s. if t_used (ts_tasks s ! i) then wrc_run_task clk second i s else s) is s in
    total_ns s' - total_ns s = abst (ts_world s') - abst (ts_world s) \<and> acct_inv abst (B + int (length is)) s'"
  using assms(2-4)
proof (induction "is" arbitrary: s B)
  case Nil
  then show ?case by simp
next
  case (Cons i "is")
  let ?s = "if t_used (ts_tasks s ! i) then wrc_run_task clk second i s else s"
  have "total_ns ?s - total_ns s = abst (ts_world ?s) - abst (ts_world s) \<and> acct_inv abst (B + 1) ?s"
    using wrc_run_task_ns [OF clk Cons.prems(1) _ _ refl, of i second] acct_inv_mono [OF Cons.prems(1), of "B + 1"] Cons.prems(2,3)
    by simp
  with Cons.IH [of "B + 1" ?s] Cons.prems(2,3) show ?case by (simp add: Let_def algebra_simps)
qed

subsection \<open>Periodic jobs\<close>

text \<open>Polling a periodic job at a list of tick values: how often it runs, and the last time stamp.\<close>

fun periodic_runs :: "u32 \<Rightarrow> u32 \<Rightarrow> u32 list \<Rightarrow> nat \<times> u32" where
  "periodic_runs period lastt [] = (0, lastt)"
| "periodic_runs period lastt (now # nows) =
     (let (wait, lastt) = wrc_task_not_yet now lastt period; (n, lastt) = periodic_runs period lastt nows
      in ((if wait then n else n + 1), lastt))"

text \<open>Tick values that grow by at most the period from one poll to the next.\<close>

fun dense :: "int \<Rightarrow> int \<Rightarrow> int list \<Rightarrow> bool" where
  "dense period t [] \<longleftrightarrow> True"
| "dense period t (u # us) \<longleftrightarrow> t \<le> u \<and> u \<le> t + period \<and> dense period u us"

lemma not_yet_step:
  assumes "0 < l" "0 < p" "p < 2147483648" "l \<le> u" "u < l + 2 * p" "u < 4294967296"
  shows "wrc_task_not_yet (word_of_int u) (word_of_int l) (word_of_int p)
    = (u < l + p, word_of_int (if u < l + p then l else l + p))"
proof -
  have "word_of_int l \<noteq> (0 :: u32)"
    using assms by (auto simp: word_of_int_eq_0_iff dest: zdvd_imp_le)
  moreover have "time_before (word_of_int u) (word_of_int l + word_of_int p) \<longleftrightarrow> u < l + p"
  proof -
    have "sint (word_of_int u - (word_of_int l + word_of_int p) :: u32) = i32 (u - (l + p))"
      by (simp only: wi_hom_add wi_hom_sub int_word_sint i32_def) simp
    also have "\<dots> = u - (l + p)" using assms by (intro i32_id fits32I) linarith+
    finally show ?thesis by (simp add: time_before_def time_after_def i32_sint_diff)
  qed
  ultimately show ?thesis by (simp add: wrc_task_not_yet_def)
qed

lemma periodic_runs_grid:
  assumes "0 < p" "p < 2147483648" "0 < l" "l \<le> t" "t < l + p" "dense p t us" "last (t # us) < 4294967296" "t \<le> last (t # us)"
  shows "let k = (last (t # us) - l) div p
    in periodic_runs (word_of_int p) (word_of_int l) (map word_of_int us) = (nat k, word_of_int (l + k * p))"
  using assms(3-)
proof (induction us arbitrary: l t)
  case Nil
  then show ?case by (simp add: div_pos_pos_trivial)
next
  case (Cons u us)
  have mono: "u \<le> last (u # us)" using Cons.prems(4)
  proof (induction us arbitrary: t u)
    case (Cons a us)
    then have "a \<le> last (a # us)" by fastforce
    then show ?case using Cons.prems by simp
  qed simp
  let ?l = "if u < l + p then l else l + p"
  have step: "wrc_task_not_yet (word_of_int u) (word_of_int l) (word_of_int p) = (u < l + p, word_of_int ?l)"
    using Cons.prems mono assms(1,2) by (intro not_yet_step) auto
  have IH: "let k = (last (u # us) - ?l) div p
    in periodic_runs (word_of_int p) (word_of_int ?l) (map word_of_int us) = (nat k, word_of_int (?l + k * p))"
    using Cons.prems mono assms(1) by (intro Cons.IH) auto
  have k: "(last (u # us) - l) div p = (last (u # us) - (l + p)) div p + 1"
    using assms(1) div_add_self2 [of p "last (u # us) - (l + p)"] by (simp add: algebra_simps)
  have "0 \<le> (last (u # us) - (l + p)) div p" if "l + p \<le> u"
    using that mono assms(1) by (simp add: pos_imp_zdiv_nonneg_iff)
  then show ?case using IH k by (cases "u < l + p") (auto simp: step Let_def algebra_simps nat_add_distrib)
qed

lemma dense_last: "dense p t us \<Longrightarrow> t \<le> last (t # us)"
proof (induction us arbitrary: t)
  case (Cons u us)
  then have "t \<le> u" "u \<le> last (u # us)" by simp_all
  then show ?case by simp
qed simp

text \<open>A new task takes the first free slot.\<close>

lemma free_slot_first:
  assumes "\<forall>t \<in> set us. t_used t" "\<not> t_used x"
  shows "free_slot (us @ x # r) = Some (length us)"
  unfolding free_slot_def find_Some_iff using assms by (intro exI [of _ "length us"]) (simp add: nth_append)

lemma task_create_first:
  assumes "\<forall>t \<in> set us. t_used t" "\<not> t_used x" "ts_tasks s = us @ x # r"
  shows "wrc_task_create name init job s = (Some (length us), s\<lparr>ts_tasks := us @ x\<lparr>t_used := True, t_init := init, t_job := job,
    t_enabled := None, t_name := strncpy16 name\<rparr> # r\<rparr>)"
  using free_slot_first [OF assms(1,2), of r] by (simp add: wrc_task_create_def assms(3))

section \<open>Properties\<close>

text \<open>A system of two tasks: an idle task, and a job that takes 700 ms (the world is the absolute time).\<close>

definition example_clocks :: "int clocks" where
  "example_clocks = \<lparr>clk_nanos = (\<lambda>w. word_of_int (w mod 1000000000)), clk_ticks = (\<lambda>w. word_of_int (w div 1000000))\<rparr>"

definition example_tasks :: "int tasks_state" where
  "example_tasks = wrc_tasks_accounting_init example_clocks
     (snd (wrc_task_create [119] None (Some (\<lambda>w. (1, w + 700000000)))
       (snd (wrc_task_create [105] None None
         (wrc_tasks_preinit \<lparr>ts_tasks = [], ts_prev_nanos = 0, ts_prev_ticks = 0, ts_world = 5900000000\<rparr>)))))"

text \<open>
  Time accounting. A poll charges every nanosecond it takes to exactly one task: over a call of
  \<open>wrc_poll_all_tasks\<close> the sum of the tasks' run times grows by exactly the time that passed, across the
  wraps of the nanosecond counter and of the per-task second, provided that no job takes a second or longer
  and no task has run for longer than a 32-bit count of seconds can hold; and the table is again fit for the next poll.
\<close>

theorem poll_accounts_all_time:
  assumes "clock_ok abst clk" "acct_inv abst B s" "B < 4294967276" "wrc_poll_all_tasks clk second s = s'"
  shows "total_ns s' - total_ns s = abst (ts_world s') - abst (ts_world s) \<and> acct_inv abst (B + 20) s'"
  using poll_ns [OF assms(1,2), of "[0..<WRC_MAX_TASKS]" second] assms(3) assms(4) [symmetric]
  by (simp add: Let_def wrc_poll_all_tasks_def WRC_MAX_TASKS_def atLeast0LessThan)

theorem poll_accounts_all_time_witness:
  "total_ns (wrc_poll_all_tasks example_clocks 1000 example_tasks) - total_ns example_tasks
    = ts_world (wrc_poll_all_tasks example_clocks 1000 example_tasks) - ts_world example_tasks"
proof -
  have "clock_ok id example_clocks"
    by (simp add: clock_ok_def example_clocks_def unsigned_of_int take_bit_eq_mod)
  moreover have "acct_inv id 0 example_tasks"
  proof -
    have r: "replicate 20 z = z # replicate 19 z" "replicate 19 z = z # replicate 18 z" for z :: "int wrc_task"
      by (simp_all add: numeral_eq_Suc)
    define idle where "idle = (zero_task :: int wrc_task)\<lparr>t_used := True, t_name := strncpy16 [105]\<rparr>"
    define s0 where "s0 = wrc_tasks_preinit \<lparr>ts_tasks = [], ts_prev_nanos = 0, ts_prev_ticks = 0, ts_world = 5900000000 :: int\<rparr>"
    have s0: "ts_tasks s0 = [] @ zero_task # replicate 19 zero_task"
      by (simp add: s0_def wrc_tasks_preinit_def WRC_MAX_TASKS_def r(1))
    have s1: "snd (wrc_task_create [105] None None s0) = s0\<lparr>ts_tasks := [idle] @ zero_task # replicate 18 zero_task\<rparr>"
      using task_create_first [OF _ _ s0, of "[105]" None None] by (simp add: zero_task_def idle_def r(2))
    show ?thesis unfolding example_tasks_def s0_def [symmetric] s1
      by (subst task_create_first [where us = "[idle]" and x = zero_task and r = "replicate 18 zero_task"])
        (auto simp: idle_def zero_task_def acct_inv_def jobs_ok_def WRC_MAX_TASKS_def example_clocks_def
          wrc_tasks_accounting_init_def s0_def wrc_tasks_preinit_def)
  qed
  ultimately show ?thesis
    using poll_accounts_all_time [of id example_clocks 0 example_tasks 1000] by simp
qed

text \<open>
  Periodic jobs do not drift. A job guarded by \<open>wrc_task_not_yet\<close> with an initially zero time stamp,
  polled at least once per period, runs at its first poll and then once for every full period that has passed since, however
  irregular the polls are: after a poll at tick \<open>t\<close> it has run exactly \<open>(t - t0) div period\<close> times more,
  and its time stamp lies on the grid \<open>t0 + k * period\<close>.
\<close>

theorem periodic_no_drift:
  assumes "0 < p" "p < 2147483648" "0 < t0" "dense p t0 us" "last (t0 # us) < 4294967296"
  shows "periodic_runs (word_of_int p) 0 (map word_of_int (t0 # us))
    = (let k = (last (t0 # us) - t0) div p in (nat k + 1, word_of_int (t0 + k * p)))"
  using periodic_runs_grid [OF assms(1-3) _ _ assms(4,5) dense_last [OF assms(4)]] assms(1)
  by (simp add: Let_def wrc_task_not_yet_def)

theorem periodic_no_drift_witness:
  "periodic_runs 100 0 (map word_of_int [7, 90, 106, 160, 230, 330]) = (4, 307)"
  using periodic_no_drift [of 100 7 "[90, 106, 160, 230, 330]"] by simp

end
