(* ===== verification/Sdbfs.thy ===== *)
theory Sdbfs
  imports Wrpc_Prelude
begin

text \<open>
  \<^verbatim>\<open>dev/sdbfs.c\<close> and the mounting of \<^verbatim>\<open>dev/storage.c\<close>: the read-only directory of files inside a
  storage device. A device is reached through the three function pointers of its \<open>rwops\<close>, which act on a
  device state of type \<open>'d\<close>; a read yields the return value and the bytes put into the caller's buffer.
  The on-disk numbers are big-endian; every comparison of the code is on the decoded numbers here.

  Results: if the device behaves as a memory (\<open>memory_device\<close>) and its directory has the file
  (\<open>sdb_file\<close>), then \<open>sdbfs_open_id\<close> finds exactly that file; reads, writes and erasures inside the
  file behave as on an array, and touch nothing outside it.
\<close>

section \<open>Definitions\<close>

definition SDB_MAGIC :: int where "SDB_MAGIC = 0x5344422d"
definition SDB_VENDOR :: int where "SDB_VENDOR = 0x46696c6544617461"
definition SDB_DEV_INIT :: int where "SDB_DEV_INIT = 0x77722d69"
definition SDB_DEV_MAC :: int where "SDB_DEV_MAC = 0x6d61632d"
definition SDB_DEV_SFP :: int where "SDB_DEV_SFP = 0x7366702d"
definition SDB_DEV_CALIB :: int where "SDB_DEV_CALIB = 0x63616c69"
definition ENOENT :: int where "ENOENT = 2"
definition ENODEV :: int where "ENODEV = 19"

record 'd storage_rwops =
  rw_read :: "'d \<Rightarrow> int \<Rightarrow> int \<Rightarrow> (int \<times> u8 list) \<times> 'd"
  rw_write :: "'d \<Rightarrow> int \<Rightarrow> u8 list \<Rightarrow> int \<Rightarrow> int \<times> 'd"
  rw_erase :: "'d \<Rightarrow> int \<Rightarrow> int \<Rightarrow> int \<times> 'd"

text \<open>\<open>fs_mounted\<close> is \<open>dev != NULL\<close>, \<open>fs_open\<close> is \<open>currentp != NULL\<close>: that pointer only ever points to the current record.\<close>

record 'd sdbfs =
  fs_mounted :: bool
  fs_priv :: 'd
  fs_entrypoint :: u32
  fs_open :: bool
  fs_record :: "u8 list"
  fs_f_len :: u32
  fs_f_offset :: u32
  fs_this :: u32
  fs_nleft :: int

text \<open>The fields of a 64-byte directory record.\<close>

definition field :: "u8 list \<Rightarrow> nat \<Rightarrow> nat \<Rightarrow> int" where
  "field r a n = be_val (take n (drop a r))"

definition overlay :: "u8 list \<Rightarrow> u8 list \<Rightarrow> u8 list" where
  "overlay bytes buf = bytes @ drop (length bytes) buf"

definition sdbfs_readentry :: "'d storage_rwops \<Rightarrow> u32 \<Rightarrow> 'd sdbfs \<Rightarrow> 'd sdbfs" where
  "sdbfs_readentry ops offset fs =
     (let ((ret, bytes), d) = rw_read ops (fs_priv fs) (sint offset) 64
      in fs\<lparr>fs_priv := d, fs_record := overlay bytes (fs_record fs)\<rparr>)"

definition scan_newdir :: "'d storage_rwops \<Rightarrow> 'd sdbfs \<Rightarrow> bool \<times> 'd sdbfs" where
  "scan_newdir ops fs =
     (let fs = (sdbfs_readentry ops (fs_this fs) fs)\<lparr>fs_open := True\<rparr> in
      if field (fs_record fs) 63 1 \<noteq> 0 then (False, fs)
      else if field (fs_record fs) 0 4 \<noteq> SDB_MAGIC then (False, fs)
      else (True, fs\<lparr>fs_nleft := field (fs_record fs) 4 2 - 1, fs_this := fs_this fs + 64\<rparr>))"

definition sdbfs_scan :: "'d storage_rwops \<Rightarrow> bool \<Rightarrow> 'd sdbfs \<Rightarrow> bool \<times> 'd sdbfs" where
  "sdbfs_scan ops newscan fs =
     (let (ok, fs) =
        (if newscan then scan_newdir ops (fs\<lparr>fs_this := fs_entrypoint fs\<rparr>)
         else if fs_nleft fs = 0 then (False, fs)
         else
           (let fs = (sdbfs_readentry ops (fs_this fs) fs)\<lparr>fs_open := True\<rparr>
            in (True, fs\<lparr>fs_this := fs_this fs + 64, fs_nleft := i32 (fs_nleft fs - 1)\<rparr>)))
      in if ok then (True, fs\<lparr>fs_f_offset := word_of_int (field (fs_record fs) 8 8)\<rparr>) else (False, fs))"

text \<open>
  The loop of \<open>sdbfs_open_id\<close>. The counter \<open>fs_nleft\<close> goes down to zero, from a negative start around the
  32-bit range, so \<open>fs_nleft mod 2^32\<close> turns are enough (lemma \<open>open_loop_fuel\<close>).
\<close>

fun open_loop :: "'d storage_rwops \<Rightarrow> int \<Rightarrow> int \<Rightarrow> nat \<Rightarrow> 'd sdbfs \<Rightarrow> int \<times> 'd sdbfs" where
  "open_loop ops vid did 0 fs = (- ENOENT, fs)"
| "open_loop ops vid did (Suc n) fs =
     (let (ok, fs) = sdbfs_scan ops False fs in
      if \<not> ok then (- ENOENT, fs)
      else if vid \<noteq> field (fs_record fs) 24 8 then open_loop ops vid did n fs
      else if did \<noteq> field (fs_record fs) 32 4 then open_loop ops vid did n fs
      else (0, fs\<lparr>fs_f_len := word_of_int (field (fs_record fs) 16 8 + 1 - uint (fs_f_offset fs))\<rparr>))"

definition sdbfs_open_id :: "'d storage_rwops \<Rightarrow> int \<Rightarrow> int \<Rightarrow> 'd sdbfs \<Rightarrow> int \<times> 'd sdbfs" where
  "sdbfs_open_id ops vid did fs =
     (if \<not> fs_mounted fs then (- ENOENT, fs)
      else
        (let fs = snd (sdbfs_scan ops True fs)
         in open_loop ops vid did (nat (fs_nleft fs mod 4294967296)) fs))"

text \<open>The comparison with \<open>f_len\<close> is unsigned; the clipped count is an \<open>int\<close>.\<close>

definition clip :: "'d sdbfs \<Rightarrow> int \<Rightarrow> int \<Rightarrow> int" where
  "clip fs offset count =
     (if (offset + count) mod 4294967296 > uint (fs_f_len fs) then i32 (uint (fs_f_len fs) - offset) else count)"

definition file_pos :: "'d sdbfs \<Rightarrow> int \<Rightarrow> int" where
  "file_pos fs offset = i32 (uint (fs_f_offset fs) + offset)"

definition sdbfs_fread :: "'d storage_rwops \<Rightarrow> int \<Rightarrow> int \<Rightarrow> 'd sdbfs \<Rightarrow> (int \<times> u8 list) \<times> 'd sdbfs" where
  "sdbfs_fread ops offset count fs =
     (if \<not> fs_open fs then ((- ENOENT, []), fs)
      else
        (let (r, d) = rw_read ops (fs_priv fs) (file_pos fs offset) (clip fs offset count)
         in (r, fs\<lparr>fs_priv := d\<rparr>)))"

definition sdbfs_fwrite :: "'d storage_rwops \<Rightarrow> int \<Rightarrow> u8 list \<Rightarrow> int \<Rightarrow> 'd sdbfs \<Rightarrow> int \<times> 'd sdbfs" where
  "sdbfs_fwrite ops offset buf count fs =
     (if \<not> fs_open fs then (- ENOENT, fs)
      else
        (let (r, d) = rw_write ops (fs_priv fs) (file_pos fs offset) buf (clip fs offset count)
         in (r, fs\<lparr>fs_priv := d\<rparr>)))"

definition sdbfs_ferase :: "'d storage_rwops \<Rightarrow> int \<Rightarrow> int \<Rightarrow> 'd sdbfs \<Rightarrow> int \<times> 'd sdbfs" where
  "sdbfs_ferase ops offset count fs =
     (if \<not> fs_open fs then (- ENOENT, fs)
      else
        (let (r, d) = rw_erase ops (fs_priv fs) (file_pos fs offset) (clip fs offset count)
         in (r, fs\<lparr>fs_priv := d\<rparr>)))"

definition sdbfs_close :: "'d sdbfs \<Rightarrow> 'd sdbfs" where
  "sdbfs_close fs = fs\<lparr>fs_open := False\<rparr>"

text \<open>
  \<open>storage_mount\<close>: the entry points are tried in turn up to the first negative one. The magic number keeps the
  value of the last successful read; \<open>magic\<close> is its four bytes.
\<close>

fun mount_at :: "'d storage_rwops \<Rightarrow> u32 \<Rightarrow> int list \<Rightarrow> u8 list \<Rightarrow> 'd \<Rightarrow> int option \<times> 'd" where
  "mount_at ops dev_size [] magic d = (None, d)"
| "mount_at ops dev_size (a # as) magic d =
     (if a < 0 then (None, d)
      else if a \<ge> uint dev_size then mount_at ops dev_size as magic d
      else
        (let ((ret, bytes), d) = rw_read ops d a 4; magic = overlay bytes magic
         in if be_val magic = SDB_MAGIC then (Some a, d) else mount_at ops dev_size as magic d))"

definition storage_mount :: "'d storage_rwops \<Rightarrow> u32 \<Rightarrow> int list \<Rightarrow> 'd \<Rightarrow> 'd sdbfs \<Rightarrow> int \<times> 'd \<times> 'd sdbfs" where
  "storage_mount ops dev_size entry_points d fs =
     (case mount_at ops dev_size entry_points [0, 0, 0, 0] d of
        (None, d) \<Rightarrow> (- ENODEV, d, fs)
      | (Some a, d) \<Rightarrow> (0, d, fs\<lparr>fs_mounted := True, fs_priv := d, fs_entrypoint := word_of_int a\<rparr>))"

subsection \<open>Specification notions\<close>

text \<open>
  A device of \<open>dev_size\<close> bytes that works: \<open>mem d\<close> is its contents; reads return them, erasures set
  their range to 0xff, writes to an erased range store the bytes there (all that a flash promises), and all return the
  count. A read with a negative count returns it.
\<close>

definition memory_device :: "('d \<Rightarrow> int \<Rightarrow> u8) \<Rightarrow> int \<Rightarrow> 'd storage_rwops \<Rightarrow> bool" where
  "memory_device mem dev_size ops \<longleftrightarrow>
     (\<forall>d off n. 0 \<le> off \<and> 0 \<le> n \<and> off + n \<le> dev_size \<longrightarrow>
        fst (rw_read ops d off n) = (n, map (mem d) [off..off + n - 1]) \<and> mem (snd (rw_read ops d off n)) = mem d)
   \<and> (\<forall>d off n. n < 0 \<longrightarrow> fst (fst (rw_read ops d off n)) = n \<and> mem (snd (rw_read ops d off n)) = mem d)
   \<and> (\<forall>d off buf. 0 \<le> off \<and> off + int (length buf) \<le> dev_size
          \<and> (\<forall>a \<in> {off..<off + int (length buf)}. mem d a = - 1) \<longrightarrow>
        fst (rw_write ops d off buf (int (length buf))) = int (length buf) \<and>
        mem (snd (rw_write ops d off buf (int (length buf))))
          = (\<lambda>a. if off \<le> a \<and> a < off + int (length buf) then buf ! nat (a - off) else mem d a))
   \<and> (\<forall>d off n. 0 \<le> off \<and> 0 \<le> n \<and> off + n \<le> dev_size \<longrightarrow>
        fst (rw_erase ops d off n) = n \<and>
        mem (snd (rw_erase ops d off n)) = (\<lambda>a. if off \<le> a \<and> a < off + n then - 1 else mem d a))"

definition rec_at :: "(int \<Rightarrow> u8) \<Rightarrow> int \<Rightarrow> u8 list" where
  "rec_at m a = map m [a..a + 63]"

text \<open>
  The directory at \<open>entry\<close> of the memory \<open>m\<close> has \<open>N\<close> records; its record \<open>k\<close> is the first one of the vendor
  and device number, for the bytes \<open>off\<close> to \<open>off + len - 1\<close>, which are outside the directory.
\<close>

definition sdb_file :: "(int \<Rightarrow> u8) \<Rightarrow> int \<Rightarrow> int \<Rightarrow> int \<Rightarrow> nat \<Rightarrow> int \<Rightarrow> int \<Rightarrow> int \<Rightarrow> int \<Rightarrow> bool" where
  "sdb_file m dev_size entry N k vid did off len \<longleftrightarrow>
     0 \<le> entry \<and> entry + 64 * N \<le> dev_size \<and> dev_size < 2147483648 \<and> 1 \<le> k \<and> int k < N \<and> N < 65536
   \<and> field (rec_at m entry) 63 1 = 0 \<and> field (rec_at m entry) 0 4 = SDB_MAGIC \<and> field (rec_at m entry) 4 2 = N
   \<and> (\<forall>i \<in> {1..<k}. \<not> (field (rec_at m (entry + 64 * int i)) 24 8 = vid \<and> field (rec_at m (entry + 64 * int i)) 32 4 = did))
   \<and> field (rec_at m (entry + 64 * int k)) 24 8 = vid \<and> field (rec_at m (entry + 64 * int k)) 32 4 = did
   \<and> field (rec_at m (entry + 64 * int k)) 8 8 = off \<and> field (rec_at m (entry + 64 * int k)) 16 8 = off + len - 1
   \<and> 0 \<le> off \<and> 0 < len \<and> off + len \<le> dev_size \<and> (off + len \<le> entry \<or> entry + 64 * N \<le> off)"

text \<open>The state after opening: the file system with another device state of the same contents, and other scan positions.\<close>

definition opened :: "('d \<Rightarrow> int \<Rightarrow> u8) \<Rightarrow> int \<Rightarrow> int \<Rightarrow> 'd sdbfs \<Rightarrow> 'd sdbfs \<Rightarrow> bool" where
  "opened mem off len fs fs' \<longleftrightarrow> mem (fs_priv fs') = mem (fs_priv fs) \<and> fs_open fs' \<and> fs_mounted fs' = fs_mounted fs
     \<and> fs_entrypoint fs' = fs_entrypoint fs \<and> length (fs_record fs') = 64
     \<and> uint (fs_f_offset fs') = off \<and> uint (fs_f_len fs') = len"

text \<open>An open file inside the device, and updates that keep everything but the device state.\<close>

definition open_file :: "int \<Rightarrow> 'd sdbfs \<Rightarrow> bool" where
  "open_file dev_size fs \<longleftrightarrow> fs_open fs \<and> uint (fs_f_offset fs) + uint (fs_f_len fs) \<le> dev_size \<and> dev_size < 2147483648"

section \<open>Facts\<close>

lemma field_bounds: "0 \<le> field r a n" "field r a n < 256 ^ n"
proof -
  show "0 \<le> field r a n" using be_val_bounds [of "take n (drop a r)"] by (simp add: field_def)
  have "be_val (take n (drop a r)) < 256 ^ length (take n (drop a r))" using be_val_bounds by blast
  also have "\<dots> \<le> (256 :: int) ^ n" by (rule power_increasing) simp_all
  finally show "field r a n < 256 ^ n" by (simp add: field_def)
qed

subsection \<open>Scanning the directory\<close>

text \<open>The fuel of the scan is enough: more turns change nothing.\<close>

lemma i32_fits: "fits32 (i32 x)"
  by (auto simp: i32_def fits32_def)

lemma scan_next_nleft:
  assumes "fs_nleft fs \<noteq> 0"
  shows "fs_nleft (snd (sdbfs_scan ops False fs)) = i32 (fs_nleft fs - 1)"
  using assms by (simp add: sdbfs_scan_def sdbfs_readentry_def case_prod_beta Let_def)

lemma open_loop_fuel:
  assumes "fits32 (fs_nleft fs)" "fs_nleft fs mod 4294967296 = int k" "k \<le> n"
  shows "open_loop ops vid did n fs = open_loop ops vid did k fs"
  using assms
proof (induction k arbitrary: fs n)
  case 0
  then have "fs_nleft fs = 0" by (auto simp: fits32_def zmod_eq_0_iff)
  then show ?case by (cases n) (simp_all add: sdbfs_scan_def)
next
  case (Suc k)
  then obtain m where n: "n = Suc m" "k \<le> m" by (cases n) simp_all
  have ne: "fs_nleft fs \<noteq> 0" using Suc.prems(2) by auto
  let ?fs = "snd (sdbfs_scan ops False fs)"
  have nl: "fs_nleft ?fs = i32 (fs_nleft fs - 1)" by (rule scan_next_nleft [OF ne])
  have "i32 (fs_nleft fs - 1) mod 4294967296 = (fs_nleft fs mod 4294967296 - 1) mod 4294967296"
    by (simp add: i32_def mod_simps)
  also have "\<dots> = int k" using Suc.prems(2) pos_mod_bound [of 4294967296 "fs_nleft fs"]
    by (simp add: mod_pos_pos_trivial)
  finally have "open_loop ops vid did m ?fs = open_loop ops vid did k ?fs"
    using n(2) by (intro Suc.IH) (simp_all add: nl i32_fits)
  then show ?case by (auto simp: n(1) case_prod_beta Let_def)
qed

lemma sint_small: "0 \<le> a \<Longrightarrow> a < 2147483648 \<Longrightarrow> sint (word_of_int a :: u32) = a"
  by (simp only: sint_sbintrunc') (simp add: signed_take_bit_int_eq_self)

lemma uint_small: "0 \<le> a \<Longrightarrow> a < 4294967296 \<Longrightarrow> uint (word_of_int a :: u32) = a"
  by (simp add: unsigned_of_int take_bit_int_eq_self)

lemma memory_read:
  assumes "memory_device mem dev_size ops" "0 \<le> off" "0 \<le> n" "off + n \<le> dev_size"
  shows "fst (rw_read ops d off n) = (n, map (mem d) [off..off + n - 1])" "mem (snd (rw_read ops d off n)) = mem d"
  using assms unfolding memory_device_def by blast+

lemma memory_read_negative:
  assumes "memory_device mem dev_size ops" "n < 0"
  shows "fst (fst (rw_read ops d off n)) = n" "mem (snd (rw_read ops d off n)) = mem d"
  using assms unfolding memory_device_def by blast+

lemma memory_write:
  assumes "memory_device mem dev_size ops" "0 \<le> off" "off + int (length buf) \<le> dev_size"
    "\<forall>a \<in> {off..<off + int (length buf)}. mem d a = - 1"
  shows "fst (rw_write ops d off buf (int (length buf))) = int (length buf)"
    "mem (snd (rw_write ops d off buf (int (length buf))))
       = (\<lambda>a. if off \<le> a \<and> a < off + int (length buf) then buf ! nat (a - off) else mem d a)"
  using assms unfolding memory_device_def by blast+

lemma memory_erase:
  assumes "memory_device mem dev_size ops" "0 \<le> off" "0 \<le> n" "off + n \<le> dev_size"
  shows "fst (rw_erase ops d off n) = n"
    "mem (snd (rw_erase ops d off n)) = (\<lambda>a. if off \<le> a \<and> a < off + n then - 1 else mem d a)"
  using assms unfolding memory_device_def by blast+

lemma readentry_memory:
  assumes dev: "memory_device mem dev_size ops" and a: "0 \<le> a" "a + 64 \<le> dev_size" "dev_size < 2147483648"
    and fs: "length (fs_record fs) = 64"
  shows "\<exists>d. sdbfs_readentry ops (word_of_int a) fs = fs\<lparr>fs_priv := d, fs_record := rec_at (mem (fs_priv fs)) a\<rparr> \<and> mem d = mem (fs_priv fs)"
proof -
  have "rec_at m a = map m [a..a + 64 - 1]" for m by (simp add: rec_at_def add.commute)
  then have "fst (rw_read ops (fs_priv fs) a 64) = (64, rec_at (mem (fs_priv fs)) a)"
    "mem (snd (rw_read ops (fs_priv fs) a 64)) = mem (fs_priv fs)"
    using memory_read [OF dev a(1) _ a(2), of "fs_priv fs"] by simp_all
  then show ?thesis using fs sint_small [of a] a
    by (auto simp: sdbfs_readentry_def case_prod_beta overlay_def rec_at_def)
qed

lemma scan_next_memory:
  assumes dev: "memory_device mem dev_size ops" and a: "0 \<le> a" "a + 64 \<le> dev_size" "dev_size < 2147483648"
    and fs: "length (fs_record fs) = 64" "fs_this fs = word_of_int a" "0 < fs_nleft fs" "fs_nleft fs < 65536"
  obtains d where "mem d = mem (fs_priv fs)"
    "sdbfs_scan ops False fs = (True, fs\<lparr>fs_priv := d, fs_open := True, fs_record := rec_at (mem (fs_priv fs)) a,
       fs_this := word_of_int (a + 64), fs_nleft := fs_nleft fs - 1,
       fs_f_offset := word_of_int (field (rec_at (mem (fs_priv fs)) a) 8 8)\<rparr>)"
proof -
  obtain d where d: "mem d = mem (fs_priv fs)"
    "sdbfs_readentry ops (word_of_int a) fs = fs\<lparr>fs_priv := d, fs_record := rec_at (mem (fs_priv fs)) a\<rparr>"
    using readentry_memory [OF dev a fs(1)] by blast
  have "i32 (fs_nleft fs - 1) = fs_nleft fs - 1" using fs(3,4) by (intro i32_id fits32I) linarith+
  then have "sdbfs_scan ops False fs = (True, fs\<lparr>fs_priv := d, fs_open := True, fs_record := rec_at (mem (fs_priv fs)) a,
       fs_this := word_of_int (a + 64), fs_nleft := fs_nleft fs - 1,
       fs_f_offset := word_of_int (field (rec_at (mem (fs_priv fs)) a) 8 8)\<rparr>)"
    using fs d(2) by (simp add: sdbfs_scan_def Let_def)
  with d(1) show ?thesis by (rule that)
qed

lemma open_loop_found:
  assumes dev: "memory_device mem dev_size ops" and fil: "sdb_file m dev_size entry N k vid did off len"
    and i: "1 \<le> i" "i \<le> k" and n: "n = nat (N - int i)"
    and fs: "mem (fs_priv fs) = m" "length (fs_record fs) = 64" "fs_this fs = word_of_int (entry + 64 * int i)" "fs_nleft fs = N - int i"
  shows "\<exists>fs'. open_loop ops vid did n fs = (0, fs') \<and> opened mem off len fs fs'"
  using i n fs
proof (induction n arbitrary: i fs)
  case 0
  then show ?case using fil by (simp add: sdb_file_def)
next
  case (Suc n)
  note f = fil [unfolded sdb_file_def]
  let ?a = "entry + 64 * int i"
  have bounds: "0 \<le> ?a" "?a + 64 \<le> dev_size" "dev_size < 2147483648" "0 < fs_nleft fs" "fs_nleft fs < 65536"
    using f Suc.prems by auto
  obtain d where d: "mem d = m" and scan: "sdbfs_scan ops False fs = (True, fs\<lparr>fs_priv := d, fs_open := True,
       fs_record := rec_at m ?a, fs_this := word_of_int (?a + 64), fs_nleft := fs_nleft fs - 1,
       fs_f_offset := word_of_int (field (rec_at m ?a) 8 8)\<rparr>)"
    using scan_next_memory [OF dev bounds(1-3) Suc.prems(5,6) bounds(4,5)] Suc.prems(4) by metis
  show ?case
  proof (cases "i = k")
    case True
    have m: "field (rec_at m ?a) 24 8 = vid" "field (rec_at m ?a) 32 4 = did" "field (rec_at m ?a) 8 8 = off"
      "field (rec_at m ?a) 16 8 = off + len - 1" and b: "0 \<le> off" "0 < len" "off + len < 2147483648"
      using f True by auto
    have u: "uint (word_of_int off :: u32) = off" "uint (word_of_int len :: u32) = len" using b by (auto intro: uint_small)
    have r: "length (rec_at m ?a) = 64" by (simp add: rec_at_def)
    let ?fs = "snd (sdbfs_scan ops False fs)\<lparr>fs_f_len := word_of_int len\<rparr>"
    have "open_loop ops vid did (Suc n) fs = (0, ?fs)" by (simp add: scan m u(1))
    moreover have "opened mem off len fs ?fs" using d Suc.prems(4) by (simp add: scan opened_def r m(3) u)
    ultimately show ?thesis by blast
  next
    case False
    let ?fs = "snd (sdbfs_scan ops False fs)"
    have "\<not> (field (rec_at m ?a) 24 8 = vid \<and> field (rec_at m ?a) 32 4 = did)" using f Suc.prems(1,2) False by simp
    then have "open_loop ops vid did (Suc n) fs = open_loop ops vid did n ?fs" by (auto simp: scan)
    moreover have "\<exists>fs'. open_loop ops vid did n ?fs = (0, fs') \<and> opened mem off len ?fs fs'"
      using Suc.prems False d by (intro Suc.IH [of "i + 1"]) (auto simp: scan rec_at_def algebra_simps)
    ultimately show ?thesis using d Suc.prems(4) by (auto simp: opened_def scan)
  qed
qed

lemma sdbfs_open_id_found:
  assumes dev: "memory_device mem dev_size ops" and fs: "fs_mounted fs" "length (fs_record fs) = 64"
    and fil: "sdb_file (mem (fs_priv fs)) dev_size (uint (fs_entrypoint fs)) N k vid did off len"
  obtains fs' where "sdbfs_open_id ops vid did fs = (0, fs')" "opened mem off len fs fs'"
proof -
  note f = fil [unfolded sdb_file_def]
  let ?e = "uint (fs_entrypoint fs)" and ?m = "mem (fs_priv fs)"
  obtain d where d: "mem d = ?m" and r: "sdbfs_readentry ops (word_of_int ?e) (fs\<lparr>fs_this := fs_entrypoint fs\<rparr>)
      = fs\<lparr>fs_this := fs_entrypoint fs, fs_priv := d, fs_record := rec_at ?m ?e\<rparr>"
    using readentry_memory [OF dev, of ?e "fs\<lparr>fs_this := fs_entrypoint fs\<rparr>"] f fs(2) by auto
  let ?fs = "snd (sdbfs_scan ops True fs)"
  have s: "?fs = fs\<lparr>fs_this := fs_entrypoint fs + 64, fs_priv := d, fs_record := rec_at ?m ?e, fs_open := True,
      fs_nleft := N - 1, fs_f_offset := word_of_int (field (rec_at ?m ?e) 8 8)\<rparr>"
    using r f by (simp add: sdbfs_scan_def scan_newdir_def Let_def)
  have "\<exists>fs'. open_loop ops vid did (nat (N - 1)) ?fs = (0, fs') \<and> opened mem off len ?fs fs'"
    using f d by (intro open_loop_found [OF dev fil, where i = 1]) (auto simp: s rec_at_def wi_hom_add [symmetric])
  moreover have "nat (fs_nleft ?fs mod 4294967296) = nat (N - 1)" using f by (simp add: s)
  ultimately show ?thesis using d fs(1) by (auto simp: sdbfs_open_id_def s opened_def intro!: that)
qed

subsection \<open>Access inside an open file\<close>

lemma clip_inside:
  assumes "0 \<le> o1" "0 \<le> n" "o1 + n \<le> uint (fs_f_len fs)"
  shows "clip fs o1 n = n"
proof -
  have "o1 + n < 4294967296" using assms uint_lt2p [of "fs_f_len fs"] by simp
  then show ?thesis using assms by (simp add: clip_def)
qed

lemma file_pos_inside:
  assumes "uint (fs_f_offset fs) + uint (fs_f_len fs) < 2147483648" "0 \<le> o1" "o1 \<le> uint (fs_f_len fs)"
  shows "file_pos fs o1 = uint (fs_f_offset fs) + o1"
  unfolding file_pos_def using assms uint_ge_0 [of "fs_f_offset fs"] by (intro i32_id fits32I) linarith+

lemma open_file_priv [simp]: "open_file dev_size (fs\<lparr>fs_priv := d\<rparr>) = open_file dev_size fs"
  by (simp add: open_file_def)

lemma fread_inside:
  assumes dev: "memory_device mem dev_size ops" and f: "open_file dev_size fs" and r: "0 \<le> o1" "0 \<le> n" "o1 + n \<le> uint (fs_f_len fs)"
  shows "\<exists>d. sdbfs_fread ops o1 n fs = ((n, map (mem (fs_priv fs)) [uint (fs_f_offset fs) + o1..uint (fs_f_offset fs) + o1 + n - 1]),
    fs\<lparr>fs_priv := d\<rparr>) \<and> mem d = mem (fs_priv fs)"
proof -
  have o: "fs_open fs" and p: "file_pos fs o1 = uint (fs_f_offset fs) + o1"
    using f r file_pos_inside [of fs o1] by (simp_all add: open_file_def)
  have b: "0 \<le> uint (fs_f_offset fs) + o1" "uint (fs_f_offset fs) + o1 + n \<le> dev_size"
    using r f uint_ge_0 [of "fs_f_offset fs"] unfolding open_file_def by linarith+
  let ?x = "rw_read ops (fs_priv fs) (uint (fs_f_offset fs) + o1) n"
  have "sdbfs_fread ops o1 n fs = (fst ?x, fs\<lparr>fs_priv := snd ?x\<rparr>)"
    by (simp add: sdbfs_fread_def o p clip_inside [OF r] case_prod_beta)
  then show ?thesis using memory_read [OF dev b(1) r(2) b(2), of "fs_priv fs"] by auto
qed

lemma fwrite_inside:
  assumes dev: "memory_device mem dev_size ops" and f: "open_file dev_size fs" and r: "0 \<le> o1" "o1 + int (length buf) \<le> uint (fs_f_len fs)"
    and e: "\<And>a. uint (fs_f_offset fs) + o1 \<le> a \<Longrightarrow> a < uint (fs_f_offset fs) + o1 + int (length buf) \<Longrightarrow> mem (fs_priv fs) a = - 1"
  shows "\<exists>d. sdbfs_fwrite ops o1 buf (int (length buf)) fs = (int (length buf), fs\<lparr>fs_priv := d\<rparr>)
    \<and> mem d = (\<lambda>a. if uint (fs_f_offset fs) + o1 \<le> a \<and> a < uint (fs_f_offset fs) + o1 + int (length buf)
                  then buf ! nat (a - (uint (fs_f_offset fs) + o1)) else mem (fs_priv fs) a)"
proof -
  have o: "fs_open fs" and p: "file_pos fs o1 = uint (fs_f_offset fs) + o1"
    using f r file_pos_inside [of fs o1] by (simp_all add: open_file_def)
  have b: "0 \<le> uint (fs_f_offset fs) + o1" "uint (fs_f_offset fs) + o1 + int (length buf) \<le> dev_size"
    using r f uint_ge_0 [of "fs_f_offset fs"] unfolding open_file_def by linarith+
  let ?x = "rw_write ops (fs_priv fs) (uint (fs_f_offset fs) + o1) buf (int (length buf))"
  have "sdbfs_fwrite ops o1 buf (int (length buf)) fs = (fst ?x, fs\<lparr>fs_priv := snd ?x\<rparr>)"
    by (simp add: sdbfs_fwrite_def o p clip_inside [OF r(1) _ r(2)] case_prod_beta)
  then show ?thesis using memory_write [OF dev b, of "fs_priv fs"] e by auto
qed

lemma ferase_inside:
  assumes dev: "memory_device mem dev_size ops" and f: "open_file dev_size fs" and r: "0 \<le> o1" "0 \<le> n" "o1 + n \<le> uint (fs_f_len fs)"
  shows "\<exists>d. sdbfs_ferase ops o1 n fs = (n, fs\<lparr>fs_priv := d\<rparr>)
    \<and> mem d = (\<lambda>a. if uint (fs_f_offset fs) + o1 \<le> a \<and> a < uint (fs_f_offset fs) + o1 + n then - 1 else mem (fs_priv fs) a)"
proof -
  have o: "fs_open fs" and p: "file_pos fs o1 = uint (fs_f_offset fs) + o1"
    using f r file_pos_inside [of fs o1] by (simp_all add: open_file_def)
  have b: "0 \<le> uint (fs_f_offset fs) + o1" "uint (fs_f_offset fs) + o1 + n \<le> dev_size"
    using r f uint_ge_0 [of "fs_f_offset fs"] unfolding open_file_def by linarith+
  let ?x = "rw_erase ops (fs_priv fs) (uint (fs_f_offset fs) + o1) n"
  have "sdbfs_ferase ops o1 n fs = (fst ?x, fs\<lparr>fs_priv := snd ?x\<rparr>)"
    by (simp add: sdbfs_ferase_def o p clip_inside [OF r] case_prod_beta)
  then show ?thesis using memory_erase [OF dev b(1) r(2) b(2), of "fs_priv fs"] by auto
qed

text \<open>A directory stays valid when only bytes of the file change.\<close>

lemma sdb_file_cong:
  assumes f: "sdb_file m dev_size entry N k vid did off len"
    and eq: "\<And>a. \<not> (off \<le> a \<and> a < off + len) \<Longrightarrow> m' a = m a"
  shows "sdb_file m' dev_size entry N k vid did off len"
proof -
  have "rec_at m' (entry + 64 * int i) = rec_at m (entry + 64 * int i)" if "int i < N" for i
    using f that unfolding sdb_file_def rec_at_def by (intro map_cong refl eq) auto
  from this [of 0] this show ?thesis using f unfolding sdb_file_def by auto
qed

lemma opened_file:
  assumes "sdb_file m dev_size entry N k vid did off len" "opened mem off len fs fs'"
  shows "open_file dev_size fs'"
  using assms by (auto simp: open_file_def opened_def sdb_file_def)

text \<open>Replacing the contents of a file.\<close>

lemma erase_and_write:
  assumes dev: "memory_device mem dev_size ops" and f: "open_file dev_size fs" and b: "int (length buf) \<le> uint (fs_f_len fs)"
  shows "\<exists>d. snd (sdbfs_fwrite ops 0 buf (int (length buf)) (snd (sdbfs_ferase ops 0 (sint (fs_f_len fs)) fs))) = fs\<lparr>fs_priv := d\<rparr>
    \<and> (\<forall>a. \<not> (uint (fs_f_offset fs) \<le> a \<and> a < uint (fs_f_offset fs) + uint (fs_f_len fs)) \<longrightarrow> mem d a = mem (fs_priv fs) a)
    \<and> map (mem d) [uint (fs_f_offset fs)..uint (fs_f_offset fs) + int (length buf) - 1] = buf"
proof -
  let ?o = "uint (fs_f_offset fs)" and ?n = "uint (fs_f_len fs)"
  have "?n < 2147483648" using f uint_ge_0 [of "fs_f_offset fs"] unfolding open_file_def by linarith
  then have s: "sint (fs_f_len fs) = ?n" using sint_small [of ?n] by simp
  obtain d1 where d1: "sdbfs_ferase ops 0 ?n fs = (?n, fs\<lparr>fs_priv := d1\<rparr>)"
    "mem d1 = (\<lambda>a. if ?o \<le> a \<and> a < ?o + ?n then - 1 else mem (fs_priv fs) a)"
    using ferase_inside [OF dev f, of 0 ?n] by auto
  obtain d2 where d2: "sdbfs_fwrite ops 0 buf (int (length buf)) (fs\<lparr>fs_priv := d1\<rparr>) = (int (length buf), fs\<lparr>fs_priv := d2\<rparr>)"
    "mem d2 = (\<lambda>a. if ?o \<le> a \<and> a < ?o + int (length buf) then buf ! nat (a - ?o) else mem d1 a)"
    using fwrite_inside [OF dev, of "fs\<lparr>fs_priv := d1\<rparr>" 0 buf] f b d1(2) by (auto cong: if_cong)
  have "map (mem d2) [?o..?o + int (length buf) - 1] = buf"
    by (rule nth_equalityI) (auto simp: d2(2) nth_upto)
  then show ?thesis using d1 d2 b by (intro exI [of _ d2]) (auto simp: s)
qed

text \<open>A working device: a RAM whose state is its contents.\<close>

definition ram_ops :: "(int \<Rightarrow> u8) storage_rwops" where
  "ram_ops = \<lparr>rw_read = (\<lambda>d off n. ((n, map d [off..off + n - 1]), d)),
     rw_write = (\<lambda>d off buf n. (n, \<lambda>a. if off \<le> a \<and> a < off + n then buf ! nat (a - off) else d a)),
     rw_erase = (\<lambda>d off n. (n, \<lambda>a. if off \<le> a \<and> a < off + n then - 1 else d a))\<rparr>"

lemma ram_device: "memory_device id dev_size ram_ops"
  by (simp add: memory_device_def ram_ops_def fun_eq_iff)

end
