(* ===== verification/Storage_Cal.thy ===== *)
theory Storage_Cal
  imports Sdbfs
begin

text \<open>
  \<^verbatim>\<open>dev/storage-cal.c\<close>: the table of calibration parameters and its file. The table is an array of 12
  slots of which the first \<open>param_count\<close> are in use. Where the code would access a slot outside the
  array, which a corrupt file with a right checksum can make it do, the operation has no result (\<open>None\<close>).

  Results: the table is a finite map with at most 12 keys (an instance of the \<open>param_store\<close> interface);
  what \<open>storage_save_calibration\<close> writes, \<open>storage_load_calibration\<close> reads back.
\<close>

section \<open>Definitions\<close>

definition CAL_MAX_PARAMS :: nat where "CAL_MAX_PARAMS = 12"
definition CAL_FILE_MAGIC :: u32 where "CAL_FILE_MAGIC = 0xcafebabe"

record wrc_cal_data =
  cd_magic :: u32
  cd_param_count :: u32
  cd_checksum :: u32
  cd_params :: "(u32 \<times> u32) list"

record 'd cal_state =
  cs_cal :: wrc_cal_data
  cs_loaded :: bool
  cs_fs :: "'d sdbfs"

text \<open>The sum over \<open>n\<close> slots from slot \<open>i\<close>.\<close>

fun sum_params :: "(u32 \<times> u32) list \<Rightarrow> nat \<Rightarrow> nat \<Rightarrow> u32 \<Rightarrow> u32 option" where
  "sum_params ps 0 i cksum = Some cksum"
| "sum_params ps (Suc n) i cksum =
     (case load ps i of None \<Rightarrow> None | Some p \<Rightarrow> sum_params ps n (i + 1) (cksum + fst p + snd p))"

definition calc_checksum :: "wrc_cal_data \<Rightarrow> u32 option" where
  "calc_checksum cal = sum_params (cd_params cal) (unat (cd_param_count cal)) 0 (cd_magic cal + cd_param_count cal)"

text \<open>The search loop shared by the three operations: the first of \<open>n\<close> slots from \<open>i\<close> with the key.\<close>

fun find_param :: "u32 \<Rightarrow> (u32 \<times> u32) list \<Rightarrow> nat \<Rightarrow> nat \<Rightarrow> nat option option" where
  "find_param ident ps 0 i = Some None"
| "find_param ident ps (Suc n) i =
     (case load ps i of
        None \<Rightarrow> None
      | Some p \<Rightarrow> if ident = fst p then Some (Some i) else find_param ident ps n (i + 1))"

definition find_cal :: "u32 \<Rightarrow> wrc_cal_data \<Rightarrow> nat option option" where
  "find_cal ident c = find_param ident (cd_params c) (unat (cd_param_count c)) 0"

definition storage_get_calibration_parameter :: "u32 \<Rightarrow> wrc_cal_data \<Rightarrow> (int \<times> u32 option) option" where
  "storage_get_calibration_parameter ident c =
     (case find_cal ident c of
        None \<Rightarrow> None
      | Some None \<Rightarrow> Some (- 1, None)
      | Some (Some i) \<Rightarrow> Some (0, Some (snd (cd_params c ! i))))"

definition storage_set_calibration_parameter :: "u32 \<Rightarrow> u32 \<Rightarrow> wrc_cal_data \<Rightarrow> (int \<times> wrc_cal_data) option" where
  "storage_set_calibration_parameter ident val c =
     (case find_cal ident c of
        None \<Rightarrow> None
      | Some (Some i) \<Rightarrow> Some (0, c\<lparr>cd_params := (cd_params c)[i := (fst (cd_params c ! i), val)]\<rparr>)
      | Some None \<Rightarrow>
          (if unat (cd_param_count c) \<ge> CAL_MAX_PARAMS then Some (- 1, c)
           else
             (case store (cd_params c) (unat (cd_param_count c)) (ident, val) of
                None \<Rightarrow> None
              | Some ps \<Rightarrow> Some (0, c\<lparr>cd_params := ps, cd_param_count := cd_param_count c + 1\<rparr>))))"

definition storage_remove_calibration_parameter :: "u32 \<Rightarrow> wrc_cal_data \<Rightarrow> (int \<times> wrc_cal_data) option" where
  "storage_remove_calibration_parameter ident c =
     (case find_cal ident c of
        None \<Rightarrow> None
      | Some None \<Rightarrow> Some (- 1, c)
      | Some (Some i) \<Rightarrow>
          (let n = cd_param_count c - 1 in
           case load (cd_params c) (unat n) of
             None \<Rightarrow> None
           | Some p \<Rightarrow> Some (0, c\<lparr>cd_param_count := n, cd_params := (cd_params c)[i := p]\<rparr>)))"

text \<open>The file image: 27 big-endian words, as \<open>htonl_mem\<close> and \<open>ntohl_mem\<close> make and read it.\<close>

definition be32_bytes :: "u32 \<Rightarrow> u8 list" where
  "be32_bytes w = map (\<lambda>k. word_of_int (uint w div 256 ^ k)) [3, 2, 1, 0]"

definition cal_words :: "wrc_cal_data \<Rightarrow> u32 list" where
  "cal_words c = cd_magic c # cd_param_count c # cd_checksum c # concat (map (\<lambda>p. [fst p, snd p]) (cd_params c))"

definition htonl_mem :: "wrc_cal_data \<Rightarrow> u8 list" where
  "htonl_mem c = concat (map be32_bytes (cal_words c))"

definition be_word :: "u8 list \<Rightarrow> nat \<Rightarrow> u32" where
  "be_word bs i = word_of_int (field bs (4 * i) 4)"

definition ntohl_mem :: "u8 list \<Rightarrow> wrc_cal_data" where
  "ntohl_mem bs = \<lparr>cd_magic = be_word bs 0, cd_param_count = be_word bs 1, cd_checksum = be_word bs 2,
     cd_params = map (\<lambda>i. (be_word bs (3 + 2 * i), be_word bs (4 + 2 * i))) [0..<CAL_MAX_PARAMS]\<rparr>"

definition CAL_SIZE :: int where "CAL_SIZE = 108"

text \<open>\<open>junk\<close> is what the local buffer holds before the read.\<close>

definition storage_load_calibration :: "'d storage_rwops \<Rightarrow> u8 list \<Rightarrow> 'd cal_state \<Rightarrow> (int \<times> 'd cal_state) option" where
  "storage_load_calibration ops junk s =
     (let s = s\<lparr>cs_cal := (cs_cal s)\<lparr>cd_param_count := 0\<rparr>\<rparr>;
          (r, fs) = sdbfs_open_id ops SDB_VENDOR SDB_DEV_CALIB (cs_fs s); s = s\<lparr>cs_fs := fs\<rparr> in
      if r < 0 then Some (- 1, s)
      else
        (let ((ret, bytes), fs) = sdbfs_fread ops 0 CAL_SIZE (cs_fs s); closed = s\<lparr>cs_fs := sdbfs_close fs\<rparr> in
         if ret \<noteq> CAL_SIZE then Some (- 1, closed)
         else
           (let c = ntohl_mem (overlay bytes junk) in
            if cd_magic c \<noteq> CAL_FILE_MAGIC then Some (- 1, closed\<lparr>cs_cal := c\<lparr>cd_param_count := 0\<rparr>\<rparr>)
            else
              (case calc_checksum c of
                 None \<Rightarrow> None
               | Some cksum \<Rightarrow>
                   (if cd_checksum c \<noteq> cksum then Some (- 1, closed\<lparr>cs_cal := c\<lparr>cd_param_count := 0\<rparr>\<rparr>)
                    else Some (0, closed\<lparr>cs_cal := c, cs_loaded := True\<rparr>))))))"

definition storage_save_calibration :: "'d storage_rwops \<Rightarrow> 'd cal_state \<Rightarrow> (int \<times> 'd cal_state) option" where
  "storage_save_calibration ops s =
     (let (r, fs) = sdbfs_open_id ops SDB_VENDOR SDB_DEV_CALIB (cs_fs s); s = s\<lparr>cs_fs := fs\<rparr> in
      if r < 0 then Some (- 1, s)
      else
        (let c = (cs_cal s)\<lparr>cd_magic := CAL_FILE_MAGIC\<rparr> in
         case calc_checksum c of
           None \<Rightarrow> None
         | Some cksum \<Rightarrow>
             (let c = c\<lparr>cd_checksum := cksum\<rparr>;
                  fs = snd (sdbfs_ferase ops 0 (sint (fs_f_len fs)) fs);
                  fs = snd (sdbfs_fwrite ops 0 (htonl_mem c) CAL_SIZE fs)
              in Some (0, s\<lparr>cs_cal := c, cs_fs := sdbfs_close fs\<rparr>))))"

definition storage_set_calibration_parameter_and_save ::
  "'d storage_rwops \<Rightarrow> u32 \<Rightarrow> u32 \<Rightarrow> 'd cal_state \<Rightarrow> (int \<times> 'd cal_state) option" where
  "storage_set_calibration_parameter_and_save ops ident val s =
     (case storage_set_calibration_parameter ident val (cs_cal s) of
        None \<Rightarrow> None
      | Some (res, c) \<Rightarrow>
          (if res \<noteq> 0 then Some (res, s\<lparr>cs_cal := c\<rparr>) else storage_save_calibration ops (s\<lparr>cs_cal := c\<rparr>)))"

text \<open>Specification: the table as a map, and its invariant.\<close>

definition used_params :: "wrc_cal_data \<Rightarrow> (u32 \<times> u32) list" where
  "used_params c = take (unat (cd_param_count c)) (cd_params c)"

definition cal_map :: "wrc_cal_data \<Rightarrow> u32 \<Rightarrow> u32 option" where
  "cal_map c = map_of (used_params c)"

definition cal_ok :: "wrc_cal_data \<Rightarrow> bool" where
  "cal_ok c \<longleftrightarrow> length (cd_params c) = CAL_MAX_PARAMS \<and> unat (cd_param_count c) \<le> CAL_MAX_PARAMS
     \<and> distinct (map fst (used_params c))"

section \<open>The interface of a parameter store\<close>

text \<open>
  What the users of the table rely on: \<open>view\<close> is a finite map of at most \<open>cap\<close> keys; \<open>get\<close>, \<open>put\<close> and \<open>remove\<close>
  return 0 and act on the map, or return -1 and change nothing; no operation is undefined.
\<close>

locale param_store =
  fixes view :: "'s \<Rightarrow> 'k \<Rightarrow> 'v option" and inv :: "'s \<Rightarrow> bool" and cap :: nat
    and get :: "'k \<Rightarrow> 's \<Rightarrow> (int \<times> 'v option) option"
    and put :: "'k \<Rightarrow> 'v \<Rightarrow> 's \<Rightarrow> (int \<times> 's) option"
    and remove :: "'k \<Rightarrow> 's \<Rightarrow> (int \<times> 's) option"
  assumes finite_view: "inv s \<Longrightarrow> finite (dom (view s))"
    and get_view: "inv s \<Longrightarrow> get k s = Some (case view s k of None \<Rightarrow> (- 1, None) | Some v \<Rightarrow> (0, Some v))"
    and put_view: "inv s \<Longrightarrow> k \<in> dom (view s) \<or> card (dom (view s)) < cap \<Longrightarrow>
      \<exists>s'. put k v s = Some (0, s') \<and> inv s' \<and> view s' = (view s)(k \<mapsto> v)"
    and put_full: "inv s \<Longrightarrow> k \<notin> dom (view s) \<Longrightarrow> cap \<le> card (dom (view s)) \<Longrightarrow> put k v s = Some (- 1, s)"
    and remove_view: "inv s \<Longrightarrow> k \<in> dom (view s) \<Longrightarrow> \<exists>s'. remove k s = Some (0, s') \<and> inv s' \<and> view s' = (view s)(k := None)"
    and remove_absent: "inv s \<Longrightarrow> k \<notin> dom (view s) \<Longrightarrow> remove k s = Some (- 1, s)"
begin

text \<open>Storing a batch of parameters that fits.\<close>

lemma put_all:
  assumes "inv s" "card (dom (view s) \<union> fst ` set kvs) \<le> cap"
  shows "\<exists>s'. for_each (\<lambda>(k, v) s. map_option snd (put k v s)) kvs s = Some s' \<and> inv s' \<and> view s' = view s ++ map_of (rev kvs)"
  using assms
proof (induction kvs arbitrary: s)
  case Nil
  then show ?case by simp
next
  case (Cons kv kvs)
  obtain k v where kv: "kv = (k, v)" by (cases kv)
  let ?D = "dom (view s)" and ?K = "fst ` set kvs"
  have fin: "finite (insert k (?D \<union> ?K))" using finite_view [OF Cons.prems(1)] by simp
  have "insert k ?D \<subseteq> insert k (?D \<union> ?K)" by auto
  from card_mono [OF fin this] have "card (insert k ?D) \<le> cap" using Cons.prems(2) by (simp add: kv)
  then have "k \<in> ?D \<or> card ?D < cap"
    using finite_view [OF Cons.prems(1)] by (auto simp: card_insert_if split: if_splits)
  from put_view [OF Cons.prems(1) this, of v] obtain s1
    where s1: "put k v s = Some (0, s1)" "inv s1" "view s1 = (view s)(k \<mapsto> v)" by blast
  have "card (dom (view s1) \<union> ?K) \<le> cap" using Cons.prems(2) by (simp add: s1(3) kv)
  from Cons.IH [OF s1(2) this] obtain s' where "for_each (\<lambda>(k, v) s. map_option snd (put k v s)) kvs s1 = Some s'"
    "inv s'" "view s' = (view s)(k \<mapsto> v) ++ map_of (rev kvs)" unfolding s1(3) by blast
  then show ?case
    by (intro exI [of _ s']) (simp add: kv s1(1) fun_eq_iff map_add_def split: option.split)
qed

text \<open>Setting and removing one parameter, seen by the reader of any parameter.\<close>

lemma put_get:
  assumes "inv s" "put k v s = Some (0, s')"
  shows "inv s' \<and> get k s' = Some (0, Some v) \<and> (k' \<noteq> k \<longrightarrow> get k' s' = get k' s)"
proof -
  have "k \<in> dom (view s) \<or> card (dom (view s)) < cap"
    using put_full [OF assms(1), of k v] assms(2) by (cases "k \<in> dom (view s)") (auto simp: not_less)
  from put_view [OF assms(1) this, of v] assms(2) show ?thesis by (auto simp: get_view assms(1))
qed

lemma remove_get:
  assumes "inv s" "remove k s = Some (r, s')"
  shows "inv s' \<and> get k s' = Some (- 1, None) \<and> (k' \<noteq> k \<longrightarrow> get k' s' = get k' s)"
  using remove_view [OF assms(1), of k] remove_absent [OF assms(1), of k] assms
  by (cases "view s k") (auto simp: get_view dom_def)

end

section \<open>Facts\<close>

subsection \<open>The table\<close>

lemma find_param_cases:
  assumes "i + n \<le> length ps"
  shows "(\<exists>j. find_param ident ps n i = Some (Some j) \<and> i \<le> j \<and> j < i + n \<and> fst (ps ! j) = ident)
    \<or> (find_param ident ps n i = Some None \<and> (\<forall>j. i \<le> j \<and> j < i + n \<longrightarrow> fst (ps ! j) \<noteq> ident))"
  using assms
proof (induction n arbitrary: i)
  case (Suc n)
  have l: "load ps i = Some (ps ! i)" using Suc.prems by (simp add: load_def)
  show ?case
  proof (cases "fst (ps ! i) = ident")
    case True
    then show ?thesis by (auto simp: l)
  next
    case False
    have "i + 1 + n \<le> length ps" using Suc.prems by simp
    from Suc.IH [OF this] show ?thesis
    proof (elim disjE exE conjE)
      fix j assume "find_param ident ps n (i + 1) = Some (Some j)" "i + 1 \<le> j" "j < i + 1 + n" "fst (ps ! j) = ident"
      then show ?thesis using False by (auto simp: l)
    next
      assume n: "find_param ident ps n (i + 1) = Some None" and a: "\<forall>j. i + 1 \<le> j \<and> j < i + 1 + n \<longrightarrow> fst (ps ! j) \<noteq> ident"
      have "fst (ps ! j) \<noteq> ident" if "i \<le> j" "j < i + Suc n" for j
        using a False that by (cases "j = i") auto
      then show ?thesis using n False by (auto simp: l)
    qed
  qed
qed auto

lemma find_cal_found:
  assumes "cal_ok c" "cal_map c ident = Some v"
  obtains j where "find_cal ident c = Some (Some j)" "j < unat (cd_param_count c)" "cd_params c ! j = (ident, v)"
proof -
  let ?n = "unat (cd_param_count c)"
  have n: "?n \<le> length (cd_params c)" using assms(1) by (simp add: cal_ok_def)
  obtain i where i: "i < ?n" "cd_params c ! i = (ident, v)"
    using map_of_SomeD [OF assms(2) [unfolded cal_map_def]] n by (auto simp: used_params_def in_set_conv_nth)
  with find_param_cases [of 0 ?n "cd_params c" ident] n
  obtain j where j: "find_cal ident c = Some (Some j)" "j < ?n" "fst (cd_params c ! j) = ident"
    by (fastforce simp: find_cal_def)
  have "used_params c ! j \<in> set (used_params c)" using j n by (intro nth_mem) (simp add: used_params_def)
  then have "(ident, snd (cd_params c ! j)) \<in> set (used_params c)"
    using j n by (metis nth_take prod.collapse used_params_def)
  then have "snd (cd_params c ! j) = v"
    using assms by (auto simp: cal_ok_def cal_map_def dest: map_of_is_SomeI)
  with j that [of j] show ?thesis by (metis prod.collapse)
qed

lemma find_cal_absent:
  assumes "cal_ok c" "cal_map c ident = None"
  shows "find_cal ident c = Some None"
proof -
  have n: "unat (cd_param_count c) \<le> length (cd_params c)" using assms(1) by (simp add: cal_ok_def)
  have "fst (cd_params c ! j) \<noteq> ident" if "j < unat (cd_param_count c)" for j
    using assms(2) that n by (force simp: cal_map_def map_of_eq_None_iff used_params_def in_set_conv_nth)
  then show ?thesis using find_param_cases [of 0 "unat (cd_param_count c)" "cd_params c" ident] n
    by (auto simp: find_cal_def)
qed

lemma map_of_update_nth:
  assumes "distinct (map fst u)" "j < length u" "fst (u ! j) = k"
  shows "map_of (u[j := (k, v)]) = (map_of u)(k \<mapsto> v)" "map fst (u[j := (k, v)]) = map fst u"
proof -
  show "map fst (u[j := (k, v)]) = map fst u" using assms(2,3) by (metis fst_conv list_update_id map_update nth_map)
  show "map_of (u[j := (k, v)]) = (map_of u)(k \<mapsto> v)" using assms
  proof (induction u arbitrary: j)
    case (Cons p u)
    show ?case
    proof (cases j)
      case 0
      then show ?thesis using Cons.prems by (cases p) auto
    next
      case (Suc i)
      have "fst p \<noteq> k" using Cons.prems Suc by auto
      then show ?thesis using Cons Suc by (cases p) (auto simp: fun_upd_twist)
    qed
  qed simp
qed

text \<open>Removal moves the last entry into the hole.\<close>

lemma map_of_fresh: "k \<notin> fst ` set xs \<Longrightarrow> map_of xs k = None"
  by (simp add: map_of_eq_None_iff)

lemma swap_remove_map:
  assumes d: "distinct (map fst u)" and j: "j < length u" "fst (u ! j) = k"
  shows "distinct (map fst (butlast (u[j := last u])))" "map_of (butlast (u[j := last u])) = (map_of u)(k := None)"
proof -
  obtain b l where u: "u = b @ [l]" using j(1) by (cases u rule: rev_cases) auto
  have "distinct (map fst (butlast (u[j := l]))) \<and> map_of (butlast (u[j := l])) = (map_of u)(k := None)"
  proof (cases "j < length b")
    case False
    then have "j = length b" using j(1) by (simp add: u)
    then show ?thesis using d j
      by (cases l) (auto simp: u nth_append fun_eq_iff map_add_def map_of_fresh split: option.splits)
  next
    case True
    obtain b1 x b2 where b: "b = b1 @ x # b2" "length b1 = j" using id_take_nth_drop [OF True] True by (metis length_take min.absorb4)
    have e: "butlast (u[j := l]) = b1 @ l # b2" using b(2) [symmetric] by (simp add: u b(1) butlast_append list_update_append)
    have k: "fst x = k" using j(2) b(2) [symmetric] by (simp add: u b(1) nth_append)
    show ?thesis unfolding e using d
      by (cases l; cases x) (auto simp: u b(1) k [symmetric] fun_eq_iff map_add_def map_of_fresh split: option.splits)
  qed
  then show "distinct (map fst (butlast (u[j := last u])))" "map_of (butlast (u[j := last u])) = (map_of u)(k := None)"
    by (simp_all add: u)
qed

lemma used_length: "cal_ok c \<Longrightarrow> length (used_params c) = unat (cd_param_count c)"
  by (simp add: cal_ok_def used_params_def)

lemma card_cal_map:
  assumes "cal_ok c"
  shows "card (dom (cal_map c)) = unat (cd_param_count c)" "finite (dom (cal_map c))"
proof -
  have "dom (cal_map c) = set (map fst (used_params c))" by (simp add: cal_map_def dom_map_of_conv_image_fst)
  moreover have "distinct (map fst (used_params c))" using assms by (simp add: cal_ok_def)
  ultimately show "card (dom (cal_map c)) = unat (cd_param_count c)" "finite (dom (cal_map c))"
    using used_length [OF assms] by (simp_all only: distinct_card length_map finite_set)
qed

lemma get_spec:
  assumes "cal_ok c"
  shows "storage_get_calibration_parameter k c = Some (case cal_map c k of None \<Rightarrow> (- 1, None) | Some v \<Rightarrow> (0, Some v))"
proof (cases "cal_map c k")
  case None
  then show ?thesis using find_cal_absent [OF assms] by (simp add: storage_get_calibration_parameter_def)
next
  case (Some v)
  then obtain j where "find_cal k c = Some (Some j)" "cd_params c ! j = (k, v)" using find_cal_found [OF assms] by metis
  then show ?thesis using Some by (simp add: storage_get_calibration_parameter_def)
qed

lemma set_existing:
  assumes "cal_ok c" "cal_map c k = Some v0"
  shows "\<exists>c'. storage_set_calibration_parameter k v c = Some (0, c') \<and> cal_ok c' \<and> cal_map c' = (cal_map c)(k \<mapsto> v)"
proof -
  obtain j where j: "find_cal k c = Some (Some j)" "j < unat (cd_param_count c)" "cd_params c ! j = (k, v0)"
    by (rule find_cal_found [OF assms])
  let ?c = "c\<lparr>cd_params := (cd_params c)[j := (k, v)]\<rparr>"
  have u: "used_params ?c = (used_params c)[j := (k, v)]" by (simp add: used_params_def take_update_swap)
  have "distinct (map fst (used_params c))" "j < length (used_params c)" "fst (used_params c ! j) = k"
    using assms(1) j used_length [OF assms(1)] by (simp_all add: cal_ok_def used_params_def)
  from map_of_update_nth [OF this, of v] have "cal_map ?c = (cal_map c)(k \<mapsto> v)" "cal_ok ?c"
    using assms(1) by (simp_all add: cal_map_def cal_ok_def u)
  then show ?thesis using j by (simp add: storage_set_calibration_parameter_def)
qed

lemma set_new:
  assumes "cal_ok c" "cal_map c k = None" "unat (cd_param_count c) < CAL_MAX_PARAMS"
  shows "\<exists>c'. storage_set_calibration_parameter k v c = Some (0, c') \<and> cal_ok c' \<and> cal_map c' = (cal_map c)(k \<mapsto> v)"
proof -
  let ?n = "unat (cd_param_count c)"
  let ?c = "c\<lparr>cd_params := (cd_params c)[?n := (k, v)], cd_param_count := cd_param_count c + 1\<rparr>"
  have l: "length (cd_params c) = CAL_MAX_PARAMS" using assms(1) by (simp add: cal_ok_def)
  have n: "unat (cd_param_count c + 1) = ?n + 1"
    using assms(3) unat_add_lem [of "cd_param_count c" 1] by (simp add: CAL_MAX_PARAMS_def)
  have u: "used_params ?c = used_params c @ [(k, v)]"
    using assms(3) l by (simp add: used_params_def n take_Suc_conv_app_nth)
  have "k \<notin> set (map fst (used_params c))" using assms(2) by (simp add: cal_map_def map_of_eq_None_iff)
  then have "cal_ok ?c" "cal_map ?c = (cal_map c)(k \<mapsto> v)"
    using assms l u n by (auto simp: cal_ok_def cal_map_def fun_eq_iff map_add_def map_of_fresh split: option.split)
  then show ?thesis using find_cal_absent [OF assms(1,2)] assms(3) l
    by (simp add: storage_set_calibration_parameter_def store_def)
qed

lemma remove_existing:
  assumes "cal_ok c" "cal_map c k = Some v"
  shows "\<exists>c'. storage_remove_calibration_parameter k c = Some (0, c') \<and> cal_ok c' \<and> cal_map c' = (cal_map c)(k := None)"
proof -
  obtain j where j: "find_cal k c = Some (Some j)" "j < unat (cd_param_count c)" "cd_params c ! j = (k, v)"
    by (rule find_cal_found [OF assms])
  let ?n = "unat (cd_param_count c)"
  have l: "length (cd_params c) = CAL_MAX_PARAMS" "?n \<le> CAL_MAX_PARAMS" using assms(1) by (simp_all add: cal_ok_def)
  have n: "unat (cd_param_count c - 1) = ?n - 1" using j(2) by (subst unat_sub) (auto simp: word_le_nat_alt)
  let ?c = "c\<lparr>cd_param_count := cd_param_count c - 1, cd_params := (cd_params c)[j := cd_params c ! (?n - 1)]\<rparr>"
  have last: "last (used_params c) = cd_params c ! (?n - 1)"
    using j(2) l by (subst last_conv_nth) (auto simp: used_params_def)
  have u: "used_params ?c = butlast ((used_params c)[j := last (used_params c)])"
    using j(2) l by (simp add: used_params_def n last [unfolded used_params_def] take_update_swap butlast_take flip: take_update_swap)
  have "distinct (map fst (used_params c))" "j < length (used_params c)" "fst (used_params c ! j) = k"
    using assms(1) j used_length [OF assms(1)] by (simp_all add: cal_ok_def used_params_def)
  from swap_remove_map [OF this] have "cal_ok ?c" "cal_map ?c = (cal_map c)(k := None)"
    unfolding cal_map_def cal_ok_def u using l n by simp_all
  moreover have "?n - 1 < CAL_MAX_PARAMS" using l(2) j(2) by linarith
  ultimately show ?thesis using j(1) l(1) by (simp add: storage_remove_calibration_parameter_def load_def Let_def n)
qed

interpretation cal_store: param_store cal_map cal_ok CAL_MAX_PARAMS
  storage_get_calibration_parameter storage_set_calibration_parameter storage_remove_calibration_parameter
proof (unfold_locales, goal_cases)
  case (1 s)
  then show ?case by (rule card_cal_map)
next
  case (2 s k)
  then show ?case by (rule get_spec)
next
  case (3 s k v)
  then show ?case using set_existing set_new card_cal_map(1) by (cases "cal_map s k") auto
next
  case (4 s k v)
  then show ?case using find_cal_absent [of s k] card_cal_map(1) [of s] by (simp add: storage_set_calibration_parameter_def dom_def)
next
  case (5 s k)
  then show ?case using remove_existing by auto
next
  case (6 s k)
  then show ?case using find_cal_absent [of s k] by (simp add: storage_remove_calibration_parameter_def dom_def)
qed

subsection \<open>The file image\<close>

lemma be_val_be32: "be_val (be32_bytes w) = uint w"
proof -
  have u: "0 \<le> uint w" "uint w < 4294967296" using uint_lt2p [of w] by simp_all
  have b: "uint (word_of_int x :: u8) = x mod 256" for x by (simp add: unsigned_of_int take_bit_eq_mod)
  have "be_val (be32_bytes w) = (((uint w div 16777216) mod 256 * 256 + (uint w div 65536) mod 256) * 256
      + (uint w div 256) mod 256) * 256 + uint w mod 256"
    by (simp add: be_val_def be32_bytes_def b unsigned_ucast_eq take_bit_eq_mod)
  also have "\<dots> = uint w"
  proof -
    have q: "uint w div 65536 = uint w div 256 div 256" "uint w div 16777216 = uint w div 65536 div 256"
      by (simp_all add: zdiv_zmult2_eq [symmetric])
    have "uint w div 16777216 mod 256 = uint w div 16777216" using u by (intro mod_pos_pos_trivial) (auto simp: div_int_pos_iff)
    moreover have "uint w div 16777216 * 256 + uint w div 65536 mod 256 = uint w div 65536"
      "uint w div 65536 * 256 + uint w div 256 mod 256 = uint w div 256" "uint w div 256 * 256 + uint w mod 256 = uint w"
      unfolding q by (rule div_mult_mod_eq)+
    ultimately show ?thesis by (simp only:)
  qed
  finally show ?thesis .
qed

lemma length_be32 [simp]: "length (be32_bytes w) = 4" by (simp add: be32_bytes_def)

lemma words_at:
  "i < length ws \<Longrightarrow> take 4 (drop (4 * i) (concat (map be32_bytes ws))) = be32_bytes (ws ! i)"
proof (induction ws arbitrary: i)
  case (Cons w ws)
  then show ?case by (cases i) simp_all
qed simp

lemma length_words [simp]: "length (concat (map be32_bytes ws)) = 4 * length ws"
  by (induction ws) simp_all

lemma length_cal_words: "length (cal_words c) = 3 + 2 * length (cd_params c)"
  by (induction "cd_params c" arbitrary: c) (auto simp: cal_words_def length_concat comp_def sum_list_triv)

lemma length_htonl_mem: "length (cd_params c) = CAL_MAX_PARAMS \<Longrightarrow> length (htonl_mem c) = 108"
  by (simp add: htonl_mem_def length_cal_words CAL_MAX_PARAMS_def)

lemma cal_words_param:
  assumes "i < length (cd_params c)"
  shows "cal_words c ! (3 + 2 * i) = fst (cd_params c ! i)" "cal_words c ! (4 + 2 * i) = snd (cd_params c ! i)"
proof -
  have "concat (map (\<lambda>p. [fst p, snd p]) ps) ! (2 * i) = fst (ps ! i) \<and> concat (map (\<lambda>p. [fst p, snd p]) ps) ! (Suc (2 * i)) = snd (ps ! i)"
    if "i < length ps" for ps :: "(u32 \<times> u32) list" and i
    using that
  proof (induction ps arbitrary: i)
    case (Cons p ps)
    then show ?case by (cases i) simp_all
  qed simp
  from this [OF assms] show "cal_words c ! (3 + 2 * i) = fst (cd_params c ! i)" "cal_words c ! (4 + 2 * i) = snd (cd_params c ! i)"
    by (simp_all add: cal_words_def numeral_eq_Suc)
qed

lemma be_word_image:
  assumes "length (cd_params c) = CAL_MAX_PARAMS" "i < 27"
  shows "be_word (htonl_mem c @ rest) i = cal_words c ! i"
proof -
  have "i < length (cal_words c)" using assms by (simp add: length_cal_words CAL_MAX_PARAMS_def)
  then have "take 4 (drop (4 * i) (htonl_mem c @ rest)) = be32_bytes (cal_words c ! i)"
    using words_at [of i "cal_words c"] assms length_htonl_mem [OF assms(1)] by (simp add: htonl_mem_def)
  then show ?thesis by (simp add: be_word_def field_def be_val_be32)
qed

lemma image_roundtrip:
  assumes "length (cd_params c) = CAL_MAX_PARAMS"
  shows "ntohl_mem (htonl_mem c @ rest) = c"
proof -
  note w = be_word_image [OF assms, of _ rest]
  have "map (\<lambda>i. (be_word (htonl_mem c @ rest) (3 + 2 * i), be_word (htonl_mem c @ rest) (4 + 2 * i))) [0..<CAL_MAX_PARAMS] = cd_params c"
    using assms w cal_words_param by (intro nth_equalityI) (auto simp: CAL_MAX_PARAMS_def)
  then show ?thesis using w [of 0] w [of 1] w [of 2] by (simp add: ntohl_mem_def cal_words_def)
qed

lemma sum_params_defined: "i + n \<le> length ps \<Longrightarrow> \<exists>r. sum_params ps n i k = Some r"
  by (induction n arbitrary: i k) (auto simp: load_def)

lemma checksum_defined: "cal_ok c \<Longrightarrow> \<exists>r. calc_checksum c = Some r"
  unfolding calc_checksum_def by (intro sum_params_defined) (simp add: cal_ok_def)

lemma checksum_frame [simp]: "calc_checksum (c\<lparr>cd_checksum := x\<rparr>) = calc_checksum c"
  by (simp add: calc_checksum_def)

lemma cal_ok_frame [simp]:
  "cal_ok (c\<lparr>cd_magic := x\<rparr>) = cal_ok c" "cal_ok (c\<lparr>cd_checksum := x\<rparr>) = cal_ok c"
  "cal_map (c\<lparr>cd_magic := x\<rparr>) = cal_map c" "cal_map (c\<lparr>cd_checksum := x\<rparr>) = cal_map c"
  by (simp_all add: cal_ok_def cal_map_def used_params_def)

subsection \<open>Saving and loading\<close>

text \<open>The calibration file of a working device with a directory, at \<open>off\<close> and \<open>len\<close> bytes long.\<close>

definition cal_file :: "('d \<Rightarrow> int \<Rightarrow> u8) \<Rightarrow> int \<Rightarrow> 'd storage_rwops \<Rightarrow> 'd sdbfs \<Rightarrow> int \<Rightarrow> nat \<Rightarrow> int \<Rightarrow> int \<Rightarrow> bool" where
  "cal_file mem dev_size ops fs N k off len \<longleftrightarrow> memory_device mem dev_size ops \<and> fs_mounted fs \<and> length (fs_record fs) = 64
     \<and> sdb_file (mem (fs_priv fs)) dev_size (uint (fs_entrypoint fs)) N k SDB_VENDOR SDB_DEV_CALIB off len \<and> CAL_SIZE \<le> len"

lemma save_spec:
  assumes f: "cal_file mem dev_size ops (cs_fs s) N k off len" and c: "cal_ok (cs_cal s)"
  obtains s' c' where "storage_save_calibration ops s = Some (0, s')" "cs_cal s' = c'" "cs_loaded s' = cs_loaded s"
    "cal_ok c'" "cal_map c' = cal_map (cs_cal s)" "cd_magic c' = CAL_FILE_MAGIC" "calc_checksum c' = Some (cd_checksum c')"
    "cal_file mem dev_size ops (cs_fs s') N k off len" "map (mem (fs_priv (cs_fs s'))) [off..off + 107] = htonl_mem c'"
    "\<forall>a. \<not> (off \<le> a \<and> a < off + len) \<longrightarrow> mem (fs_priv (cs_fs s')) a = mem (fs_priv (cs_fs s)) a" "fs_entrypoint (cs_fs s') = fs_entrypoint (cs_fs s)"
proof -
  note f' = f [unfolded cal_file_def]
  have dev: "memory_device mem dev_size ops" using f' by simp
  obtain fs where fs: "sdbfs_open_id ops SDB_VENDOR SDB_DEV_CALIB (cs_fs s) = (0, fs)" "opened mem off len (cs_fs s) fs"
    using sdbfs_open_id_found [OF dev] f' by metis
  obtain ck where ck: "calc_checksum ((cs_cal s)\<lparr>cd_magic := CAL_FILE_MAGIC\<rparr>) = Some ck"
    using checksum_defined c by (metis cal_ok_frame(1))
  let ?c = "(cs_cal s)\<lparr>cd_magic := CAL_FILE_MAGIC, cd_checksum := ck\<rparr>"
  have len: "length (htonl_mem ?c) = 108" using c by (intro length_htonl_mem) (simp add: cal_ok_def)
  have of: "open_file dev_size fs" using opened_file fs(2) f' by blast
  have o: "uint (fs_f_offset fs) = off" "uint (fs_f_len fs) = len" "mem (fs_priv fs) = mem (fs_priv (cs_fs s))"
    using fs(2) by (simp_all add: opened_def)
  obtain d where d: "snd (sdbfs_fwrite ops 0 (htonl_mem ?c) 108 (snd (sdbfs_ferase ops 0 (sint (fs_f_len fs)) fs))) = fs\<lparr>fs_priv := d\<rparr>"
    "\<forall>a. \<not> (off \<le> a \<and> a < off + len) \<longrightarrow> mem d a = mem (fs_priv (cs_fs s)) a"
    "map (mem d) [off..off + 107] = htonl_mem ?c"
    using erase_and_write [OF dev of, of "htonl_mem ?c"] f' by (auto simp: len o CAL_SIZE_def add.commute)
  let ?s = "s\<lparr>cs_cal := ?c, cs_fs := sdbfs_close (fs\<lparr>fs_priv := d\<rparr>)\<rparr>"
  have sv: "storage_save_calibration ops s = Some (0, ?s)"
    using fs(1) ck d(1) by (simp add: storage_save_calibration_def CAL_SIZE_def Let_def)
  have "cal_file mem dev_size ops (cs_fs ?s) N k off len"
    using f' fs(2) sdb_file_cong [of "mem (fs_priv (cs_fs s))" _ _ _ _ _ _ off len "mem d"] d(2)
    by (auto simp: cal_file_def sdbfs_close_def opened_def)
  then show ?thesis using that [OF sv refl] ck c d fs(2) by (simp add: sdbfs_close_def opened_def)
qed

lemma load_spec:
  assumes f: "cal_file mem dev_size ops (cs_fs s) N k off len" and l: "length (cd_params c) = CAL_MAX_PARAMS"
    and m: "map (mem (fs_priv (cs_fs s))) [off..off + 107] = htonl_mem c" "cd_magic c = CAL_FILE_MAGIC" "calc_checksum c = Some (cd_checksum c)"
  shows "\<exists>s'. storage_load_calibration ops junk s = Some (0, s') \<and> cs_cal s' = c \<and> cs_loaded s'
    \<and> mem (fs_priv (cs_fs s')) = mem (fs_priv (cs_fs s))"
proof -
  note f' = f [unfolded cal_file_def]
  have dev: "memory_device mem dev_size ops" using f' by simp
  obtain fs where fs: "sdbfs_open_id ops SDB_VENDOR SDB_DEV_CALIB (cs_fs s) = (0, fs)" "opened mem off len (cs_fs s) fs"
    using sdbfs_open_id_found [OF dev] f' by metis
  have of: "open_file dev_size fs" using opened_file fs(2) f' by blast
  have o: "uint (fs_f_offset fs) = off" "uint (fs_f_len fs) = len" "mem (fs_priv fs) = mem (fs_priv (cs_fs s))"
    using fs(2) by (simp_all add: opened_def)
  obtain d where d: "sdbfs_fread ops 0 108 fs = ((108, htonl_mem c), fs\<lparr>fs_priv := d\<rparr>)" "mem d = mem (fs_priv (cs_fs s))"
    using fread_inside [OF dev of, of 0 108] f' m(1) by (auto simp: o CAL_SIZE_def add.commute)
  have "ntohl_mem (overlay (htonl_mem c) junk) = c" unfolding overlay_def by (rule image_roundtrip [OF l])
  then show ?thesis using fs(1) d m(2,3)
    by (simp add: storage_load_calibration_def CAL_SIZE_def Let_def sdbfs_close_def)
qed

lemma param_persists:
  assumes "cal_file mem dev_size ops (cs_fs s) N i off len" "cal_ok (cs_cal s)"
    "k \<in> dom (cal_map (cs_cal s)) \<or> card (dom (cal_map (cs_cal s))) < CAL_MAX_PARAMS"
  shows "\<exists>s'. storage_set_calibration_parameter_and_save ops k v s = Some (0, s')
    \<and> (\<forall>a. \<not> (off \<le> a \<and> a < off + len) \<longrightarrow> mem (fs_priv (cs_fs s')) a = mem (fs_priv (cs_fs s)) a)
    \<and> (\<forall>s2 junk. fs_mounted (cs_fs s2) \<and> length (fs_record (cs_fs s2)) = 64 \<and> fs_entrypoint (cs_fs s2) = fs_entrypoint (cs_fs s)
          \<and> mem (fs_priv (cs_fs s2)) = mem (fs_priv (cs_fs s')) \<longrightarrow>
        (\<exists>s3. storage_load_calibration ops junk s2 = Some (0, s3) \<and> cs_loaded s3 \<and> cal_ok (cs_cal s3)
           \<and> cal_map (cs_cal s3) = (cal_map (cs_cal s))(k \<mapsto> v)))"
proof -
  obtain c where c: "storage_set_calibration_parameter k v (cs_cal s) = Some (0, c)" "cal_ok c" "cal_map c = (cal_map (cs_cal s))(k \<mapsto> v)"
    using cal_store.put_view [OF assms(2,3), of v] by blast
  obtain s' c' where s': "storage_save_calibration ops (s\<lparr>cs_cal := c\<rparr>) = Some (0, s')" "cal_ok c'" "cal_map c' = cal_map c"
    "cd_magic c' = CAL_FILE_MAGIC" "calc_checksum c' = Some (cd_checksum c')" "cal_file mem dev_size ops (cs_fs s') N i off len"
    "map (mem (fs_priv (cs_fs s'))) [off..off + 107] = htonl_mem c'"
    "\<forall>a. \<not> (off \<le> a \<and> a < off + len) \<longrightarrow> mem (fs_priv (cs_fs s')) a = mem (fs_priv (cs_fs s)) a"
    by (rule save_spec [of mem dev_size ops "s\<lparr>cs_cal := c\<rparr>" N i off len]) (use assms(1) c(2) in simp_all)
  have sf: "sdb_file (mem (fs_priv (cs_fs s'))) dev_size (uint (fs_entrypoint (cs_fs s))) N i SDB_VENDOR SDB_DEV_CALIB off len"
    using sdb_file_cong [OF _ s'(8) [rule_format]] assms(1) by (simp add: cal_file_def)
  have "\<exists>s3. storage_load_calibration ops junk s2 = Some (0, s3) \<and> cs_loaded s3 \<and> cal_ok (cs_cal s3)
      \<and> cal_map (cs_cal s3) = (cal_map (cs_cal s))(k \<mapsto> v)"
    if t: "fs_mounted (cs_fs s2)" "length (fs_record (cs_fs s2)) = 64" "fs_entrypoint (cs_fs s2) = fs_entrypoint (cs_fs s)"
      "mem (fs_priv (cs_fs s2)) = mem (fs_priv (cs_fs s'))" for s2 junk
  proof -
    have "cal_file mem dev_size ops (cs_fs s2) N i off len" using t sf s'(6) by (simp add: cal_file_def)
    moreover have "length (cd_params c') = CAL_MAX_PARAMS" using s'(2) by (simp add: cal_ok_def)
    ultimately obtain s3 where "storage_load_calibration ops junk s2 = Some (0, s3)" "cs_cal s3 = c'" "cs_loaded s3"
      using load_spec [of mem dev_size ops s2 N i off len c' junk] s'(4,5,7) t(4) by auto
    then show ?thesis using s'(2,3) c(3) by auto
  qed
  then show ?thesis using c(1) s'(1,8) by (intro exI [of _ s']) (simp add: storage_set_calibration_parameter_and_save_def)
qed

section \<open>Properties\<close>

text \<open>A device with a directory of one calibration file.\<close>

definition example_dir :: "u8 list" where
  "example_dir = [83, 68, 66, 45, 0, 2, 1, 0, 0, 0, 0, 0, 0, 0, 0, 0, 0, 0, 0, 0, 0, 0, 0, 0, 0, 0, 0, 0, 0, 0, 0, 0, 0,
     0, 0, 0, 0, 0, 0, 0, 0, 0, 0, 0, 0, 0, 0, 0, 0, 0, 0, 0, 0, 0, 0, 0, 0, 0, 0, 0, 0, 0, 0, 0, 0, 0, 0, 0,
     0, 0, 0, 0, 0, 0, 0, 0, 0, 0, 0, 128, 0, 0, 0, 0, 0, 0, 1, 71, 70, 105, 108, 101, 68, 97, 116, 97, 99,
     97, 108, 105, 0, 0, 0, 0, 0, 0, 0, 0, 0, 0, 0, 0, 0, 0, 0, 0, 0, 0, 0, 0, 0, 0, 0, 0, 0, 0, 0, 1]"

definition example_ram :: "int \<Rightarrow> u8" where
  "example_ram a = (if 0 \<le> a \<and> a < 128 then example_dir ! nat a else - 1)"

definition example_fs :: "(int \<Rightarrow> u8) sdbfs" where
  "example_fs = \<lparr>fs_mounted = True, fs_priv = example_ram, fs_entrypoint = 0, fs_open = False, fs_record = replicate 64 0,
     fs_f_len = 0, fs_f_offset = 0, fs_this = 0, fs_nleft = 0\<rparr>"

definition example_cal :: wrc_cal_data where
  "example_cal = \<lparr>cd_magic = 0, cd_param_count = 2, cd_checksum = 0, cd_params = [(7, 70), (8, 80)] @ replicate 10 (0, 0)\<rparr>"

lemma example_file: "cal_file id 8192 ram_ops example_fs 2 1 128 200"
proof -
  have "field (rec_at example_ram 0) 63 1 = 0" "field (rec_at example_ram 0) 0 4 = SDB_MAGIC" "field (rec_at example_ram 0) 4 2 = 2"
    "field (rec_at example_ram 64) 24 8 = SDB_VENDOR" "field (rec_at example_ram 64) 32 4 = SDB_DEV_CALIB"
    "field (rec_at example_ram 64) 8 8 = 128" "field (rec_at example_ram 64) 16 8 = 327"
    by code_simp+
  then show ?thesis using ram_device by (simp add: cal_file_def sdb_file_def example_fs_def CAL_SIZE_def)
qed

lemma example_cal_ok: "cal_ok example_cal" "cal_map example_cal = [7 \<mapsto> 70, 8 \<mapsto> 80]"
  by (auto simp: cal_ok_def example_cal_def used_params_def CAL_MAX_PARAMS_def cal_map_def fun_eq_iff)

text \<open>
  C15. The calibration table is a finite map of at most 12 keys. Reading a parameter returns what the map has,
  or -1; setting one updates the map, or returns -1 and changes nothing exactly when a new key meets a full table;
  removing one deletes the key, whichever slot it is in; every operation keeps the table well-formed and
  accesses slots inside the array only.
\<close>

theorem cal_table_is_map:
  assumes "cal_ok c"
  shows "storage_get_calibration_parameter k c = Some (case cal_map c k of None \<Rightarrow> (- 1, None) | Some v \<Rightarrow> (0, Some v))
    \<and> (\<exists>r c'. storage_set_calibration_parameter k v c = Some (r, c') \<and> cal_ok c'
        \<and> (if k \<in> dom (cal_map c) \<or> card (dom (cal_map c)) < CAL_MAX_PARAMS then r = 0 \<and> cal_map c' = (cal_map c)(k \<mapsto> v)
           else r = - 1 \<and> c' = c))
    \<and> (\<exists>r c'. storage_remove_calibration_parameter k c = Some (r, c') \<and> cal_ok c' \<and> cal_map c' = (cal_map c)(k := None)
        \<and> r = (if k \<in> dom (cal_map c) then 0 else - 1))"
proof (intro conjI)
  show "storage_get_calibration_parameter k c = Some (case cal_map c k of None \<Rightarrow> (- 1, None) | Some v \<Rightarrow> (0, Some v))"
    by (rule cal_store.get_view [OF assms])
  show "\<exists>r c'. storage_set_calibration_parameter k v c = Some (r, c') \<and> cal_ok c'
        \<and> (if k \<in> dom (cal_map c) \<or> card (dom (cal_map c)) < CAL_MAX_PARAMS then r = 0 \<and> cal_map c' = (cal_map c)(k \<mapsto> v)
           else r = - 1 \<and> c' = c)"
    using cal_store.put_view [OF assms, of k v] cal_store.put_full [OF assms, of k v] assms
    by (cases "k \<in> dom (cal_map c) \<or> card (dom (cal_map c)) < CAL_MAX_PARAMS") (simp_all add: not_less)
  show "\<exists>r c'. storage_remove_calibration_parameter k c = Some (r, c') \<and> cal_ok c' \<and> cal_map c' = (cal_map c)(k := None)
        \<and> r = (if k \<in> dom (cal_map c) then 0 else - 1)"
    using cal_store.remove_view [OF assms, of k] cal_store.remove_absent [OF assms, of k] assms
    by (cases "k \<in> dom (cal_map c)") (auto simp: dom_def fun_upd_idem)
qed

theorem cal_table_is_map_witness:
  "storage_get_calibration_parameter 8 example_cal = Some (0, Some 80)"
  using cal_table_is_map [OF example_cal_ok(1), of 8 0] by (simp add: example_cal_ok(2))

text \<open>
  C16. A calibration parameter survives a restart. On a working device with a calibration file, setting a parameter
  and saving succeeds whenever there is room, and loading after a restart (a new, arbitrary memory state over the
  same device contents) succeeds and yields the old parameters with the new one; nothing outside
  the file has changed on the device.
\<close>

theorem cal_param_persists:
  assumes "cal_file mem dev_size ops (cs_fs s) N i off len" "cal_ok (cs_cal s)"
    "k \<in> dom (cal_map (cs_cal s)) \<or> card (dom (cal_map (cs_cal s))) < CAL_MAX_PARAMS"
  shows "\<exists>s'. storage_set_calibration_parameter_and_save ops k v s = Some (0, s')
    \<and> (\<forall>a. \<not> (off \<le> a \<and> a < off + len) \<longrightarrow> mem (fs_priv (cs_fs s')) a = mem (fs_priv (cs_fs s)) a)
    \<and> (\<forall>s2 junk. fs_mounted (cs_fs s2) \<and> length (fs_record (cs_fs s2)) = 64 \<and> fs_entrypoint (cs_fs s2) = fs_entrypoint (cs_fs s)
          \<and> mem (fs_priv (cs_fs s2)) = mem (fs_priv (cs_fs s')) \<longrightarrow>
        (\<exists>s3. storage_load_calibration ops junk s2 = Some (0, s3) \<and> cs_loaded s3 \<and> cal_ok (cs_cal s3)
           \<and> cal_map (cs_cal s3) = (cal_map (cs_cal s))(k \<mapsto> v)))"
  by (rule param_persists [OF assms])

theorem cal_param_persists_witness:
  "\<exists>s' s3. storage_set_calibration_parameter_and_save ram_ops 9 90 \<lparr>cs_cal = example_cal, cs_loaded = False, cs_fs = example_fs\<rparr> = Some (0, s')
    \<and> storage_load_calibration ram_ops [] \<lparr>cs_cal = example_cal, cs_loaded = False, cs_fs = example_fs\<lparr>fs_priv := fs_priv (cs_fs s')\<rparr>\<rparr> = Some (0, s3)
    \<and> cal_map (cs_cal s3) 9 = Some 90 \<and> cal_map (cs_cal s3) 7 = Some 70"
proof -
  let ?s = "\<lparr>cs_cal = example_cal, cs_loaded = False, cs_fs = example_fs\<rparr>"
  have "card (dom (cal_map example_cal)) < CAL_MAX_PARAMS" by (simp add: example_cal_ok(2) CAL_MAX_PARAMS_def)
  from cal_param_persists [of id 8192 ram_ops ?s 2 1 128 200 9 90] this example_file example_cal_ok
  obtain s' where s': "storage_set_calibration_parameter_and_save ram_ops 9 90 ?s = Some (0, s')"
    "\<And>s2 junk. fs_mounted (cs_fs s2) \<and> length (fs_record (cs_fs s2)) = 64 \<and> fs_entrypoint (cs_fs s2) = fs_entrypoint (cs_fs ?s)
          \<and> id (fs_priv (cs_fs s2)) = id (fs_priv (cs_fs s')) \<Longrightarrow>
        (\<exists>s3. storage_load_calibration ram_ops junk s2 = Some (0, s3) \<and> cs_loaded s3 \<and> cal_ok (cs_cal s3)
           \<and> cal_map (cs_cal s3) = (cal_map (cs_cal ?s))(9 \<mapsto> 90))" by auto
  from s'(2) [of "\<lparr>cs_cal = example_cal, cs_loaded = False, cs_fs = example_fs\<lparr>fs_priv := fs_priv (cs_fs s')\<rparr>\<rparr>" "[]"] s'(1)
  show ?thesis by (auto simp: example_fs_def example_cal_ok(2))
qed

end
