(* ===== verification/Sdb_File.thy ===== *)
theory Sdb_File
  imports Sdbfs
begin

text \<open>
  The files of \<^verbatim>\<open>dev/sdbfs.c\<close> as byte arrays: the interface the MAC address, SFP and boot script stores rely on
  (\<open>byte_file\<close>), and its interpretation on the model of \<^verbatim>\<open>dev/sdbfs.c\<close> for every working device with a directory.
\<close>

section \<open>The interface of a file\<close>

text \<open>
  What the users of a storage file rely on: \<open>closed f\<close> says that the file exists, \<open>is_open f\<close> that it is the open one,
  \<open>bytes f\<close> are its contents. Reads inside the file return its bytes, a read across the end is cut there;
  writes inside the file replace bytes, by the given ones wherever the file was erased before (all that a flash
  promises); the operations return the count.
\<close>

definition patch :: "'a list \<Rightarrow> nat \<Rightarrow> 'a list \<Rightarrow> 'a list" where
  "patch xs i ys = take i xs @ ys @ drop (i + length ys) xs"

definition blank :: "u8 list \<Rightarrow> bool" where
  "blank bs \<longleftrightarrow> list_all (\<lambda>b. b = 0xff) bs"

locale byte_file =
  fixes closed is_open :: "'f \<Rightarrow> bool" and bytes :: "'f \<Rightarrow> u8 list"
    and open_f :: "'f \<Rightarrow> int \<times> 'f" and read_f :: "int \<Rightarrow> int \<Rightarrow> 'f \<Rightarrow> (int \<times> u8 list) \<times> 'f"
    and write_f :: "int \<Rightarrow> u8 list \<Rightarrow> int \<Rightarrow> 'f \<Rightarrow> int \<times> 'f" and erase_f :: "int \<Rightarrow> int \<Rightarrow> 'f \<Rightarrow> int \<times> 'f"
    and close_f :: "'f \<Rightarrow> 'f"
  assumes open_law: "closed f \<Longrightarrow> \<exists>f'. open_f f = (0, f') \<and> is_open f' \<and> bytes f' = bytes f"
    and read_law: "is_open f \<Longrightarrow> i + n \<le> length (bytes f) \<Longrightarrow>
      \<exists>f'. read_f (int i) (int n) f = ((int n, take n (drop i (bytes f))), f') \<and> is_open f' \<and> bytes f' = bytes f"
    and read_short_law: "is_open f \<Longrightarrow> i \<le> length (bytes f) \<Longrightarrow> length (bytes f) < i + n \<Longrightarrow> n < 2147483648 \<Longrightarrow>
      \<exists>f'. read_f (int i) (int n) f = ((int (length (bytes f) - i), drop i (bytes f)), f') \<and> is_open f' \<and> bytes f' = bytes f"
    and write_law: "is_open f \<Longrightarrow> i + length bs \<le> length (bytes f) \<Longrightarrow>
      \<exists>f' cs. write_f (int i) bs (int (length bs)) f = (int (length bs), f') \<and> is_open f'
        \<and> length cs = length bs \<and> bytes f' = patch (bytes f) i cs \<and> (blank (take (length bs) (drop i (bytes f))) \<longrightarrow> cs = bs)"
    and erase_law: "is_open f \<Longrightarrow> i + n \<le> length (bytes f) \<Longrightarrow>
      \<exists>f'. erase_f (int i) (int n) f = (int n, f') \<and> is_open f' \<and> bytes f' = patch (bytes f) i (replicate n 0xff)"
    and close_law: "is_open f \<Longrightarrow> closed (close_f f) \<and> bytes (close_f f) = bytes f"
begin

text \<open>One byte, and writing into an erased place.\<close>

lemma read_byte:
  assumes "is_open f" "i < length (bytes f)"
  shows "\<exists>f'. read_f (int i) 1 f = ((1, [bytes f ! i]), f') \<and> is_open f' \<and> bytes f' = bytes f"
proof -
  have "take 1 (drop i (bytes f)) = [bytes f ! i]" using assms(2) by (simp add: Cons_nth_drop_Suc [symmetric])
  then show ?thesis using read_law [OF assms(1), of i 1] assms(2) by simp
qed

lemma write_blank:
  assumes "is_open f" "i + length bs \<le> length (bytes f)" "blank (take (length bs) (drop i (bytes f)))"
  shows "\<exists>f'. write_f (int i) bs (int (length bs)) f = (int (length bs), f') \<and> is_open f' \<and> bytes f' = patch (bytes f) i bs"
  using write_law [OF assms(1,2)] assms(3) by auto

text \<open>Erasing the whole file, and replacing its contents.\<close>

lemma erase_all:
  assumes "is_open f"
  shows "\<exists>f'. erase_f 0 (int (length (bytes f))) f = (int (length (bytes f)), f') \<and> is_open f' \<and> bytes f' = replicate (length (bytes f)) 0xff"
  using erase_law [OF assms, of 0 "length (bytes f)"] by (simp add: patch_def)

lemma replace_all:
  assumes "is_open f" "length bs \<le> length (bytes f)"
  shows "\<exists>f'. write_f 0 bs (int (length bs)) (snd (erase_f 0 (int (length (bytes f))) f)) = (int (length bs), f') \<and> is_open f'
    \<and> bytes f' = bs @ replicate (length (bytes f) - length bs) 0xff"
proof -
  obtain f1 where f1: "erase_f 0 (int (length (bytes f))) f = (int (length (bytes f)), f1)" "is_open f1"
    "bytes f1 = replicate (length (bytes f)) 0xff" using erase_all [OF assms(1)] by blast
  have "blank (take (length bs) (bytes f1))" by (simp add: f1(3) blank_def list_all_iff)
  then show ?thesis using write_blank [OF f1(2), of 0 bs] assms(2) f1 by (simp add: patch_def)
qed

end

section \<open>A file of the directory\<close>

text \<open>
  The place of a file: the device size, the directory (entry point and number of records), the index of the file's
  record, its first byte and length; and the contents of the device, of which the bytes outside the file matter.
\<close>

record place =
  p_dev_size :: int
  p_entry :: u32
  p_records :: int
  p_index :: nat
  p_off :: int
  p_len :: int
  p_mem :: "int \<Rightarrow> u8"

text \<open>A write changes nothing outside its range and returns the count, even where the range was not erased.\<close>

definition writes_confined :: "('d \<Rightarrow> int \<Rightarrow> u8) \<Rightarrow> int \<Rightarrow> 'd storage_rwops \<Rightarrow> bool" where
  "writes_confined mem dev_size ops \<longleftrightarrow>
     (\<forall>d off buf. 0 \<le> off \<and> off + int (length buf) \<le> dev_size \<longrightarrow>
        fst (rw_write ops d off buf (int (length buf))) = int (length buf)
        \<and> (\<forall>a. \<not> (off \<le> a \<and> a < off + int (length buf)) \<longrightarrow> mem (snd (rw_write ops d off buf (int (length buf)))) a = mem d a))"

definition has_file :: "('d \<Rightarrow> int \<Rightarrow> u8) \<Rightarrow> 'd storage_rwops \<Rightarrow> int \<Rightarrow> place \<Rightarrow> 'd sdbfs \<Rightarrow> bool" where
  "has_file mem ops did p fs \<longleftrightarrow> memory_device mem (p_dev_size p) ops \<and> writes_confined mem (p_dev_size p) ops
     \<and> fs_mounted fs \<and> length (fs_record fs) = 64 \<and> fs_entrypoint fs = p_entry p
     \<and> sdb_file (p_mem p) (p_dev_size p) (uint (p_entry p)) (p_records p) (p_index p) SDB_VENDOR did (p_off p) (p_len p)
     \<and> (\<forall>a. \<not> (p_off p \<le> a \<and> a < p_off p + p_len p) \<longrightarrow> mem (fs_priv fs) a = p_mem p a)"

definition file_open :: "('d \<Rightarrow> int \<Rightarrow> u8) \<Rightarrow> 'd storage_rwops \<Rightarrow> int \<Rightarrow> place \<Rightarrow> 'd sdbfs \<Rightarrow> bool" where
  "file_open mem ops did p fs \<longleftrightarrow> has_file mem ops did p fs \<and> fs_open fs \<and> uint (fs_f_offset fs) = p_off p \<and> uint (fs_f_len fs) = p_len p"

definition file_bytes :: "('d \<Rightarrow> int \<Rightarrow> u8) \<Rightarrow> place \<Rightarrow> 'd sdbfs \<Rightarrow> u8 list" where
  "file_bytes mem p fs = map (mem (fs_priv fs)) [p_off p..p_off p + p_len p - 1]"

lemma length_file_bytes: "length (file_bytes mem p fs) = nat (p_len p)"
  by (simp add: file_bytes_def)

lemma file_bytes_nth: "i < nat (p_len p) \<Longrightarrow> file_bytes mem p fs ! i = mem (fs_priv fs) (p_off p + int i)"
  by (simp add: file_bytes_def nth_upto)

lemma file_bytes_range:
  assumes "i + n \<le> nat (p_len p)"
  shows "map (mem (fs_priv fs)) [p_off p + int i..p_off p + int i + int n - 1] = take n (drop i (file_bytes mem p fs))"
  using assms by (intro nth_equalityI) (auto simp: length_file_bytes file_bytes_nth nth_upto add.assoc)

lemma file_openD:
  assumes "file_open mem ops did p fs"
  shows "memory_device mem (p_dev_size p) ops" "open_file (p_dev_size p) fs" "uint (fs_f_offset fs) = p_off p" "uint (fs_f_len fs) = p_len p" "0 < p_len p"
  using assms by (auto simp: file_open_def has_file_def open_file_def sdb_file_def)

lemma file_open_update:
  assumes "file_open mem ops did p fs" "\<And>a. \<not> (p_off p \<le> a \<and> a < p_off p + p_len p) \<Longrightarrow> mem d a = mem (fs_priv fs) a"
  shows "file_open mem ops did p (fs\<lparr>fs_priv := d\<rparr>)"
  using assms by (simp add: file_open_def has_file_def)

lemma patch_bytes:
  assumes "i + length cs \<le> nat (p_len p)"
    "\<And>a. p_off p \<le> a \<Longrightarrow> a < p_off p + p_len p \<Longrightarrow>
       mem d a = (if p_off p + int i \<le> a \<and> a < p_off p + int i + int (length cs) then cs ! nat (a - (p_off p + int i)) else mem (fs_priv fs) a)"
  shows "file_bytes mem p (fs\<lparr>fs_priv := d\<rparr>) = patch (file_bytes mem p fs) i cs"
proof (rule nth_equalityI)
  fix j assume "j < length (file_bytes mem p (fs\<lparr>fs_priv := d\<rparr>))"
  then have j: "j < nat (p_len p)" by (simp add: length_file_bytes)
  moreover have "nat (p_off p + int j - (p_off p + int i)) = j - i" by (cases "i \<le> j") simp_all
  ultimately show "file_bytes mem p (fs\<lparr>fs_priv := d\<rparr>) ! j = patch (file_bytes mem p fs) i cs ! j"
    using assms(1) by (auto simp: file_bytes_nth assms(2) patch_def nth_append length_file_bytes min_def)
qed (use assms(1) in \<open>simp add: length_file_bytes patch_def\<close>)


interpretation sdb: byte_file "has_file mem ops did p" "file_open mem ops did p" "file_bytes mem p"
  "sdbfs_open_id ops SDB_VENDOR did" "sdbfs_fread ops" "sdbfs_fwrite ops" "sdbfs_ferase ops" sdbfs_close
  for mem :: "'d \<Rightarrow> int \<Rightarrow> u8" and ops did p
proof (unfold_locales, goal_cases)
  case (1 fs)
  note f = 1 [unfolded has_file_def]
  have "sdb_file (mem (fs_priv fs)) (p_dev_size p) (uint (fs_entrypoint fs)) (p_records p) (p_index p) SDB_VENDOR did (p_off p) (p_len p)"
    using f sdb_file_cong [of "p_mem p" _ _ _ _ _ _ "p_off p" "p_len p" "mem (fs_priv fs)"] by simp
  then obtain fs' where "sdbfs_open_id ops SDB_VENDOR did fs = (0, fs')" "opened mem (p_off p) (p_len p) fs fs'"
    using sdbfs_open_id_found f by metis
  then show ?case using f by (auto simp: opened_def file_open_def has_file_def file_bytes_def)
next
  case (2 fs i n)
  note f = file_openD [OF 2(1)]
  have r: "i + n \<le> nat (p_len p)" "int i + int n \<le> p_len p" using 2(2) f(5) by (simp_all add: length_file_bytes)
  then obtain d where "sdbfs_fread ops (int i) (int n) fs = ((int n, take n (drop i (file_bytes mem p fs))), fs\<lparr>fs_priv := d\<rparr>)" "mem d = mem (fs_priv fs)"
    using fread_inside [OF f(1,2), of "int i" "int n"] by (auto simp: f file_bytes_range)
  then show ?case using file_open_update [OF 2(1), of d] by (simp add: file_bytes_def)
next
  case (3 fs i n)
  note f = file_openD [OF 3(1)]
  let ?k = "nat (p_len p) - i"
  have i: "int i \<le> p_len p" "p_len p < int i + int n" "0 \<le> p_off p" "p_off p + p_len p \<le> p_dev_size p" "p_dev_size p < 2147483648"
    using 3 f(5) by (auto simp: length_file_bytes file_open_def has_file_def sdb_file_def)
  have k: "int ?k = p_len p - int i" "int ?k = p_len p - int i" using i(1) f(5) by auto
  have c: "clip fs (int i) (int n) = int ?k" using i 3(4) k f(5) by (auto simp: clip_def f(4) intro!: i32_id fits32I)
  have "clip fs (int i) (int ?k) = int ?k" using i k f(5) by (intro clip_inside) (auto simp: f(4))
  with c have "sdbfs_fread ops (int i) (int n) fs = sdbfs_fread ops (int i) (int ?k) fs" by (simp add: sdbfs_fread_def)
  moreover obtain d where "sdbfs_fread ops (int i) (int ?k) fs = ((int ?k, take ?k (drop i (file_bytes mem p fs))), fs\<lparr>fs_priv := d\<rparr>)" "mem d = mem (fs_priv fs)"
    using fread_inside [OF f(1,2), of "int i" "int ?k"] i k file_bytes_range [of i ?k p mem fs] by (auto simp: f)
  moreover have "take ?k (drop i (file_bytes mem p fs)) = drop i (file_bytes mem p fs)" by (simp add: length_file_bytes)
  ultimately show ?case using file_open_update [OF 3(1), of d] by (simp add: file_bytes_def)
next
  case (4 fs i bs)
  note f = file_openD [OF 4(1)]
  let ?d = "snd (rw_write ops (fs_priv fs) (p_off p + int i) bs (int (length bs)))"
  have r: "int i + int (length bs) \<le> p_len p" using 4(2) f(5) by (simp add: length_file_bytes)
  have b: "0 \<le> p_off p" "p_off p + p_len p \<le> p_dev_size p" "p_dev_size p < 2147483648"
    using 4(1) by (auto simp: file_open_def has_file_def sdb_file_def)
  have c: "fst (rw_write ops (fs_priv fs) (p_off p + int i) bs (int (length bs))) = int (length bs)"
    "\<And>a. \<not> (p_off p + int i \<le> a \<and> a < p_off p + int i + int (length bs)) \<Longrightarrow> mem ?d a = mem (fs_priv fs) a"
    using 4(1) r b unfolding file_open_def has_file_def writes_confined_def by auto
  have w: "sdbfs_fwrite ops (int i) bs (int (length bs)) fs = (int (length bs), fs\<lparr>fs_priv := ?d\<rparr>)"
    using 4(1) c(1) clip_inside [of "int i" "int (length bs)" fs] file_pos_inside [of fs "int i"] r b
    by (simp add: sdbfs_fwrite_def file_open_def case_prod_beta)
  define cs where "cs = map (\<lambda>j. mem ?d (p_off p + int i + int j)) [0..<length bs]"
  have p: "file_bytes mem p (fs\<lparr>fs_priv := ?d\<rparr>) = patch (file_bytes mem p fs) i cs"
    using r c(2) by (intro patch_bytes) (auto simp: cs_def)
  have "cs = bs" if e: "blank (take (length bs) (drop i (file_bytes mem p fs)))"
  proof -
    have "mem (fs_priv fs) a = - 1" if a: "a \<in> {p_off p + int i..<p_off p + int i + int (length bs)}" for a
    proof -
      define j where "j = nat (a - p_off p - int i)"
      have j: "j < length bs" "a = p_off p + int (i + j)" using a by (auto simp: j_def)
      with e r have "take (length bs) (drop i (file_bytes mem p fs)) ! j = 0xff" by (auto simp: blank_def list_all_length length_file_bytes)
      then show ?thesis using j r by (simp add: length_file_bytes nat_less_iff file_bytes_nth)
    qed
    then have "mem ?d = (\<lambda>a. if p_off p + int i \<le> a \<and> a < p_off p + int i + int (length bs) then bs ! nat (a - (p_off p + int i)) else mem (fs_priv fs) a)"
      using b r by (intro memory_write(2) [OF f(1)]) auto
    then show ?thesis by (intro nth_equalityI) (auto simp: cs_def)
  qed
  moreover have "file_open mem ops did p (fs\<lparr>fs_priv := ?d\<rparr>)" using c(2) r by (intro file_open_update [OF 4(1)]) auto
  moreover have "length cs = length bs" by (simp add: cs_def)
  ultimately show ?case using w p by blast
next
  case (5 fs i n)
  note f = file_openD [OF 5(1)]
  have r: "int i + int n \<le> p_len p" using 5(2) f(5) by (simp add: length_file_bytes)
  obtain d where d: "sdbfs_ferase ops (int i) (int n) fs = (int n, fs\<lparr>fs_priv := d\<rparr>)"
    "mem d = (\<lambda>a. if p_off p + int i \<le> a \<and> a < p_off p + int i + int n then - 1 else mem (fs_priv fs) a)"
    using ferase_inside [OF f(1,2), of "int i" "int n"] r by (auto simp: f)
  have "file_bytes mem p (fs\<lparr>fs_priv := d\<rparr>) = patch (file_bytes mem p fs) i (replicate n 0xff)"
    using r by (intro patch_bytes) (auto simp: d(2))
  moreover have "file_open mem ops did p (fs\<lparr>fs_priv := d\<rparr>)" using r by (intro file_open_update [OF 5(1)]) (auto simp: d(2))
  ultimately show ?case using d by blast
next
  case (6 fs)
  then show ?case by (simp add: sdbfs_close_def file_open_def has_file_def file_bytes_def)
qed


lemma file_len_sint:
  assumes "file_open mem ops did p fs"
  shows "sint (fs_f_len fs) = int (length (file_bytes mem p fs))"
proof -
  have "int (length (file_bytes mem p fs)) = uint (fs_f_len fs)" "uint (fs_f_len fs) < 2147483648"
    using assms file_openD [OF assms] by (auto simp: length_file_bytes file_open_def has_file_def sdb_file_def)
  then show ?thesis using sint_small [of "uint (fs_f_len fs)"] by simp
qed

section \<open>An example device\<close>

text \<open>A RAM with a directory of one file of 200 bytes, all erased.\<close>

definition example_header :: "u8 list" where
  "example_header = [83, 68, 66, 45, 0, 2] @ replicate 58 0"

definition example_record :: "int \<Rightarrow> u8 list" where
  "example_record did = replicate 8 0 @ be_bytes 8 128 @ be_bytes 8 327 @ be_bytes 8 SDB_VENDOR @ be_bytes 4 did @ replicate 28 1"

definition example_ram_of :: "int \<Rightarrow> int \<Rightarrow> u8" where
  "example_ram_of did a =
     (if 0 \<le> a \<and> a < 64 then example_header ! nat a else if 64 \<le> a \<and> a < 128 then example_record did ! nat (a - 64) else - 1)"

definition example_fs_of :: "int \<Rightarrow> (int \<Rightarrow> u8) sdbfs" where
  "example_fs_of did = \<lparr>fs_mounted = True, fs_priv = example_ram_of did, fs_entrypoint = 0, fs_open = False, fs_record = replicate 64 0,
     fs_f_len = 0, fs_f_offset = 0, fs_this = 0, fs_nleft = 0\<rparr>"

definition example_place :: "int \<Rightarrow> place" where
  "example_place did = \<lparr>p_dev_size = 8192, p_entry = 0, p_records = 2, p_index = 1, p_off = 128, p_len = 200, p_mem = example_ram_of did\<rparr>"

lemma ram_confined: "writes_confined id dev_size ram_ops"
  by (auto simp: writes_confined_def ram_ops_def)

lemma length_example: "length example_header = 64" "length (example_record did) = 64"
  by (simp_all add: example_header_def example_record_def)

lemma map_upto_eqI:
  assumes "length ys = n" "\<And>i. i < n \<Longrightarrow> m (a + int i) = ys ! i"
  shows "map m [a..a + int n - 1] = ys"
  using assms by (intro nth_equalityI) (auto simp: nth_upto)

lemma example_rec_at: "rec_at (example_ram_of did) 0 = example_header" "rec_at (example_ram_of did) 64 = example_record did"
proof -
  have "map (example_ram_of did) [0..0 + int 64 - 1] = example_header"
    by (rule map_upto_eqI) (auto simp: length_example example_ram_of_def)
  then show "rec_at (example_ram_of did) 0 = example_header" by (simp add: rec_at_def del: upto_rec_numeral upto_aux_rec)
  have "map (example_ram_of did) [64..64 + int 64 - 1] = example_record did"
    by (rule map_upto_eqI) (auto simp: length_example example_ram_of_def)
  then show "rec_at (example_ram_of did) 64 = example_record did" by (simp add: rec_at_def)
qed

lemma example_has_file:
  assumes "0 \<le> did" "did < 4294967296"
  shows "has_file id ram_ops did (example_place did) (example_fs_of did)"
proof -
  have "field example_header 63 1 = 0" "field example_header 0 4 = SDB_MAGIC" "field example_header 4 2 = 2" by code_simp+
  moreover have "field (example_record did) 24 8 = SDB_VENDOR" "field (example_record did) 32 4 = did"
    "field (example_record did) 8 8 = 128" "field (example_record did) 16 8 = 327"
    using assms by (simp_all add: field_def example_record_def be_val_bytes SDB_VENDOR_def)
  ultimately have "sdb_file (example_ram_of did) 8192 0 2 1 SDB_VENDOR did 128 200"
    by (simp add: sdb_file_def example_rec_at)
  then show ?thesis using ram_device ram_confined by (simp add: has_file_def example_fs_of_def example_place_def)
qed

lemma example_file_bytes: "file_bytes id (example_place did) (example_fs_of did) = replicate 200 0xff"
proof -
  have "map (example_ram_of did) [128..128 + int 200 - 1] = replicate 200 0xff"
    by (rule map_upto_eqI) (auto simp: example_ram_of_def)
  then show ?thesis by (simp add: file_bytes_def example_place_def example_fs_of_def)
qed

end
