(* ===== verification/Storage_Sfp.thy ===== *)
theory Storage_Sfp
  imports Sdb_File
begin

text \<open>
  \<^verbatim>\<open>dev/storage-sfp.c\<close>, the database of transceivers, and \<^verbatim>\<open>dev/storage-mac.c\<close>, the persistent MAC address. A record of
  the database has 33 bytes, with big-endian numbers and a checksum in the last byte; the database ends at the first record with an
  erased byte in its part number. (\<open>char\<close> is unsigned, as on the processors of the core.)

  Results: storing a transceiver and looking it up behave as on a map from part numbers, of at most four entries, with
  the first match winning; what was stored is found after a restart; a stored MAC address is read back.
\<close>

section \<open>Definitions\<close>

subsection \<open>The MAC address\<close>

text \<open>\<open>mac\<close> is the caller's array. The result holds the array after the call.\<close>

definition storage_get_persistent_mac :: "'d storage_rwops \<Rightarrow> u8 list \<Rightarrow> 'd sdbfs \<Rightarrow> int \<times> u8 list \<times> 'd sdbfs" where
  "storage_get_persistent_mac ops mac fs =
     (let (r, fs) = sdbfs_open_id ops SDB_VENDOR SDB_DEV_MAC fs;
          (ret, mac, fs) =
            (if r < 0 then (- 1, mac, fs)
             else (let ((n, bs), fs) = sdbfs_fread ops 0 6 fs in (n, overlay bs mac, sdbfs_close fs)));
          ret = (if mac ! 0 = 0xff \<or> mac ! 0 OR mac ! 1 OR mac ! 2 OR mac ! 3 OR mac ! 4 OR mac ! 5 = 0 then - 1 else ret)
      in (if ret < 0 then - 1 else 0, mac, fs))"

definition storage_set_persistent_mac :: "'d storage_rwops \<Rightarrow> u8 list \<Rightarrow> 'd sdbfs \<Rightarrow> int \<times> 'd sdbfs" where
  "storage_set_persistent_mac ops mac fs =
     (let (r, fs) = sdbfs_open_id ops SDB_VENDOR SDB_DEV_MAC fs;
          (ret, fs) = (if r \<ge> 0 then sdbfs_fwrite ops 0 mac 6 (snd (sdbfs_ferase ops 0 (sint (fs_f_len fs)) fs)) else (r, fs))
      in (if ret < 0 then - 1 else 0, sdbfs_close fs))"

subsection \<open>The transceiver database\<close>

definition SFPS_MAX :: nat where "SFPS_MAX = 4"
definition SFP_PN_LEN :: nat where "SFP_PN_LEN = 16"
definition EE_RET_I2CERR :: int where "EE_RET_I2CERR = - 1"
definition EE_RET_DBFULL :: int where "EE_RET_DBFULL = - 2"
definition EE_RET_POSERR :: int where "EE_RET_POSERR = - 4"

record s_sfpinfo =
  sfp_pn :: "u8 list"
  sfp_alpha :: "64 word"
  sfp_dTx :: u32
  sfp_dRx :: u32

datatype sfp_oper = SFP_GET | SFP_ADD

text \<open>The static counter of the records, and the file system.\<close>

record 'd sfp_db =
  db_count :: int
  db_fs :: "'d sdbfs"

definition storage_sfpdb_erase :: "'d storage_rwops \<Rightarrow> 'd sdbfs \<Rightarrow> int \<times> 'd sdbfs" where
  "storage_sfpdb_erase ops fs =
     (let (r, fs) = sdbfs_open_id ops SDB_VENDOR SDB_DEV_SFP fs in
      if r < 0 then (- 1, fs)
      else
        (let (ret, fs) = sdbfs_ferase ops 0 (sint (fs_f_len fs)) fs;
             ret = (if word_of_int ret = fs_f_len fs then 1 else ret)
         in (if ret = 1 then 0 else - 1, sdbfs_close fs)))"

definition sfp_valid :: "u8 list \<Rightarrow> bool" where
  "sfp_valid rec \<longleftrightarrow> 0xff \<notin> set (take SFP_PN_LEN rec)"

text \<open>The sum of all bytes but the last.\<close>

definition sfp_sum :: "u8 list \<Rightarrow> int" where
  "sfp_sum rec = sum_list (map uint (take 32 rec))"

text \<open>The stored form: the numbers in network order, and the checksum.\<close>

definition sfp_body :: "s_sfpinfo \<Rightarrow> u8 list" where
  "sfp_body x = sfp_pn x @ be_bytes 8 (uint (sfp_alpha x)) @ be_bytes 4 (uint (sfp_dTx x)) @ be_bytes 4 (uint (sfp_dRx x))"

definition sfp_image :: "s_sfpinfo \<Rightarrow> u8 list" where
  "sfp_image x = sfp_body x @ [word_of_int (sfp_sum (sfp_body x))]"

definition sfp_of_image :: "u8 list \<Rightarrow> s_sfpinfo" where
  "sfp_of_image rec = \<lparr>sfp_pn = take 16 rec, sfp_alpha = word_of_int (field rec 16 8), sfp_dTx = word_of_int (field rec 24 4),
     sfp_dRx = word_of_int (field rec 28 4)\<rparr>"

text \<open>Counting the records; \<open>temp\<close> is the local record the bytes are read into.\<close>

partial_function (option) count_sfps :: "'d storage_rwops \<Rightarrow> int \<Rightarrow> u8 list \<Rightarrow> 'd sdbfs \<Rightarrow> (int \<times> 'd sdbfs) option" where
  "count_sfps ops n temp fs =
     (let ((r, bs), fs) = sdbfs_fread ops (1 + n * 33) 33 fs; temp = overlay bs temp in
      if r \<noteq> 33 then Some (n, fs)
      else if \<not> sfp_valid temp then Some (n, fs)
      else count_sfps ops (n + 1) temp fs)"

declare count_sfps.simps [code]

text \<open>
  \<open>sfp_entry\<close>: the result, and the record that was read (when the result is not an error). \<open>temp\<close> is the initial contents of the local
  record, \<open>sfp\<close> the caller's record for \<open>SFP_ADD\<close>.
\<close>

definition sfp_get :: "'d storage_rwops \<Rightarrow> nat \<Rightarrow> 'd sfp_db \<Rightarrow> int \<times> s_sfpinfo option \<times> 'd sfp_db" where
  "sfp_get ops pos s =
     (let ((r, bs), fs) = sdbfs_fread ops (1 + int pos * 33) 33 (db_fs s); s = s\<lparr>db_fs := sdbfs_close fs\<rparr> in
      if r \<noteq> 33 then (- 1, None, s)
      else if word_of_int (sfp_sum bs) \<noteq> bs ! 32 then (- 1, None, s)
      else (db_count s, Some (sfp_of_image bs), s))"

definition sfp_add :: "'d storage_rwops \<Rightarrow> s_sfpinfo \<Rightarrow> 'd sfp_db \<Rightarrow> int \<times> s_sfpinfo option \<times> 'd sfp_db" where
  "sfp_add ops sfp s =
     (let (r, fs) = sdbfs_fwrite ops (1 + db_count s * 33) (sfp_image sfp) 33 (db_fs s); s = s\<lparr>db_fs := sdbfs_close fs\<rparr> in
      if r \<noteq> 33 then (- 1, None, s)
      else (db_count s + 1, None, s\<lparr>db_count := db_count s + 1\<rparr>))"

definition sfp_entry ::
  "'d storage_rwops \<Rightarrow> u8 list \<Rightarrow> s_sfpinfo \<Rightarrow> sfp_oper \<Rightarrow> nat \<Rightarrow> 'd sfp_db \<Rightarrow> (int \<times> s_sfpinfo option \<times> 'd sfp_db) option" where
  "sfp_entry ops temp sfp oper pos s =
     (if pos \<ge> SFPS_MAX then Some (EE_RET_POSERR, None, s)
      else
        (let (r, fs) = sdbfs_open_id ops SDB_VENDOR SDB_DEV_SFP (db_fs s) in
         if r < 0 then Some (- 1, None, s\<lparr>db_fs := fs\<rparr>)
         else do {
           (n, fs) \<leftarrow> (if pos = 0 then count_sfps ops 0 temp fs else Some (db_count s, fs));
           let s = s\<lparr>db_count := n, db_fs := fs\<rparr>;
           let closed = s\<lparr>db_fs := sdbfs_close fs\<rparr>;
           Some (if oper = SFP_ADD \<and> n = int SFPS_MAX then (EE_RET_DBFULL, None, closed)
                 else if pos = 0 \<and> oper = SFP_GET \<and> n = 0 then (0, None, closed)
                 else if oper = SFP_GET then sfp_get ops pos s
                 else sfp_add ops sfp s)
         }))"

text \<open>\<open>strncmp(a, b, n) == 0\<close>.\<close>

fun strn_eq :: "nat \<Rightarrow> u8 list \<Rightarrow> u8 list \<Rightarrow> bool" where
  "strn_eq 0 a b = True"
| "strn_eq (Suc n) (x # a) (y # b) = (x = y \<and> (x = 0 \<or> strn_eq n a b))"
| "strn_eq (Suc n) a b = (a = [] \<and> b = [])"

definition update_values :: "s_sfpinfo \<Rightarrow> s_sfpinfo \<Rightarrow> s_sfpinfo" where
  "update_values new x = x\<lparr>sfp_dTx := sfp_dTx new, sfp_dRx := sfp_dRx new, sfp_alpha := sfp_alpha new\<rparr>"

lemma sfp_entry_pos:
  "sfp_entry ops temp sfp oper pos s = Some (n, x, s') \<Longrightarrow> n > 0 \<Longrightarrow> pos < SFPS_MAX"
  by (auto simp: sfp_entry_def EE_RET_POSERR_def split: if_splits)

text \<open>The loops of \<open>storage_match_sfp\<close> and \<open>storage_update_sfp\<close>: at most \<open>SFPS_MAX\<close> turns, as a position beyond is an error.\<close>

function match_loop :: "'d storage_rwops \<Rightarrow> u8 list \<Rightarrow> s_sfpinfo \<Rightarrow> nat \<Rightarrow> int \<Rightarrow> 'd sfp_db \<Rightarrow> (int \<times> s_sfpinfo \<times> 'd sfp_db) option" where
  "match_loop ops temp sfp i sfpcount s =
     (if int i < sfpcount then
        (case sfp_entry ops temp sfp SFP_GET i s of
           None \<Rightarrow> None
         | Some (n, x, s) \<Rightarrow>
             (if n \<le> 0 then Some (n, sfp, s)
              else
                (case x of
                   None \<Rightarrow> None
                 | Some dbsfp \<Rightarrow>
                     (if strn_eq 16 (sfp_pn dbsfp) (sfp_pn sfp) then Some (1, update_values dbsfp sfp, s)
                      else match_loop ops temp sfp (i + 1) n s))))
      else Some (0, sfp, s))"
  by pat_completeness auto
termination
  by (relation "measure (\<lambda>(ops, temp, sfp, i, sfpcount, s). SFPS_MAX - i)") (auto dest!: sfp_entry_pos)

definition storage_match_sfp :: "'d storage_rwops \<Rightarrow> u8 list \<Rightarrow> s_sfpinfo \<Rightarrow> 'd sfp_db \<Rightarrow> (int \<times> s_sfpinfo \<times> 'd sfp_db) option" where
  "storage_match_sfp ops temp sfp s = match_loop ops temp sfp 0 1 s"

text \<open>The copy in memory so far is \<open>db\<close>; \<open>Inl\<close>: return this value at once.\<close>

function copy_loop ::
  "'d storage_rwops \<Rightarrow> u8 list \<Rightarrow> s_sfpinfo \<Rightarrow> s_sfpinfo list \<Rightarrow> nat \<Rightarrow> int \<Rightarrow> 'd sfp_db \<Rightarrow> ((int + int \<times> s_sfpinfo list) \<times> 'd sfp_db) option" where
  "copy_loop ops temp sfp db i sfpcount s =
     (if int i < sfpcount then
        (case sfp_entry ops temp sfp SFP_GET i s of
           None \<Rightarrow> None
         | Some (n, x, s) \<Rightarrow>
             (if n \<le> 0 then Some (Inl n, s)
              else
                (case x of
                   None \<Rightarrow> None
                 | Some dbsfp \<Rightarrow>
                     copy_loop ops temp sfp (db @ [if strn_eq 16 (sfp_pn dbsfp) (sfp_pn sfp) then update_values sfp dbsfp else dbsfp]) (i + 1) n s)))
      else Some (Inr (sfpcount, db), s))"
  by pat_completeness auto
termination
  by (relation "measure (\<lambda>(ops, temp, sfp, db, i, sfpcount, s). SFPS_MAX - i)") (auto dest!: sfp_entry_pos)

declare match_loop.simps [simp del] copy_loop.simps [simp del]

fun add_loop :: "'d storage_rwops \<Rightarrow> u8 list \<Rightarrow> s_sfpinfo list \<Rightarrow> int \<Rightarrow> 'd sfp_db \<Rightarrow> (int \<times> 'd sfp_db) option" where
  "add_loop ops temp [] i s = Some (i, s)"
| "add_loop ops temp (x # xs) i s =
     (case sfp_entry ops temp x SFP_ADD 0 s of
        None \<Rightarrow> None
      | Some (r, _, s) \<Rightarrow> if r < 0 then Some (r, s) else add_loop ops temp xs (i + 1) s)"

definition storage_update_sfp :: "'d storage_rwops \<Rightarrow> u8 list \<Rightarrow> s_sfpinfo \<Rightarrow> 'd sfp_db \<Rightarrow> (int \<times> 'd sfp_db) option" where
  "storage_update_sfp ops temp sfp s =
     (case copy_loop ops temp sfp [] 0 1 s of
        None \<Rightarrow> None
      | Some (Inl n, s) \<Rightarrow> Some (n, s)
      | Some (Inr (sfpcount, db), s) \<Rightarrow>
          (let (r, fs) = storage_sfpdb_erase ops (db_fs s); s = s\<lparr>db_fs := fs\<rparr>
           in if r = EE_RET_I2CERR then Some (- 1, s) else add_loop ops temp (take (nat sfpcount) db) 0 s))"

definition storage_get_sfp ::
  "'d storage_rwops \<Rightarrow> u8 list \<Rightarrow> s_sfpinfo \<Rightarrow> sfp_oper \<Rightarrow> nat \<Rightarrow> 'd sfp_db \<Rightarrow> (int \<times> s_sfpinfo option \<times> 'd sfp_db) option" where
  "storage_get_sfp ops temp sfp oper pos s =
     (if oper = SFP_GET then sfp_entry ops temp sfp SFP_GET pos s
      else do {
        (m, _, s) \<leftarrow> storage_match_sfp ops temp sfp s;
        if m = 0 then sfp_entry ops temp sfp SFP_ADD 0 s
        else map_option (\<lambda>(r, s). (r, None, s)) (storage_update_sfp ops temp sfp s)
      })"

subsection \<open>Specification notions\<close>

definition sfp_ok :: "s_sfpinfo \<Rightarrow> bool" where
  "sfp_ok x \<longleftrightarrow> length (sfp_pn x) = 16 \<and> 0xff \<notin> set (sfp_pn x)"

text \<open>A file that holds the records \<open>db\<close> and nothing else.\<close>

definition holds_db :: "s_sfpinfo list \<Rightarrow> u8 list \<Rightarrow> bool" where
  "holds_db db bs \<longleftrightarrow> list_all sfp_ok db \<and> (\<exists>b r. bs = b # concat (map sfp_image db) @ r \<and> blank r)"

definition same_part :: "s_sfpinfo \<Rightarrow> s_sfpinfo \<Rightarrow> bool" where
  "same_part x y \<longleftrightarrow> strn_eq 16 (sfp_pn x) (sfp_pn y)"

text \<open>Storing a record: new values for every record of the part, or a new record.\<close>

definition put_sfp :: "s_sfpinfo \<Rightarrow> s_sfpinfo list \<Rightarrow> s_sfpinfo list" where
  "put_sfp new db = (if list_ex (\<lambda>x. same_part x new) db then map (\<lambda>x. if same_part x new then update_values new x else x) db else db @ [new])"


definition has_db :: "('d \<Rightarrow> int \<Rightarrow> u8) \<Rightarrow> 'd storage_rwops \<Rightarrow> place \<Rightarrow> s_sfpinfo list \<Rightarrow> 'd sfp_db \<Rightarrow> bool" where
  "has_db mem ops p db s \<longleftrightarrow> has_file mem ops SDB_DEV_SFP p (db_fs s) \<and> holds_db db (file_bytes mem p (db_fs s))"

section \<open>Facts\<close>

subsection \<open>The stored form\<close>

lemma length_sfp_body: "sfp_ok x \<Longrightarrow> length (sfp_body x) = 32"
  by (simp add: sfp_body_def sfp_ok_def)

lemma length_sfp_image [simp]: "sfp_ok x \<Longrightarrow> length (sfp_image x) = 33"
  by (simp add: sfp_image_def length_sfp_body)

lemma sfp_image_checksum:
  assumes "sfp_ok x"
  shows "word_of_int (sfp_sum (sfp_image x)) = sfp_image x ! 32"
  using length_sfp_body [OF assms] by (simp add: sfp_image_def sfp_sum_def nth_append)

lemma sfp_image_valid: "sfp_ok x \<Longrightarrow> sfp_valid (sfp_image x @ r)"
  by (simp add: sfp_valid_def SFP_PN_LEN_def sfp_image_def sfp_body_def sfp_ok_def)

lemma be_word_roundtrip: "n * 8 = LENGTH('a::len) \<Longrightarrow> word_of_int (be_val (be_bytes n (uint w))) = (w :: 'a word)"
proof -
  assume n: "n * 8 = LENGTH('a)"
  have "(256 :: int) ^ n = (2 ^ 8) ^ n" by simp
  also have "\<dots> = 2 ^ LENGTH('a)" by (simp only: power_mult [symmetric] n [symmetric] mult.commute)
  finally have "(256 :: int) ^ n = 2 ^ LENGTH('a)" .
  then have "be_val (be_bytes n (uint w)) = uint w" using uint_lt2p [of w] by (simp add: be_val_bytes)
  then show ?thesis by simp
qed

lemma sfp_image_roundtrip: "sfp_ok x \<Longrightarrow> sfp_of_image (sfp_image x) = x"
  by (simp add: sfp_of_image_def sfp_image_def sfp_body_def sfp_ok_def field_def be_word_roundtrip)

text \<open>Record \<open>i\<close> of a database.\<close>

lemma db_record:
  assumes "list_all sfp_ok db" "i < length db"
  shows "take 33 (drop (i * 33) (concat (map sfp_image db) @ r)) = sfp_image (db ! i)"
  using assms
proof (induction db arbitrary: i)
  case (Cons x db)
  define rest where "rest = concat (map sfp_image db) @ r"
  have x: "length (sfp_image x) = 33" using Cons.prems(1) by simp
  show ?case
  proof (cases i)
    case 0
    then show ?thesis using x by simp
  next
    case (Suc j)
    then have "take 33 (drop (j * 33) rest) = sfp_image (db ! j)" using Cons by (simp add: rest_def)
    moreover have "drop (i * 33) (sfp_image x @ rest) = drop (j * 33) rest" using x Suc by simp
    ultimately show ?thesis using Suc by (simp add: rest_def)
  qed
qed simp

lemma length_records: "list_all sfp_ok db \<Longrightarrow> length (concat (map sfp_image db)) = length db * 33"
  by (induction db) simp_all

lemma holds_db_length: "holds_db db bs \<Longrightarrow> 1 + length db * 33 \<le> length bs"
  by (auto simp: holds_db_def length_records)

lemma holds_db_record: "holds_db db bs \<Longrightarrow> i < length db \<Longrightarrow> take 33 (drop (1 + i * 33) bs) = sfp_image (db ! i)"
  using db_record [of db i] by (auto simp: holds_db_def)

lemma holds_db_tail: "holds_db db bs \<Longrightarrow> blank (drop (1 + length db * 33) bs)"
  by (auto simp: holds_db_def length_records)

lemma holds_db_ok: "holds_db db bs \<Longrightarrow> i < length db \<Longrightarrow> sfp_ok (db ! i)"
  by (auto simp: holds_db_def list_all_length)

subsection \<open>Counting and reading\<close>

lemma count_finds:
  assumes "file_open mem ops did p fs" "holds_db db (file_bytes mem p fs)" "i \<le> length db" "length temp = 33"
  shows "\<exists>fs'. count_sfps ops (int i) temp fs = Some (int (length db), fs') \<and> file_open mem ops did p fs' \<and> file_bytes mem p fs' = file_bytes mem p fs"
  using assms
proof (induction "length db - i" arbitrary: i temp fs)
  case 0
  let ?B = "file_bytes mem p fs" and ?o = "1 + length db * 33"
  have i: "i = length db" "?o \<le> length ?B" using 0 holds_db_length by auto
  have at: "1 + int i * 33 = int ?o" using i(1) by simp
  show ?case
  proof (cases "?o + 33 \<le> length ?B")
    case True
    obtain f1 where f1: "sdbfs_fread ops (int ?o) 33 fs = ((33, take 33 (drop ?o ?B)), f1)" "file_open mem ops did p f1" "file_bytes mem p f1 = ?B"
      using sdb.read_law [OF 0(2) True] by auto
    have "take 33 (drop ?o ?B) = 0xff # tl (take 33 (drop ?o ?B))"
      using holds_db_tail [OF 0(3)] True by (cases "drop ?o ?B") (auto simp: blank_def)
    then have "\<not> sfp_valid (overlay (take 33 (drop ?o ?B)) temp)"
      by (metis overlay_def sfp_valid_def SFP_PN_LEN_def append_Cons list.set_intros(1) numeral_eq_Suc take_Suc_Cons)
    then show ?thesis using f1 at i(1) by (subst count_sfps.simps) simp
  next
    case False
    obtain f1 where "sdbfs_fread ops (int ?o) 33 fs = ((int (length ?B - ?o), drop ?o ?B), f1)" "file_open mem ops did p f1" "file_bytes mem p f1 = ?B"
      using sdb.read_short_law [OF 0(2) i(2), of 33] False by auto
    moreover have "int (length ?B - ?o) \<noteq> 33" using False by simp
    ultimately show ?thesis using at i(1) by (subst count_sfps.simps) (simp del: of_nat_diff)
  qed
next
  case (Suc k)
  let ?B = "file_bytes mem p fs" and ?o = "1 + i * 33"
  have i: "i < length db" "?o + 33 \<le> length ?B" using Suc holds_db_length [OF Suc(4)] by auto
  have ok: "sfp_ok (db ! i)" "take 33 (drop ?o ?B) = sfp_image (db ! i)" using holds_db_ok [OF Suc(4)] holds_db_record [OF Suc(4)] i(1) by auto
  obtain f1 where f1: "sdbfs_fread ops (int ?o) 33 fs = ((33, sfp_image (db ! i)), f1)" "file_open mem ops did p f1" "file_bytes mem p f1 = ?B"
    using sdb.read_law [OF Suc(3) i(2)] ok(2) by auto
  let ?t = "overlay (sfp_image (db ! i)) temp"
  have t: "sfp_valid ?t" "length ?t = 33" using sfp_image_valid [OF ok(1), of "[]"] ok(1) Suc.prems(4) by (simp_all add: overlay_def)
  have "count_sfps ops (int i) temp fs = count_sfps ops (int (Suc i)) ?t f1"
    using f1(1) t(1) by (subst count_sfps.simps) (simp add: add.commute)
  moreover have "k = length db - Suc i" "Suc i \<le> length db" using Suc(2) i(1) by simp_all
  ultimately show ?case using Suc(1) [of "Suc i" f1 ?t] f1(2,3) Suc.prems(2) t(2) by auto
qed


text \<open>Opening the file and counting, the first part of every access.\<close>

lemma db_open:
  assumes "has_db mem ops p db s"
  obtains fs where "sdbfs_open_id ops SDB_VENDOR SDB_DEV_SFP (db_fs s) = (0, fs)" "file_open mem ops SDB_DEV_SFP p fs"
    "holds_db db (file_bytes mem p fs)" "file_bytes mem p fs = file_bytes mem p (db_fs s)"
  using sdb.open_law [of mem ops SDB_DEV_SFP p "db_fs s"] assms by (auto simp: has_db_def)

lemma db_count_open:
  assumes "file_open mem ops SDB_DEV_SFP p fs" "holds_db db (file_bytes mem p fs)" "length temp = 33" "pos = 0 \<or> n = int (length db)"
  obtains fs' where "(if pos = 0 then count_sfps ops 0 temp fs else Some (n, fs)) = Some (int (length db), fs')"
    "file_open mem ops SDB_DEV_SFP p fs'" "file_bytes mem p fs' = file_bytes mem p fs"
  using count_finds [OF assms(1,2), of 0 temp] assms by (cases "pos = 0") auto

lemma db_closed:
  assumes "file_open mem ops SDB_DEV_SFP p fs" "holds_db db (file_bytes mem p fs)"
  shows "has_db mem ops p db (s\<lparr>db_fs := sdbfs_close fs\<rparr>)"
  using sdb.close_law [OF assms(1)] assms(2) by (simp add: has_db_def)

lemma entry_get:
  assumes d: "has_db mem ops p db s" and t: "length temp = 33" and l: "length db \<le> SFPS_MAX" "pos < length db" "pos = 0 \<or> db_count s = int (length db)"
  shows "\<exists>s'. sfp_entry ops temp sfp SFP_GET pos s = Some (int (length db), Some (db ! pos), s') \<and> has_db mem ops p db s' \<and> db_count s' = int (length db)"
proof -
  obtain f0 where f0: "sdbfs_open_id ops SDB_VENDOR SDB_DEV_SFP (db_fs s) = (0, f0)" "file_open mem ops SDB_DEV_SFP p f0"
    "holds_db db (file_bytes mem p f0)" using db_open [OF d] by metis
  obtain f1 where f1: "(if pos = 0 then count_sfps ops 0 temp f0 else Some (db_count s, f0)) = Some (int (length db), f1)"
    "file_open mem ops SDB_DEV_SFP p f1" "file_bytes mem p f1 = file_bytes mem p f0" using db_count_open [OF f0(2,3) t l(3)] by metis
  let ?s = "s\<lparr>db_count := int (length db), db_fs := f1\<rparr>"
  have h: "holds_db db (file_bytes mem p f1)" using f0(3) f1(3) by simp
  have "1 + pos * 33 + 33 \<le> length (file_bytes mem p f1)" using holds_db_length [OF h] l(2) by simp
  from sdb.read_law [OF f1(2) this] holds_db_record [OF h l(2)] obtain f2 where
    f2: "sdbfs_fread ops (1 + int pos * 33) 33 f1 = ((33, sfp_image (db ! pos)), f2)" "file_open mem ops SDB_DEV_SFP p f2" "file_bytes mem p f2 = file_bytes mem p f1"
    by auto
  note ok = holds_db_ok [OF h l(2)]
  have "sfp_get ops pos ?s = (int (length db), Some (db ! pos), ?s\<lparr>db_fs := sdbfs_close f2\<rparr>)"
    using f2(1) sfp_image_checksum [OF ok] sfp_image_roundtrip [OF ok] by (simp add: sfp_get_def)
  moreover have "db \<noteq> []" "pos < SFPS_MAX" using l by auto
  ultimately have "sfp_entry ops temp sfp SFP_GET pos s = Some (int (length db), Some (db ! pos), ?s\<lparr>db_fs := sdbfs_close f2\<rparr>)"
    using f0(1) f1(1) by (simp add: sfp_entry_def)
  moreover have "has_db mem ops p db (?s\<lparr>db_fs := sdbfs_close f2\<rparr>)" using db_closed [OF f2(2)] f2(3) h by simp
  ultimately show ?thesis by (intro exI [of _ "?s\<lparr>db_fs := sdbfs_close f2\<rparr>"]) simp
qed

lemma entry_get_empty:
  assumes d: "has_db mem ops p [] s" and t: "length temp = 33"
  shows "\<exists>s'. sfp_entry ops temp sfp SFP_GET 0 s = Some (0, None, s') \<and> has_db mem ops p [] s'"
proof -
  obtain f0 where f0: "sdbfs_open_id ops SDB_VENDOR SDB_DEV_SFP (db_fs s) = (0, f0)" "file_open mem ops SDB_DEV_SFP p f0"
    "holds_db [] (file_bytes mem p f0)" using db_open [OF d] by metis
  obtain f1 where f1: "count_sfps ops 0 temp f0 = Some (0, f1)"
    "file_open mem ops SDB_DEV_SFP p f1" "file_bytes mem p f1 = file_bytes mem p f0" using count_finds [OF f0(2,3) _ t, of 0] by auto
  then have "sfp_entry ops temp sfp SFP_GET 0 s = Some (0, None, s\<lparr>db_count := 0, db_fs := sdbfs_close f1\<rparr>)"
    using f0(1) by (simp add: sfp_entry_def SFPS_MAX_def)
  moreover have "has_db mem ops p [] (s\<lparr>db_count := 0, db_fs := sdbfs_close f1\<rparr>)" using db_closed [OF f1(2), of "[]" "s\<lparr>db_count := 0\<rparr>"] f1(3) f0(3) by simp
  ultimately show ?thesis by blast
qed

lemma patch_behind: "patch (b # c @ r) (Suc (length c)) y = b # c @ y @ drop (length y) r"
  by (simp add: patch_def)

lemma entry_add:
  assumes d: "has_db mem ops p db s" and t: "length temp = 33" and l: "length db < SFPS_MAX" "1 + (length db + 1) * 33 \<le> nat (p_len p)" and x: "sfp_ok x"
  shows "\<exists>s'. sfp_entry ops temp x SFP_ADD 0 s = Some (int (length db) + 1, None, s') \<and> has_db mem ops p (db @ [x]) s'"
proof -
  obtain f0 where f0: "sdbfs_open_id ops SDB_VENDOR SDB_DEV_SFP (db_fs s) = (0, f0)" "file_open mem ops SDB_DEV_SFP p f0"
    "holds_db db (file_bytes mem p f0)" using db_open [OF d] by metis
  obtain f1 where f1: "count_sfps ops 0 temp f0 = Some (int (length db), f1)"
    "file_open mem ops SDB_DEV_SFP p f1" "file_bytes mem p f1 = file_bytes mem p f0" using count_finds [OF f0(2,3) _ t, of 0] by auto
  let ?B = "file_bytes mem p f1" and ?o = "1 + length db * 33"
  obtain b r where B: "?B = b # concat (map sfp_image db) @ r" "blank r" "list_all sfp_ok db" using f0(3) f1(3) by (auto simp: holds_db_def)
  have n: "?o + length (sfp_image x) \<le> length ?B" using l(2) x by (simp add: length_file_bytes)
  have bl: "blank (take (length (sfp_image x)) (drop ?o ?B))" using B length_records [OF B(3)] by (simp add: blank_def list_all_iff) (metis in_set_takeD)
  obtain f2 where f2: "sdbfs_fwrite ops (1 + int (length db) * 33) (sfp_image x) 33 f1 = (33, f2)" "file_open mem ops SDB_DEV_SFP p f2"
    "file_bytes mem p f2 = patch ?B ?o (sfp_image x)" using sdb.write_blank [OF f1(2) n bl] x by auto
  have o: "?o = Suc (length (concat (map sfp_image db)))" by (simp only: length_records [OF B(3)])
  have "file_bytes mem p f2 = b # concat (map sfp_image (db @ [x])) @ drop 33 r"
    unfolding f2(3) o B(1) patch_behind using x by simp
  then have h: "holds_db (db @ [x]) (file_bytes mem p f2)" using B(2,3) x by (auto simp: holds_db_def blank_def list_all_iff dest: in_set_dropD)
  let ?s = "s\<lparr>db_count := int (length db) + 1, db_fs := sdbfs_close f2\<rparr>"
  have "sfp_entry ops temp x SFP_ADD 0 s = Some (int (length db) + 1, None, ?s)"
    using f0(1) f1(1) f2(1) l(1) by (simp add: sfp_entry_def sfp_add_def SFPS_MAX_def)
  moreover have "has_db mem ops p (db @ [x]) ?s" using db_closed [OF f2(2) h, of "s\<lparr>db_count := int (length db) + 1\<rparr>"] by simp
  ultimately show ?thesis by blast
qed

lemma entry_full:
  assumes d: "has_db mem ops p db s" and t: "length temp = 33" and l: "length db = SFPS_MAX"
  shows "\<exists>s'. sfp_entry ops temp x SFP_ADD 0 s = Some (EE_RET_DBFULL, None, s') \<and> has_db mem ops p db s'"
proof -
  obtain f0 where f0: "sdbfs_open_id ops SDB_VENDOR SDB_DEV_SFP (db_fs s) = (0, f0)" "file_open mem ops SDB_DEV_SFP p f0"
    "holds_db db (file_bytes mem p f0)" using db_open [OF d] by metis
  obtain f1 where f1: "count_sfps ops 0 temp f0 = Some (int (length db), f1)"
    "file_open mem ops SDB_DEV_SFP p f1" "file_bytes mem p f1 = file_bytes mem p f0" using count_finds [OF f0(2,3) _ t, of 0] by auto
  then have "sfp_entry ops temp x SFP_ADD 0 s = Some (EE_RET_DBFULL, None, s\<lparr>db_count := int (length db), db_fs := sdbfs_close f1\<rparr>)"
    using f0(1) l by (simp add: sfp_entry_def SFPS_MAX_def)
  moreover have "has_db mem ops p db (s\<lparr>db_count := int (length db), db_fs := sdbfs_close f1\<rparr>)"
    using db_closed [OF f1(2), of db "s\<lparr>db_count := int (length db)\<rparr>"] f1(3) f0(3) by simp
  ultimately show ?thesis by blast
qed


subsection \<open>Looking up and storing\<close>

definition loop_at :: "nat \<Rightarrow> int \<Rightarrow> s_sfpinfo list \<Rightarrow> 'd sfp_db \<Rightarrow> bool" where
  "loop_at i n db s \<longleftrightarrow> (if i = 0 then n = 1 else n = int (length db) \<and> db_count s = int (length db))"

lemma match_finds:
  assumes "has_db mem ops p db s" "length temp = 33" "length db \<le> SFPS_MAX" "i \<le> length db" "loop_at i n db s"
  shows "\<exists>s'. match_loop ops temp sfp i n s =
      Some (case find (\<lambda>x. same_part x sfp) (drop i db) of None \<Rightarrow> (0, sfp, s') | Some x \<Rightarrow> (1, update_values x sfp, s')) \<and> has_db mem ops p db s'"
  using assms
proof (induction "length db - i" arbitrary: i n s)
  case 0
  then have i: "i = length db" by simp
  show ?case
  proof (cases "db = []")
    case True
    then obtain s' where "sfp_entry ops temp sfp SFP_GET 0 s = Some (0, None, s')" "has_db mem ops p [] s'"
      using entry_get_empty [of mem ops p s temp sfp] 0 by auto
    then show ?thesis using True i 0 by (subst match_loop.simps) (simp add: loop_at_def)
  next
    case False
    then show ?thesis using i 0 by (subst match_loop.simps) (simp add: loop_at_def)
  qed
next
  case (Suc k)
  then have i: "i < length db" "int i < n" "i = 0 \<or> db_count s = int (length db)" by (auto simp: loop_at_def split: if_splits)
  obtain s1 where s1: "sfp_entry ops temp sfp SFP_GET i s = Some (int (length db), Some (db ! i), s1)" "has_db mem ops p db s1" "db_count s1 = int (length db)"
    using entry_get [OF Suc.prems(1-3) i(1,3)] by blast
  have d: "drop i db = db ! i # drop (Suc i) db" using i(1) by (simp add: Cons_nth_drop_Suc)
  show ?case
  proof (cases "same_part (db ! i) sfp")
    case True
    then show ?thesis using s1 i by (subst match_loop.simps) (auto simp: d same_part_def)
  next
    case False
    then have "match_loop ops temp sfp i n s = match_loop ops temp sfp (Suc i) (int (length db)) s1"
      using s1(1) i by (subst match_loop.simps) (auto simp: same_part_def)
    moreover have "k = length db - Suc i" "Suc i \<le> length db" "loop_at (Suc i) (int (length db)) db s1"
      using Suc(2) i(1) s1(3) by (simp_all add: loop_at_def)
    ultimately show ?thesis using Suc(1) [of "Suc i" s1 "int (length db)"] s1(2) Suc.prems(2,3) False by (simp add: d)
  qed
qed

text \<open>A lookup finds the first record of the part.\<close>

lemma lookup_spec:
  assumes "has_db mem ops p db s" "length temp = 33" "length db \<le> SFPS_MAX"
  shows "\<exists>s'. storage_match_sfp ops temp sfp s =
      Some (case find (\<lambda>x. same_part x sfp) db of None \<Rightarrow> (0, sfp, s') | Some x \<Rightarrow> (1, update_values x sfp, s')) \<and> has_db mem ops p db s'"
  using match_finds [OF assms, of 0 1 sfp] by (simp add: storage_match_sfp_def loop_at_def)

lemma copy_copies:
  assumes "has_db mem ops p db s" "length temp = 33" "length db \<le> SFPS_MAX" "i \<le> length db" "db \<noteq> []" "loop_at i n db s"
  shows "\<exists>s'. copy_loop ops temp sfp acc i n s =
      Some (Inr (int (length db), acc @ map (\<lambda>x. if same_part x sfp then update_values sfp x else x) (drop i db)), s') \<and> has_db mem ops p db s'"
  using assms
proof (induction "length db - i" arbitrary: i n s acc)
  case 0
  then show ?case by (subst copy_loop.simps) (auto simp: loop_at_def)
next
  case (Suc k)
  then have i: "i < length db" "int i < n" "i = 0 \<or> db_count s = int (length db)" by (auto simp: loop_at_def split: if_splits)
  obtain s1 where s1: "sfp_entry ops temp sfp SFP_GET i s = Some (int (length db), Some (db ! i), s1)" "has_db mem ops p db s1" "db_count s1 = int (length db)"
    using entry_get [OF Suc.prems(1-3) i(1,3)] by blast
  let ?x = "if same_part (db ! i) sfp then update_values sfp (db ! i) else db ! i"
  have "copy_loop ops temp sfp acc i n s = copy_loop ops temp sfp (acc @ [?x]) (Suc i) (int (length db)) s1"
    using s1(1) i Suc.prems(5) by (subst copy_loop.simps) (auto simp: same_part_def)
  moreover have "k = length db - Suc i" "Suc i \<le> length db" "loop_at (Suc i) (int (length db)) db s1"
    using Suc(2) i(1) s1(3) by (simp_all add: loop_at_def)
  moreover have "drop i db = db ! i # drop (Suc i) db" using i(1) by (simp add: Cons_nth_drop_Suc)
  ultimately show ?case using Suc(1) [of "Suc i" s1 "int (length db)" "acc @ [?x]"] s1(2) Suc.prems(2,3,5) by simp
qed

lemma add_loop_adds:
  assumes "has_db mem ops p db s" "length temp = 33" "length db + length xs \<le> SFPS_MAX" "1 + (length db + length xs) * 33 \<le> nat (p_len p)" "list_all sfp_ok xs"
  shows "\<exists>s'. add_loop ops temp xs i s = Some (i + int (length xs), s') \<and> has_db mem ops p (db @ xs) s'"
  using assms
proof (induction xs arbitrary: db s i)
  case (Cons x xs)
  obtain s1 where s1: "sfp_entry ops temp x SFP_ADD 0 s = Some (int (length db) + 1, None, s1)" "has_db mem ops p (db @ [x]) s1"
    using entry_add [OF Cons.prems(1,2), of x] Cons.prems(3-5) by auto
  then show ?case using Cons.IH [OF s1(2) Cons.prems(2), of "i + 1"] Cons.prems(3-5) by (auto simp: add.assoc)
qed simp

lemma sfpdb_erase_empty:
  assumes "has_file mem ops SDB_DEV_SFP p fs"
  shows "\<exists>fs'. storage_sfpdb_erase ops fs = (0, fs') \<and> has_file mem ops SDB_DEV_SFP p fs' \<and> holds_db [] (file_bytes mem p fs')"
proof -
  obtain f0 where f0: "sdbfs_open_id ops SDB_VENDOR SDB_DEV_SFP fs = (0, f0)" "file_open mem ops SDB_DEV_SFP p f0"
    "file_bytes mem p f0 = file_bytes mem p fs" using sdb.open_law [OF assms] by auto
  obtain f1 where f1: "sdbfs_ferase ops 0 (sint (fs_f_len f0)) f0 = (sint (fs_f_len f0), f1)" "file_open mem ops SDB_DEV_SFP p f1"
    "file_bytes mem p f1 = replicate (length (file_bytes mem p f0)) 0xff" using sdb.erase_all [OF f0(2)] unfolding file_len_sint [OF f0(2)] by blast
  have "fs_f_len f1 = fs_f_len f0" using file_openD(4) [OF f1(2)] file_openD(4) [OF f0(2)] by (simp add: word_uint_eq_iff)
  then have "storage_sfpdb_erase ops fs = (0, sdbfs_close f1)" using f0(1) f1(1) by (simp add: storage_sfpdb_erase_def)
  moreover have "0 < length (file_bytes mem p f0)" using file_openD(5) [OF f0(2)] by (simp add: length_file_bytes)
  then have "holds_db [] (file_bytes mem p f1)" using f1(3) by (cases "length (file_bytes mem p f0)") (auto simp: holds_db_def blank_def list_all_iff)
  ultimately show ?thesis using sdb.close_law [OF f1(2)] by auto
qed


lemma update_spec:
  assumes "has_db mem ops p db s" "length temp = 33" "length db \<le> SFPS_MAX" "db \<noteq> []" "1 + length db * 33 \<le> nat (p_len p)"
  shows "\<exists>s'. storage_update_sfp ops temp new s = Some (int (length db), s')
    \<and> has_db mem ops p (map (\<lambda>x. if same_part x new then update_values new x else x) db) s'"
proof -
  let ?db = "map (\<lambda>x. if same_part x new then update_values new x else x) db"
  obtain s1 where s1: "copy_loop ops temp new [] 0 1 s = Some (Inr (int (length db), ?db), s1)" "has_db mem ops p db s1"
    using copy_copies [OF assms(1-3), of 0 1 new "[]"] assms(4) by (auto simp: loop_at_def)
  obtain fs where fs: "storage_sfpdb_erase ops (db_fs s1) = (0, fs)" "has_file mem ops SDB_DEV_SFP p fs" "holds_db [] (file_bytes mem p fs)"
    using sfpdb_erase_empty [of mem ops p "db_fs s1"] s1(2) by (auto simp: has_db_def)
  have "list_all sfp_ok db" using assms(1) by (auto simp: has_db_def holds_db_def)
  then have ok: "list_all sfp_ok ?db" by (auto simp: list_all_iff sfp_ok_def update_values_def)
  have "has_db mem ops p [] (s1\<lparr>db_fs := fs\<rparr>)" using fs(2,3) by (simp add: has_db_def)
  from add_loop_adds [OF this assms(2) _ _ ok, of 0] assms(3,5) obtain s' where
    "add_loop ops temp ?db 0 (s1\<lparr>db_fs := fs\<rparr>) = Some (int (length db), s')" "has_db mem ops p ?db s'" by auto
  then show ?thesis using s1(1) fs(1) by (simp add: storage_update_sfp_def EE_RET_I2CERR_def)
qed

lemma find_none_iff: "find P xs = None \<longleftrightarrow> \<not> list_ex P xs"
  by (auto simp: find_None_iff list_ex_iff)

lemma put_spec:
  assumes "has_db mem ops p db s" "length temp = 33" "length db \<le> SFPS_MAX" "sfp_ok new" "1 + SFPS_MAX * 33 \<le> nat (p_len p)"
    "list_ex (\<lambda>x. same_part x new) db \<or> length db < SFPS_MAX"
  shows "\<exists>s'. storage_get_sfp ops temp new SFP_ADD pos s = Some (int (length (put_sfp new db)), None, s') \<and> has_db mem ops p (put_sfp new db) s'"
proof -
  obtain s1 where s1: "storage_match_sfp ops temp new s =
      Some (case find (\<lambda>x. same_part x new) db of None \<Rightarrow> (0, new, s1) | Some x \<Rightarrow> (1, update_values x new, s1))" "has_db mem ops p db s1"
    using lookup_spec [OF assms(1-3), of new] by blast
  show ?thesis
  proof (cases "find (\<lambda>x. same_part x new) db")
    case None
    then have n: "\<not> list_ex (\<lambda>x. same_part x new) db" "length db < SFPS_MAX" using assms(6) by (auto simp: find_none_iff)
    then have "put_sfp new db = db @ [new]" by (simp add: put_sfp_def)
    then show ?thesis using entry_add [OF s1(2) assms(2) n(2) _ assms(4)] s1(1) None n(2) assms(5) by (auto simp: storage_get_sfp_def)
  next
    case (Some x)
    then have e: "list_ex (\<lambda>x. same_part x new) db" using find_none_iff [of "\<lambda>x. same_part x new" db] by simp
    then have "put_sfp new db = map (\<lambda>x. if same_part x new then update_values new x else x) db" "db \<noteq> []" by (auto simp: put_sfp_def)
    then show ?thesis using update_spec [OF s1(2) assms(2,3), of new] s1(1) Some assms(3,5) by (auto simp: storage_get_sfp_def)
  qed
qed

lemma put_full:
  assumes "has_db mem ops p db s" "length temp = 33" "length db = SFPS_MAX" "\<not> list_ex (\<lambda>x. same_part x new) db"
  shows "\<exists>s'. storage_get_sfp ops temp new SFP_ADD pos s = Some (EE_RET_DBFULL, None, s') \<and> has_db mem ops p db s'"
proof -
  have "find (\<lambda>x. same_part x new) db = None" using assms(4) by (simp add: find_none_iff)
  then obtain s1 where s1: "storage_match_sfp ops temp new s = Some (0, new, s1)" "has_db mem ops p db s1"
    using lookup_spec [OF assms(1,2), of new] assms(3) by auto
  then show ?thesis using entry_full [OF s1(2) assms(2,3), of new] by (auto simp: storage_get_sfp_def)
qed

lemma strn_eq_refl: "strn_eq n a a"
proof (induction n arbitrary: a)
  case (Suc n)
  then show ?case by (cases a) auto
qed simp

lemma put_sfp_found:
  assumes "sfp_pn q = sfp_pn new"
  shows "\<exists>x. find (\<lambda>x. same_part x q) (put_sfp new db) = Some x \<and> update_values x q = update_values new q"
proof -
  have q: "same_part x q = same_part x new" for x using assms by (simp add: same_part_def)
  have u: "same_part (update_values new x) new = same_part x new" for x by (simp add: same_part_def update_values_def)
  show ?thesis
  proof (cases "list_ex (\<lambda>x. same_part x new) db")
    case True
    moreover have w: "update_values (update_values new x) q = update_values new q" for x by (simp add: update_values_def)
    ultimately show ?thesis unfolding q put_sfp_def by (induction db) (auto simp: u w)
  next
    case False
    then have "find (\<lambda>x. same_part x new) (db @ [new]) = Some new"
      by (induction db) (auto simp: same_part_def strn_eq_refl)
    then show ?thesis using False by (simp add: q put_sfp_def)
  qed
qed

subsection \<open>The MAC address\<close>

lemma set_mac:
  assumes f: "has_file mem ops SDB_DEV_MAC p fs" and m: "length mac = 6" "6 \<le> p_len p"
  shows "\<exists>fs'. storage_set_persistent_mac ops mac fs = (0, fs') \<and> has_file mem ops SDB_DEV_MAC p fs' \<and> take 6 (file_bytes mem p fs') = mac"
proof -
  obtain f0 where f0: "sdbfs_open_id ops SDB_VENDOR SDB_DEV_MAC fs = (0, f0)" "file_open mem ops SDB_DEV_MAC p f0"
    "file_bytes mem p f0 = file_bytes mem p fs" using sdb.open_law [OF f] by auto
  have n: "length mac \<le> length (file_bytes mem p f0)" using m by (simp add: length_file_bytes)
  obtain f1 where f1: "sdbfs_fwrite ops 0 mac 6 (snd (sdbfs_ferase ops 0 (sint (fs_f_len f0)) f0)) = (6, f1)" "file_open mem ops SDB_DEV_MAC p f1"
    "take 6 (file_bytes mem p f1) = mac" using sdb.replace_all [OF f0(2) n] m(1) by (auto simp: file_len_sint [OF f0(2)])
  then show ?thesis using f0(1) sdb.close_law [OF f1(2)] by (auto simp: storage_set_persistent_mac_def)
qed

lemma get_mac:
  assumes f: "has_file mem ops SDB_DEV_MAC p fs" and m: "length mac0 = 6" "6 \<le> p_len p" "take 6 (file_bytes mem p fs) = mac"
    "mac ! 0 \<noteq> 0xff" "\<exists>b \<in> set mac. b \<noteq> 0"
  shows "\<exists>fs'. storage_get_persistent_mac ops mac0 fs = (0, mac, fs')"
proof -
  obtain f0 where f0: "sdbfs_open_id ops SDB_VENDOR SDB_DEV_MAC fs = (0, f0)" "file_open mem ops SDB_DEV_MAC p f0"
    "file_bytes mem p f0 = file_bytes mem p fs" using sdb.open_law [OF f] by auto
  obtain f1 where f1: "sdbfs_fread ops 0 6 f0 = ((6, mac), f1)"
  proof -
    have "0 + 6 \<le> length (file_bytes mem p f0)" using m(2) by (simp add: length_file_bytes)
    from sdb.read_law [OF f0(2) this] show ?thesis using that m(3) f0(3) by auto
  qed
  have len: "length mac = 6" using m(2,3) by (auto simp: length_file_bytes)
  then have e: "mac = [mac ! 0, mac ! 1, mac ! 2, mac ! 3, mac ! 4, mac ! 5]"
    by (intro nth_equalityI) (auto simp: less_Suc_eq numeral_eq_Suc)
  have or0: "mac ! 0 OR mac ! 1 OR mac ! 2 OR mac ! 3 OR mac ! 4 OR mac ! 5 \<noteq> 0"
  proof
    assume z: "mac ! 0 OR mac ! 1 OR mac ! 2 OR mac ! 3 OR mac ! 4 OR mac ! 5 = 0"
    then have "set mac \<subseteq> {0}" by (subst e) (simp add: or_eq_0_iff)
    then show False using m(5) by auto
  qed
  have "overlay mac mac0 = mac" using len m(1) by (simp add: overlay_def)
  then show ?thesis using f0(1) f1 m(4) or0 by (simp add: storage_get_persistent_mac_def)
qed


section \<open>Properties\<close>

definition example_sfp :: "u8 \<Rightarrow> u32 \<Rightarrow> s_sfpinfo" where
  "example_sfp c d = \<lparr>sfp_pn = c # replicate 15 32, sfp_alpha = 73685416, sfp_dTx = d, sfp_dRx = 7\<rparr>"

definition example_db :: "(int \<Rightarrow> u8) sfp_db" where
  "example_db = \<lparr>db_count = 3, db_fs = example_fs_of SDB_DEV_SFP\<rparr>"

lemma example_sfp_ok: "c \<noteq> 0xff \<Longrightarrow> sfp_ok (example_sfp c d)"
  by (auto simp: sfp_ok_def example_sfp_def)

lemma example_has_db: "has_db id ram_ops (example_place SDB_DEV_SFP) [] example_db"
proof -
  have "replicate 200 0xff = (0xff :: u8) # replicate 199 0xff" "blank (replicate 199 0xff)" by (simp_all add: blank_def list_all_iff numeral_eq_Suc)
  then have "holds_db [] (file_bytes id (example_place SDB_DEV_SFP) (example_fs_of SDB_DEV_SFP))"
    unfolding example_file_bytes holds_db_def by auto
  then show ?thesis using example_has_file [of SDB_DEV_SFP] by (simp add: has_db_def example_db_def SDB_DEV_SFP_def)
qed



text \<open>
  A stored transceiver is found after a restart. After storing a record (with room for it), a lookup with the
  same part number, over the same contents of the device and with any static counter, returns the values stored, the other records notwithstanding.
\<close>

theorem stored_sfp_is_found:
  assumes "has_db mem ops p db s" "length temp = 33" "length db \<le> SFPS_MAX" "sfp_ok new" "1 + SFPS_MAX * 33 \<le> nat (p_len p)"
    "list_ex (\<lambda>x. same_part x new) db \<or> length db < SFPS_MAX"
  shows "\<exists>n s'. storage_get_sfp ops temp new SFP_ADD pos s = Some (n, None, s') \<and> n > 0
    \<and> (\<forall>s2 q. has_file mem ops SDB_DEV_SFP p (db_fs s2) \<and> mem (fs_priv (db_fs s2)) = mem (fs_priv (db_fs s')) \<and> sfp_pn q = sfp_pn new \<longrightarrow>
        (\<exists>s3. storage_match_sfp ops temp q s2 = Some (1, update_values new q, s3)))"
proof -
  obtain s' where s': "storage_get_sfp ops temp new SFP_ADD pos s = Some (int (length (put_sfp new db)), None, s')" "has_db mem ops p (put_sfp new db) s'"
    using put_spec [OF assms] by blast
  have l: "length (put_sfp new db) \<le> SFPS_MAX" "0 < length (put_sfp new db)"
    using assms(3,6) by (auto simp: put_sfp_def)
  have "\<exists>s3. storage_match_sfp ops temp q s2 = Some (1, update_values new q, s3)"
    if t: "has_file mem ops SDB_DEV_SFP p (db_fs s2)" "mem (fs_priv (db_fs s2)) = mem (fs_priv (db_fs s'))" "sfp_pn q = sfp_pn new" for s2 q
  proof -
    have "has_db mem ops p (put_sfp new db) s2" using t(1,2) s'(2) by (simp add: has_db_def file_bytes_def)
    from lookup_spec [OF this assms(2) l(1), of q] put_sfp_found [OF t(3), of db] show ?thesis by auto
  qed
  then show ?thesis using s'(1) l(2) by auto
qed

theorem stored_sfp_is_found_witness:
  "\<exists>n s' s3. storage_get_sfp ram_ops (replicate 33 0) (example_sfp 65 9) SFP_ADD 0 example_db = Some (n, None, s')
    \<and> storage_match_sfp ram_ops (replicate 33 0) (example_sfp 65 1) (s'\<lparr>db_count := 77\<rparr>) = Some (1, example_sfp 65 9, s3)"
proof -
  have ok: "sfp_ok (example_sfp 65 9)" by (simp add: example_sfp_ok)
  have n: "1 + SFPS_MAX * 33 \<le> nat (p_len (example_place SDB_DEV_SFP))" by (simp add: SFPS_MAX_def example_place_def)
  have u: "update_values (example_sfp 65 9) (example_sfp 65 1) = example_sfp 65 9" "sfp_pn (example_sfp 65 1) = sfp_pn (example_sfp 65 9)"
    by (simp_all add: update_values_def example_sfp_def)
  obtain m s' where s': "storage_get_sfp ram_ops (replicate 33 0) (example_sfp 65 9) SFP_ADD 0 example_db = Some (m, None, s')"
    "\<forall>s2 q. has_file id ram_ops SDB_DEV_SFP (example_place SDB_DEV_SFP) (db_fs s2) \<and> id (fs_priv (db_fs s2)) = id (fs_priv (db_fs s')) \<and> sfp_pn q = sfp_pn (example_sfp 65 9) \<longrightarrow>
        (\<exists>s3. storage_match_sfp ram_ops (replicate 33 0) q s2 = Some (1, update_values (example_sfp 65 9) q, s3))"
    using stored_sfp_is_found [OF example_has_db _ _ ok n, of "replicate 33 0" 0] by (auto simp: SFPS_MAX_def)
  moreover have "has_file id ram_ops SDB_DEV_SFP (example_place SDB_DEV_SFP) (db_fs s')"
    using put_spec [OF example_has_db _ _ ok n, of "replicate 33 0" 0] s'(1) by (auto simp: SFPS_MAX_def has_db_def)
  ultimately show ?thesis using s'(2) [rule_format, of "s'\<lparr>db_count := 77\<rparr>" "example_sfp 65 1"] u by auto
qed

text \<open>
  A MAC address is persistent. Storing an address that is not zero and does not start with 0xff succeeds, and reading it
  over the same contents of the device returns it.
\<close>

theorem mac_is_persistent:
  assumes "has_file mem ops SDB_DEV_MAC p fs" "length mac = 6" "6 \<le> p_len p" "mac ! 0 \<noteq> 0xff" "\<exists>b \<in> set mac. b \<noteq> 0"
  shows "\<exists>fs'. storage_set_persistent_mac ops mac fs = (0, fs')
    \<and> (\<forall>fs2 mac0. has_file mem ops SDB_DEV_MAC p fs2 \<and> mem (fs_priv fs2) = mem (fs_priv fs') \<and> length mac0 = 6 \<longrightarrow>
        (\<exists>fs3. storage_get_persistent_mac ops mac0 fs2 = (0, mac, fs3)))"
proof -
  obtain fs' where "storage_set_persistent_mac ops mac fs = (0, fs')" "take 6 (file_bytes mem p fs') = mac"
    using set_mac [OF assms(1-3)] by blast
  then show ?thesis using get_mac [of mem ops p _ _ mac] assms(3-5) by (auto simp: file_bytes_def)
qed

theorem mac_is_persistent_witness:
  "\<exists>fs' fs3. storage_set_persistent_mac ram_ops [2, 0, 0, 1, 2, 3] (example_fs_of SDB_DEV_MAC) = (0, fs')
    \<and> storage_get_persistent_mac ram_ops [0, 0, 0, 0, 0, 0] fs' = (0, [2, 0, 0, 1, 2, 3], fs3)"
proof -
  have f: "has_file id ram_ops SDB_DEV_MAC (example_place SDB_DEV_MAC) (example_fs_of SDB_DEV_MAC)"
    by (rule example_has_file) (simp_all add: SDB_DEV_MAC_def)
  have m: "length [2, 0, 0, 1, 2, 3 :: u8] = 6" "6 \<le> p_len (example_place SDB_DEV_MAC)" "[2, 0, 0, 1, 2, 3 :: u8] ! 0 \<noteq> 0xff"
    "\<exists>b \<in> set [2, 0, 0, 1, 2, 3 :: u8]. b \<noteq> 0" by (simp_all add: example_place_def)
  from mac_is_persistent [OF f m] set_mac [OF f m(1,2)] show ?thesis by fastforce
qed

end
