(* ===== verification/Minic.thy ===== *)
theory Minic
  imports Wrpc_Prelude
begin

text \<open>
  \<^verbatim>\<open>dev/minic.c\<close>: the driver of the network interface. A frame goes through the FIFO registers of the
  interface as 16-bit words, each with a type (data, out-of-band, status, last single byte). The interface is the state
  \<open>minic_hw\<close>: the words waiting in the receive FIFO, the words written to the transmit FIFO, and what the control and
  time-stamp registers return. A write outside the caller's buffer, and a read outside the payload, is \<open>None\<close>.
  The board's reference clock period and frequency are arguments.

  Results: what \<open>minic_tx_frame\<close> puts into the FIFO, \<open>minic_rx_frame\<close> takes out of it unchanged, header and payload;
  a receive never writes outside the buffer if the payload fits it, and does by one word if it does not; the
  second of a time stamp is the right one if the frame is read within a quarter of a second.
\<close>

unbundle bit_operations_syntax

section \<open>Definitions\<close>

type_synonym u64 = "64 word"

definition ETH_HEADER_SIZE :: nat where "ETH_HEADER_SIZE = 14"
definition WRF_DATA :: u32 where "WRF_DATA = 0"
definition WRF_OOB :: u32 where "WRF_OOB = 1"
definition WRF_STATUS :: u32 where "WRF_STATUS = 2"
definition WRF_BYTESEL :: u32 where "WRF_BYTESEL = 3"
definition TX_OOB :: u16 where "TX_OOB = 0x1000"
definition WRPC_FID :: u16 where "WRPC_FID = 0"
definition RXOOB_TS_INCORRECT :: u16 where "RXOOB_TS_INCORRECT = 0x800"
definition RX_OOB_SIZE :: nat where "RX_OOB_SIZE = 3"
definition MINIC_HDL_VERSION :: u32 where "MINIC_HDL_VERSION = 1"

definition MINIC_MCR_TX_START :: u32 where "MINIC_MCR_TX_START = 0x1"
definition MINIC_MCR_TX_IDLE :: u32 where "MINIC_MCR_TX_IDLE = 0x2"
definition MINIC_MCR_RX_EN :: u32 where "MINIC_MCR_RX_EN = 0x400"
definition MINIC_MCR_TX_TS_READY :: u32 where "MINIC_MCR_TX_TS_READY = 0x800"
definition MINIC_MCR_RX_EMPTY :: u32 where "MINIC_MCR_RX_EMPTY = 0x1000"
definition MINIC_RX_FIFO_EMPTY :: u32 where "MINIC_RX_FIFO_EMPTY = 0x40000000"
definition MINIC_TSR0_VALID :: u32 where "MINIC_TSR0_VALID = 0x1"
definition MINIC_EIC_IDR_ALL :: u32 where "MINIC_EIC_IDR_ALL = 0x7"

text \<open>The fields of a FIFO word, of the control register and of the time-stamp register.\<close>

definition fifo_word :: "u32 \<Rightarrow> u16 \<Rightarrow> u32" where
  "fifo_word ty d = push_bit 16 (ty AND 3) OR ucast d"

definition fifo_type :: "u32 \<Rightarrow> u32" where "fifo_type w = drop_bit 16 w AND 3"
definition fifo_data :: "u32 \<Rightarrow> u16" where "fifo_data w = ucast w"
definition mcr_ver :: "u32 \<Rightarrow> u32" where "mcr_ver w = drop_bit 24 w AND 15"

record hw_timestamp =
  hw_valid :: bool
  hw_ahead :: bool
  hw_sec :: u64
  hw_nsec :: u32
  hw_phase :: u32

record wr_minic =
  tx_count :: u32
  rx_count :: u32
  rx_errors :: u32

text \<open>
  \<open>mcr n\<close> is what the \<open>n\<close>-th read of the control register returns; \<open>now_sec\<close>, \<open>now_nsec\<close> is what the PPS generator shows.
\<close>

record minic_hw =
  ver_supported :: bool
  nic :: wr_minic
  rx_fifo :: "u32 list"
  tx_fifo :: "u32 list"
  mcr :: "nat \<Rightarrow> u32"
  mcr_reads :: nat
  mcr_writes :: "u32 list"
  eic_idr :: u32
  tsr0 :: u32
  tsr1 :: u32
  now_sec :: u64
  now_nsec :: u32

definition read_mcr :: "minic_hw \<Rightarrow> u32 \<times> minic_hw" where
  "read_mcr h = (mcr h (mcr_reads h), h\<lparr>mcr_reads := mcr_reads h + 1\<rparr>)"

definition minic_txword :: "u32 \<Rightarrow> u16 \<Rightarrow> minic_hw \<Rightarrow> minic_hw" where
  "minic_txword ty d h = h\<lparr>tx_fifo := tx_fifo h @ [fifo_word ty d]\<rparr>"

definition minic_init :: "minic_hw \<Rightarrow> minic_hw" where
  "minic_init h =
     (let (m, h) = read_mcr h in
      if mcr_ver m \<noteq> MINIC_HDL_VERSION then h\<lparr>ver_supported := False\<rparr>
      else h\<lparr>ver_supported := True, eic_idr := MINIC_EIC_IDR_ALL, mcr_writes := mcr_writes h @ [m OR MINIC_MCR_RX_EN]\<rparr>)"

definition minic_disable :: "minic_hw \<Rightarrow> minic_hw" where
  "minic_disable h = h\<lparr>mcr_writes := mcr_writes h @ [0]\<rparr>"

definition minic_poll_rx :: "minic_hw \<Rightarrow> bool \<times> minic_hw" where
  "minic_poll_rx h =
     (if \<not> ver_supported h then (False, h)
      else (let (m, h) = read_mcr h in (m AND MINIC_MCR_RX_EMPTY = 0, h)))"

subsection \<open>Reception\<close>

text \<open>The local variables of the receive loop, and the caller's header and payload buffers.\<close>

record rx_vars =
  rv_hdr :: "u8 list"
  rv_buf :: "u8 list"
  rv_hdr_size :: nat
  rv_payload_size :: nat
  rv_oob_cnt :: nat
  rv_oob_hdr :: u16
  rv_raw_ts :: u32
  rv_rx_error :: bool

definition be16 :: "u16 \<Rightarrow> u8 list" where
  "be16 d = [ucast (drop_bit 8 d), ucast d]"

text \<open>\<open>ptr16[size >> 1] = htons(data)\<close>.\<close>

definition put16 :: "nat \<Rightarrow> u16 \<Rightarrow> u8 list \<Rightarrow> u8 list option" where
  "put16 pos d buf = store_bytes buf (2 * (pos div 2)) (be16 d)"

text \<open>
  One word that is not the end of the frame. The sizes are unbounded here: the FIFO holds far less than
  \<open>2^32\<close> words.
\<close>

definition rx_word :: "nat \<Rightarrow> u32 \<Rightarrow> rx_vars \<Rightarrow> rx_vars option" where
  "rx_word buf_size w v =
     (let ty = fifo_type w; d = fifo_data w in
      if ty = WRF_DATA \<and> rv_hdr_size v < ETH_HEADER_SIZE then
        map_option (\<lambda>hd. v\<lparr>rv_hdr := hd, rv_hdr_size := rv_hdr_size v + 2\<rparr>) (put16 (rv_hdr_size v) d (rv_hdr v))
      else if ty \<noteq> WRF_STATUS \<and> rv_payload_size v > buf_size then
        Some (v\<lparr>rv_payload_size := rv_payload_size v + 2\<rparr>)
      else if ty = WRF_DATA then
        map_option (\<lambda>b. v\<lparr>rv_buf := b, rv_payload_size := rv_payload_size v + 2\<rparr>) (put16 (rv_payload_size v) d (rv_buf v))
      else if ty = WRF_BYTESEL then
        map_option (\<lambda>b. v\<lparr>rv_buf := b, rv_payload_size := rv_payload_size v + 1\<rparr>) (put16 (rv_payload_size v) d (rv_buf v))
      else if ty = WRF_OOB then
        Some (v\<lparr>rv_oob_hdr := (if rv_oob_cnt v = 0 then d else rv_oob_hdr v),
           rv_raw_ts := (if rv_oob_cnt v = 1 then push_bit 16 (ucast d)
                         else if rv_oob_cnt v = 2 then rv_raw_ts v OR ucast d else rv_raw_ts v),
           rv_oob_cnt := rv_oob_cnt v + 1\<rparr>)
      else Some v)"

text \<open>The status word that ends the loop: not the frame's own one, which comes before the header.\<close>

definition ends_frame :: "u32 \<Rightarrow> rx_vars \<Rightarrow> bool" where
  "ends_frame w v \<longleftrightarrow> fifo_type w = WRF_STATUS \<and> rv_hdr_size v > 0"

fun rx_loop :: "nat \<Rightarrow> u32 list \<Rightarrow> rx_vars \<Rightarrow> (rx_vars \<times> u32 list) option" where
  "rx_loop buf_size [] v = Some (v, [])"
| "rx_loop buf_size (w # ws) v =
     (if w AND MINIC_RX_FIFO_EMPTY \<noteq> 0 then Some (v, ws)
      else if ends_frame w v then Some (v\<lparr>rv_rx_error := rv_rx_error v \<or> bit (fifo_data w) 1\<rparr>, ws)
      else Option.bind (rx_word buf_size w v) (rx_loop buf_size ws))"

definition counter_r :: "u32 \<Rightarrow> u32" where "counter_r raw = raw AND 0xfffffff"
definition counter_f :: "u32 \<Rightarrow> u32" where "counter_f raw = drop_bit 28 raw AND 0xf"

text \<open>The second a counter value belongs to, seen from a later time.\<close>

definition stamp_sec :: "int \<Rightarrow> u32 \<Rightarrow> u64 \<Rightarrow> u32 \<Rightarrow> u64" where
  "stamp_sec freq cnt sec nsec = (if uint cnt > 3 * freq div 4 \<and> nsec < 250000000 then sec - 1 else sec)"

definition rx_stamp :: "int \<Rightarrow> int \<Rightarrow> minic_hw \<Rightarrow> rx_vars \<Rightarrow> hw_timestamp \<Rightarrow> hw_timestamp" where
  "rx_stamp freq period h v ts =
     (if rv_oob_cnt v = 0 \<or> rv_oob_cnt v > RX_OOB_SIZE then ts\<lparr>hw_valid := False\<rparr>
      else
        (let r = counter_r (rv_raw_ts v); f = counter_f (rv_raw_ts v); cntr_diff = uint (r AND 15) - uint f
         in ts\<lparr>hw_sec := stamp_sec freq r (now_sec h) (now_nsec h),
               hw_ahead := (cntr_diff = 1 \<or> cntr_diff = - 15),
               hw_nsec := r * word_of_int (period div 1000),
               hw_valid := (rv_oob_hdr v AND RXOOB_TS_INCORRECT = 0)\<rparr>))"

definition rx_vars_init :: "u8 list \<Rightarrow> u8 list \<Rightarrow> rx_vars" where
  "rx_vars_init hdr buf = \<lparr>rv_hdr = hdr, rv_buf = buf, rv_hdr_size = 0, rv_payload_size = 0, rv_oob_cnt = 0,
     rv_oob_hdr = RXOOB_TS_INCORRECT, rv_raw_ts = 0, rv_rx_error = False\<rparr>"

text \<open>The result: the return value, the header, the buffer and the time stamp.\<close>

definition minic_rx_frame ::
  "int \<Rightarrow> int \<Rightarrow> u8 list \<Rightarrow> u8 list \<Rightarrow> hw_timestamp \<Rightarrow> minic_hw \<Rightarrow>
     ((int \<times> u8 list \<times> u8 list \<times> hw_timestamp) \<times> minic_hw) option" where
  "minic_rx_frame freq period hdr buf ts h =
     (if \<not> ver_supported h then Some ((0, hdr, buf, ts), h)
      else
        (let (m, h) = read_mcr h in
         if m AND MINIC_MCR_RX_EMPTY \<noteq> 0 then Some ((0, hdr, buf, ts), h)
         else
           (case rx_loop (length buf) (rx_fifo h) (rx_vars_init hdr buf) of
              None \<Rightarrow> None
            | Some (v, rest) \<Rightarrow>
                (let h = h\<lparr>rx_fifo := rest\<rparr>; ts = rx_stamp freq period h v ts in
                 if rv_rx_error v
                 then Some ((- 1, rv_hdr v, rv_buf v, ts), h\<lparr>nic := (nic h)\<lparr>rx_errors := rx_errors (nic h) + 1\<rparr>\<rparr>)
                 else Some ((int (min (length buf) (rv_payload_size v)), rv_hdr v, rv_buf v, ts),
                        h\<lparr>nic := (nic h)\<lparr>rx_count := rx_count (nic h) + 1\<rparr>, mcr_reads := mcr_reads h + 1\<rparr>)))))"

subsection \<open>Transmission\<close>

definition get16 :: "u8 list \<Rightarrow> nat \<Rightarrow> u16 option" where
  "get16 bs i = map_option (\<lambda>b. push_bit 8 (ucast (b ! 0)) OR ucast (b ! 1)) (load_bytes bs (2 * i) 2)"

text \<open>Sending words \<open>is\<close> of a buffer.\<close>

definition tx_words :: "u8 list \<Rightarrow> nat list \<Rightarrow> minic_hw \<Rightarrow> minic_hw option" where
  "tx_words bs is h = for_each (\<lambda>i h. map_option (\<lambda>d. minic_txword WRF_DATA d h) (get16 bs i)) is h"

text \<open>Polling the control register, at most \<open>n\<close> times, for a bit.\<close>

fun wait_mcr :: "u32 \<Rightarrow> nat \<Rightarrow> minic_hw \<Rightarrow> bool \<times> minic_hw" where
  "wait_mcr b 0 h = (False, h)"
| "wait_mcr b (Suc n) h = (let (m, h) = read_mcr h in if m AND b \<noteq> 0 then (True, h) else wait_mcr b n h)"

definition tx_stamp :: "int \<Rightarrow> int \<Rightarrow> hw_timestamp \<Rightarrow> minic_hw \<Rightarrow> hw_timestamp \<times> minic_hw" where
  "tx_stamp freq period ts h =
     (let (ready, h) = wait_mcr MINIC_MCR_TX_TS_READY 100 h; r = counter_r (tsr1 h)
      in (ts\<lparr>hw_valid := (ready \<and> tsr0 h AND MINIC_TSR0_VALID \<noteq> 0),
             hw_sec := stamp_sec freq r (now_sec h) (now_nsec h), hw_ahead := False,
             hw_nsec := r * word_of_int (period div 1000)\<rparr>,
          h\<lparr>nic := (nic h)\<lparr>tx_count := tx_count (nic h) + 1\<rparr>\<rparr>))"

definition hdr_size :: "u8 list \<Rightarrow> nat" where
  "hdr_size hdr = (if take 2 (drop 12 hdr) = [0x81, 0] then 18 else 14)"

definition padded :: "nat \<Rightarrow> nat \<Rightarrow> nat" where
  "padded n hsize = (if n + hsize < 60 then 60 - hsize else n)"

text \<open>The end of a transmission: starting it, waiting for its end, and taking the time stamp.\<close>

definition tx_finish :: "int \<Rightarrow> int \<Rightarrow> nat \<Rightarrow> hw_timestamp option \<Rightarrow> minic_hw \<Rightarrow> (nat \<times> hw_timestamp option) \<times> minic_hw" where
  "tx_finish freq period n ts h =
     (let h = (if ts \<noteq> None then minic_txword WRF_OOB WRPC_FID (minic_txword WRF_OOB TX_OOB h) else h);
          (m, h) = read_mcr h;
          h = h\<lparr>mcr_writes := mcr_writes h @ [m OR MINIC_MCR_TX_START]\<rparr>;
          h = snd (wait_mcr MINIC_MCR_TX_IDLE 1000 h)
      in case ts of
           None \<Rightarrow> ((n, None), h)
         | Some t \<Rightarrow> (let (t, h) = tx_stamp freq period t h in ((n, Some t), h)))"

text \<open>
  \<open>hdr\<close> is the memory of the \<open>wr_ethhdr_vlan\<close> (18 bytes), \<open>payload\<close> the memory of the caller's buffer, which the
  padding is read from too; \<open>ts = None\<close> is a null pointer.
\<close>

definition minic_tx_frame ::
  "int \<Rightarrow> int \<Rightarrow> u8 list \<Rightarrow> u8 list \<Rightarrow> nat \<Rightarrow> hw_timestamp option \<Rightarrow> minic_hw \<Rightarrow> ((nat \<times> hw_timestamp option) \<times> minic_hw) option" where
  "minic_tx_frame freq period hdr payload n ts h =
     (if \<not> ver_supported h then Some ((0, ts), h)
      else
        (let hsize = hdr_size hdr; n = padded n hsize; pwords = n div 2;
             h = minic_txword WRF_STATUS 0 h
         in Option.bind (tx_words hdr [0..<hsize div 2] h) (\<lambda>h.
            Option.bind (tx_words payload [0..<pwords] h) (\<lambda>h.
            Option.bind (if odd n then map_option (\<lambda>d. minic_txword WRF_BYTESEL d h) (get16 payload pwords) else Some h) (\<lambda>h.
              Some (tx_finish freq period n ts h))))))"

definition minic_get_stats :: "minic_hw \<Rightarrow> u32 \<times> u32 \<times> u32" where
  "minic_get_stats h = (tx_count (nic h), rx_count (nic h), rx_errors (nic h))"

section \<open>Facts\<close>

subsection \<open>FIFO words\<close>

lemma fifo_fields [simp]:
  "fifo_type (fifo_word ty d) = ty AND 3" "fifo_data (fifo_word ty d) = d" "fifo_word ty d AND MINIC_RX_FIFO_EMPTY = 0"
proof -
  have 3: "(3 :: u32) = mask 2" by (simp add: mask_eq_exp_minus_1)
  show "fifo_type (fifo_word ty d) = ty AND 3"
    unfolding fifo_type_def fifo_word_def 3
    by (rule bit_word_eqI) (auto simp: bit_simps dest: bit_imp_le_length)
  show "fifo_data (fifo_word ty d) = d"
    unfolding fifo_data_def fifo_word_def
    by (rule bit_word_eqI) (auto simp: bit_simps)
  have e: "bit MINIC_RX_FIFO_EMPTY n \<longleftrightarrow> n = 30" for n
  proof -
    have "MINIC_RX_FIFO_EMPTY = push_bit 30 1" by (simp add: MINIC_RX_FIFO_EMPTY_def)
    then have "bit MINIC_RX_FIFO_EMPTY n = bit (push_bit 30 1 :: u32) n" by (simp only:)
    also have "\<dots> \<longleftrightarrow> n = 30" unfolding bit_push_bit_iff bit_1_iff by auto
    finally show ?thesis .
  qed
  have "push_bit 16 (ty AND 3) AND MINIC_RX_FIFO_EMPTY = 0" "ucast d AND MINIC_RX_FIFO_EMPTY = 0"
    unfolding 3 by (rule bit_word_eqI; auto simp: bit_simps e dest: bit_imp_le_length)+
  then show "fifo_word ty d AND MINIC_RX_FIFO_EMPTY = 0"
    by (simp add: fifo_word_def and.commute bit.conj_disj_distrib)
qed

lemma wrf_types [simp]:
  "WRF_DATA AND 3 = WRF_DATA" "WRF_OOB AND 3 = WRF_OOB" "WRF_STATUS AND 3 = WRF_STATUS" "WRF_BYTESEL AND 3 = WRF_BYTESEL"
  "WRF_DATA \<noteq> WRF_OOB" "WRF_DATA \<noteq> WRF_STATUS" "WRF_DATA \<noteq> WRF_BYTESEL" "WRF_OOB \<noteq> WRF_DATA" "WRF_OOB \<noteq> WRF_STATUS"
  "WRF_OOB \<noteq> WRF_BYTESEL" "WRF_STATUS \<noteq> WRF_DATA" "WRF_STATUS \<noteq> WRF_OOB" "WRF_STATUS \<noteq> WRF_BYTESEL"
  "WRF_BYTESEL \<noteq> WRF_DATA" "WRF_BYTESEL \<noteq> WRF_OOB" "WRF_BYTESEL \<noteq> WRF_STATUS"
  by (simp_all add: WRF_DATA_def WRF_OOB_def WRF_STATUS_def WRF_BYTESEL_def)

lemma be16_word: "be16 (push_bit 8 (ucast a) OR ucast b) = [a, b]"
proof -
  have "ucast (drop_bit 8 (push_bit 8 (ucast a) OR ucast b :: u16)) = a"
    by (rule bit_word_eqI) (auto simp: bit_simps dest: bit_imp_le_length)
  moreover have "ucast (push_bit 8 (ucast a) OR ucast b :: u16) = b"
    by (rule bit_word_eqI) (auto simp: bit_simps)
  ultimately show ?thesis by (simp add: be16_def)
qed

lemma length_be16 [simp]: "length (be16 d) = 2" by (simp add: be16_def)

lemma get16_bytes:
  assumes "2 * i + 2 \<le> length bs"
  shows "\<exists>d. get16 bs i = Some d \<and> be16 d = take 2 (drop (2 * i) bs)"
proof -
  have "take 2 (drop (2 * i) bs) = [bs ! (2 * i), bs ! (2 * i + 1)]"
    using assms by (auto simp: numeral_2_eq_2 take_Suc_conv_app_nth)
  then show ?thesis using assms by (auto simp: get16_def load_bytes_def be16_word)
qed

definition words16 :: "u8 list \<Rightarrow> nat \<Rightarrow> u16 list" where
  "words16 bs k = map (\<lambda>i. the (get16 bs i)) [0..<k]"

lemma words16_bytes:
  assumes "2 * k \<le> length bs"
  shows "concat (map be16 (words16 bs k)) = take (2 * k) bs"
  using assms
proof (induction k)
  case (Suc k)
  then obtain d where d: "get16 bs k = Some d" "be16 d = take 2 (drop (2 * k) bs)" using get16_bytes [of k bs] by auto
  have "take (2 * Suc k) bs = take (2 * k) bs @ take 2 (drop (2 * k) bs)" by (simp flip: take_add)
  then show ?case using Suc d by (simp add: words16_def)
qed (simp add: words16_def)

lemma tx_words_spec:
  assumes "2 * k \<le> length bs"
  shows "tx_words bs [0..<k] h = Some (h\<lparr>tx_fifo := tx_fifo h @ map (fifo_word WRF_DATA) (words16 bs k)\<rparr>)"
proof -
  have "for_each (\<lambda>i h. map_option (\<lambda>d. minic_txword WRF_DATA d h) (get16 bs i)) is h
      = Some (h\<lparr>tx_fifo := tx_fifo h @ map (fifo_word WRF_DATA) (map (\<lambda>i. the (get16 bs i)) is)\<rparr>)"
    if "\<forall>i \<in> set is. 2 * i + 2 \<le> length bs" for "is"
    using that
  proof (induction "is" arbitrary: h)
    case (Cons i "is")
    then obtain d where "get16 bs i = Some d" using get16_bytes [of i bs] by auto
    then show ?case using Cons by (simp add: minic_txword_def)
  qed simp
  from this [of "[0..<k]"] show ?thesis using assms by (simp add: tx_words_def words16_def)
qed

subsection \<open>Receiving a frame\<close>

lemma rx_step:
  assumes "w AND MINIC_RX_FIFO_EMPTY = 0" "\<not> ends_frame w v" "rx_word n w v = Some v'"
  shows "rx_loop n (w # ws) v = rx_loop n ws v'"
  using assms by simp

text \<open>Filling a buffer from position \<open>p\<close>.\<close>

definition fill :: "nat \<Rightarrow> u8 list \<Rightarrow> u8 list \<Rightarrow> u8 list" where
  "fill p bs buf = take p buf @ bs @ drop (p + length bs) buf"

lemma fill_fill: "p + length xs \<le> length buf \<Longrightarrow> fill (p + length xs) ys (fill p xs buf) = fill p (xs @ ys) buf"
  by (simp add: fill_def ac_simps)

lemma length_fill [simp]: "p + length bs \<le> length buf \<Longrightarrow> length (fill p bs buf) = length buf"
  by (simp add: fill_def)

lemma put16_fill: "even p \<Longrightarrow> p + 2 \<le> length buf \<Longrightarrow> put16 p d buf = Some (fill p (be16 d) buf)"
  by (auto simp: put16_def store_bytes_def fill_def)

lemma rx_header:
  assumes "even (rv_hdr_size v)" "rv_hdr_size v + 2 * length ds \<le> 14" "length (rv_hdr v) = 14"
  shows "rx_loop n (map (fifo_word WRF_DATA) ds @ ws) v
    = rx_loop n ws (v\<lparr>rv_hdr := fill (rv_hdr_size v) (concat (map be16 ds)) (rv_hdr v), rv_hdr_size := rv_hdr_size v + 2 * length ds\<rparr>)"
  using assms
proof (induction ds arbitrary: v)
  case Nil
  then show ?case by (simp add: fill_def)
next
  case (Cons d ds)
  let ?v = "v\<lparr>rv_hdr := fill (rv_hdr_size v) (be16 d) (rv_hdr v), rv_hdr_size := rv_hdr_size v + 2\<rparr>"
  have "rx_word n (fifo_word WRF_DATA d) v = Some ?v"
    using Cons.prems by (simp add: rx_word_def ETH_HEADER_SIZE_def put16_fill)
  then have "rx_loop n (map (fifo_word WRF_DATA) (d # ds) @ ws) v = rx_loop n (map (fifo_word WRF_DATA) ds @ ws) ?v"
    by (simp add: ends_frame_def)
  also have "\<dots> = rx_loop n ws (?v\<lparr>rv_hdr := fill (rv_hdr_size ?v) (concat (map be16 ds)) (rv_hdr ?v), rv_hdr_size := rv_hdr_size ?v + 2 * length ds\<rparr>)"
    using Cons.prems by (intro Cons.IH) simp_all
  also have "fill (rv_hdr_size ?v) (concat (map be16 ds)) (rv_hdr ?v) = fill (rv_hdr_size v) (concat (map be16 (d # ds))) (rv_hdr v)"
    using Cons.prems fill_fill [of "rv_hdr_size v" "be16 d" "rv_hdr v"] by simp
  finally show ?case by (simp add: algebra_simps)
qed

lemma rx_payload:
  assumes "rv_hdr_size v = 14" "even (rv_payload_size v)" "rv_payload_size v + 2 * length ds \<le> length (rv_buf v)" "n = length (rv_buf v)"
  shows "rx_loop n (map (fifo_word WRF_DATA) ds @ ws) v
    = rx_loop n ws (v\<lparr>rv_buf := fill (rv_payload_size v) (concat (map be16 ds)) (rv_buf v), rv_payload_size := rv_payload_size v + 2 * length ds\<rparr>)"
  using assms
proof (induction ds arbitrary: v)
  case Nil
  then show ?case by (simp add: fill_def)
next
  case (Cons d ds)
  let ?v = "v\<lparr>rv_buf := fill (rv_payload_size v) (be16 d) (rv_buf v), rv_payload_size := rv_payload_size v + 2\<rparr>"
  have "rx_word n (fifo_word WRF_DATA d) v = Some ?v"
    using Cons.prems by (simp add: rx_word_def ETH_HEADER_SIZE_def put16_fill)
  then have "rx_loop n (map (fifo_word WRF_DATA) (d # ds) @ ws) v = rx_loop n (map (fifo_word WRF_DATA) ds @ ws) ?v"
    by (simp add: ends_frame_def)
  also have "\<dots> = rx_loop n ws (?v\<lparr>rv_buf := fill (rv_payload_size ?v) (concat (map be16 ds)) (rv_buf ?v), rv_payload_size := rv_payload_size ?v + 2 * length ds\<rparr>)"
    using Cons.prems by (intro Cons.IH) simp_all
  also have "fill (rv_payload_size ?v) (concat (map be16 ds)) (rv_buf ?v) = fill (rv_payload_size v) (concat (map be16 (d # ds))) (rv_buf v)"
    using Cons.prems fill_fill [of "rv_payload_size v" "be16 d" "rv_buf v"] by simp
  finally show ?case by (simp add: algebra_simps)
qed

text \<open>What may follow a frame in the FIFO: nothing, or the status word of the next frame.\<close>

definition frame_end :: "u32 list \<Rightarrow> bool" where
  "frame_end ws = (case ws of [] \<Rightarrow> True
     | w # _ \<Rightarrow> w AND MINIC_RX_FIFO_EMPTY \<noteq> 0 \<or> (fifo_type w = WRF_STATUS \<and> \<not> bit (fifo_data w) 1))"

lemma rx_tail:
  assumes "frame_end rest" "rv_hdr_size v = 14" "rv_payload_size v \<le> n" "rv_oob_cnt v = 0"
  shows "\<exists>rest'. rx_loop n (map (fifo_word WRF_OOB) [o0, o1, o2] @ rest) v
    = Some (v\<lparr>rv_oob_hdr := o0, rv_raw_ts := push_bit 16 (ucast o1) OR ucast o2, rv_oob_cnt := 3\<rparr>, rest')"
proof -
  let ?v = "v\<lparr>rv_oob_hdr := o0, rv_raw_ts := push_bit 16 (ucast o1) OR ucast o2, rv_oob_cnt := 3\<rparr>"
  have "rx_loop n (map (fifo_word WRF_OOB) [o0, o1, o2] @ rest) v = rx_loop n rest ?v"
    using assms(2-4) by (simp add: ends_frame_def rx_word_def numeral_3_eq_3)
  moreover have "\<exists>rest'. rx_loop n rest ?v = Some (?v, rest')"
    using assms(1,2) by (cases rest) (auto simp: frame_end_def ends_frame_def)
  ultimately show ?thesis by simp
qed

lemma concat_be16_split:
  "concat (map be16 (take k ds)) = take (2 * k) (concat (map be16 ds))"
  "concat (map be16 (drop k ds)) = drop (2 * k) (concat (map be16 ds))"
  by (induction ds arbitrary: k; case_tac k; simp)+

lemma length_concat_be16 [simp]: "length (concat (map be16 ds)) = 2 * length ds"
  by (induction ds) simp_all

lemma rx_data:
  assumes "7 \<le> length ds" "2 * length ds \<le> 14 + length buf" "length hdr = 14"
  shows "rx_loop (length buf) (map (fifo_word WRF_DATA) ds @ ws) (rx_vars_init hdr buf)
    = rx_loop (length buf) ws ((rx_vars_init hdr buf)\<lparr>rv_hdr := take 14 (concat (map be16 ds)),
        rv_buf := fill 0 (drop 14 (concat (map be16 ds))) buf, rv_hdr_size := 14, rv_payload_size := 2 * length ds - 14\<rparr>)"
proof -
  let ?v = "rx_vars_init hdr buf" and ?n = "length buf"
  have "rx_loop ?n (map (fifo_word WRF_DATA) ds @ ws) ?v
      = rx_loop ?n (map (fifo_word WRF_DATA) (take 7 ds) @ map (fifo_word WRF_DATA) (drop 7 ds) @ ws) ?v"
    by (simp flip: append_assoc map_append)
  also have "\<dots> = rx_loop ?n (map (fifo_word WRF_DATA) (drop 7 ds) @ ws)
      (?v\<lparr>rv_hdr := take 14 (concat (map be16 ds)), rv_hdr_size := 14\<rparr>)"
    using assms rx_header [of ?v "take 7 ds"] by (simp add: rx_vars_init_def fill_def concat_be16_split)
  also have "\<dots> = rx_loop ?n ws (?v\<lparr>rv_hdr := take 14 (concat (map be16 ds)), rv_hdr_size := 14,
        rv_buf := fill 0 (drop 14 (concat (map be16 ds))) buf, rv_payload_size := 2 * length ds - 14\<rparr>)"
    using assms by (subst rx_payload) (auto simp: rx_vars_init_def concat_be16_split right_diff_distrib')
  finally show ?thesis by (simp add: rx_vars_init_def)
qed

text \<open>The words of a frame, and the bytes they carry.\<close>

definition frame_words :: "u8 list \<Rightarrow> u8 list \<Rightarrow> nat \<Rightarrow> u32 list" where
  "frame_words hdr payload n = fifo_word WRF_STATUS 0
     # map (fifo_word WRF_DATA) (words16 hdr (hdr_size hdr div 2) @ words16 payload (n div 2))
     @ (if odd n then [fifo_word WRF_BYTESEL (the (get16 payload (n div 2)))] else [])"

lemma rx_last_byte:
  assumes "rv_hdr_size v = 14" "rv_payload_size v = p" "even p" "p + 2 \<le> length (rv_buf v)"
  shows "rx_loop (length (rv_buf v)) (fifo_word WRF_BYTESEL d # ws) v
    = rx_loop (length (rv_buf v)) ws (v\<lparr>rv_buf := fill p (be16 d) (rv_buf v), rv_payload_size := p + 1\<rparr>)"
  using assms by (simp add: ends_frame_def rx_word_def put16_fill)

text \<open>Header and payload words, with or without a last single byte.\<close>

lemma rx_frame_data:
  assumes h: "length hdr = 18" "length hbuf = 14" and n: "n + n mod 2 \<le> length payload"
    and fit: "hdr_size hdr + n + n mod 2 \<le> 14 + length buf"
  obtains B where "rx_loop (length buf) (frame_words hdr payload n @ ws) (rx_vars_init hbuf buf)
      = rx_loop (length buf) ws ((rx_vars_init hbuf buf)\<lparr>rv_hdr := take 14 hdr, rv_buf := B, rv_hdr_size := 14,
          rv_payload_size := hdr_size hdr - 14 + n\<rparr>)"
    "take (hdr_size hdr - 14 + n) B = drop 14 (take (hdr_size hdr) hdr) @ take n payload" "length B = length buf"
proof -
  define hs where "hs = hdr_size hdr"
  have hs: "hs = 14 \<or> hs = 18" by (simp add: hs_def hdr_size_def)
  define ds where "ds = words16 hdr (hs div 2) @ words16 payload (n div 2)"
  have bytes: "concat (map be16 ds) = take hs hdr @ take (2 * (n div 2)) payload"
    using hs h n words16_bytes [of "hs div 2" hdr] words16_bytes [of "n div 2" payload] by (auto simp: ds_def)
  have len: "length ds = hs div 2 + n div 2" by (simp add: ds_def words16_def)
  let ?p = "hs - 14 + 2 * (n div 2)" and ?last = "if odd n then [fifo_word WRF_BYTESEL (the (get16 payload (n div 2)))] else []"
  define X where "X = drop 14 (take hs hdr) @ take (2 * (n div 2)) payload"
  have lX: "length X = ?p" using hs h n by (auto simp: X_def)
  have np: "n = 2 * (n div 2) + n mod 2" by simp
  have fit': "?p + 2 * (n mod 2) \<le> length buf" using fit hs np unfolding hs_def [symmetric] by linarith
  let ?v = "\<lambda>B q. (rx_vars_init hbuf buf)\<lparr>rv_hdr := take 14 hdr, rv_buf := B, rv_hdr_size := 14, rv_payload_size := q\<rparr>"
  have "rx_loop (length buf) (frame_words hdr payload n @ ws) (rx_vars_init hbuf buf)
      = rx_loop (length buf) (map (fifo_word WRF_DATA) ds @ ?last @ ws) (rx_vars_init hbuf buf)"
    by (simp add: frame_words_def ends_frame_def rx_word_def ds_def hs_def rx_vars_init_def)
  also have "\<dots> = rx_loop (length buf) (?last @ ws) (?v (fill 0 X buf) ?p)"
    using rx_data [of ds buf hbuf] hs h fit' len bytes by (auto simp: X_def)
  finally have r1: "rx_loop (length buf) (frame_words hdr payload n @ ws) (rx_vars_init hbuf buf) = \<dots>" .
  show ?thesis
  proof (cases "odd n")
    case False
    have l: "length (fill 0 X buf) = length buf" using fit' lX by simp
    have q: "hs - 14 + n = length X" unfolding lX using False by simp
    have "take (length xs) (fill 0 xs buf) = xs" for xs by (simp add: fill_def)
    then have "take (hs - 14 + n) (fill 0 X buf) = X" unfolding q .
    then show ?thesis using that [of "fill 0 X buf"] r1 False l unfolding hs_def [symmetric] by (simp add: X_def)
  next
    case True
    then have n1: "n = 2 * (n div 2) + 1" by simp
    have b2: "2 * (n div 2) + 2 \<le> length payload" using n True n1 by (simp add: odd_iff_mod_2_eq_one)
    obtain d where d: "get16 payload (n div 2) = Some d" "be16 d = take 2 (drop (2 * (n div 2)) payload)"
      using get16_bytes [OF b2] by blast
    have p2: "?p + 2 \<le> length buf" using fit' True by (simp add: odd_iff_mod_2_eq_one)
    let ?B = "fill ?p (be16 d) (fill 0 X buf)"
    have B: "?B = fill 0 (X @ be16 d) buf" using fill_fill [of 0 X buf "be16 d"] lX p2 by simp
    have r2: "rx_loop (length buf) (?last @ ws) (?v (fill 0 X buf) ?p) = rx_loop (length buf) ws (?v ?B (?p + 1))"
    proof -
      have "?last = [fifo_word WRF_BYTESEL d]" using True d(1) by simp
      moreover have "length (fill 0 X buf) = length buf" using lX p2 by simp
      moreover have "even ?p" using hs by auto
      ultimately show ?thesis using rx_last_byte [of "?v (fill 0 X buf) ?p" ?p d ws] p2 by (simp only: rx_vars.simps append.simps) (simp add: rx_vars_init_def)
    qed
    have "take (?p + 1) (X @ be16 d @ zs) = X @ take 1 (be16 d)" for zs using lX by simp
    moreover have "take 1 (be16 d) = take 1 (drop (2 * (n div 2)) payload)" by (simp add: d(2))
    moreover have q: "hs - 14 + n = ?p + 1" using n1 by simp
    ultimately have "take (hs - 14 + n) ?B = X @ take 1 (drop (2 * (n div 2)) payload)"
      unfolding B q unfolding fill_def by (simp only: take_0 append_Nil append_assoc)
    then have "take (hs - 14 + n) ?B = drop 14 (take hs hdr) @ take (2 * (n div 2)) payload @ take 1 (drop (2 * (n div 2)) payload)"
      by (simp only: X_def append_assoc)
    also have "take (2 * (n div 2)) payload @ take 1 (drop (2 * (n div 2)) payload) = take n payload" by (subst n1) (simp only: take_add)
    finally have t: "take (hs - 14 + n) ?B = drop 14 (take hs hdr) @ take n payload" .
    have l: "length ?B = length buf" unfolding B using lX p2 by simp
    show ?thesis
    proof (rule that [of ?B], unfold hs_def [symmetric])
      show "rx_loop (length buf) (frame_words hdr payload n @ ws) (rx_vars_init hbuf buf) = rx_loop (length buf) ws (?v ?B (hs - 14 + n))"
        unfolding q using r1 r2 by (rule trans)
    qed (rule t, rule l)
  qed
qed

subsection \<open>Transmitting a frame\<close>

lemma wait_mcr_frame: "tx_fifo (snd (wait_mcr b n h)) = tx_fifo h \<and> ver_supported (snd (wait_mcr b n h)) = ver_supported h"
  by (induction n arbitrary: h) (auto simp: read_mcr_def)

lemma tx_finish_spec:
  "fst (fst (tx_finish freq period n ts h)) = n
    \<and> tx_fifo (snd (tx_finish freq period n ts h)) = tx_fifo h @ (if ts = None then [] else map (fifo_word WRF_OOB) [TX_OOB, WRPC_FID])"
  by (cases ts) (simp_all add: tx_finish_def tx_stamp_def minic_txword_def read_mcr_def wait_mcr_frame case_prod_beta Let_def)

lemma minic_tx_spec:
  assumes "ver_supported h" "length hdr = 18" "m = padded n (hdr_size hdr)" "m + m mod 2 \<le> length payload"
  shows "\<exists>t h'. minic_tx_frame freq period hdr payload n ts h = Some ((m, t), h')
    \<and> tx_fifo h' = tx_fifo h @ frame_words hdr payload m
        @ (if ts = None then [] else map (fifo_word WRF_OOB) [TX_OOB, WRPC_FID])"
proof -
  let ?hs = "hdr_size hdr"
  have hs: "2 * (?hs div 2) \<le> length hdr" using assms(2) by (simp add: hdr_size_def)
  have pw: "2 * (m div 2) \<le> length payload" using assms(4) by linarith
  define h1 where "h1 = h\<lparr>tx_fifo := tx_fifo h @ fifo_word WRF_STATUS 0 # map (fifo_word WRF_DATA) (words16 hdr (?hs div 2))
      @ map (fifo_word WRF_DATA) (words16 payload (m div 2))\<rparr>"
  define h2 where "h2 = h\<lparr>tx_fifo := tx_fifo h @ frame_words hdr payload m\<rparr>"
  have "(if odd m then map_option (\<lambda>d. minic_txword WRF_BYTESEL d h1) (get16 payload (m div 2)) else Some h1) = Some h2"
  proof (cases "odd m")
    case True
    then have "2 * (m div 2) + 2 \<le> length payload" using assms(4) by (simp add: odd_iff_mod_2_eq_one)
    then obtain d where "get16 payload (m div 2) = Some d" using get16_bytes by blast
    then show ?thesis using True by (simp add: h1_def h2_def frame_words_def minic_txword_def)
  qed (simp add: h1_def h2_def frame_words_def)
  moreover have "Option.bind (tx_words hdr [0..<?hs div 2] (minic_txword WRF_STATUS 0 h)) (tx_words payload [0..<m div 2]) = Some h1"
    by (simp add: tx_words_spec [OF hs] tx_words_spec [OF pw] h1_def minic_txword_def)
  ultimately have "minic_tx_frame freq period hdr payload n ts h = Some (tx_finish freq period m ts h2)"
    using assms(1) by (auto simp: minic_tx_frame_def Let_def assms(3) [symmetric] bind_eq_Some_conv split: if_splits)
  then show ?thesis using tx_finish_spec [of freq period m ts h2]
    by (cases "tx_finish freq period m ts h2") (auto simp: h2_def)
qed

subsection \<open>The buffer bound\<close>

text \<open>A payload one word longer than the buffer is written past its end.\<close>

lemma rx_overflow:
  assumes "even (length buf)" "length hbuf = 14" "length ds = 7 + length buf div 2"
  shows "rx_loop (length buf) (map (fifo_word WRF_DATA) (ds @ [d]) @ ws) (rx_vars_init hbuf buf) = None"
proof -
  have n: "2 * length ds - 14 = length buf" using assms by auto
  have "rx_loop (length buf) (map (fifo_word WRF_DATA) (ds @ [d]) @ ws) (rx_vars_init hbuf buf)
      = rx_loop (length buf) (fifo_word WRF_DATA d # ws) ((rx_vars_init hbuf buf)\<lparr>rv_hdr := take 14 (concat (map be16 ds)),
        rv_buf := fill 0 (drop 14 (concat (map be16 ds))) buf, rv_hdr_size := 14, rv_payload_size := length buf\<rparr>)"
    using rx_data [of ds buf hbuf "fifo_word WRF_DATA d # ws"] assms n by simp
  also have "\<dots> = None"
    using assms n by (simp add: ends_frame_def rx_word_def put16_def store_bytes_def ETH_HEADER_SIZE_def)
  finally show ?thesis .
qed

lemma rx_frame_spec:
  assumes hdr: "length hdr = 18" and m: "m + m mod 2 \<le> length payload"
    and h2: "ver_supported h2" "mcr h2 (mcr_reads h2) AND MINIC_MCR_RX_EMPTY = 0" "length hbuf = 14"
      "hdr_size hdr + m + m mod 2 \<le> 14 + length buf" "frame_end rest"
    and rx: "rx_fifo h2 = frame_words hdr payload m @ map (fifo_word WRF_OOB) [o0, o1, o2] @ rest"
  shows "\<exists>buf' st h2'. minic_rx_frame freq period hbuf buf ts0 h2 = Some ((int (hdr_size hdr - 14 + m), take 14 hdr, buf', st), h2')
          \<and> take (hdr_size hdr - 14 + m) buf' = drop 14 (take (hdr_size hdr) hdr) @ take m payload
          \<and> hw_nsec st = counter_r (push_bit 16 (ucast o1) OR ucast o2) * word_of_int (period div 1000)
          \<and> (hw_valid st \<longleftrightarrow> o0 AND RXOOB_TS_INCORRECT = 0)"
proof -
  let ?fr = "frame_words hdr payload m" and ?hs = "hdr_size hdr"
  obtain B where B: "rx_loop (length buf) (?fr @ map (fifo_word WRF_OOB) [o0, o1, o2] @ rest) (rx_vars_init hbuf buf)
      = rx_loop (length buf) (map (fifo_word WRF_OOB) [o0, o1, o2] @ rest) ((rx_vars_init hbuf buf)\<lparr>rv_hdr := take 14 hdr, rv_buf := B,
          rv_hdr_size := 14, rv_payload_size := ?hs - 14 + m\<rparr>)"
    "take (?hs - 14 + m) B = drop 14 (take ?hs hdr) @ take m payload" "length B = length buf"
    by (rule rx_frame_data [OF hdr h2(3) m h2(4)])
  have fit: "?hs - 14 + m \<le> length buf" using h2(4) by (auto simp: hdr_size_def split: if_splits)
  let ?v = "(rx_vars_init hbuf buf)\<lparr>rv_hdr := take 14 hdr, rv_buf := B, rv_hdr_size := 14, rv_payload_size := ?hs - 14 + m,
    rv_oob_hdr := o0, rv_raw_ts := push_bit 16 (ucast o1) OR ucast o2, rv_oob_cnt := 3\<rparr>"
  obtain rest' where "rx_loop (length buf) (rx_fifo h2) (rx_vars_init hbuf buf) = Some (?v, rest')"
    using rx_tail [OF h2(5), of "(rx_vars_init hbuf buf)\<lparr>rv_hdr := take 14 hdr, rv_buf := B,
          rv_hdr_size := 14, rv_payload_size := ?hs - 14 + m\<rparr>" "length buf" o0 o1 o2] fit
    unfolding rx B(1) by (auto simp: rx_vars_init_def)
  then show ?thesis using h2(1,2) B(2) fit
    by (simp add: minic_rx_frame_def read_mcr_def rx_vars_init_def rx_stamp_def RX_OOB_SIZE_def Let_def min_absorb2)
qed

section \<open>Properties\<close>

text \<open>
  C17. Frames are delivered unchanged. What \<open>minic_tx_frame\<close> writes to the FIFO for a header (with or without VLAN tag) and a payload,
  padded to the Ethernet minimum, is received by \<open>minic_rx_frame\<close>, followed by the receiver's three out-of-band words, as
  the same header and the same bytes, without error; the bytes after the 14-byte header are the VLAN tag, if any,
  and the padded payload, for even and odd sizes.
\<close>

theorem frame_roundtrip:
  assumes "ver_supported h1" "length hdr = 18" "m = padded n (hdr_size hdr)" "m + m mod 2 \<le> length payload"
  shows "\<exists>t h1' fr. minic_tx_frame freq period hdr payload n ts h1 = Some ((m, t), h1')
    \<and> tx_fifo h1' = tx_fifo h1 @ fr @ (if ts = None then [] else map (fifo_word WRF_OOB) [TX_OOB, WRPC_FID])
    \<and> (\<forall>h2 hbuf buf rest o0 o1 o2 ts0. ver_supported h2 \<and> mcr h2 (mcr_reads h2) AND MINIC_MCR_RX_EMPTY = 0 \<and> length hbuf = 14
          \<and> hdr_size hdr + m + m mod 2 \<le> 14 + length buf \<and> frame_end rest
          \<and> rx_fifo h2 = fr @ map (fifo_word WRF_OOB) [o0, o1, o2] @ rest \<longrightarrow>
        (\<exists>buf' st h2'. minic_rx_frame freq period hbuf buf ts0 h2 = Some ((int (hdr_size hdr - 14 + m), take 14 hdr, buf', st), h2')
          \<and> take (hdr_size hdr - 14 + m) buf' = drop 14 (take (hdr_size hdr) hdr) @ take m payload
          \<and> hw_nsec st = counter_r (push_bit 16 (ucast o1) OR ucast o2) * word_of_int (period div 1000)
          \<and> (hw_valid st \<longleftrightarrow> o0 AND RXOOB_TS_INCORRECT = 0)))"
proof -
  obtain t h1' where tx: "minic_tx_frame freq period hdr payload n ts h1 = Some ((m, t), h1')"
    "tx_fifo h1' = tx_fifo h1 @ frame_words hdr payload m @ (if ts = None then [] else map (fifo_word WRF_OOB) [TX_OOB, WRPC_FID])"
    using minic_tx_spec [OF assms] by blast
  then show ?thesis
    by (intro exI [of _ t] exI [of _ h1'] exI [of _ "frame_words hdr payload m"] conjI allI impI)
      (simp_all only:, elim conjE, rule rx_frame_spec [OF assms(2,4)])
qed

definition example_hw :: minic_hw where
  "example_hw = \<lparr>ver_supported = True, nic = \<lparr>tx_count = 0, rx_count = 0, rx_errors = 0\<rparr>, rx_fifo = [], tx_fifo = [],
     mcr = (\<lambda>_. MINIC_MCR_TX_IDLE), mcr_reads = 0, mcr_writes = [], eic_idr = 0, tsr0 = 1, tsr1 = 0, now_sec = 5, now_nsec = 0\<rparr>"

definition example_stamp :: hw_timestamp where
  "example_stamp = \<lparr>hw_valid = False, hw_ahead = False, hw_sec = 0, hw_nsec = 0, hw_phase = 0\<rparr>"

theorem frame_roundtrip_witness:
  "\<exists>t h fr. minic_tx_frame 62500000 16000 (replicate 18 1) (replicate 100 7) 61 (Some example_stamp) example_hw = Some ((61, t), h)
    \<and> tx_fifo h = fr @ map (fifo_word WRF_OOB) [TX_OOB, WRPC_FID]
    \<and> (\<exists>buf' st h2'. minic_rx_frame 62500000 16000 (replicate 14 0) (replicate 480 0) example_stamp
          (example_hw\<lparr>rx_fifo := fr @ map (fifo_word WRF_OOB) [0, 0, 3]\<rparr>) = Some ((61, replicate 14 1, buf', st), h2')
        \<and> take 61 buf' = replicate 61 7 \<and> hw_nsec st = 48 \<and> hw_valid st)"
proof -
  have hs: "hdr_size (replicate 18 1) = 14" "padded 61 14 = 61" by (simp_all add: hdr_size_def padded_def numeral_2_eq_2)
  have "mcr example_hw 0 AND MINIC_MCR_RX_EMPTY = 0" "ver_supported example_hw" "mcr_reads example_hw = 0" "tx_fifo example_hw = []"
    by (simp_all add: example_hw_def MINIC_MCR_TX_IDLE_def MINIC_MCR_RX_EMPTY_def)
  note e = this
  from frame_roundtrip [of example_hw "replicate 18 1" 61 61 "replicate 100 7" 62500000 16000 "Some example_stamp"]
  obtain t h fr where tx: "minic_tx_frame 62500000 16000 (replicate 18 1) (replicate 100 7) 61 (Some example_stamp) example_hw = Some ((61, t), h)"
    "tx_fifo h = fr @ map (fifo_word WRF_OOB) [TX_OOB, WRPC_FID]"
    and rx: "\<forall>h2 hbuf buf rest o0 o1 o2. ver_supported h2 \<and> mcr h2 (mcr_reads h2) AND MINIC_MCR_RX_EMPTY = 0 \<and> length hbuf = 14
          \<and> 62 \<le> length buf \<and> frame_end rest \<and> rx_fifo h2 = fr @ fifo_word WRF_OOB o0 # fifo_word WRF_OOB o1 # fifo_word WRF_OOB o2 # rest \<longrightarrow>
        (\<forall>ts0. \<exists>buf' st. (\<exists>h2'. minic_rx_frame 62500000 16000 hbuf buf ts0 h2 = Some ((61, replicate 14 1, buf', st), h2'))
          \<and> take 61 buf' = replicate 61 7
          \<and> hw_nsec st = counter_r (push_bit 16 (ucast o1) OR ucast o2) * 16 \<and> hw_valid st = (o0 AND RXOOB_TS_INCORRECT = 0))"
    using e(2) by (simp add: hs e(4)) blast
  show ?thesis
    using tx rx [rule_format, of "example_hw\<lparr>rx_fifo := fr @ map (fifo_word WRF_OOB) [0, 0, 3]\<rparr>" "replicate 14 0" "replicate 480 0" "[]" 0 0 3 example_stamp] e
    by (intro exI [of _ t] exI [of _ h] exI [of _ fr]) (simp add: example_hw_def frame_end_def counter_r_def RXOOB_TS_INCORRECT_def)
qed

text \<open>
  The second of a time stamp. The interface gives only the clock cycle within the second at which the frame passed;
  if the frame is read less than 250 ms after it passed, the second that \<open>stamp_sec\<close> takes from the current time is
  the one in which it passed, also when the second has rolled over in between, and the nanoseconds are those of the cycle.
\<close>

theorem stamp_second:
  assumes "freq * p = 1000000000" "0 < p" "0 \<le> cnt" "cnt < freq" "0 \<le> S" "0 \<le> sec" "sec < 18446744073709551616"
    "0 \<le> nsec" "nsec < 1000000000"
    "S * 1000000000 + cnt * p \<le> sec * 1000000000 + nsec" "sec * 1000000000 + nsec < S * 1000000000 + cnt * p + 250000000"
  shows "uint (stamp_sec freq (word_of_int cnt) (word_of_int sec) (word_of_int nsec)) = S
    \<and> uint (word_of_int cnt * word_of_int p :: u32) = cnt * p"
proof -
  have cp: "0 \<le> cnt * p" "cnt * p < 1000000000" using assms(1-4) mult_strict_right_mono [of cnt freq p] by (auto simp: assms(1))
  have f: "freq \<le> 1000000000" "p \<le> 1000000000" using assms(1,2) cp
    by (smt (verit) assms(3,4) mult_le_cancel_right1 mult_le_cancel_left1)+
  have u: "uint (word_of_int cnt :: u32) = cnt" "uint (word_of_int nsec :: u32) = nsec"
    using assms f by (auto simp: unsigned_of_int take_bit_int_eq_self)
  have late: "cnt > 3 * freq div 4 \<longleftrightarrow> 750000000 < cnt * p"
  proof -
    have "cnt > 3 * freq div 4 \<longleftrightarrow> 3 * freq < 4 * cnt" by linarith
    also have "\<dots> \<longleftrightarrow> 3 * freq * p < 4 * cnt * p" using assms(2) by simp
    also have "\<dots> \<longleftrightarrow> 750000000 < cnt * p" using assms(1) by (simp add: mult.assoc)
    finally show ?thesis .
  qed
  have "sec = S \<or> sec = S + 1" using assms cp by linarith
  moreover have "(nsec < 250000000 \<and> 750000000 < cnt * p) = (sec = S + 1)" if c: "sec = S \<or> sec = S + 1"
    using c
  proof
    assume "sec = S"
    then show ?thesis using assms(8-11) cp by auto
  next
    assume "sec = S + 1"
    then show ?thesis using assms(8-11) cp by auto
  qed
  ultimately have "stamp_sec freq (word_of_int cnt) (word_of_int sec) (word_of_int nsec) = word_of_int S"
    by (auto simp: stamp_sec_def u late word_less_def wi_hom_sub [symmetric])
  moreover have "S < 18446744073709551616" using assms cp by linarith
  ultimately have "uint (stamp_sec freq (word_of_int cnt) (word_of_int sec) (word_of_int nsec)) = S"
    using assms(5) by (simp add: unsigned_of_int take_bit_int_eq_self)
  moreover have "uint (word_of_int cnt * word_of_int p :: u32) = cnt * p"
    using cp by (simp only: wi_hom_mult unsigned_of_int) (simp add: take_bit_int_eq_self)
  ultimately show ?thesis by simp
qed

theorem stamp_second_witness:
  "uint (stamp_sec 62500000 (word_of_int 62000000) (word_of_int 8) (word_of_int 1000)) = 7"
  using stamp_second [of 62500000 16 62000000 7 8 1000] by simp

end
