(* ===== verification/Net.thy ===== *)
theory Net
  imports Minic Event_Queue "HOL-Library.Monad_Syntax"
begin

text \<open>
  \<^verbatim>\<open>lib/net.c\<close> and the device table of \<^verbatim>\<open>dev/netif.c\<close>: sockets, each with a byte ring of received frames, the
  dispatch of a received frame to a socket, and the linearisation of receive time stamps. A socket pointer
  is a number, the sockets are a function on it. The 16-bit fields of a ring are numbers with the wrap-around
  written out; an access outside the memory of the ring, of the frame buffer or of a socket table is \<open>None\<close>.
  What the SoftPLL returns (shifter busy, phase) is an argument of the receive function.

  Results: the ring is a queue of frames, cut to the reader's buffer; a frame goes to the socket of its type and
  port, or nowhere; the linearised time stamp is the arrival time whichever of the two counters was caught in transition.
\<close>

unbundle bit_operations_syntax

section \<open>Definitions\<close>

definition NET_MAX_SOCKETS :: nat where "NET_MAX_SOCKETS = 12"
definition NET_BUFFER :: nat where "NET_BUFFER = 480"
definition WRC_NETIF_MAX_DEVICES :: nat where "WRC_NETIF_MAX_DEVICES = 2"
definition IP_VERSION :: nat where "IP_VERSION = 0"
definition IP_PROTOCOL :: nat where "IP_PROTOCOL = 9"
definition UDP_DPORT :: nat where "UDP_DPORT = 22"

text \<open>Socket addresses; the Ethernet type is kept as a number, not in network byte order.\<close>

record wr_sockaddr =
  sa_mac :: "u8 list"
  sa_mac_dest :: "u8 list"
  sa_ethertype :: u16
  sa_udpport :: u16
  sa_vlan :: u16

record sockq =
  q_head :: nat
  q_tail :: nat
  q_avail :: nat
  q_size :: nat
  q_n :: nat
  q_buff :: "u8 list"

record wrpc_socket =
  s_bind_addr :: wr_sockaddr
  s_nif :: nat
  s_prio :: u16
  s_queue :: sockq

record wr_timestamp =
  ts_sec :: int
  ts_nsec :: int
  ts_phase :: int
  ts_raw_phase :: int
  ts_raw_nsec :: int
  ts_raw_ahead :: bool
  ts_correct :: bool

record wrc_netif_device =
  nd_mac :: "u8 list"
  nd_hw :: minic_hw
  nd_phase_transition :: u32

record net =
  n_socks :: "nat option list"
  n_sock :: "nat \<Rightarrow> wrpc_socket"
  n_vlan :: u16
  n_netif_count :: nat
  n_netifs :: "wrc_netif_device list"
  n_hdr :: "u8 list"
  n_buffer :: "u8 list"

text \<open>The parameters of the board: byte order, default transition phase, reference clock.\<close>

record net_cfg =
  big_endian :: bool
  default_transition :: u32
  ref_freq :: int
  ref_period :: int

subsection \<open>Devices and sockets\<close>

definition netif_register_device :: "net_cfg \<Rightarrow> u8 list \<Rightarrow> minic_hw \<Rightarrow> net \<Rightarrow> (int \<times> net) option" where
  "netif_register_device c mac hw s =
     (if n_netif_count s \<ge> WRC_NETIF_MAX_DEVICES then Some (- 1, s)
      else map_option (\<lambda>ds. (0, s\<lparr>n_netifs := ds, n_netif_count := n_netif_count s + 1\<rparr>))
             (store (n_netifs s) (n_netif_count s) \<lparr>nd_mac = mac, nd_hw = hw, nd_phase_transition = default_transition c\<rparr>))"

definition netif_set_phase_transition :: "nat \<Rightarrow> u32 \<Rightarrow> net \<Rightarrow> net option" where
  "netif_set_phase_transition idx phase s =
     (case load (n_netifs s) idx of
        None \<Rightarrow> None
      | Some d \<Rightarrow> Some (s\<lparr>n_netifs := (n_netifs s)[idx := d\<lparr>nd_phase_transition := phase\<rparr>]\<rparr>))"

definition zero_addr :: wr_sockaddr where
  "zero_addr = \<lparr>sa_mac = replicate 6 0, sa_mac_dest = replicate 6 0, sa_ethertype = 0, sa_udpport = 0, sa_vlan = 0\<rparr>"

text \<open>
  \<open>len\<close> is the size of the socket's buffer; an \<open>unsigned\<close> in the code, stored in 16 bits. \<open>None\<close> as a result: no slot left.
\<close>

definition ptpd_netif_create_socket ::
  "nat \<Rightarrow> nat \<Rightarrow> wr_sockaddr option \<Rightarrow> bool \<Rightarrow> u16 \<Rightarrow> nat \<Rightarrow> net \<Rightarrow> nat option \<times> net" where
  "ptpd_netif_create_socket p len baddr udp udpport nif s =
     (case List.find (\<lambda>i. n_socks s ! i = None) [0..<length (n_socks s)] of
        None \<Rightarrow> (None, s)
      | Some i \<Rightarrow>
          (let a = (case baddr of None \<Rightarrow> zero_addr | Some b \<Rightarrow> b)\<lparr>sa_udpport := 0\<rparr>;
               a = (if udp then a\<lparr>sa_ethertype := 0x0800, sa_udpport := udpport\<rparr> else a);
               q = (s_queue (n_sock s p))\<lparr>q_head := 0, q_tail := 0, q_avail := len mod 65536, q_size := len mod 65536, q_n := 0\<rparr>
           in (Some p, s\<lparr>n_socks := (n_socks s)[i := Some p],
                         n_sock := (n_sock s)(p := (n_sock s p)\<lparr>s_bind_addr := a, s_nif := nif, s_queue := q\<rparr>)\<rparr>)))"

definition ptpd_netif_close_socket :: "nat \<Rightarrow> net \<Rightarrow> net" where
  "ptpd_netif_close_socket p s = s\<lparr>n_socks := map (\<lambda>e. if e = Some p then None else e) (n_socks s)\<rparr>"

subsection \<open>Linearisation of a receive time stamp\<close>

text \<open>
  All in 32-bit \<open>int\<close>; the seconds are 64 bits wide. The phase against the transition point of the rising and of the
  falling counter, the choice of the counter that is far from its transition, and the carry into the seconds.
\<close>

definition rising_phase :: "int \<Rightarrow> int \<Rightarrow> int \<Rightarrow> int" where
  "rising_phase raw_phase transition_point clock_period =
     (let phase_r = i32 (raw_phase - transition_point) in if phase_r < 0 then i32 (phase_r + clock_period) else phase_r)"

definition falling_phase :: "int \<Rightarrow> int \<Rightarrow> int \<Rightarrow> int" where
  "falling_phase raw_phase transition_point clock_period =
     (let phase_f = i32 (i32 (raw_phase - transition_point) + clock_period div 2);
          phase_f = (if phase_f < 0 then i32 (phase_f + clock_period) else phase_f)
      in if phase_f \<ge> clock_period then i32 (phase_f - clock_period) else phase_f)"

definition pick_edge :: "int \<Rightarrow> int \<Rightarrow> int \<Rightarrow> int \<Rightarrow> int \<Rightarrow> int \<times> int" where
  "pick_edge clock_period nsec_r nsec_f phase_r phase_f =
     (if phase_r > i32 (3 * clock_period) div 4 \<or> phase_r < clock_period div 4 then
        (let phase = i32 (phase_f + clock_period div 2)
         in if phase \<ge> clock_period then (i32 (nsec_f + clock_period div 1000), i32 (phase - clock_period)) else (nsec_f, phase))
      else (nsec_r, phase_r))"

definition ptpd_netif_linearize_rx_timestamp :: "int \<Rightarrow> bool \<Rightarrow> int \<Rightarrow> int \<Rightarrow> wr_timestamp \<Rightarrow> wr_timestamp" where
  "ptpd_netif_linearize_rx_timestamp dmtd_phase cntr_ahead transition_point clock_period ts =
     (let nsec_f = (if cntr_ahead then i32 (ts_nsec ts - clock_period div 1000) else ts_nsec ts);
          (nsec, phase) = pick_edge clock_period (ts_nsec ts) nsec_f
             (rising_phase dmtd_phase transition_point clock_period) (falling_phase dmtd_phase transition_point clock_period)
      in if nsec \<ge> 1000000000
         then ts\<lparr>ts_raw_phase := dmtd_phase, ts_phase := phase, ts_nsec := i32 (nsec - 1000000000), ts_sec := i64 (ts_sec ts + 1)\<rparr>
         else ts\<lparr>ts_raw_phase := dmtd_phase, ts_phase := phase, ts_nsec := nsec\<rparr>)"

subsection \<open>The byte ring of a socket\<close>

fun copy_out :: "u8 list \<Rightarrow> sockq \<Rightarrow> sockq option" where
  "copy_out [] q = Some q"
| "copy_out (b # bs) q =
     (case store (q_buff q) (q_head q) b of
        None \<Rightarrow> None
      | Some buff \<Rightarrow>
          (let h = (q_head q + 1) mod 65536
           in copy_out bs (q\<lparr>q_buff := buff, q_head := (if h = q_size q then 0 else h)\<rparr>)))"

text \<open>\<open>q->avail -= wrap_copy_out(q, src, len)\<close>.\<close>

definition put_bytes :: "u8 list \<Rightarrow> sockq \<Rightarrow> sockq option" where
  "put_bytes bs q = map_option (\<lambda>q. q\<lparr>q_avail := nat ((int (q_avail q) - int (length bs)) mod 65536)\<rparr>) (copy_out bs q)"

fun copy_in :: "nat \<Rightarrow> sockq \<Rightarrow> (u8 list \<times> sockq) option" where
  "copy_in 0 q = Some ([], q)"
| "copy_in (Suc n) q =
     (case load (q_buff q) (q_tail q) of
        None \<Rightarrow> None
      | Some b \<Rightarrow>
          (let t = (q_tail q + 1) mod 65536
           in map_option (\<lambda>(bs, q). (b # bs, q)) (copy_in n (q\<lparr>q_tail := (if t = q_size q then 0 else t)\<rparr>))))"

text \<open>
  The loop that brings the tail back into the buffer after skipped bytes. It does not end when the size is 0;
  then there is no result.
\<close>

function reduce_tail :: "nat \<Rightarrow> nat \<Rightarrow> nat option" where
  "reduce_tail sz t = (if t > sz then (if sz = 0 then None else reduce_tail sz (t - sz)) else Some t)"
  by pat_completeness auto
termination
  by (relation "measure snd") auto

declare reduce_tail.simps [simp del]

definition wrap_copy_in :: "nat \<Rightarrow> nat \<Rightarrow> sockq \<Rightarrow> (u8 list \<times> sockq) option" where
  "wrap_copy_in len buflen q =
     (let buflen = (if buflen = 0 then len else buflen) in
      case copy_in (min len buflen) q of
        None \<Rightarrow> None
      | Some (bs, q) \<Rightarrow>
          (if len > buflen
           then map_option (\<lambda>t. (bs, q\<lparr>q_tail := t\<rparr>)) (reduce_tail (q_size q) ((q_tail q + (len - buflen)) mod 65536))
           else Some (bs, q)))"

text \<open>\<open>q->avail += wrap_copy_in(dst, q, len, buflen)\<close>.\<close>

definition get_bytes :: "nat \<Rightarrow> nat \<Rightarrow> sockq \<Rightarrow> (u8 list \<times> sockq) option" where
  "get_bytes len buflen q =
     map_option (\<lambda>(bs, q). (bs, q\<lparr>q_avail := (q_avail q + len) mod 65536\<rparr>)) (wrap_copy_in len buflen q)"

subsection \<open>Receiving\<close>

text \<open>
  The object representations that go through the ring: integers in the byte order of the processor, and the 24
  bytes of a \<open>struct hw_timestamp\<close> (three bytes of padding after \<open>valid\<close>).
\<close>

definition mem_int :: "net_cfg \<Rightarrow> nat \<Rightarrow> int \<Rightarrow> u8 list" where
  "mem_int c n x = (if big_endian c then be_bytes n x else rev (be_bytes n x))"

definition mem_val :: "net_cfg \<Rightarrow> u8 list \<Rightarrow> int" where
  "mem_val c bs = be_val (if big_endian c then bs else rev bs)"

definition hwts_mem :: "net_cfg \<Rightarrow> hw_timestamp \<Rightarrow> u8 list" where
  "hwts_mem c t = [of_bool (hw_valid t), 0, 0, 0] @ mem_int c 4 (of_bool (hw_ahead t)) @ mem_int c 8 (uint (hw_sec t))
     @ mem_int c 4 (uint (hw_nsec t)) @ mem_int c 4 (uint (hw_phase t))"

definition mem_hwts :: "net_cfg \<Rightarrow> u8 list \<Rightarrow> hw_timestamp" where
  "mem_hwts c bs = \<lparr>hw_valid = (bs ! 0 \<noteq> 0), hw_ahead = (mem_val c (take 4 (drop 4 bs)) \<noteq> 0),
     hw_sec = word_of_int (mem_val c (take 8 (drop 8 bs))), hw_nsec = word_of_int (mem_val c (take 4 (drop 16 bs))),
     hw_phase = word_of_int (mem_val c (take 4 (drop 20 bs)))\<rparr>"

definition be16_val :: "u8 list \<Rightarrow> nat \<Rightarrow> u16" where
  "be16_val bs i = word_of_int (be_val (take 2 (drop i bs)))"

text \<open>What \<open>ptpd_netif_recvfrom\<close> hands to its caller.\<close>

record received =
  r_ret :: int
  r_data :: "u8 list"
  r_from :: wr_sockaddr
  r_hwts :: hw_timestamp

text \<open>The time stamp for the caller, from the hardware time stamp and what the SoftPLL returns.\<close>

definition rx_timestamp :: "net_cfg \<Rightarrow> u32 \<Rightarrow> bool \<Rightarrow> int \<Rightarrow> hw_timestamp \<Rightarrow> wr_timestamp" where
  "rx_timestamp c transition spll_busy phase hwts =
     ptpd_netif_linearize_rx_timestamp phase (hw_ahead hwts) (sint transition) (ref_period c)
       \<lparr>ts_sec = sint (hw_sec hwts), ts_nsec = sint (hw_nsec hwts), ts_phase = 0, ts_raw_phase = phase,
        ts_raw_nsec = sint (hw_nsec hwts), ts_raw_ahead = hw_ahead hwts, ts_correct = (hw_valid hwts \<and> \<not> spll_busy)\<rparr>"

text \<open>\<open>from\<close> is the caller's address structure; its UDP port is not touched.\<close>

definition recv_frame :: "net_cfg \<Rightarrow> u16 \<Rightarrow> wr_sockaddr \<Rightarrow> nat \<Rightarrow> sockq \<Rightarrow> (received \<times> sockq) option" where
  "recv_frame c vlan from data_length q = do {
     let q = q\<lparr>q_n := q_n q - 1\<rparr>;
     (size, q) \<leftarrow> get_bytes 2 0 q;
     let size = nat (mem_val c size);
     (hwts, q) \<leftarrow> get_bytes 24 0 q;
     (hdr, q) \<leftarrow> get_bytes 14 0 q;
     (data, q) \<leftarrow> get_bytes size data_length q;
     Some (\<lparr>r_ret = int (min size data_length), r_data = data,
        r_from = from\<lparr>sa_mac := take 6 (drop 6 hdr), sa_mac_dest := take 6 hdr, sa_ethertype := be16_val hdr 12, sa_vlan := vlan\<rparr>,
        r_hwts = mem_hwts c hwts\<rparr>, q)
   }"

text \<open>\<open>None\<close> inside: no frame is waiting. \<open>spll = None\<close>: the caller wants no time stamp.\<close>

definition ptpd_netif_recvfrom ::
  "net_cfg \<Rightarrow> nat \<Rightarrow> wr_sockaddr \<Rightarrow> nat \<Rightarrow> (bool \<times> int) option \<Rightarrow> net \<Rightarrow> ((received \<times> wr_timestamp option) option \<times> net) option" where
  "ptpd_netif_recvfrom c p from data_length spll s =
     (let k = n_sock s p in
      if q_n (s_queue k) = 0 then Some (None, s)
      else do {
        (r, q) \<leftarrow> recv_frame c (n_vlan s) from data_length (s_queue k);
        let s' = s\<lparr>n_sock := (n_sock s)(p := k\<lparr>s_queue := q\<rparr>)\<rparr>;
        ts \<leftarrow> (case spll of
                 None \<Rightarrow> Some None
               | Some (busy, phase) \<Rightarrow>
                   map_option (\<lambda>d. Some (rx_timestamp c (nd_phase_transition d) busy phase (r_hwts r))) (load (n_netifs s) (s_nif k)));
        Some (Some (r, ts), s')
      })"

subsection \<open>Sending\<close>

text \<open>\<open>junk\<close> are the bytes of the uninitialised VLAN fields, \<open>ts0\<close> the uninitialised hardware time stamp,
  \<open>tx_ts\<close> the caller's time stamp structure.\<close>

definition tx_header :: "u8 list \<Rightarrow> u16 \<Rightarrow> wr_sockaddr \<Rightarrow> wrpc_socket \<Rightarrow> u8 list \<Rightarrow> u8 list" where
  "tx_header mac vlan to k junk =
     sa_mac to @ mac @
     (if vlan \<noteq> 0 then be16 0x8100 @ be16 (vlan OR push_bit 13 (s_prio k)) @ be16 (sa_ethertype (s_bind_addr k))
      else be16 (sa_ethertype (s_bind_addr k)) @ take 4 junk)"

definition ptpd_netif_sendto ::
  "net_cfg \<Rightarrow> nat \<Rightarrow> wr_sockaddr \<Rightarrow> u8 list \<Rightarrow> nat \<Rightarrow> u8 list \<Rightarrow> hw_timestamp \<Rightarrow> wr_timestamp \<Rightarrow> net \<Rightarrow> ((nat \<times> wr_timestamp) \<times> net) option" where
  "ptpd_netif_sendto c p to data n junk ts0 tx_ts s = do {
     let k = n_sock s p;
     d \<leftarrow> load (n_netifs s) (s_nif k);
     ((rval, t), hw) \<leftarrow> minic_tx_frame (ref_freq c) (ref_period c) (tx_header (nd_mac d) (n_vlan s) to k junk) data n (Some ts0) (nd_hw d);
     let hwts = (case t of None \<Rightarrow> ts0 | Some t \<Rightarrow> t);
     Some ((rval, tx_ts\<lparr>ts_sec := sint (hw_sec hwts), ts_nsec := sint (hw_nsec hwts), ts_phase := 0, ts_correct := hw_valid hwts\<rparr>),
       s\<lparr>n_netifs := (n_netifs s)[s_nif k := d\<lparr>nd_hw := hw\<rparr>]\<rparr>)
   }"

subsection \<open>Polling an interface\<close>

text \<open>The socket a frame goes to: the last UDP socket of its port, else the last raw socket of its type.\<close>

definition matching :: "net \<Rightarrow> nat \<Rightarrow> u16 \<Rightarrow> (wrpc_socket \<Rightarrow> bool) \<Rightarrow> nat option" where
  "matching s nif ethtype P =
     fold (\<lambda>e found. case e of
             None \<Rightarrow> found
           | Some p \<Rightarrow>
               (if s_nif (n_sock s p) = nif \<and> ethtype = sa_ethertype (s_bind_addr (n_sock s p)) \<and> P (n_sock s p) then Some p else found))
       (n_socks s) None"

definition dispatch_socket :: "net \<Rightarrow> nat \<Rightarrow> u16 \<Rightarrow> u16 \<Rightarrow> nat option" where
  "dispatch_socket s nif ethtype port =
     (case matching s nif ethtype (\<lambda>k. port \<noteq> 0 \<and> sa_udpport (s_bind_addr k) = port) of
        Some p \<Rightarrow> Some p
      | None \<Rightarrow> matching s nif ethtype (\<lambda>k. port = 0 \<and> sa_udpport (s_bind_addr k) = 0))"

definition udp_port :: "u8 list \<Rightarrow> u16" where
  "udp_port payload =
     (if payload ! IP_VERSION = 0x45 \<and> payload ! IP_PROTOCOL = 17 then be16_val payload UDP_DPORT else 0)"

definition enqueue_frame :: "net_cfg \<Rightarrow> int \<Rightarrow> hw_timestamp \<Rightarrow> u8 list \<Rightarrow> u8 list \<Rightarrow> sockq \<Rightarrow> sockq option" where
  "enqueue_frame c recvd hwts hdr payload q =
     (let size = nat (recvd mod 65536) in
      if int (q_avail q) < 14 + recvd + 24 + 2 then Some q
      else do {
        q \<leftarrow> put_bytes (mem_int c 2 (int size)) q;
        q \<leftarrow> put_bytes (hwts_mem c hwts) q;
        q \<leftarrow> put_bytes hdr q;
        bs \<leftarrow> load_bytes payload 0 size;
        q \<leftarrow> put_bytes bs q;
        Some (q\<lparr>q_n := (q_n q + 1) mod 65536\<rparr>)
      })"

definition deliver :: "net_cfg \<Rightarrow> nat \<Rightarrow> int \<Rightarrow> hw_timestamp \<Rightarrow> u8 list \<Rightarrow> u8 list \<Rightarrow> net \<Rightarrow> net option" where
  "deliver c p recvd hwts hdr payload s =
     map_option (\<lambda>q. s\<lparr>n_sock := (n_sock s)(p := (n_sock s p)\<lparr>s_queue := q\<rparr>)\<rparr>)
       (enqueue_frame c recvd hwts hdr payload (s_queue (n_sock s p)))"

definition netif_poll :: "net_cfg \<Rightarrow> hw_timestamp \<Rightarrow> nat \<Rightarrow> net \<Rightarrow> (bool \<times> net) option" where
  "netif_poll c ts0 nif s = do {
     d \<leftarrow> load (n_netifs s) nif;
     ((recvd, hdr, buffer, hwts), hw) \<leftarrow> minic_rx_frame (ref_freq c) (ref_period c) (n_hdr s) (n_buffer s) ts0 (nd_hw d);
     let s = s\<lparr>n_netifs := (n_netifs s)[nif := d\<lparr>nd_hw := hw\<rparr>], n_hdr := hdr, n_buffer := buffer\<rparr>;
     if recvd \<le> 0 then Some (False, s)
     else do {
       let tagged = (be16_val hdr 12 = 0x8100);
       let tag = (if tagged then be16_val buffer 0 else 0);
       let hdr = (if tagged then take 12 hdr @ take 2 (drop 2 buffer) else hdr);
       let payload = (if tagged then drop 4 buffer else buffer);
       let recvd = (if tagged then recvd - 4 else recvd);
       let s = s\<lparr>n_hdr := hdr\<rparr>;
       if tag AND 0xfff \<noteq> n_vlan s then Some (False, s)
       else
         (case dispatch_socket s nif (be16_val hdr 12) (udp_port payload) of
            None \<Rightarrow> Some (True, s)
          | Some p \<Rightarrow> map_option (Pair True) (deliver c p recvd hwts hdr payload s))
     }
   }"

definition net_bh_poll :: "net_cfg \<Rightarrow> hw_timestamp \<Rightarrow> net \<Rightarrow> (bool \<times> net) option" where
  "net_bh_poll c ts0 s =
     for_each (\<lambda>i (res, s). map_option (\<lambda>(r, s). (res \<or> r, s)) (netif_poll c ts0 i s)) [0..<n_netif_count s] (False, s)"

subsection \<open>Specification notions\<close>

text \<open>The \<open>k\<close> bytes from the tail of a ring, and the invariant of a ring.\<close>

definition from_tail :: "nat \<Rightarrow> sockq \<Rightarrow> u8 list" where
  "from_tail k q = map (\<lambda>i. q_buff q ! ((q_tail q + i) mod q_size q)) [0..<k]"

definition sockq_ok :: "sockq \<Rightarrow> bool" where
  "sockq_ok q \<longleftrightarrow> 0 < q_size q \<and> q_size q < 32768 \<and> q_size q \<le> length (q_buff q) \<and> q_tail q < q_size q
     \<and> q_avail q \<le> q_size q \<and> q_head q = (q_tail q + (q_size q - q_avail q)) mod q_size q"

definition ring_bytes :: "sockq \<Rightarrow> u8 list" where
  "ring_bytes q = from_tail (q_size q - q_avail q) q"

section \<open>Facts\<close>

subsection \<open>The byte ring\<close>

lemma length_from_tail [simp]: "length (from_tail k q) = k" by (simp add: from_tail_def)

lemma from_tail_split:
  "j \<le> k \<Longrightarrow> from_tail k q = from_tail j q @ from_tail (k - j) (q\<lparr>q_tail := (q_tail q + j) mod q_size q\<rparr>)"
proof -
  assume "j \<le> k"
  then have "[0..<k] = [0..<j] @ map (\<lambda>i. i + j) [0..<k - j]"
    using upt_add_eq_append [of 0 j "k - j"] map_add_upt [of j "k - j"] by simp
  then show ?thesis by (simp add: from_tail_def comp_def mod_simps ac_simps)
qed

lemma take_from_tail: "j \<le> k \<Longrightarrow> take j (from_tail k q) = from_tail j q"
  by (simp add: from_tail_def take_map)

lemma from_tail_frame [simp]:
  "from_tail k (q\<lparr>q_avail := a\<rparr>) = from_tail k q" "from_tail k (q\<lparr>q_n := a\<rparr>) = from_tail k q" "from_tail k (q\<lparr>q_head := a\<rparr>) = from_tail k q"
  by (simp_all add: from_tail_def)

lemma next_pos:
  assumes "p < (n :: nat)" "n < 32768"
  shows "(if (p + 1) mod 65536 = n then 0 else (p + 1) mod 65536) = (p + 1) mod n"
  using assms by (cases "p + 1 = n") auto

lemma copy_out_spec:
  assumes "0 < q_size q" "q_size q < 32768" "q_size q \<le> length (q_buff q)" "q_head q = (q_tail q + k) mod q_size q" "k + length bs \<le> q_size q"
  shows "\<exists>b. copy_out bs q = Some (q\<lparr>q_buff := b, q_head := (q_tail q + (k + length bs)) mod q_size q\<rparr>)
    \<and> length b = length (q_buff q) \<and> from_tail (k + length bs) (q\<lparr>q_buff := b\<rparr>) = from_tail k q @ bs"
  using assms
proof (induction bs arbitrary: q k)
  case Nil
  then show ?case by (intro exI [of _ "q_buff q"]) simp
next
  case (Cons x bs)
  have h: "q_head q < q_size q" using Cons.prems by simp
  let ?q = "q\<lparr>q_buff := (q_buff q)[q_head q := x], q_head := (q_tail q + (k + 1)) mod q_size q\<rparr>"
  have "(q_head q + 1) mod q_size q = (q_tail q + (k + 1)) mod q_size q" using Cons.prems(4) by (simp add: mod_simps)
  with next_pos [OF h Cons.prems(2)]
  have nx: "(if (q_head q + 1) mod 65536 = q_size q then 0 else (q_head q + 1) mod 65536) = (q_tail q + (k + 1)) mod q_size q" by simp
  have st: "store (q_buff q) (q_head q) x = Some ((q_buff q)[q_head q := x])" using h Cons.prems(3) by (simp add: store_def)
  have step: "copy_out (x # bs) q = copy_out bs ?q" by (simp only: copy_out.simps st option.case Let_def nx)
  have "from_tail k (q\<lparr>q_buff := (q_buff q)[q_head q := x]\<rparr>) = from_tail k q"
    using ring_distinct [of _ k "q_size q" "q_tail q", THEN not_sym] Cons.prems(4,5) by (auto simp: from_tail_def nth_list_update)
  then have v: "from_tail (k + 1) ?q = from_tail k q @ [x]"
    using Cons.prems(3,4) h by (simp add: from_tail_def)
  from Cons.IH [of ?q "k + 1"] Cons.prems obtain b where
    "copy_out bs ?q = Some (?q\<lparr>q_buff := b, q_head := (q_tail ?q + (k + 1 + length bs)) mod q_size ?q\<rparr>)"
    "length b = length (q_buff ?q)" "from_tail (k + 1 + length bs) (?q\<lparr>q_buff := b\<rparr>) = from_tail (k + 1) ?q @ bs" by auto
  then show ?case using step v by (intro exI [of _ b]) (simp add: from_tail_def)
qed

lemma put_bytes_spec:
  assumes ok: "sockq_ok q" and room: "length bs \<le> q_avail q"
  shows "\<exists>q'. put_bytes bs q = Some q' \<and> sockq_ok q' \<and> ring_bytes q' = ring_bytes q @ bs \<and> q_avail q' = q_avail q - length bs
    \<and> q_n q' = q_n q \<and> q_size q' = q_size q"
proof -
  have o: "0 < q_size q" "q_size q < 32768" "q_size q \<le> length (q_buff q)" "q_avail q \<le> q_size q"
    "q_head q = (q_tail q + (q_size q - q_avail q)) mod q_size q" using ok by (simp_all add: sockq_ok_def)
  have "q_size q - q_avail q + length bs \<le> q_size q" using room o by linarith
  from copy_out_spec [OF o(1-3,5) this] obtain b where
    b: "copy_out bs q = Some (q\<lparr>q_buff := b, q_head := (q_tail q + (q_size q - q_avail q + length bs)) mod q_size q\<rparr>)"
    "length b = length (q_buff q)"
    "from_tail (q_size q - q_avail q + length bs) (q\<lparr>q_buff := b\<rparr>) = ring_bytes q @ bs" by (auto simp: ring_bytes_def)
  have a: "nat ((int (q_avail q) - int (length bs)) mod 65536) = q_avail q - length bs"
    using room o by (simp add: of_nat_diff [symmetric] del: of_nat_diff)
  have a2: "nat (int (q_avail q) - int (length bs)) = q_avail q - length bs" by simp
  have k: "q_size q - (q_avail q - length bs) = q_size q - q_avail q + length bs" using room o by linarith
  show ?thesis using b ok room
    by (auto simp: put_bytes_def a a2 sockq_ok_def ring_bytes_def k from_tail_def)
qed

lemma copy_in_spec:
  assumes "0 < q_size q" "q_size q < 32768" "q_size q \<le> length (q_buff q)" "q_tail q < q_size q"
  shows "copy_in n q = Some (from_tail n q, q\<lparr>q_tail := (q_tail q + n) mod q_size q\<rparr>)"
  using assms
proof (induction n arbitrary: q)
  case 0
  then show ?case by (simp add: from_tail_def)
next
  case (Suc n)
  let ?q = "q\<lparr>q_tail := (q_tail q + 1) mod q_size q\<rparr>"
  have "copy_in (Suc n) q = map_option (\<lambda>(bs, q'). (q_buff q ! q_tail q # bs, q')) (copy_in n ?q)"
  proof -
    have ld: "load (q_buff q) (q_tail q) = Some (q_buff q ! q_tail q)" using Suc.prems by (simp add: load_def)
    show ?thesis using next_pos [OF Suc.prems(4,2)] by (simp only: copy_in.simps ld option.case Let_def)
  qed
  moreover have "from_tail (Suc n) q = q_buff q ! q_tail q # from_tail n ?q"
    using from_tail_split [of 1 "Suc n" q] Suc.prems(4) by (simp add: from_tail_def [of "Suc 0"])
  ultimately show ?case using Suc.IH [of ?q] Suc.prems by (simp add: mod_simps)
qed

lemma reduce_tail_once: "0 < sz \<Longrightarrow> t \<le> 2 * sz \<Longrightarrow> reduce_tail sz t = Some (if t > sz then t - sz else t)"
  by (simp add: reduce_tail.simps)

text \<open>
  Reading \<open>len\<close> bytes into a buffer of \<open>buflen\<close> (0: no limit): if it cuts the data, the skipped bytes must not end at the end of the ring.
\<close>

lemma get_bytes_spec:
  assumes ok: "sockq_ok q" and len: "len \<le> q_size q - q_avail q"
    and cut: "buflen = 0 \<or> len \<le> buflen \<or> (q_tail q + len) mod q_size q \<noteq> 0"
  shows "\<exists>q'. get_bytes len buflen q = Some (take (if buflen = 0 then len else buflen) (take len (ring_bytes q)), q')
    \<and> sockq_ok q' \<and> ring_bytes q' = drop len (ring_bytes q) \<and> q_n q' = q_n q \<and> q_size q' = q_size q \<and> q_tail q' = (q_tail q + len) mod q_size q"
proof -
  have o: "0 < q_size q" "q_size q < 32768" "q_size q \<le> length (q_buff q)" "q_tail q < q_size q" "q_avail q \<le> q_size q"
    using ok by (simp_all add: sockq_ok_def)
  define bl where "bl = (if buflen = 0 then len else buflen)"
  let ?t = "(q_tail q + len) mod q_size q" and ?m = "min len bl"
  note c = copy_in_spec [OF o(1-4), of ?m]
  have "wrap_copy_in len buflen q = Some (from_tail ?m q, q\<lparr>q_tail := ?t\<rparr>)"
  proof (cases "len > bl")
    case False
    then show ?thesis using c by (simp add: wrap_copy_in_def bl_def [symmetric] Let_def min_absorb1)
  next
    case True
    let ?u = "(q_tail q + bl) mod q_size q"
    have t0: "?u < q_size q" using o(1) by simp
    have "(?u + (len - bl)) mod q_size q = (q_tail q + bl + (len - bl)) mod q_size q" by (rule mod_add_left_eq)
    then have e: "(?u + (len - bl)) mod q_size q = ?t" using True by simp
    define x where "x = ?u + (len - bl)"
    have x2: "x < 2 * q_size q" using t0 len o(1) unfolding x_def by linarith
    have x: "x mod 65536 = x" using x2 o(2) by simp
    have ne: "x \<noteq> q_size q" using cut True e by (auto simp: bl_def x_def split: if_splits)
    have "x mod q_size q = (if x > q_size q then x - q_size q else x)" using ne x2 by (auto simp: le_mod_geq)
    then have "reduce_tail (q_size q) (x mod 65536) = Some ?t"
      using o(1) e x2 x by (simp add: reduce_tail_once x_def [symmetric])
    then have "reduce_tail (q_size q) ((?u + (len - bl)) mod 65536) = Some ?t" by (simp only: x_def)
    then show ?thesis using c True by (simp add: wrap_copy_in_def bl_def [symmetric] Let_def min_absorb2)
  qed
  moreover have "from_tail ?m q = take bl (take len (ring_bytes q))"
  proof -
    have "take bl (take len (ring_bytes q)) = take ?m (ring_bytes q)" by (simp add: min.commute)
    also have "\<dots> = from_tail ?m q" unfolding ring_bytes_def by (rule take_from_tail) (use len in simp)
    finally show ?thesis by (rule sym)
  qed
  moreover have "from_tail (q_size q - (q_avail q + len)) (q\<lparr>q_tail := ?t\<rparr>) = drop len (ring_bytes q)"
    using from_tail_split [OF len, of q] by (simp add: ring_bytes_def)
  moreover have "(q_avail q + len) mod 65536 = q_avail q + len" using len o by simp
  moreover have "(?t + (q_size q - (q_avail q + len))) mod q_size q = q_head q"
  proof -
    have a: "q_tail q + len + (q_size q - (q_avail q + len)) = q_tail q + (q_size q - q_avail q)" using len o(5) by linarith
    have "(?t + (q_size q - (q_avail q + len))) mod q_size q = (q_tail q + len + (q_size q - (q_avail q + len))) mod q_size q"
      by (rule mod_add_left_eq)
    then show ?thesis using ok unfolding a sockq_ok_def by presburger
  qed
  ultimately show ?thesis using ok len unfolding bl_def
    by (auto simp: get_bytes_def sockq_ok_def ring_bytes_def)
qed

subsection \<open>Object representations\<close>

lemma length_mem_int [simp]: "length (mem_int c n x) = n" by (simp add: mem_int_def)

lemma mem_val_int: "mem_val c (mem_int c n x) = x mod 256 ^ n"
  by (simp add: mem_val_def mem_int_def be_val_bytes)

lemma length_hwts_mem [simp]: "length (hwts_mem c t) = 24" by (simp add: hwts_mem_def)

lemma hwts_roundtrip: "mem_hwts c (hwts_mem c t) = t"
proof -
  have u: "uint (w :: u32) mod 4294967296 = uint w" "uint (v :: u64) mod 18446744073709551616 = uint v" for w v
    using uint_lt2p [of w] uint_lt2p [of v] by simp_all
  show ?thesis
    by (cases t) (simp add: mem_hwts_def hwts_mem_def mem_val_int u)
qed

subsection \<open>The queue of frames\<close>

text \<open>A stored frame: time stamp, header, payload. A ring that holds a list of frames.\<close>

type_synonym frame = "hw_timestamp \<times> u8 list \<times> u8 list"

definition frame_mem :: "net_cfg \<Rightarrow> frame \<Rightarrow> u8 list" where
  "frame_mem c f = (case f of (t, hdr, payload) \<Rightarrow> mem_int c 2 (int (length payload)) @ hwts_mem c t @ hdr @ payload)"

definition frame_ok :: "frame \<Rightarrow> bool" where
  "frame_ok f = (case f of (t, hdr, payload) \<Rightarrow> length hdr = 14 \<and> length payload < 65536)"

definition holds :: "net_cfg \<Rightarrow> frame list \<Rightarrow> sockq \<Rightarrow> bool" where
  "holds c fs q \<longleftrightarrow> sockq_ok q \<and> list_all frame_ok fs \<and> ring_bytes q = concat (map (frame_mem c) fs) \<and> q_n q = length fs"

lemma length_frame_mem: "frame_ok (t, hdr, payload) \<Longrightarrow> length (frame_mem c (t, hdr, payload)) = 40 + length payload"
  by (simp add: frame_mem_def frame_ok_def)

lemma frames_length: "list_all frame_ok fs \<Longrightarrow> 40 * length fs \<le> length (concat (map (frame_mem c) fs))"
  by (induction fs) (auto simp: length_frame_mem)

lemma holds_count:
  assumes "holds c fs q"
  shows "40 * length fs \<le> q_size q - q_avail q"
  using frames_length [of fs c] assms unfolding holds_def ring_bytes_def by (metis length_from_tail)

lemma enqueue_frame_spec:
  assumes h: "holds c fs q" and n: "n \<le> length payload" "n < 65536" and hdr: "length hdr = 14"
  shows "\<exists>q'. enqueue_frame c (int n) t hdr payload q = Some q'
    \<and> (if 40 + n \<le> q_avail q then holds c (fs @ [(t, hdr, take n payload)]) q' else q' = q) \<and> q_size q' = q_size q"
proof (cases "40 + n \<le> q_avail q")
  case False
  then show ?thesis by (simp add: enqueue_frame_def)
next
  case True
  have ok: "sockq_ok q" using h by (simp add: holds_def)
  obtain q1 where q1: "put_bytes (mem_int c 2 (int n)) q = Some q1" "sockq_ok q1" "ring_bytes q1 = ring_bytes q @ mem_int c 2 (int n)"
    "q_avail q1 = q_avail q - 2" "q_n q1 = q_n q" "q_size q1 = q_size q" using put_bytes_spec [OF ok, of "mem_int c 2 (int n)"] True by auto
  have r1: "length (hwts_mem c t) \<le> q_avail q1" using True q1(4) by simp
  obtain q2 where q2: "put_bytes (hwts_mem c t) q1 = Some q2" "sockq_ok q2" "ring_bytes q2 = ring_bytes q1 @ hwts_mem c t"
    "q_avail q2 = q_avail q1 - 24" "q_n q2 = q_n q" "q_size q2 = q_size q" using put_bytes_spec [OF q1(2) r1] q1(5,6) by auto
  have r2: "length hdr \<le> q_avail q2" using True q1(4) q2(4) hdr by simp
  obtain q3 where q3: "put_bytes hdr q2 = Some q3" "sockq_ok q3" "ring_bytes q3 = ring_bytes q2 @ hdr"
    "q_avail q3 = q_avail q2 - 14" "q_n q3 = q_n q" "q_size q3 = q_size q" using put_bytes_spec [OF q2(2) r2] q2(5,6) hdr by auto
  have r3: "length (take n payload) \<le> q_avail q3" using True q1(4) q2(4) q3(4) n by simp
  obtain q4 where q4: "put_bytes (take n payload) q3 = Some q4" "sockq_ok q4" "ring_bytes q4 = ring_bytes q3 @ take n payload"
    "q_n q4 = q_n q" "q_size q4 = q_size q" using put_bytes_spec [OF q3(2) r3] q3(5,6) by auto
  have "40 * length fs \<le> q_size q - q_avail q" by (rule holds_count [OF h])
  then have m: "(q_n q + 1) mod 65536 = q_n q + 1" using h by (auto simp: holds_def sockq_ok_def)
  let ?q = "q4\<lparr>q_n := q_n q + 1\<rparr>"
  have "enqueue_frame c (int n) t hdr payload q = Some ?q"
    using True n by (simp add: enqueue_frame_def q1(1) q2(1) q3(1) load_bytes_def q4(1,4) m [simplified])
  moreover have "holds c (fs @ [(t, hdr, take n payload)]) ?q"
    using h q1 q2 q3 q4 n hdr by (simp add: holds_def frame_ok_def frame_mem_def sockq_ok_def ring_bytes_def from_tail_def)
  ultimately show ?thesis using True q4(5) by simp
qed

lemma recv_frame_spec:
  assumes h: "holds c ((t, hdr, payload) # fs) q" and dl: "0 < dl"
    and cut: "length payload \<le> dl \<or> (q_tail q + (40 + length payload)) mod q_size q \<noteq> 0"
  shows "\<exists>q'. recv_frame c vlan from dl q = Some (\<lparr>r_ret = int (min (length payload) dl), r_data = take dl payload,
      r_from = from\<lparr>sa_mac := take 6 (drop 6 hdr), sa_mac_dest := take 6 hdr, sa_ethertype := be16_val hdr 12, sa_vlan := vlan\<rparr>,
      r_hwts = t\<rparr>, q') \<and> holds c fs q' \<and> q_size q' = q_size q"
proof -
  define R where "R = concat (map (frame_mem c) fs)"
  let ?q = "q\<lparr>q_n := q_n q - 1\<rparr>" and ?n = "length payload"
  have ok: "sockq_ok ?q" and f: "length hdr = 14" "?n < 65536" "list_all frame_ok fs" "q_n ?q = length fs"
    and r: "ring_bytes ?q = mem_int c 2 (int ?n) @ hwts_mem c t @ hdr @ payload @ R"
    using h by (auto simp: holds_def sockq_ok_def frame_ok_def frame_mem_def ring_bytes_def R_def)
  have l: "length (ring_bytes x) = q_size x - q_avail x" for x by (simp add: ring_bytes_def)
  have "2 \<le> q_size ?q - q_avail ?q" unfolding l [symmetric] r by simp
  from get_bytes_spec [OF ok this, of 0] obtain q1 where q1: "get_bytes 2 0 ?q = Some (mem_int c 2 (int ?n), q1)" "sockq_ok q1"
    "ring_bytes q1 = hwts_mem c t @ hdr @ payload @ R" "q_n q1 = length fs"
    "q_size q1 = q_size q" "q_tail q1 = (q_tail q + 2) mod q_size q" using f(4) r by auto
  have "24 \<le> q_size q1 - q_avail q1" unfolding l [symmetric] q1(3) by simp
  from get_bytes_spec [OF q1(2) this, of 0] obtain q2 where q2: "get_bytes 24 0 q1 = Some (hwts_mem c t, q2)" "sockq_ok q2"
    "ring_bytes q2 = hdr @ payload @ R" "q_n q2 = length fs" "q_size q2 = q_size q"
    "q_tail q2 = (q_tail q + 26) mod q_size q" using q1(3-) by (auto simp: mod_simps ac_simps)
  have "14 \<le> q_size q2 - q_avail q2" unfolding l [symmetric] q2(3) using f by simp
  from get_bytes_spec [OF q2(2) this, of 0] obtain q3 where q3: "get_bytes 14 0 q2 = Some (hdr, q3)" "sockq_ok q3"
    "ring_bytes q3 = payload @ R" "q_n q3 = length fs" "q_size q3 = q_size q"
    "q_tail q3 = (q_tail q + 40) mod q_size q" using q2(3-) f by (auto simp: mod_simps ac_simps)
  have n3: "?n \<le> q_size q3 - q_avail q3" unfolding l [symmetric] q3(3) by simp
  have cut3: "dl = 0 \<or> ?n \<le> dl \<or> (q_tail q3 + ?n) mod q_size q3 \<noteq> 0"
    using cut q3(5,6) by (simp add: mod_simps ac_simps)
  from get_bytes_spec [OF q3(2) n3 cut3] obtain q4 where q4: "get_bytes ?n dl q3 = Some (take dl payload, q4)" "sockq_ok q4"
    "ring_bytes q4 = R" "q_n q4 = length fs" "q_size q4 = q_size q" using q3(3-5) dl by auto
  have v: "nat (mem_val c (mem_int c 2 (int ?n))) = ?n" using f(2) by (simp add: mem_val_int)
  have "holds c fs q4" using q4 f(3) by (simp add: holds_def R_def)
  moreover have "recv_frame c vlan from dl q = Some (\<lparr>r_ret = int (min ?n dl), r_data = take dl payload,
      r_from = from\<lparr>sa_mac := take 6 (drop 6 hdr), sa_mac_dest := take 6 hdr, sa_ethertype := be16_val hdr 12, sa_vlan := vlan\<rparr>,
      r_hwts = t\<rparr>, q4)"
    by (simp add: recv_frame_def q1(1) [simplified] q2(1) q3(1) q4(1) v hwts_roundtrip)
  ultimately show ?thesis using q4(5) by blast
qed

lemma fold_last_match: "fold (\<lambda>e found. if P e then Some (f e) else found) xs acc
    = (case filter P xs of [] \<Rightarrow> acc | ys \<Rightarrow> Some (f (last ys)))"
proof (induction xs rule: rev_induct)
  case (snoc x xs)
  then show ?case by (cases "filter P xs") auto
qed simp

text \<open>The sockets that listen for a frame of a type and port on an interface, in the order of the table.\<close>

definition listens :: "net \<Rightarrow> nat \<Rightarrow> u16 \<Rightarrow> u16 \<Rightarrow> nat option \<Rightarrow> bool" where
  "listens s nif ethtype port e = (case e of
     None \<Rightarrow> False
   | Some p \<Rightarrow> s_nif (n_sock s p) = nif \<and> sa_ethertype (s_bind_addr (n_sock s p)) = ethtype \<and> sa_udpport (s_bind_addr (n_sock s p)) = port)"

lemma matching_last:
  "matching s nif ethtype (\<lambda>k. b \<and> sa_udpport (s_bind_addr k) = port)
   = (case filter (\<lambda>e. b \<and> listens s nif ethtype port e) (n_socks s) of [] \<Rightarrow> None | ys \<Rightarrow> last ys)"
proof -
  let ?P = "\<lambda>e. b \<and> listens s nif ethtype port e"
  have "matching s nif ethtype (\<lambda>k. b \<and> sa_udpport (s_bind_addr k) = port) = fold (\<lambda>e found. if ?P e then Some (the e) else found) (n_socks s) None"
    unfolding matching_def
    by (intro arg_cong [of _ _ "\<lambda>f. fold f (n_socks s) None"] ext) (auto simp: listens_def split: option.splits)
  also have "\<dots> = (case filter ?P (n_socks s) of [] \<Rightarrow> None | ys \<Rightarrow> last ys)"
  proof (cases "filter ?P (n_socks s)")
    case (Cons y ys)
    have "last (filter ?P (n_socks s)) \<in> set (filter ?P (n_socks s))" by (rule last_in_set) (simp add: Cons)
    then have "?P (last (filter ?P (n_socks s)))" unfolding set_filter by blast
    then show ?thesis using Cons unfolding fold_last_match by (auto simp: listens_def split: option.splits)
  qed (simp add: fold_last_match)
  finally show ?thesis .
qed

lemma dispatch_last:
  "dispatch_socket s nif ethtype port = (case filter (listens s nif ethtype port) (n_socks s) of [] \<Rightarrow> None | ys \<Rightarrow> last ys)"
proof (cases "port = 0")
  case True
  then show ?thesis
    using matching_last [of s nif ethtype True 0] matching_last [of s nif ethtype False 0] by (simp add: dispatch_socket_def)
next
  case False
  then show ?thesis
    using matching_last [of s nif ethtype True port] matching_last [of s nif ethtype False port] by (auto simp: dispatch_socket_def split: option.splits)
qed

text \<open>
  The operations on one socket as an abstract queue: a frame is appended if its bytes and 40 bytes of header, time stamp and
  size fit beside the frames that wait; a fetch removes the oldest.
\<close>

datatype sock_op = Arrive hw_timestamp "u8 list" "u8 list" | Fetch

definition used_bytes :: "frame list \<Rightarrow> nat" where
  "used_bytes fs = sum_list (map (\<lambda>(t, hdr, payload). 40 + length payload) fs)"

fun queue_run :: "nat \<Rightarrow> sock_op list \<Rightarrow> frame list \<Rightarrow> frame option list" where
  "queue_run sz [] fs = []"
| "queue_run sz (Arrive t hdr payload # ops) fs =
     queue_run sz ops (if used_bytes fs + 40 + length payload \<le> sz then fs @ [(t, hdr, payload)] else fs)"
| "queue_run sz (Fetch # ops) [] = None # queue_run sz ops []"
| "queue_run sz (Fetch # ops) (f # fs) = Some f # queue_run sz ops fs"

text \<open>The same operations of the code, and what a reader sees of a frame.\<close>

fun socket_run :: "net_cfg \<Rightarrow> nat \<Rightarrow> wr_sockaddr \<Rightarrow> nat \<Rightarrow> sock_op list \<Rightarrow> net \<Rightarrow> received option list option" where
  "socket_run c p from dl [] s = Some []"
| "socket_run c p from dl (Arrive t hdr payload # ops) s =
     Option.bind (deliver c p (int (length payload)) t hdr payload s) (socket_run c p from dl ops)"
| "socket_run c p from dl (Fetch # ops) s =
     Option.bind (ptpd_netif_recvfrom c p from dl None s)
       (\<lambda>(r, s). map_option ((#) (map_option fst r)) (socket_run c p from dl ops s))"

definition seen :: "wr_sockaddr \<Rightarrow> u16 \<Rightarrow> frame \<Rightarrow> received" where
  "seen from vlan f = (case f of (t, hdr, payload) \<Rightarrow>
     \<lparr>r_ret = int (length payload), r_data = payload,
      r_from = from\<lparr>sa_mac := take 6 (drop 6 hdr), sa_mac_dest := take 6 hdr, sa_ethertype := be16_val hdr 12, sa_vlan := vlan\<rparr>, r_hwts = t\<rparr>)"

definition sock_op_ok :: "nat \<Rightarrow> sock_op \<Rightarrow> bool" where
  "sock_op_ok dl ev = (case ev of Arrive t hdr payload \<Rightarrow> length hdr = 14 \<and> length payload \<le> dl \<and> length payload < 65536 | Fetch \<Rightarrow> True)"

lemma used_bytes_concat: "list_all frame_ok fs \<Longrightarrow> length (concat (map (frame_mem c) fs)) = used_bytes fs"
  by (induction fs) (auto simp: used_bytes_def length_frame_mem)

lemma holds_used: "holds c fs q \<Longrightarrow> used_bytes fs = q_size q - q_avail q"
  using used_bytes_concat [of fs c] unfolding holds_def ring_bytes_def by (metis length_from_tail)

lemma holds_avail: "holds c fs q \<Longrightarrow> used_bytes fs + q_avail q = q_size q"
  using holds_used [of c fs q] unfolding holds_def sockq_ok_def by linarith

lemma socket_run_refines:
  assumes "holds c fs (s_queue (n_sock s p))" "list_all (sock_op_ok dl) ops" "0 < dl" "list_all (\<lambda>(t, hdr, payload). length payload \<le> dl) fs"
  shows "socket_run c p from dl ops s = Some (map (map_option (seen from (n_vlan s))) (queue_run (q_size (s_queue (n_sock s p))) ops fs))"
  using assms
proof (induction ops arbitrary: s fs)
  case (Cons ev ops)
  let ?q = "s_queue (n_sock s p)"
  have step: "holds c fs' q' \<Longrightarrow> q_size q' = q_size ?q \<Longrightarrow> list_all (\<lambda>(t, hdr, payload). length payload \<le> dl) fs' \<Longrightarrow>
      socket_run c p from dl ops (s\<lparr>n_sock := (n_sock s)(p := (n_sock s p)\<lparr>s_queue := q'\<rparr>)\<rparr>)
      = Some (map (map_option (seen from (n_vlan s))) (queue_run (q_size ?q) ops fs'))" for fs' q'
    using Cons.IH [of fs' "s\<lparr>n_sock := (n_sock s)(p := (n_sock s p)\<lparr>s_queue := q'\<rparr>)\<rparr>"] Cons.prems(2,3) by simp
  show ?case
  proof (cases ev)
    case (Arrive t hdr payload)
    note pr = Cons.prems [unfolded Arrive list.pred_inject sock_op_ok_def sock_op.case]
    from enqueue_frame_spec [OF pr(1), of "length payload" payload hdr t, unfolded take_all [OF order_refl]] pr(2) obtain q' where
      q': "enqueue_frame c (int (length payload)) t hdr payload ?q = Some q'" "q_size q' = q_size ?q"
      "if 40 + length payload \<le> q_avail ?q then holds c (fs @ [(t, hdr, payload)]) q' else q' = ?q" by auto
    have "40 + length payload \<le> q_avail ?q \<longleftrightarrow> used_bytes fs + 40 + length payload \<le> q_size ?q"
      using holds_avail [OF pr(1)] by linarith
    then show ?thesis using step [of "fs @ [(t, hdr, payload)]" q'] step [of fs q'] q' pr
      by (auto simp: Arrive deliver_def)
  next
    case Fetch
    show ?thesis
    proof (cases fs)
      case Nil
      then show ?thesis using step [of "[]" ?q] Cons.prems(1) by (simp add: Fetch ptpd_netif_recvfrom_def holds_def)
    next
      case (Cons f gs)
      obtain t hdr payload where f: "f = (t, hdr, payload)" by (cases f)
      have h: "holds c ((t, hdr, payload) # gs) ?q" and l: "length payload \<le> dl" using Cons.prems(1,4) Cons f by auto
      from recv_frame_spec [OF h Cons.prems(3)] l obtain q' where
        "recv_frame c (n_vlan s) from dl ?q = Some (seen from (n_vlan s) f, q')" "holds c gs q'" "q_size q' = q_size ?q"
        by (auto simp: seen_def f min_absorb1)
      then show ?thesis using step [of gs q'] h Cons.prems(4) Cons
        by (simp add: Fetch ptpd_netif_recvfrom_def holds_def)
    qed
  qed
qed simp

subsection \<open>Linearisation\<close>

text \<open>The arrival time a time stamp stands for, in picoseconds.\<close>

definition ts_time :: "wr_timestamp \<Rightarrow> int" where
  "ts_time ts = ts_sec ts * 1000000000000 + ts_nsec ts * 1000 + ts_phase ts"

text \<open>The counter value chosen for a phase \<open>f\<close> after the rising transition.\<close>

definition picked_nsec :: "int \<Rightarrow> bool \<Rightarrow> int \<Rightarrow> int \<Rightarrow> int" where
  "picked_nsec T ahead f nsec =
     (if f < T div 4 then (if ahead then nsec else nsec + T div 1000)
      else if f > 3 * T div 4 then (if ahead then nsec - T div 1000 else nsec) else nsec)"

text \<open>
  The two hardware counters for an arrival at \<open>x\<close>: the rising one counts whole periods, the falling one does half a period
  later, and each is right when the arrival is at least a quarter of a period away from its own transition. The time
  stamp holds the rising count, and \<open>ahead\<close> says that it is one more than the falling one.
\<close>

definition counters_ok :: "int \<Rightarrow> int \<Rightarrow> bool \<Rightarrow> wr_timestamp \<Rightarrow> bool" where
  "counters_ok T x ahead ts =
     (let rising = ts_sec ts * 1000000000000 + ts_nsec ts * 1000;
          falling = (if ahead then rising - T else rising)
      in if T div 4 \<le> x mod T \<and> x mod T \<le> 3 * T div 4 then rising = x div T * T else falling = (x - T div 2) div T * T)"

lemma wrapped_sum: "0 \<le> a \<Longrightarrow> a < T \<Longrightarrow> 0 \<le> b \<Longrightarrow> b < T \<Longrightarrow> (a + b) mod T = (if a + b < T then a + b else a + b - (T :: int))"
  using mod_pos_pos_trivial [of "a + b - T" T] by (cases "a + b < T") simp_all

lemma rising_phase:
  assumes "0 < T" "T \<le> 100000000" "0 \<le> tp" "tp < T" "0 \<le> f" "f < T"
  shows "rising_phase ((f + tp) mod T) tp T = f"
  using assms by (auto simp: rising_phase_def wrapped_sum Let_def fits32_def)

lemma falling_phase:
  assumes "0 < T" "T \<le> 100000000" "0 \<le> tp" "tp < T" "0 \<le> f" "f < T"
  shows "falling_phase ((f + tp) mod T) tp T = (if f + T div 2 < T then f + T div 2 else f + T div 2 - T)"
  using assms by (cases "f + tp < T") (auto simp: falling_phase_def wrapped_sum Let_def fits32_def)

lemma pick_edge:
  assumes "T = 4 * k" "0 < k" "k \<le> 25000000" "0 \<le> f" "f < T" "0 \<le> nsec" "nsec < 1000000000"
  shows "pick_edge T nsec (if ahead then i32 (nsec - T div 1000) else nsec) f (if f + T div 2 < T then f + T div 2 else f + T div 2 - T)
    = (picked_nsec T ahead f nsec, f)"
proof -
  have h: "T div 2 = 2 * k" "T div 4 = k" "i32 (3 * T) div 4 = 3 * k" "3 * T div 4 = 3 * k" using assms by (simp_all add: fits32_def)
  define d where "d = T div 1000"
  have d: "0 \<le> d" "d \<le> 100000" unfolding d_def using assms by simp_all
  show ?thesis using assms d unfolding pick_edge_def picked_nsec_def h d_def [symmetric] Let_def
    by (auto simp: fits32_def)
qed

lemma linearize_shape:
  assumes T: "0 < T" "T \<le> 100000000" "4 dvd T" and tp: "0 \<le> tp" "tp < T" and f: "0 \<le> f" "f < T"
    and ns: "0 \<le> ts_nsec ts" "ts_nsec ts < 1000000000"
  shows "ptpd_netif_linearize_rx_timestamp ((f + tp) mod T) ahead tp T ts =
     (let ns = picked_nsec T ahead f (ts_nsec ts)
      in if ns \<ge> 1000000000 then ts\<lparr>ts_raw_phase := (f + tp) mod T, ts_phase := f, ts_nsec := ns - 1000000000, ts_sec := i64 (ts_sec ts + 1)\<rparr>
         else ts\<lparr>ts_raw_phase := (f + tp) mod T, ts_phase := f, ts_nsec := ns\<rparr>)"
proof -
  obtain k where k: "T = 4 * k" using T(3) by (rule dvdE)
  have "0 < k" "k \<le> 25000000" using T(1,2) k by simp_all
  note pe = pick_edge [OF k this f ns]
  have "picked_nsec T ahead f (ts_nsec ts) < 1100000000" using ns T by (auto simp: picked_nsec_def)
  then show ?thesis unfolding ptpd_netif_linearize_rx_timestamp_def rising_phase [OF T(1,2) tp f] falling_phase [OF T(1,2) tp f] Let_def pe prod.case
    by (auto simp: fits32_def)
qed

lemma half_period_later:
  assumes "T = 4 * k" "0 < (k :: int)"
  shows "x mod T < k \<Longrightarrow> (x - T div 2) div T * T = x - x mod T - T" "x mod T > 3 * k \<Longrightarrow> (x - T div 2) div T * T = x - x mod T"
proof -
  define y where "y = x div T"
  have e: "x = T * y + x mod T" by (simp add: y_def)
  have b: "0 \<le> x mod T" "x mod T < T" using assms by simp_all
  have h: "T div 2 = 2 * k" using assms by simp
  show "(x - T div 2) div T * T = x - x mod T - T" if l: "x mod T < k"
  proof -
    have "x - T div 2 = T * (y - 1) + (x mod T + 2 * k)" unfolding right_diff_distrib using e h assms by linarith
    moreover have "0 \<le> x mod T + 2 * k" "x mod T + 2 * k < T" using b l assms by linarith+
    ultimately have "(x - T div 2) div T = y - 1" by (rule int_div_pos_eq)
    then have "(x - T div 2) div T * T = T * y - T" by (simp add: left_diff_distrib)
    then show ?thesis using e by linarith
  qed
  show "(x - T div 2) div T * T = x - x mod T" if l: "x mod T > 3 * k"
  proof -
    have "x - T div 2 = T * y + (x mod T - 2 * k)" using e h assms by linarith
    moreover have "0 \<le> x mod T - 2 * k" "x mod T - 2 * k < T" using b l assms by linarith+
    ultimately have "(x - T div 2) div T = y" by (rule int_div_pos_eq)
    then have "(x - T div 2) div T * T = T * y" by (simp only: mult.commute)
    then show ?thesis using e by linarith
  qed
qed

lemma linearize_time:
  assumes T: "0 < T" "T \<le> 100000000" "4 dvd T" "1000 dvd T" and tp: "0 \<le> tp" "tp < T"
    and ns: "0 \<le> ts_nsec ts" "ts_nsec ts < 1000000000" and sec: "0 \<le> ts_sec ts" "ts_sec ts < 4611686018427387904"
    and c: "counters_ok T x ahead ts"
    and r: "r = ptpd_netif_linearize_rx_timestamp ((x + tp) mod T) ahead tp T ts"
  shows "ts_time r = x \<and> ts_phase r = x mod T \<and> ts_nsec r < 1000000000"
proof -
  have f: "0 \<le> x mod T" "x mod T < T" using T(1) by simp_all
  obtain k where k: "T = 4 * k" using T(3) by (rule dvdE)
  have kb: "0 < k" using T(1) k by simp
  obtain m where m: "T = 1000 * m" using T(4) by (rule dvdE)
  have "(x + tp) mod T = (x mod T + tp) mod T" by (simp add: mod_simps)
  note r = r [unfolded this linearize_shape [OF T(1-3) tp f ns]]
  have e: "x = x div T * T + x mod T" by (simp add: div_mult_mod_eq)
  have "ts_sec ts * 1000000000000 + picked_nsec T ahead (x mod T) (ts_nsec ts) * 1000 = x - x mod T"
    using c half_period_later [OF k kb, of x] e k m kb unfolding counters_ok_def picked_nsec_def Let_def
    by (auto simp: algebra_simps split: if_splits)
  moreover have "i64 (ts_sec ts + 1) = ts_sec ts + 1" using sec by (simp add: fits64_def)
  moreover have "picked_nsec T ahead (x mod T) (ts_nsec ts) < 2000000000" using ns T by (auto simp: picked_nsec_def)
  ultimately show ?thesis unfolding r by (simp add: Let_def ts_time_def algebra_simps)
qed

subsection \<open>Polling\<close>

text \<open>A received frame without its VLAN tag: identifier, header, payload and number of bytes.\<close>

definition untag :: "u8 list \<Rightarrow> u8 list \<Rightarrow> nat \<Rightarrow> u16 \<times> u8 list \<times> u8 list \<times> nat" where
  "untag hdr buffer n =
     (if be16_val hdr 12 = 0x8100 then (be16_val buffer 0 AND 0xfff, take 12 hdr @ take 2 (drop 2 buffer), drop 4 buffer, n - 4)
      else (0, hdr, buffer, n))"

lemma netif_poll_spec:
  assumes d: "load (n_netifs s) nif = Some d"
    and rx: "minic_rx_frame (ref_freq c) (ref_period c) (n_hdr s) (n_buffer s) ts0 (nd_hw d) = Some ((int n, hdr, buffer, t), hw)"
    and n: "0 < n" "n \<le> length buffer" "n < 65536" "length hdr = 14" "be16_val hdr 12 = 0x8100 \<Longrightarrow> 4 \<le> n"
    and u: "untag hdr buffer n = (vlan, h, payload, m)"
    and ls: "ls = filter (listens s nif (be16_val h 12) (udp_port payload)) (n_socks s)"
    and q: "ls \<noteq> [] \<Longrightarrow> holds c fs (s_queue (n_sock s (the (last ls))))"
  shows "\<exists>s'. netif_poll c ts0 nif s = Some (vlan = n_vlan s, s') \<and> n_vlan s' = n_vlan s
    \<and> (if vlan \<noteq> n_vlan s \<or> ls = [] then n_sock s' = n_sock s
       else \<exists>q'. n_sock s' = (n_sock s)(the (last ls) := (n_sock s (the (last ls)))\<lparr>s_queue := q'\<rparr>)
         \<and> (if 40 + m \<le> q_avail (s_queue (n_sock s (the (last ls)))) then holds c (fs @ [(t, h, take m payload)]) q'
            else q' = s_queue (n_sock s (the (last ls)))))"
proof -
  let ?d = "(n_netifs s)[nif := d\<lparr>nd_hw := hw\<rparr>]" and ?p = "the (last ls)"
  define s1 where "s1 = s\<lparr>n_netifs := ?d, n_buffer := buffer, n_hdr := h\<rparr>"
  have h: "length h = 14" "m \<le> length payload" "m < 65536" "(if be16_val hdr 12 = 0x8100 then int n - 4 else int n) = int m"
    using u n by (auto simp: untag_def of_nat_diff split: if_splits)
  have step: "netif_poll c ts0 nif s = (if vlan \<noteq> n_vlan s1 then Some (False, s1)
     else case dispatch_socket s1 nif (be16_val h 12) (udp_port payload) of None \<Rightarrow> Some (True, s1)
       | Some p \<Rightarrow> map_option (Pair True) (deliver c p (int m) t h payload s1))"
    unfolding s1_def using n(1,5) u h(4) by (auto simp: netif_poll_def d rx untag_def Let_def of_nat_diff split: if_splits cong: option.case_cong)
  have sl: "dispatch_socket s1 nif (be16_val h 12) (udp_port payload) = (case ls of [] \<Rightarrow> None | ys \<Rightarrow> last ys)"
    unfolding dispatch_last ls by (simp add: s1_def listens_def [abs_def])
  show ?thesis
  proof (cases "vlan \<noteq> n_vlan s \<or> ls = []")
    case True
    then show ?thesis using step sl by (auto simp: s1_def)
  next
    case False
    then have "last ls \<in> set ls" by simp
    then have "listens s nif (be16_val h 12) (udp_port payload) (last ls)" unfolding ls set_filter by blast
    then have lp: "last ls = Some ?p" by (auto simp: listens_def split: option.splits)
    have hq: "holds c fs (s_queue (n_sock s ?p))" using q False by simp
    from enqueue_frame_spec [OF hq h(2,3,1)] obtain q' where
      q': "enqueue_frame c (int m) t h payload (s_queue (n_sock s ?p)) = Some q'"
      "if 40 + m \<le> q_avail (s_queue (n_sock s ?p)) then holds c (fs @ [(t, h, take m payload)]) q' else q' = s_queue (n_sock s ?p)"
      by blast
    have "netif_poll c ts0 nif s = Some (True, s1\<lparr>n_sock := (n_sock s)(?p := (n_sock s ?p)\<lparr>s_queue := q'\<rparr>)\<rparr>)"
    proof -
      have "(case ls of [] \<Rightarrow> None | ys \<Rightarrow> last ys) = Some ?p" using lp False by (cases ls) simp_all
      then show ?thesis unfolding step sl using False q'(1) by (simp add: deliver_def s1_def)
    qed
    then show ?thesis using False q'(2) by (auto simp: s1_def)
  qed
qed

subsection \<open>From a sender to a receiver\<close>

lemma be_val_be16 [simp]: "be_val (be16 d) = uint d"
proof -
  have "uint d < 65536" using uint_lt2p [of d] by simp
  then have "uint d div 256 mod 256 = uint d div 256" by (intro mod_pos_pos_trivial) (simp_all add: pos_imp_zdiv_nonneg_iff)
  then have "uint d div 256 mod 256 * 256 + uint d mod 256 = uint d" by (simp only: div_mult_mod_eq)
  moreover have "uint (ucast (drop_bit 8 d) :: u8) = uint d div 256 mod 256"
    by (simp add: unsigned_ucast_eq unsigned_drop_bit_eq take_bit_eq_mod drop_bit_eq_div uint_div)
  moreover have "uint (ucast d :: u8) = uint d mod 256" by (simp add: unsigned_ucast_eq take_bit_eq_mod)
  ultimately show ?thesis by (simp add: be16_def be_val_def)
qed

lemma be16_val_be16 [simp]:
  "be16_val (be16 d @ xs) 0 = d" "length us + length vs = 12 \<Longrightarrow> be16_val (us @ vs @ be16 d) 12 = d"
  by (simp_all add: be16_val_def)

lemma be16_inj [simp]: "be16 a = be16 b \<longleftrightarrow> a = b"
  using be16_val_be16(1) [of a "[]"] be16_val_be16(1) [of b "[]"] by metis

lemma udp_port_prefix:
  assumes "take m bs = take m cs" "24 \<le> m" "m \<le> length bs" "m \<le> length cs"
  shows "udp_port bs = udp_port cs"
proof -
  have n: "bs ! i = cs ! i" if "i < 24" for i using assms that by (metis less_le_trans nth_take)
  have "take 2 (drop 22 bs) = take 2 (drop 22 cs)" 
    using assms by (intro nth_equalityI) (auto intro!: n)
  then show ?thesis using n by (simp add: udp_port_def be16_val_def IP_VERSION_def IP_PROTOCOL_def UDP_DPORT_def)
qed

lemma vlan_tag:
  assumes "vlan < (4096 :: u16)"
  shows "(vlan OR push_bit 13 prio) AND 0xfff = vlan"
proof -
  have "take_bit 12 vlan = vlan" using assms by (simp add: take_bit_eq_mod word_uint_eq_iff uint_mod word_less_def)
  then have "bit vlan i \<Longrightarrow> i < 12" for i by (metis bit_take_bit_iff)
  moreover have "(0xfff :: u16) = mask 12" by (simp add: mask_eq_exp_minus_1)
  ultimately show ?thesis unfolding \<open>0xfff = mask 12\<close> by (intro bit_word_eqI) (auto simp: bit_simps)
qed

text \<open>An interface that has the words \<open>ws\<close> in its receive FIFO, and a socket that waits, empty, for frames of a type and port.\<close>

definition rx_pending :: "nat \<Rightarrow> u32 list \<Rightarrow> net \<Rightarrow> bool" where
  "rx_pending nif ws s = (case load (n_netifs s) nif of
     None \<Rightarrow> False
   | Some d \<Rightarrow> ver_supported (nd_hw d) \<and> mcr (nd_hw d) (mcr_reads (nd_hw d)) AND MINIC_MCR_RX_EMPTY = 0 \<and> rx_fifo (nd_hw d) = ws \<and> length (n_hdr s) = 14)"

definition waits_for :: "net_cfg \<Rightarrow> nat \<Rightarrow> u16 \<Rightarrow> u16 \<Rightarrow> nat \<Rightarrow> net \<Rightarrow> bool" where
  "waits_for c nif ethtype port p s = (case filter (listens s nif ethtype port) (n_socks s) of
     [] \<Rightarrow> False
   | ls \<Rightarrow> last ls = Some p \<and> holds c [] (s_queue (n_sock s p)))"

lemma tx_header_size:
  assumes "length mac = 6" "length (sa_mac to) = 6" "length junk = 4" "sa_ethertype (s_bind_addr k) \<noteq> 0x8100"
  shows "length (tx_header mac vlan to k junk) = 18" "hdr_size (tx_header mac vlan to k junk) = (if vlan = 0 then 14 else 18)"
proof -
  have e: "[0x81, 0] = be16 0x8100" by (simp add: be16_def)
  show "length (tx_header mac vlan to k junk) = 18" "hdr_size (tx_header mac vlan to k junk) = (if vlan = 0 then 14 else 18)"
    using assms unfolding hdr_size_def e by (simp_all add: tx_header_def)
qed

lemma untag_sent:
  assumes l: "length mac = 6" "length (sa_mac to) = 6" "length junk = 4" and et: "et = sa_ethertype (s_bind_addr k)" "et \<noteq> 0x8100" and v: "vlan < 4096"
    and b: "take (hs - 14 + m) buf = drop 14 (take hs H) @ take m data" "hs - 14 + m \<le> length buf" and H: "H = tx_header mac vlan to k junk" and hs: "hs = hdr_size H"
    and m: "m \<le> length data"
  shows "\<exists>pl. untag (take 14 H) buf (hs - 14 + m) = (vlan, sa_mac to @ mac @ be16 et, pl, m) \<and> take m pl = take m data \<and> m \<le> length pl"
proof (cases "vlan = 0")
  case True
  then have "hs = 14" using tx_header_size [OF l] et H hs by simp
  moreover have "take 14 H = sa_mac to @ mac @ be16 et" using True H et l by (simp add: tx_header_def)
  ultimately show ?thesis using b et l True by (simp add: untag_def)
next
  case False
  then have h: "hs = 18" using tx_header_size [OF l] et H hs by simp
  have t: "take 14 H = sa_mac to @ mac @ be16 0x8100" "drop 14 (take 18 H) = be16 (vlan OR push_bit 13 (s_prio k)) @ be16 et" "take 12 H = sa_mac to @ mac"
    using False H et l by (simp_all add: tx_header_def)
  have "take (4 + m) buf = take 4 buf @ take m (drop 4 buf)" by (rule take_add)
  with b(1) h t(2) have "take 4 buf @ take m (drop 4 buf) = (be16 (vlan OR push_bit 13 (s_prio k)) @ be16 et) @ take m data" by simp
  moreover have "length (take 4 buf) = length (be16 (vlan OR push_bit 13 (s_prio k)) @ be16 et)" using b(2) h by simp
  ultimately have u: "take 4 buf = be16 (vlan OR push_bit 13 (s_prio k)) @ be16 et" "take m (drop 4 buf) = take m data"
    using append_eq_append_conv by blast+
  have "be16_val buf 0 = be16_val (take 4 buf) 0" by (simp add: be16_val_def min_absorb1)
  then have "be16_val buf 0 AND 0xfff = vlan" unfolding u using vlan_tag [OF v] by simp
  moreover have "take 2 (drop 2 buf) = drop 2 (take 4 buf)" by (simp add: drop_take)
  ultimately show ?thesis using u b(2) h l t by (simp add: untag_def)
qed

lemma poll_and_fetch:
  assumes H: "H = tx_header mac (n_vlan B) to k junk" "length mac = 6" "length (sa_mac to) = 6" "length junk = 4" "n_vlan B < 4096"
    and et: "et = sa_ethertype (s_bind_addr k)" "et \<noteq> 0x8100"
    and m: "m = padded n (hdr_size H)" "m + m mod 2 \<le> length data" "m < 65000" "hdr_size H + m + m mod 2 \<le> 14 + length (n_buffer B)" "m \<le> dl"
    and B: "rx_pending nif (frame_words H data m @ map (fifo_word WRF_OOB) [o0, o1, o2] @ rest) B" "frame_end rest"
      "waits_for c nif et (udp_port data) p B" "40 + m \<le> q_avail (s_queue (n_sock B p))"
  shows "\<exists>B1 B2 r. netif_poll c ts0 nif B = Some (True, B1) \<and> ptpd_netif_recvfrom c p from dl None B1 = Some (Some (r, None), B2)
     \<and> r_ret r = int m \<and> r_data r = take m data
     \<and> r_from r = from\<lparr>sa_mac := mac, sa_mac_dest := sa_mac to, sa_ethertype := et, sa_vlan := n_vlan B\<rparr>"
proof -
  let ?hs = "hdr_size H" and ?h = "sa_mac to @ mac @ be16 et"
  have hl: "length H = 18" "?hs = 14 \<or> ?hs = 18" using tx_header_size [OF H(2-4), of k] H(1) et by simp_all
  have m24: "24 \<le> m" using hl(2) m(1) by (auto simp: padded_def)
  obtain d where d: "load (n_netifs B) nif = Some d" "ver_supported (nd_hw d)" "mcr (nd_hw d) (mcr_reads (nd_hw d)) AND MINIC_MCR_RX_EMPTY = 0"
    "rx_fifo (nd_hw d) = frame_words H data m @ map (fifo_word WRF_OOB) [o0, o1, o2] @ rest" "length (n_hdr B) = 14"
    using B(1) by (auto simp: rx_pending_def split: option.splits)
  from rx_frame_spec [OF hl(1) m(2) d(2,3,5) m(4) B(2) d(4), of "ref_freq c" "ref_period c" ts0] obtain buf st hw where
    rx: "minic_rx_frame (ref_freq c) (ref_period c) (n_hdr B) (n_buffer B) ts0 (nd_hw d) = Some ((int (?hs - 14 + m), take 14 H, buf, st), hw)"
    "take (?hs - 14 + m) buf = drop 14 (take ?hs H) @ take m data" by blast
  have "length (take (?hs - 14 + m) buf) = ?hs - 14 + m" unfolding rx(2) using hl m(2) by auto
  then have bl: "?hs - 14 + m \<le> length buf" by simp
  obtain pl where pl: "untag (take 14 H) buf (?hs - 14 + m) = (n_vlan B, ?h, pl, m)" "take m pl = take m data" "m \<le> length pl"
    using untag_sent [OF H(2-4) et H(5) rx(2) bl H(1) refl] m(2) by auto
  have ep: "be16_val ?h 12 = et" "udp_port pl = udp_port data" using H udp_port_prefix [OF pl(2) m24 pl(3)] m(2) by simp_all
  define ls where "ls = filter (listens B nif (be16_val ?h 12) (udp_port pl)) (n_socks B)"
  have ls: "ls \<noteq> []" "last ls = Some p" "holds c [] (s_queue (n_sock B p))"
    using B(3) unfolding ls_def ep waits_for_def by (auto split: list.splits)
  from netif_poll_spec [OF d(1) rx(1) _ bl _ _ _ pl(1) ls_def, of "[]"] ls hl m24 m(3) obtain B1 q' where
    B1: "netif_poll c ts0 nif B = Some (True, B1)" "n_vlan B1 = n_vlan B" "n_sock B1 = (n_sock B)(p := (n_sock B p)\<lparr>s_queue := q'\<rparr>)"
    "holds c [(st, ?h, take m pl)] q'" 
    using B(4) by (auto split: if_splits)
  from recv_frame_spec [OF B1(4), of dl "n_vlan B" "from"] m(5) m24 pl(3) obtain q2 where
    "recv_frame c (n_vlan B) from dl q' = Some (\<lparr>r_ret = int m, r_data = take m data,
      r_from = from\<lparr>sa_mac := mac, sa_mac_dest := sa_mac to, sa_ethertype := et, sa_vlan := n_vlan B\<rparr>, r_hwts = st\<rparr>, q2)"
    using pl(2) H m(2) by (auto simp: min_absorb1 min_absorb2)
  moreover have "q_n q' \<noteq> 0" using B1(4) by (simp add: holds_def)
  ultimately show ?thesis using B1 by (simp add: ptpd_netif_recvfrom_def)
qed

subsection \<open>Edge cases\<close>

text \<open>
  A fetch that cuts a frame which ends at the end of the ring leaves the tail one past the ring, and the next read is out of bounds:
  the reduction loop tests \<open>>\<close> for \<open>\<ge>\<close>.
\<close>

lemma cut_read_leaves_ring:
  assumes ok: "sockq_ok q" and q: "length (q_buff q) = q_size q" "q_tail q + len = q_size q" "0 < buflen" "buflen < len"
  shows "\<exists>bs q'. wrap_copy_in len buflen q = Some (bs, q') \<and> q_tail q' = q_size q' \<and> copy_in 1 q' = None"
proof -
  have o: "0 < q_size q" "q_size q < 32768" "q_size q \<le> length (q_buff q)" "q_tail q < q_size q" using ok by (simp_all add: sockq_ok_def)
  have "(q_tail q + buflen) mod q_size q + (len - buflen) = q_size q" using q by simp
  then show ?thesis using copy_in_spec [OF o, of buflen] q o
    by (auto simp: wrap_copy_in_def min_absorb2 reduce_tail.simps load_def)
qed

text \<open>
  The carry into the seconds handles an overflow of the nanoseconds only: a rising counter that has just gone to a new second
  while the falling one has not gives a negative number of nanoseconds.
\<close>

lemma linearized_negative_nsec:
  "ts_nsec (ptpd_netif_linearize_rx_timestamp 15000 True 0 16000 (ts\<lparr>ts_nsec := 0\<rparr>)) = - 16"
  by (simp add: linearize_shape [of 16000 0 15000, simplified] picked_nsec_def)

section \<open>Properties\<close>

text \<open>
  C18. A datagram sent is a datagram received. What \<open>ptpd_netif_sendto\<close> puts on the wire (a frame with or without VLAN tag, padded to the
  Ethernet minimum), once it is in the receive FIFO of a node of the same VLAN, is put by \<open>netif_poll\<close> into the queue of the
  socket that listens for its type and UDP port, and \<open>ptpd_netif_recvfrom\<close> hands out the payload as sent, with the sender's hardware address
  and the Ethernet type of the sending socket.
\<close>

theorem datagram_delivered:
  assumes A: "k = n_sock A pa" "load (n_netifs A) (s_nif k) = Some da" "ver_supported (nd_hw da)" "n_vlan A < 4096"
    and l: "length (nd_mac da) = 6" "length (sa_mac to) = 6" "length junk = 4"
    and et: "et = sa_ethertype (s_bind_addr k)" "et \<noteq> 0x8100"
    and m: "m = padded n (if n_vlan A = 0 then 14 else 18)" "m + m mod 2 \<le> length data" "m < 65000"
  shows "\<exists>t A' d' fr. ptpd_netif_sendto ca pa to data n junk ts0 tx_ts A = Some ((m, t), A') \<and> load (n_netifs A') (s_nif k) = Some d'
    \<and> tx_fifo (nd_hw d') = tx_fifo (nd_hw da) @ fr @ map (fifo_word WRF_OOB) [TX_OOB, WRPC_FID]
    \<and> (\<forall>B c nif p from dl o0 o1 o2 rest ts1. rx_pending nif (fr @ map (fifo_word WRF_OOB) [o0, o1, o2] @ rest) B \<and> frame_end rest
          \<and> n_vlan B = n_vlan A \<and> 5 + m \<le> length (n_buffer B) \<and> m \<le> dl
          \<and> waits_for c nif et (udp_port data) p B \<and> 40 + m \<le> q_avail (s_queue (n_sock B p)) \<longrightarrow>
        (\<exists>B1 B2 r. netif_poll c ts1 nif B = Some (True, B1) \<and> ptpd_netif_recvfrom c p from dl None B1 = Some (Some (r, None), B2)
          \<and> r_ret r = int m \<and> r_data r = take m data
          \<and> r_from r = from\<lparr>sa_mac := nd_mac da, sa_mac_dest := sa_mac to, sa_ethertype := et, sa_vlan := n_vlan A\<rparr>))"
proof -
  define H where "H = tx_header (nd_mac da) (n_vlan A) to k junk"
  have H: "length H = 18" "hdr_size H = (if n_vlan A = 0 then 14 else 18)" using tx_header_size [OF l, of k] et by (simp_all add: H_def)
  note mh = m(1) [folded H(2)]
  obtain t h' where tx: "minic_tx_frame (ref_freq ca) (ref_period ca) H data n (Some ts0) (nd_hw da) = Some ((m, t), h')"
    "tx_fifo h' = tx_fifo (nd_hw da) @ frame_words H data m @ map (fifo_word WRF_OOB) [TX_OOB, WRPC_FID]"
    using minic_tx_spec [OF A(3) H(1) mh m(2), of "ref_freq ca" "ref_period ca" "Some ts0"] by auto
  have i: "s_nif (n_sock A pa) < length (n_netifs A)" "n_netifs A ! s_nif (n_sock A pa) = da" using A(1,2) by (auto simp: load_def split: if_splits)
  have rcv: "\<exists>B1 B2 r. netif_poll c ts1 nif B = Some (True, B1) \<and> ptpd_netif_recvfrom c p from dl None B1 = Some (Some (r, None), B2)
          \<and> r_ret r = int m \<and> r_data r = take m data
          \<and> r_from r = from\<lparr>sa_mac := nd_mac da, sa_mac_dest := sa_mac to, sa_ethertype := et, sa_vlan := n_vlan A\<rparr>"
    if B: "rx_pending nif (frame_words H data m @ map (fifo_word WRF_OOB) [o0, o1, o2] @ rest) B" "frame_end rest" "n_vlan B = n_vlan A"
      "5 + m \<le> length (n_buffer B)" "m \<le> dl" "waits_for c nif et (udp_port data) p B" "40 + m \<le> q_avail (s_queue (n_sock B p))"
    for B c nif p "from" dl o0 o1 o2 rest ts1
  proof -
    have "hdr_size H + m + m mod 2 \<le> 14 + length (n_buffer B)" using B(4) H(2) by (auto split: if_splits)
    then show ?thesis unfolding B(3) [symmetric]
      by (intro poll_and_fetch [OF _ l _ et mh m(2,3) _ B(5,1,2,6,7)]) (use A(4) B(3) in \<open>simp_all add: H_def\<close>)
  qed
  obtain tst where "ptpd_netif_sendto ca pa to data n junk ts0 tx_ts A = Some ((m, tst), A\<lparr>n_netifs := (n_netifs A)[s_nif k := da\<lparr>nd_hw := h'\<rparr>]\<rparr>)"
    using tx(1) A(2) by (simp add: ptpd_netif_sendto_def A(1) [symmetric] H_def Let_def)
  moreover have "load ((n_netifs A)[s_nif k := da\<lparr>nd_hw := h'\<rparr>]) (s_nif k) = Some (da\<lparr>nd_hw := h'\<rparr>)" using i A(1) by (simp add: load_def)
  ultimately show ?thesis
    by (intro exI [of _ tst] exI [of _ "A\<lparr>n_netifs := (n_netifs A)[s_nif k := da\<lparr>nd_hw := h'\<rparr>]\<rparr>"] exI [of _ "da\<lparr>nd_hw := h'\<rparr>"]
          exI [of _ "frame_words H data m"] conjI)
      (simp_all add: tx(2), use rcv in auto)
qed

definition example_socket :: wrpc_socket where
  "example_socket = \<lparr>s_bind_addr = zero_addr\<lparr>sa_ethertype := 0x88f7\<rparr>, s_nif = 0, s_prio = 0,
     s_queue = \<lparr>q_head = 0, q_tail = 0, q_avail = 256, q_size = 256, q_n = 0, q_buff = replicate 256 0\<rparr>\<rparr>"

definition example_net :: "u32 list \<Rightarrow> net" where
  "example_net ws = \<lparr>n_socks = [None, Some 0], n_sock = (\<lambda>_. example_socket), n_vlan = 0, n_netif_count = 1,
     n_netifs = [\<lparr>nd_mac = replicate 6 2, nd_hw = example_hw\<lparr>rx_fifo := ws\<rparr>, nd_phase_transition = 0\<rparr>], n_hdr = replicate 14 0, n_buffer = replicate 480 0\<rparr>"

definition example_cfg :: net_cfg where
  "example_cfg = \<lparr>big_endian = True, default_transition = 0, ref_freq = 62500000, ref_period = 16000\<rparr>"

definition example_time :: wr_timestamp where
  "example_time = \<lparr>ts_sec = 0, ts_nsec = 0, ts_phase = 0, ts_raw_phase = 0, ts_raw_nsec = 0, ts_raw_ahead = False, ts_correct = False\<rparr>"

lemma example_holds: "holds c [] (s_queue example_socket)"
  by (simp add: holds_def sockq_ok_def ring_bytes_def from_tail_def example_socket_def)

lemma example_waits: "waits_for c 0 0x88f7 0 0 (example_net ws)"
  using example_holds by (simp add: waits_for_def listens_def [abs_def] example_net_def) (simp add: example_socket_def zero_addr_def)

theorem datagram_delivered_witness:
  "\<exists>t A' d' fr. ptpd_netif_sendto example_cfg 0 zero_addr (replicate 60 7) 50 (replicate 4 0) example_stamp example_time (example_net []) = Some ((50, t), A')
    \<and> load (n_netifs A') 0 = Some d' \<and> tx_fifo (nd_hw d') = fr @ map (fifo_word WRF_OOB) [TX_OOB, WRPC_FID]
    \<and> (\<exists>B1 B2 r. netif_poll example_cfg example_stamp 0 (example_net (fr @ map (fifo_word WRF_OOB) [0, 0, 3])) = Some (True, B1)
          \<and> ptpd_netif_recvfrom example_cfg 0 zero_addr 100 None B1 = Some (Some (r, None), B2) \<and> r_data r = replicate 50 7)"
proof -
  let ?d = "\<lparr>nd_mac = replicate 6 2, nd_hw = example_hw\<lparr>rx_fifo := []\<rparr>, nd_phase_transition = 0\<rparr>"
  have n: "n_sock (example_net ws) 0 = example_socket" "s_nif example_socket = 0" "load (n_netifs (example_net [])) 0 = Some ?d" "n_vlan (example_net ws) = 0"
    "length (n_buffer (example_net ws)) = 480" "sa_ethertype (s_bind_addr example_socket) = 0x88f7" "q_avail (s_queue example_socket) = 256" for ws
    by (simp_all add: example_net_def example_socket_def load_def)
  have "padded 50 14 = 50" "udp_port (replicate 60 7) = 0" by (simp_all add: padded_def udp_port_def IP_VERSION_def)
  note e = this
  have rp: "rx_pending 0 ws (example_net ws)" for ws
    by (simp add: rx_pending_def load_def example_net_def example_hw_def MINIC_MCR_TX_IDLE_def MINIC_MCR_RX_EMPTY_def)
  from datagram_delivered [OF refl, of "example_net []" 0 ?d zero_addr "replicate 4 0" "0x88f7" 50 50 "replicate 60 7" example_cfg example_stamp example_time]
  obtain t A' d' fr where a: "ptpd_netif_sendto example_cfg 0 zero_addr (replicate 60 7) 50 (replicate 4 0) example_stamp example_time (example_net []) = Some ((50, t), A')"
    "load (n_netifs A') 0 = Some d'" "tx_fifo (nd_hw d') = fr @ map (fifo_word WRF_OOB) [TX_OOB, WRPC_FID]"
    and rcv: "\<forall>B c nif p from dl o0 o1 o2 rest ts1. rx_pending nif (fr @ map (fifo_word WRF_OOB) [o0, o1, o2] @ rest) B \<and> frame_end rest
          \<and> n_vlan B = 0 \<and> 55 \<le> length (n_buffer B) \<and> 50 \<le> dl
          \<and> waits_for c nif 0x88f7 0 p B \<and> 90 \<le> q_avail (s_queue (n_sock B p)) \<longrightarrow>
        (\<exists>B1 B2 r. netif_poll c ts1 nif B = Some (True, B1) \<and> ptpd_netif_recvfrom c p from dl None B1 = Some (Some (r, None), B2)
          \<and> r_ret r = 50 \<and> r_data r = replicate 50 7
          \<and> r_from r = from\<lparr>sa_mac := replicate 6 2, sa_mac_dest := sa_mac zero_addr, sa_ethertype := 0x88f7, sa_vlan := 0\<rparr>)"
    using e n by (simp add: example_hw_def zero_addr_def) blast
  have "\<exists>B1 B2 r. netif_poll example_cfg example_stamp 0 (example_net (fr @ map (fifo_word WRF_OOB) [0, 0, 3])) = Some (True, B1)
          \<and> ptpd_netif_recvfrom example_cfg 0 zero_addr 100 None B1 = Some (Some (r, None), B2) \<and> r_data r = replicate 50 7"
    using rcv [rule_format, of 0 0 0 3 "[]" "example_net (fr @ map (fifo_word WRF_OOB) [0, 0, 3])" 100 example_cfg 0] rp example_waits n
    by (fastforce simp: frame_end_def)
  then show ?thesis using a by blast
qed



text \<open>
  C20. The linearised time stamp is the arrival time. A frame that arrives at \<open>x\<close> picoseconds is stamped by a counter that counts at the
  rising clock edge and one that counts at the falling edge, each wrong when the arrival is too close to its own transition; from the
  counter that is right and the phase of the arrival, \<open>ptpd_netif_linearize_rx_timestamp\<close> computes seconds, nanoseconds and phase
  that add up to \<open>x\<close> exactly, with the phase within one clock period.
\<close>

theorem linearized_is_arrival:
  assumes "0 < T" "T \<le> 100000000" "4 dvd T" "1000 dvd T" "0 \<le> tp" "tp < T"
    "0 \<le> ts_nsec ts" "ts_nsec ts < 1000000000" "0 \<le> ts_sec ts" "ts_sec ts < 4611686018427387904"
    "counters_ok T x ahead ts"
  shows "let r = ptpd_netif_linearize_rx_timestamp ((x + tp) mod T) ahead tp T ts
    in ts_time r = x \<and> ts_phase r = x mod T \<and> ts_nsec r < 1000000000"
  unfolding Let_def by (rule linearize_time [OF assms refl])

theorem linearized_is_arrival_witness:
  "ts_time (ptpd_netif_linearize_rx_timestamp ((7000000159900 + 300) mod 16000) False 300 16000 (example_time\<lparr>ts_sec := 7, ts_nsec := 144\<rparr>)) = 7000000159900"
  using linearized_is_arrival [of 16000 300 "example_time\<lparr>ts_sec := 7, ts_nsec := 144\<rparr>" 7000000159900 False]
  by (simp add: counters_ok_def example_time_def Let_def)

end
