(* ===== verification/Inet.thy ===== *)
theory Inet
  imports Net Wrc_Tasks
begin

text \<open>
  The Internet protocols of the firmware: \<^verbatim>\<open>lib/ipv4.c\<close> (checksum, the sockets and their polling, the IP address), \<^verbatim>\<open>lib/udp.c\<close>,
  \<^verbatim>\<open>lib/icmp.c\<close>, \<^verbatim>\<open>lib/arp.c\<close> and \<^verbatim>\<open>lib/bootp.c\<close>. A packet is a buffer of bytes of fixed size; an access outside it is \<open>None\<close>.
  Packets start with the IP header (Ethernet is added by \<open>Net\<close>). A local buffer of a poll function holds old bytes where the received
  packet does not reach; they are an argument. So are the tick counter, the link state and the time of day.

  Results: the checksums of every packet that is sent verify at the receiver; echo and ARP requests for the own address, and only they,
  are answered, to the sender, with the payload kept; a BOOTP answer sets the address if and only if it is for the own hardware address.
\<close>

unbundle bit_operations_syntax

section \<open>Definitions\<close>

definition IP_LEN :: nat where "IP_LEN = 2"
definition IP_CHECKSUM :: nat where "IP_CHECKSUM = 10"
definition IP_SOURCE :: nat where "IP_SOURCE = 12"
definition IP_DEST :: nat where "IP_DEST = 16"
definition IP_END :: nat where "IP_END = 20"
definition UDP_VIRT_SADDR :: nat where "UDP_VIRT_SADDR = 8"
definition UDP_SPORT :: nat where "UDP_SPORT = 20"
definition UDP_CHECKSUM :: nat where "UDP_CHECKSUM = 26"
definition UDP_END :: nat where "UDP_END = 28"
definition ICMP_TYPE :: nat where "ICMP_TYPE = 20"
definition ICMP_CHECKSUM :: nat where "ICMP_CHECKSUM = 22"
definition ARP_OPER :: nat where "ARP_OPER = 6"
definition ARP_SHA :: nat where "ARP_SHA = 8"
definition ARP_SPA :: nat where "ARP_SPA = 14"
definition ARP_THA :: nat where "ARP_THA = 18"
definition ARP_TPA :: nat where "ARP_TPA = 24"
definition ARP_END :: nat where "ARP_END = 28"
definition BOOTP_OP :: nat where "BOOTP_OP = 28"
definition BOOTP_XID :: nat where "BOOTP_XID = 32"
definition BOOTP_SECS :: nat where "BOOTP_SECS = 36"
definition BOOTP_YIADDR :: nat where "BOOTP_YIADDR = 44"
definition BOOTP_CHADDR :: nat where "BOOTP_CHADDR = 56"
definition BOOTP_END :: nat where "BOOTP_END = 328"

lemmas field_offsets = IP_VERSION_def IP_PROTOCOL_def UDP_DPORT_def IP_LEN_def IP_CHECKSUM_def IP_SOURCE_def IP_DEST_def IP_END_def
  UDP_VIRT_SADDR_def UDP_SPORT_def UDP_CHECKSUM_def UDP_END_def ICMP_TYPE_def ICMP_CHECKSUM_def
  ARP_OPER_def ARP_SHA_def ARP_SPA_def ARP_THA_def ARP_TPA_def ARP_END_def
  BOOTP_OP_def BOOTP_XID_def BOOTP_SECS_def BOOTP_YIADDR_def BOOTP_CHADDR_def BOOTP_END_def

text \<open>A sequence of stores to fixed places of a buffer.\<close>

fun put_fields :: "(nat \<times> u8 list) list \<Rightarrow> u8 list \<Rightarrow> u8 list option" where
  "put_fields [] buf = Some buf"
| "put_fields ((at, bs) # fs) buf = Option.bind (store_bytes buf at bs) (put_fields fs)"

subsection \<open>Checksum\<close>

definition ipv4_checksum :: "u8 list \<Rightarrow> nat \<Rightarrow> u32 option" where
  "ipv4_checksum buf shorts = do {
     sum \<leftarrow> for_each (\<lambda>i sum. map_option (\<lambda>b. sum + word_of_int (be_val b)) (load_bytes buf (2 * i) 2)) [0..<shorts] 0;
     let sum = drop_bit 16 sum + (sum AND 0xffff);
     let sum = sum + drop_bit 16 sum;
     Some (NOT sum AND 0xffff)
   }"

subsection \<open>UDP\<close>

record wr_udp_addr =
  u_saddr :: "u8 list"
  u_daddr :: "u8 list"
  u_sport :: "u8 list"
  u_dport :: "u8 list"

text \<open>\<open>(len - IP_END) >> 8\<close> and \<open>(len - IP_END) & 0xff\<close>.\<close>

definition int16 :: "int \<Rightarrow> u8 list" where
  "int16 x = be16 (word_of_int x)"

definition reply_addr :: "u8 list \<Rightarrow> wr_udp_addr option" where
  "reply_addr buf = do {
     daddr \<leftarrow> load_bytes buf IP_SOURCE 4;
     saddr \<leftarrow> load_bytes buf IP_DEST 4;
     dport \<leftarrow> load_bytes buf UDP_SPORT 2;
     sport \<leftarrow> load_bytes buf UDP_DPORT 2;
     Some \<lparr>u_saddr = saddr, u_daddr = daddr, u_sport = sport, u_dport = dport\<rparr>
   }"

definition fill_udp :: "u8 list \<Rightarrow> nat \<Rightarrow> wr_udp_addr option \<Rightarrow> u8 list option" where
  "fill_udp buf len uaddr = do {
     u \<leftarrow> (case uaddr of None \<Rightarrow> reply_addr buf | Some u \<Rightarrow> Some u);
     buf \<leftarrow> put_fields [(UDP_VIRT_SADDR, u_saddr u), (12, u_daddr u), (16, [0]), (17, [0x11]), (18, int16 (int len - 20)),
       (UDP_SPORT, u_sport u), (UDP_DPORT, u_dport u), (24, int16 (int len - 20)), (UDP_CHECKSUM, [0, 0])] buf;
     oddb \<leftarrow> load buf len;
     buf \<leftarrow> store buf len 0;
     sum \<leftarrow> ipv4_checksum (drop UDP_VIRT_SADDR buf) ((len + 1 - UDP_VIRT_SADDR) div 2);
     buf \<leftarrow> store buf len oddb;
     let sum = (if sum = 0 then 0xffff else sum);
     buf \<leftarrow> put_fields [(UDP_CHECKSUM, be16 (ucast sum)), (IP_VERSION, [0x45]), (1, [0]), (IP_LEN, int16 (int len)), (4, [0, 0]), (6, [0, 0]), (8, [63]),
       (IP_PROTOCOL, [17]), (IP_CHECKSUM, [0, 0]), (IP_SOURCE, u_saddr u), (IP_DEST, u_daddr u)] buf;
     sum \<leftarrow> ipv4_checksum buf (IP_END div 2);
     put_fields [(IP_CHECKSUM, be16 (ucast sum))] buf
   }"

subsection \<open>ICMP\<close>

text \<open>The result is the number of bytes to send (0: none) and the buffer.\<close>

definition process_icmp :: "u8 list \<Rightarrow> u8 list \<Rightarrow> (int \<times> u8 list) option" where
  "process_icmp myIP buf = do {
     ver \<leftarrow> load buf IP_VERSION;
     dest \<leftarrow> load_bytes buf IP_DEST 4;
     if ver \<noteq> 0x45 \<or> dest \<noteq> myIP then Some (0, buf)
     else do {
       iplen \<leftarrow> load_bytes buf IP_LEN 2;
       proto \<leftarrow> load buf IP_PROTOCOL;
       ty \<leftarrow> load buf ICMP_TYPE;
       if proto \<noteq> 1 \<or> ty \<noteq> 8 then Some (0, buf)
       else do {
         let hisBodyLen = min (be_val iplen - 24) 64;
         hisIP \<leftarrow> load_bytes buf IP_SOURCE 4;
         buf \<leftarrow> put_fields [(IP_VERSION, [0x45]), (1, [0]), (IP_LEN, int16 (hisBodyLen + 24)), (4, [0, 0]), (6, [0, 0]), (8, [63]), (IP_PROTOCOL, [1]),
           (IP_CHECKSUM, [0, 0]), (IP_SOURCE, myIP), (IP_DEST, hisIP), (ICMP_TYPE, [0]), (21, [0]), (ICMP_CHECKSUM, [0, 0])] buf;
         sum \<leftarrow> ipv4_checksum (drop ICMP_TYPE buf) (nat ((hisBodyLen + 4 + 1) div 2));
         buf \<leftarrow> put_fields [(ICMP_CHECKSUM, be16 (ucast sum))] buf;
         sum \<leftarrow> ipv4_checksum buf 10;
         buf \<leftarrow> put_fields [(IP_CHECKSUM, be16 (ucast sum))] buf;
         Some (24 + hisBodyLen, buf)
       }
     }
   }"

subsection \<open>ARP\<close>

definition process_arp :: "u8 list \<Rightarrow> u8 list \<Rightarrow> u8 list \<Rightarrow> int \<Rightarrow> (nat \<times> u8 list) option" where
  "process_arp mac myIP buf len =
     (if len < int ARP_END then Some (0, buf)
      else do {
        oper \<leftarrow> load_bytes buf ARP_OPER 2;
        tpa \<leftarrow> load_bytes buf ARP_TPA 4;
        if oper \<noteq> [0, 1] \<or> tpa \<noteq> myIP then Some (0, buf)
        else do {
          hisMAC \<leftarrow> load_bytes buf ARP_SHA 6;
          hisIP \<leftarrow> load_bytes buf ARP_SPA 4;
          buf \<leftarrow> put_fields [(0, [0, 1]), (2, [8, 0]), (4, [6]), (5, [4]), (ARP_OPER, [0, 2]), (ARP_SHA, mac), (ARP_SPA, myIP),
            (ARP_THA, hisMAC), (ARP_TPA, hisIP)] buf;
          Some (ARP_END, buf)
        }
      })"

subsection \<open>BOOTP\<close>

definition xor_at :: "nat \<Rightarrow> u8 \<Rightarrow> u8 list \<Rightarrow> u8 list option" where
  "xor_at i b buf = do { x \<leftarrow> load buf i; store buf i (x XOR b) }"

text \<open>The identifier of a request: the hardware address, mixed with its own last bytes and the number of the attempt.\<close>

definition set_xid :: "int \<Rightarrow> u8 list \<Rightarrow> u8 list option" where
  "set_xid retry buf = do {
     x4 \<leftarrow> load buf (BOOTP_XID + 4);
     buf \<leftarrow> xor_at BOOTP_XID x4 buf;
     x5 \<leftarrow> load buf (BOOTP_XID + 5);
     buf \<leftarrow> xor_at (BOOTP_XID + 1) x5 buf;
     buf \<leftarrow> xor_at (BOOTP_XID + 2) (word_of_int (retry div 256)) buf;
     xor_at (BOOTP_XID + 3) (word_of_int retry) buf
   }"

text \<open>The hardware address is 6 bytes: the two last ones are written over the seconds field, which is set afterwards.\<close>

definition prepare_bootp :: "u8 list \<Rightarrow> u8 list \<Rightarrow> int \<Rightarrow> u8 list option" where
  "prepare_bootp mac buf retry = do {
     buf \<leftarrow> put_fields [(BOOTP_OP, [1]), (29, [1]), (30, [6]), (31, [0]), (BOOTP_XID, mac)] buf;
     buf \<leftarrow> set_xid retry buf;
     buf \<leftarrow> put_fields [(BOOTP_SECS, [word_of_int (retry div 256)]), (37, [word_of_int retry]), (38, [0, 0]),
       (40, replicate 4 0), (BOOTP_YIADDR, replicate 4 0), (48, replicate 4 0), (52, replicate 4 0),
       (BOOTP_CHADDR, replicate 16 0), (BOOTP_CHADDR, mac), (72, replicate 64 0), (136, replicate 128 0), (264, replicate 64 0)] buf;
     fill_udp buf BOOTP_END (Some \<lparr>u_saddr = replicate 4 0, u_daddr = replicate 4 0xff, u_sport = [0, 68], u_dport = [0, 67]\<rparr>)
   }"

datatype ip_status_t = IP_TRAINING | IP_OK_BOOTP | IP_OK_STATIC

text \<open>The state of the stack beside the sockets.\<close>

record ip_state =
  ip_addr :: "u8 list"
  ip_status :: ip_status_t
  bootp_retry :: u16
  bootp_tics :: u32

definition setIP :: "u8 list \<Rightarrow> ip_state \<Rightarrow> ip_state" where
  "setIP ip s = (let s = s\<lparr>ip_addr := ip, bootp_retry := 0\<rparr> in if ip = [0, 0, 0, 0] then s\<lparr>ip_status := IP_TRAINING\<rparr> else s)"

definition process_bootp :: "u8 list \<Rightarrow> u8 list \<Rightarrow> int \<Rightarrow> ip_state \<Rightarrow> (bool \<times> ip_state) option" where
  "process_bootp mac buf len s =
     (if len \<noteq> int BOOTP_END then Some (False, s)
      else do {
        sport \<leftarrow> load_bytes buf UDP_SPORT 2;
        if sport \<noteq> [0, 67] then Some (False, s)
        else do {
          chaddr \<leftarrow> load_bytes buf BOOTP_CHADDR 6;
          if chaddr \<noteq> mac then Some (False, s)
          else do {
            yiaddr \<leftarrow> load_bytes buf BOOTP_YIADDR 4;
            Some (True, setIP yiaddr (s\<lparr>ip_status := IP_OK_BOOTP\<rparr>))
          }
        }
      })"

subsection \<open>Sockets and polling\<close>

text \<open>
  The state: the network, the address, and the sockets (\<open>None\<close>: no socket slot was left). What a poll takes from outside: ticks, seconds, link
  and calibration state, and the old contents of its local variables.
\<close>

record inet =
  i_net :: net
  i_ip :: ip_state
  bootp_socket :: "nat option"
  icmp_socket :: "nat option"
  rdate_socket :: "nat option"
  arp_socket :: "nat option"

record inet_env =
  e_tics :: u32
  e_tics_per_second :: u32
  e_secs :: u64
  e_went_up :: bool
  e_abscal :: bool
  e_stack :: "nat \<Rightarrow> u8"
  e_addr :: wr_sockaddr
  e_junk :: "u8 list"
  e_hwts :: hw_timestamp
  e_ts :: wr_timestamp

text \<open>\<open>ptpd_netif_recvfrom\<close> into a local buffer of \<open>n\<close> bytes: the result, the sender, the buffer.\<close>

definition recv_into :: "net_cfg \<Rightarrow> inet_env \<Rightarrow> nat option \<Rightarrow> nat \<Rightarrow> net \<Rightarrow> ((int \<times> wr_sockaddr \<times> u8 list) \<times> net) option" where
  "recv_into c e sock n s = do {
     p \<leftarrow> sock;
     let buf = map (e_stack e) [0..<n];
     (r, s) \<leftarrow> ptpd_netif_recvfrom c p (e_addr e) n None s;
     Some (case r of
             None \<Rightarrow> ((0, e_addr e, buf), s)
           | Some (r, _) \<Rightarrow> ((r_ret r, r_from r, r_data r @ drop (length (r_data r)) buf), s))
   }"

definition send_from :: "net_cfg \<Rightarrow> inet_env \<Rightarrow> nat option \<Rightarrow> wr_sockaddr \<Rightarrow> u8 list \<Rightarrow> nat \<Rightarrow> net \<Rightarrow> net option" where
  "send_from c e sock addr buf n s = do {
     p \<leftarrow> sock;
     map_option snd (ptpd_netif_sendto c p addr buf n (e_junk e) (e_hwts e) (e_ts e) s)
   }"

definition check_dest_ip :: "u8 list \<Rightarrow> u8 list \<Rightarrow> bool option" where
  "check_dest_ip myIP buf = map_option (\<lambda>d. d \<noteq> myIP) (load_bytes buf IP_DEST 4)"

text \<open>The pointers are the memory of the four sockets, the sizes those of their buffers.\<close>

definition ipv4_init :: "nat \<Rightarrow> nat \<Rightarrow> nat \<Rightarrow> inet \<Rightarrow> inet" where
  "ipv4_init pb pr pi s =
     (let (b, n) = ptpd_netif_create_socket pb 512 None True 68 0 (i_net s);
          (r, n) = ptpd_netif_create_socket pr 96 None True 37 0 n;
          (i, n) = ptpd_netif_create_socket pi 128 (Some (zero_addr\<lparr>sa_ethertype := 0x0800\<rparr>)) False 0 0 n
      in s\<lparr>i_net := n, bootp_socket := b, rdate_socket := r, icmp_socket := i\<rparr>)"

definition arp_init :: "nat \<Rightarrow> inet \<Rightarrow> inet" where
  "arp_init pa s =
     (let (a, n) = ptpd_netif_create_socket pa 128 (Some (zero_addr\<lparr>sa_mac := replicate 6 0xff, sa_ethertype := 0x0806\<rparr>)) False 0 0 (i_net s)
      in s\<lparr>i_net := n, arp_socket := a\<rparr>)"

text \<open>The hardware address is that of the first interface.\<close>

definition own_mac :: "net \<Rightarrow> u8 list option" where
  "own_mac n = map_option nd_mac (load (n_netifs n) 0)"

definition bootp_poll :: "net_cfg \<Rightarrow> inet_env \<Rightarrow> inet \<Rightarrow> (bool \<times> inet) option" where
  "bootp_poll c e s = do {
     mac \<leftarrow> own_mac (i_net s);
     ((len, addr, buf), n) \<leftarrow> recv_into c e (bootp_socket s) 400 (i_net s);
     let s = s\<lparr>i_net := n\<rparr>;
     if ip_status (i_ip s) \<noteq> IP_TRAINING then Some (False, s)
     else if e_abscal e then Some (False, s)
     else do {
       (ret, ip) \<leftarrow> (if len > 0 then process_bootp mac buf len (i_ip s) else Some (False, i_ip s));
       let (not_yet, tics) = wrc_task_not_yet (e_tics e) (bootp_tics ip) (e_tics_per_second e);
       let s = s\<lparr>i_ip := ip\<lparr>bootp_tics := tics\<rparr>\<rparr>;
       if not_yet then Some (ret, s)
       else do {
         let retry = bootp_retry ip + 1;
         let s = s\<lparr>i_ip := (i_ip s)\<lparr>bootp_retry := retry\<rparr>\<rparr>;
         buf \<leftarrow> prepare_bootp mac buf (uint retry);
         n \<leftarrow> send_from c e (bootp_socket s) (addr\<lparr>sa_mac := replicate 6 0xff\<rparr>) buf BOOTP_END (i_net s);
         Some (True, s\<lparr>i_net := n\<rparr>)
       }
     }
   }"

definition icmp_poll :: "net_cfg \<Rightarrow> inet_env \<Rightarrow> inet \<Rightarrow> (bool \<times> inet) option" where
  "icmp_poll c e s = do {
     ((len, addr, buf), n) \<leftarrow> recv_into c e (icmp_socket s) 128 (i_net s);
     let s = s\<lparr>i_net := n\<rparr>;
     if len \<le> 0 then Some (False, s)
     else if ip_status (i_ip s) = IP_TRAINING then Some (False, s)
     else do {
       other \<leftarrow> check_dest_ip (ip_addr (i_ip s)) buf;
       if other then Some (False, s)
       else do {
         (len, buf) \<leftarrow> process_icmp (ip_addr (i_ip s)) buf;
         n \<leftarrow> (if len > 0 then send_from c e (icmp_socket s) addr buf (nat len) (i_net s) else Some (i_net s));
         Some (True, s\<lparr>i_net := n\<rparr>)
       }
     }
   }"

definition rdate_poll :: "net_cfg \<Rightarrow> inet_env \<Rightarrow> inet \<Rightarrow> (bool \<times> inet) option" where
  "rdate_poll c e s = do {
     ((len, addr, buf), n) \<leftarrow> recv_into c e (rdate_socket s) 32 (i_net s);
     let s = s\<lparr>i_net := n\<rparr>;
     if len \<le> 0 then Some (False, s)
     else do {
       other \<leftarrow> check_dest_ip (ip_addr (i_ip s)) buf;
       if other then Some (False, s)
       else do {
         buf \<leftarrow> store_bytes buf UDP_END (be_bytes 4 (uint (e_secs e) + 2208988800));
         buf \<leftarrow> fill_udp buf (UDP_END + 4) None;
         n \<leftarrow> send_from c e (rdate_socket s) addr buf (UDP_END + 4) (i_net s);
         Some (True, s\<lparr>i_net := n\<rparr>)
       }
     }
   }"

text \<open>Without the optional syslog client, whose poll is then a function that returns 0.\<close>

definition ipv4_poll :: "net_cfg \<Rightarrow> inet_env \<Rightarrow> inet \<Rightarrow> (bool \<times> inet) option" where
  "ipv4_poll c e s = do {
     let s = (if e_went_up e \<and> ip_status (i_ip s) = IP_OK_BOOTP then s\<lparr>i_ip := (i_ip s)\<lparr>ip_status := IP_TRAINING\<rparr>\<rparr> else s);
     (r1, s) \<leftarrow> bootp_poll c e s;
     (r2, s) \<leftarrow> icmp_poll c e s;
     (r3, s) \<leftarrow> rdate_poll c e s;
     Some (r1 \<or> r2 \<or> r3, s)
   }"

definition arp_poll :: "net_cfg \<Rightarrow> inet_env \<Rightarrow> inet \<Rightarrow> (bool \<times> inet) option" where
  "arp_poll c e s =
     (if ip_status (i_ip s) = IP_TRAINING then Some (False, s)
      else do {
        mac \<leftarrow> own_mac (i_net s);
        ((len, addr, buf), n) \<leftarrow> recv_into c e (arp_socket s) 128 (i_net s);
        let s = s\<lparr>i_net := n\<rparr>;
        if len > 0 then do {
          (len, buf) \<leftarrow> process_arp mac (ip_addr (i_ip s)) buf len;
          n \<leftarrow> (if len > 0 then send_from c e (arp_socket s) addr buf len (i_net s) else Some (i_net s));
          Some (True, s\<lparr>i_net := n\<rparr>)
        }
        else Some (False, s)
      })"

section \<open>Facts\<close>

subsection \<open>The Internet checksum\<close>

text \<open>
  The sum of the 16-bit words of a packet, the last byte of an odd one padded with a zero, and what a receiver checks: the
  ones' complement sum, with the checksum included, is all ones.
\<close>

fun wsum :: "u8 list \<Rightarrow> int" where
  "wsum [] = 0"
| "wsum [a] = uint a * 256"
| "wsum (a # b # bs) = uint a * 256 + uint b + wsum bs"

definition checksum_ok :: "u8 list \<Rightarrow> bool" where
  "checksum_ok bs \<longleftrightarrow> wsum bs \<noteq> 0 \<and> wsum bs mod 65535 = 0"

definition fold16 :: "int \<Rightarrow> int" where
  "fold16 S = (if S = 0 then 0 else if S mod 65535 = 0 then 65535 else S mod 65535)"

lemma wsum_nonneg: "0 \<le> wsum bs"
  by (induction bs rule: wsum.induct) simp_all

lemma wsum_bound: "wsum bs \<le> 65535 * int ((length bs + 1) div 2)"
proof (induction bs rule: wsum.induct)
  case (2 a)
  show ?case using uint_lt2p [of a] by simp
next
  case (3 a b bs)
  have "uint a < 256" "uint b < 256" using uint_lt2p [of a] uint_lt2p [of b] by simp_all
  moreover have "int ((length (a # b # bs) + 1) div 2) = int ((length bs + 1) div 2) + 1" by simp
  ultimately show ?case using 3 by simp
qed simp

lemma wsum_append: "even (length xs) \<Longrightarrow> wsum (xs @ ys) = wsum xs + wsum ys"
  by (induction xs rule: wsum.induct) simp_all

lemma wsum_pad: "odd (length xs) \<Longrightarrow> wsum (xs @ [0]) = wsum xs"
  by (induction xs rule: wsum.induct) simp_all

lemma wsum_be16 [simp]: "wsum (be16 d) = uint d" 
proof -
  have "be_val (be16 d) = uint d" by (rule be_val_be16)
  then show ?thesis by (simp add: be16_def be_val_def)
qed

lemma wsum_take_step: "2 * n + 2 \<le> length bs \<Longrightarrow> wsum (take (2 * n + 2) bs) = wsum (take (2 * n) bs) + be_val (take 2 (drop (2 * n) bs))"
proof -
  assume l: "2 * n + 2 \<le> length bs"
  have "take (2 * n + 2) bs = take (2 * n) bs @ take 2 (drop (2 * n) bs)" by (rule take_add)
  moreover have "even (length (take (2 * n) bs))" using l by simp
  moreover obtain a b where "take 2 (drop (2 * n) bs) = [a, b]" using l
    by (cases "drop (2 * n) bs" rule: wsum.cases) (auto simp: numeral_2_eq_2 dest: arg_cong [of _ _ length])
  ultimately show ?thesis by (simp add: wsum_append be_val_def)
qed

lemma for_each_snoc: "for_each f (is @ [i]) s = Option.bind (for_each f is s) (f i)"
proof (induction "is" arbitrary: s)
  case (Cons j js)
  then show ?case by (cases "f j s") simp_all
next
  case Nil
  then show ?case by (cases "f i s") simp_all
qed

lemma checksum_loop:
  "2 * n \<le> length bs \<Longrightarrow> for_each (\<lambda>i sum. map_option (\<lambda>b. sum + word_of_int (be_val b)) (load_bytes bs (2 * i) 2)) [0..<n] 0
     = Some (word_of_int (wsum (take (2 * n) bs)) :: u32)"
proof (induction n)
  case (Suc n)
  then show ?case by (simp add: for_each_snoc load_bytes_def wsum_take_step [of n bs, simplified] wi_hom_add [symmetric])
qed simp

lemma fold16_bounds: "0 \<le> S \<Longrightarrow> 0 \<le> fold16 S \<and> fold16 S \<le> 65535"
  by (auto simp: fold16_def intro: less_imp_le [OF pos_mod_bound])

lemma fold16_steps:
  assumes "0 \<le> S" "S < 4294967296"
  shows "(let a = S div 65536 + S mod 65536 in (a + a div 65536) mod 65536) = fold16 S"
proof -
  define h l where "h = S div 65536" and "l = S mod 65536"
  have b: "0 \<le> h" "h < 65536" "0 \<le> l" "l < 65536" using assms by (simp_all add: h_def l_def pos_imp_zdiv_nonneg_iff div_less_iff_less_mult)
  have S: "S = h * 65536 + l" by (simp add: h_def l_def)
  have "S mod 65535 = (h * 65535 + (h + l)) mod 65535" by (rule arg_cong [of _ _ "\<lambda>x. x mod 65535"]) (simp add: S)
  then have m: "S mod 65535 = (h + l) mod 65535" by (simp only: mod_mult_self3)
  have z: "S = 0 \<longleftrightarrow> h + l = 0" using S b by linarith
  have "(h + l + (h + l) div 65536) mod 65536 = fold16 S"
  proof (cases "h + l < 65536")
    case True
    then have "(h + l + (h + l) div 65536) mod 65536 = h + l" using b by simp
    moreover have "fold16 S = h + l"
    proof (cases "h + l = 65535")
      case True
      then show ?thesis unfolding fold16_def m z by simp
    next
      case False
      then have "(h + l) mod 65535 = h + l" using b True by simp
      then show ?thesis unfolding fold16_def m z by auto
    qed
    ultimately show ?thesis by simp
  next
    case False
    define k where "k = h + l - 65535"
    have k: "1 \<le> k" "k \<le> 65535" "h + l = k + 65535" using False b by (simp_all add: k_def)
    have "(h + l) div 65536 = 1" using k by (intro int_div_pos_eq [where r = "k - 1"]) simp_all
    moreover have "(k + 65536) mod 65536 = k mod 65536" by simp
    ultimately have e: "(h + l + (h + l) div 65536) mod 65536 = k" using k by simp
    have "(h + l) mod 65535 = k mod 65535" unfolding k(3) by simp
    moreover have "k mod 65535 = (if k = 65535 then 0 else k)" using k by simp
    ultimately have "fold16 S = k" unfolding fold16_def m z using k by auto
    then show ?thesis using e by simp
  qed
  then show ?thesis by (simp add: Let_def h_def l_def)
qed

lemma low_word: "uint ((w :: u32) AND 0xffff) = uint w mod 65536"
proof -
  have "w AND 0xffff = take_bit 16 w" by (simp add: take_bit_eq_mask mask_eq_exp_minus_1)
  then show ?thesis by (simp add: unsigned_take_bit_eq take_bit_eq_mod uint_mod)
qed

lemma high_word: "uint (drop_bit 16 (w :: u32)) = uint w div 65536"
  by (simp add: unsigned_drop_bit_eq drop_bit_eq_div uint_div)

lemma uint_add_small: "uint a + uint b < 4294967296 \<Longrightarrow> uint ((a :: u32) + b) = uint a + uint b"
  by (simp add: uint_word_ariths)

lemma complement_low: "NOT (w :: u32) AND 0xffff = word_of_int (65535 - uint w mod 65536)"
proof -
  have "(w AND 0xffff) + (NOT w AND 0xffff) = (w AND 0xffff) OR (NOT w AND 0xffff)"
    by (rule disjunctive_add) (auto simp: bit_simps)
  also have "\<dots> = 0xffff" by (rule bit_word_eqI) (auto simp: bit_simps)
  finally have "NOT w AND 0xffff = 0xffff - (w AND 0xffff)" by (simp add: eq_diff_eq add.commute)
  also have "w AND 0xffff = word_of_int (uint w mod 65536)" by (simp add: low_word [symmetric])
  finally show ?thesis by simp
qed

lemma ipv4_checksum_spec:
  assumes "2 * n \<le> length bs" "n \<le> 65536"
  shows "ipv4_checksum bs n = Some (word_of_int (65535 - fold16 (wsum (take (2 * n) bs))))"
proof -
  define S where "S = wsum (take (2 * n) bs)"
  have "S \<le> 65535 * int n" unfolding S_def using wsum_bound [of "take (2 * n) bs"] assms(1) by simp
  moreover have "65535 * int n \<le> 65535 * 65536" using assms(2) by simp
  ultimately have b: "0 \<le> S" "S < 4294967296" using wsum_nonneg [of "take (2 * n) bs"] by (simp_all add: S_def)
  define w :: u32 where "w = word_of_int S"
  have u: "uint w = S" using b by (simp add: w_def unsigned_of_int take_bit_int_eq_self)
  have hl: "0 \<le> S div 65536" "S div 65536 < 65536" "0 \<le> S mod 65536" "S mod 65536 < 65536"
    using b by (simp_all add: pos_imp_zdiv_nonneg_iff div_less_iff_less_mult)
  define a where "a = drop_bit 16 w + (w AND 0xffff)"
  have ua: "uint a = S div 65536 + S mod 65536" unfolding a_def using hl by (subst uint_add_small) (simp_all add: low_word high_word u)
  then have "uint a < 131072" using hl by simp
  then have "uint a div 65536 < 2" by (simp add: div_less_iff_less_mult)
  define r where "r = a + drop_bit 16 a"
  have ur: "uint r = uint a + uint a div 65536" unfolding r_def
    using \<open>uint a < 131072\<close> \<open>uint a div 65536 < 2\<close> by (subst uint_add_small) (simp_all add: high_word)
  have "NOT r AND 0xffff = word_of_int (65535 - fold16 S)"
    unfolding complement_low ur ua using fold16_steps [OF b] by (simp only: Let_def)
  then show ?thesis unfolding ipv4_checksum_def checksum_loop [OF assms(1)] S_def [symmetric] w_def [symmetric]
    by (simp add: a_def [symmetric] r_def [symmetric])
qed

text \<open>Writing the checksum, or for UDP all ones when it is zero, makes the packet verify.\<close>

lemma checksum_inserted:
  assumes "even (length xs)" "S = wsum (xs @ [0, 0] @ ys)" "uint c = 65535 - fold16 S \<or> uint c = 65535 \<and> fold16 S = 65535"
  shows "checksum_ok (xs @ be16 c @ ys)"
proof -
  have "wsum (xs @ be16 c @ ys) = S + uint c"
    using assms(1,2) by (simp add: wsum_append)
  moreover have "0 \<le> S" unfolding assms(2) by (rule wsum_nonneg)
  moreover have "(S + uint c) mod 65535 = 0 \<and> S + uint c \<noteq> 0"
  proof (cases "S mod 65535 = 0")
    case True
    have "(S + 65535) mod 65535 = S mod 65535" by simp
    then show ?thesis using True assms(3) \<open>0 \<le> S\<close> by (cases "S = 0") (auto simp: fold16_def)
  next
    case False
    then have f: "fold16 S = S mod 65535" "S \<noteq> 0" by (auto simp: fold16_def)
    have "S mod 65535 < 65535" by simp
    then have c: "uint c = 65535 - S mod 65535" using assms(3) f by linarith
    have "(S + uint c) mod 65535 = (S - S mod 65535 + 65535) mod 65535" unfolding c by (rule arg_cong [of _ _ "\<lambda>x. x mod 65535"]) simp
    also have "\<dots> = 0" by (simp only: mod_add_self2) (simp add: minus_mod_eq_mult_div)
    finally show ?thesis using \<open>0 \<le> S\<close> f(2) uint_ge_0 [of c] by linarith
  qed
  ultimately show ?thesis by (simp add: checksum_ok_def)
qed

subsection \<open>UDP packets\<close>

lemma length_int16 [simp]: "length (int16 x) = 2" by (simp add: int16_def)

text \<open>Stores one after the other into the front of a buffer.\<close>

lemma put_fields_append:
  "put_fields fs buf = Some buf' \<Longrightarrow> put_fields fs (buf @ data) = Some (buf' @ data)"
proof (induction fs buf arbitrary: buf' rule: put_fields.induct)
  case (2 at bs fs buf)
  let ?b = "take at buf @ bs @ drop (at + length bs) buf"
  have l: "at + length bs \<le> length buf" and p: "put_fields fs ?b = Some buf'" using "2.prems" by (auto simp: store_bytes_def split: if_splits)
  have "put_fields fs (?b @ data) = Some (buf' @ data)" by (rule "2.IH" [OF _ p]) (simp add: store_bytes_def l)
  then show ?case using l by (simp add: store_bytes_def)
qed simp

lemma store_bytes_at:
  assumes "xs = us @ ws @ vs" "length us = at" "length ws = length bs"
  shows "store_bytes xs at bs = Some (us @ bs @ vs)"
  using assms by (simp add: store_bytes_def)

text \<open>Stores to places that follow one another.\<close>

fun consecutive :: "nat \<Rightarrow> (nat \<times> u8 list) list \<Rightarrow> bool" where
  "consecutive a [] = True"
| "consecutive a ((at, bs) # fs) = (at = a \<and> consecutive (a + length bs) fs)"

lemma put_consecutive:
  "consecutive a fs \<Longrightarrow> a + length (concat (map snd fs)) \<le> length buf \<Longrightarrow>
     put_fields fs buf = Some (take a buf @ concat (map snd fs) @ drop (a + length (concat (map snd fs))) buf)"
proof (induction a fs arbitrary: buf rule: consecutive.induct)
  case (2 a at bs fs)
  let ?b = "take a buf @ bs @ drop (a + length bs) buf"
  have "store_bytes buf at bs = Some ?b" using 2 by (simp add: store_bytes_def)
  moreover have "put_fields fs ?b = Some (take (a + length bs) ?b @ concat (map snd fs) @ drop (a + length bs + length (concat (map snd fs))) ?b)"
    by (rule "2.IH") (use "2.prems" in auto)
  ultimately show ?case using "2.prems" by (simp add: ac_simps)
qed simp

definition udp_ok :: "wr_udp_addr \<Rightarrow> bool" where
  "udp_ok u \<longleftrightarrow> length (u_saddr u) = 4 \<and> length (u_daddr u) = 4 \<and> length (u_sport u) = 2 \<and> length (u_dport u) = 2"

lemma list2: "length xs = 2 \<Longrightarrow> \<exists>a b. xs = [a, b]" by (auto simp: numeral_eq_Suc length_Suc_conv)
lemma list4: "length xs = 4 \<Longrightarrow> \<exists>a b c d. xs = [a, b, c, d]" by (auto simp: numeral_eq_Suc length_Suc_conv)

lemma list28: "length xs = 28 \<Longrightarrow> \<exists>a0 a1 a2 a3 a4 a5 a6 a7 a8 a9 b0 b1 b2 b3 b4 b5 b6 b7 b8 b9 c0 c1 c2 c3 c4 c5 c6 c7.
    xs = [a0, a1, a2, a3, a4, a5, a6, a7, a8, a9, b0, b1, b2, b3, b4, b5, b6, b7, b8, b9, c0, c1, c2, c3, c4, c5, c6, c7]"
  by (simp add: numeral_eq_Suc length_Suc_conv) metis

lemma udp_fields_1:
  assumes "length H = 28" "udp_ok u" "length L = 2"
  shows "put_fields [(UDP_VIRT_SADDR, u_saddr u), (12, u_daddr u), (16, [0]), (17, [0x11]), (18, L),
       (UDP_SPORT, u_sport u), (UDP_DPORT, u_dport u), (24, L), (UDP_CHECKSUM, [0, 0])] H
    = Some (take 8 H @ u_saddr u @ u_daddr u @ [0, 0x11] @ L @ u_sport u @ u_dport u @ L @ [0, 0])"
proof -
  obtain a0 a1 a2 a3 a4 a5 a6 a7 a8 a9 b0 b1 b2 b3 b4 b5 b6 b7 b8 b9 c0 c1 c2 c3 c4 c5 c6 c7 where
    "H = [a0, a1, a2, a3, a4, a5, a6, a7, a8, a9, b0, b1, b2, b3, b4, b5, b6, b7, b8, b9, c0, c1, c2, c3, c4, c5, c6, c7]"
    using list28 [OF assms(1)] by (elim exE) (rule that)
  moreover obtain s0 s1 s2 s3 where "u_saddr u = [s0, s1, s2, s3]" using list4 assms(2) unfolding udp_ok_def by blast
  moreover obtain d0 d1 d2 d3 where "u_daddr u = [d0, d1, d2, d3]" using list4 assms(2) unfolding udp_ok_def by blast
  moreover obtain p0 p1 where "u_sport u = [p0, p1]" using list2 assms(2) unfolding udp_ok_def by blast
  moreover obtain q0 q1 where "u_dport u = [q0, q1]" using list2 assms(2) unfolding udp_ok_def by blast
  moreover obtain l0 l1 where "L = [l0, l1]" using list2 assms(3) by blast
  ultimately show ?thesis by (simp add: field_offsets store_bytes_def)
qed

lemma udp_fields_2:
  assumes "length V = 8" "udp_ok u" "length L = 2" "length C = 2" "length N = 2"
  shows "put_fields [(UDP_CHECKSUM, C), (IP_VERSION, [0x45]), (1, [0]), (IP_LEN, N), (4, [0, 0]), (6, [0, 0]), (8, [63]),
       (IP_PROTOCOL, [17]), (IP_CHECKSUM, [0, 0]), (IP_SOURCE, u_saddr u), (IP_DEST, u_daddr u)]
      (V @ u_saddr u @ u_daddr u @ [0, 0x11] @ L @ u_sport u @ u_dport u @ L @ [0, 0])
    = Some ([0x45, 0] @ N @ [0, 0, 0, 0, 63, 17] @ [0, 0] @ u_saddr u @ u_daddr u @ u_sport u @ u_dport u @ L @ C)"
proof -
  obtain a0 a1 a2 a3 a4 a5 a6 a7 where "V = [a0, a1, a2, a3, a4, a5, a6, a7]"
    using assms(1) by (simp add: numeral_eq_Suc length_Suc_conv) metis
  moreover obtain s0 s1 s2 s3 where "u_saddr u = [s0, s1, s2, s3]" using list4 assms(2) unfolding udp_ok_def by blast
  moreover obtain d0 d1 d2 d3 where "u_daddr u = [d0, d1, d2, d3]" using list4 assms(2) unfolding udp_ok_def by blast
  moreover obtain p0 p1 where "u_sport u = [p0, p1]" using list2 assms(2) unfolding udp_ok_def by blast
  moreover obtain q0 q1 where "u_dport u = [q0, q1]" using list2 assms(2) unfolding udp_ok_def by blast
  moreover obtain l0 l1 where "L = [l0, l1]" using list2 assms(3) by blast
  moreover obtain m0 m1 where "C = [m0, m1]" using list2 assms(4) by blast
  moreover obtain n0 n1 where "N = [n0, n1]" using list2 assms(5) by blast
  ultimately show ?thesis by (simp add: field_offsets store_bytes_def)
qed

text \<open>A UDP packet, and the pseudo header its checksum covers.\<close>

definition udp_packet :: "wr_udp_addr \<Rightarrow> nat \<Rightarrow> u16 \<Rightarrow> u16 \<Rightarrow> u8 list \<Rightarrow> u8 list" where
  "udp_packet u len ipsum udpsum data = [0x45, 0] @ int16 (int len) @ [0, 0, 0, 0, 63, 17] @ be16 ipsum @ u_saddr u @ u_daddr u
     @ u_sport u @ u_dport u @ int16 (int len - 20) @ be16 udpsum @ data"

definition pseudo_header :: "u8 list \<Rightarrow> u8 list \<Rightarrow> nat \<Rightarrow> u8 list" where
  "pseudo_header saddr daddr n = saddr @ daddr @ [0, 17] @ int16 (int n)"

lemma uint_checksum:
  "0 \<le> S \<Longrightarrow> c = (word_of_int (65535 - fold16 S) :: u32) \<Longrightarrow> uint (ucast c :: u16) = 65535 - fold16 S \<and> (c = 0 \<longleftrightarrow> fold16 S = 65535)"
proof -
  assume S: "0 \<le> S" and c: "c = word_of_int (65535 - fold16 S)"
  have u: "uint c = 65535 - fold16 S" unfolding c unsigned_of_int using fold16_bounds [OF S] by (simp add: take_bit_int_eq_self)
  then have "uint (ucast c :: u16) = 65535 - fold16 S" using fold16_bounds [OF S] by (simp add: unsigned_ucast_eq take_bit_int_eq_self)
  moreover have "c = 0 \<longleftrightarrow> uint c = 0" by (rule uint_0_iff [symmetric])
  ultimately show ?thesis using u by auto
qed

lemma load_store_behind:
  assumes "length H = n"
  shows "load (H @ data) (n + k) = load data k" "store (H @ data) (n + k) v = map_option ((@) H) (store data k v)"
  using assms by (auto simp: load_def store_def nth_append list_update_append)

lemma wsum_padded:
  assumes "length V = 18" "k < length data"
  shows "wsum (take (2 * ((28 + k + 1 - 8) div 2)) (V @ [0, 0] @ data[k := 0])) = wsum (V @ [0, 0] @ take k data)"
proof (cases "even k")
  case True
  then have "2 * ((28 + k + 1 - 8) div 2) = 20 + k" by auto
  then show ?thesis using assms by simp
next
  case False
  then have "2 * ((28 + k + 1 - 8) div 2) = 20 + Suc k" by (auto elim: oddE)
  note e = this
  define U where "U = V @ [0, 0]"
  have U: "length U = 20" using assms(1) by (simp add: U_def)
  have "take (20 + Suc k) (U @ data[k := 0]) = (U @ take k data) @ [0]" using U assms by (simp add: take_Suc_conv_app_nth)
  then have "take (2 * ((28 + k + 1 - 8) div 2)) (V @ [0, 0] @ data[k := 0]) = (V @ [0, 0] @ take k data) @ [0]"
    unfolding e U_def append_assoc .
  then show ?thesis using wsum_pad [of "V @ [0, 0] @ take k data"] assms False by simp
qed

lemma fill_udp_spec:
  assumes len: "28 \<le> len" "len < length buf" "len < 65536" and u: "udp_ok u"
  obtains ipsum udpsum where "fill_udp buf len (Some u) = Some (udp_packet u len ipsum udpsum (drop 28 buf))"
    "checksum_ok (take 20 (udp_packet u len ipsum udpsum (drop 28 buf)))"
    "checksum_ok (pseudo_header (u_saddr u) (u_daddr u) (len - 20) @ drop 20 (take len (udp_packet u len ipsum udpsum (drop 28 buf))))"
proof -
  define H data k where "H = take 28 buf" and "data = drop 28 buf" and "k = len - 28"
  have bl: "buf = H @ data" "length H = 28" "len = 28 + k" "k < length data" using len by (simp_all add: H_def data_def k_def)
  define L where "L = int16 (int len - 20)"
  define V where "V = u_saddr u @ u_daddr u @ [0, 0x11] @ L @ u_sport u @ u_dport u @ L"
  have Vl: "length V = 18" "length L = 2" using u by (simp_all add: V_def L_def udp_ok_def)
  have p1: "put_fields [(UDP_VIRT_SADDR, u_saddr u), (12, u_daddr u), (16, [0]), (17, [0x11]), (18, L),
       (UDP_SPORT, u_sport u), (UDP_DPORT, u_dport u), (24, L), (UDP_CHECKSUM, [0, 0])] buf = Some ((take 8 H @ V @ [0, 0]) @ data)"
    unfolding bl(1) using put_fields_append [OF udp_fields_1 [OF bl(2) u Vl(2)]] by (simp add: V_def)
  let ?n = "(len + 1 - UDP_VIRT_SADDR) div 2"
  have hl: "length (take 8 H @ V @ [0, 0]) = 28" using Vl bl(2) by simp
  note ls = load_store_behind [OF hl, of _ k, folded bl(3)]
  define W where "W = V @ [0, 0] @ data[k := 0]"
  have dW: "drop UDP_VIRT_SADDR ((take 8 H @ V @ [0, 0]) @ data[k := 0]) = W" using bl(2) by (simp add: UDP_VIRT_SADDR_def W_def)
  have Wl: "2 * ?n \<le> length W" "?n \<le> 65536" using bl(3,4) Vl len(3) by (simp_all add: W_def UDP_VIRT_SADDR_def)
  define S where "S = wsum (V @ [0, 0] @ take k data)"
  have S: "wsum (take (2 * ?n) W) = S" unfolding S_def W_def bl(3) UDP_VIRT_SADDR_def by (rule wsum_padded) (use Vl bl(4) in simp_all)
  have S0: "0 \<le> S" unfolding S_def by (rule wsum_nonneg)
  define sum :: u32 where "sum = word_of_int (65535 - fold16 S)"
  define C :: u16 where "C = ucast (if sum = 0 then 0xffff else sum)"
  have C: "uint C = 65535 - fold16 S \<or> uint C = 65535 \<and> fold16 S = 65535" using uint_checksum [OF S0 sum_def] by (simp add: C_def)
  let ?N = "int16 (int len)"
  let ?B = "[0x45, 0] @ ?N @ [0, 0, 0, 0, 63, 17] @ [0, 0] @ u_saddr u @ u_daddr u @ u_sport u @ u_dport u @ L @ be16 C"
  have "put_fields [(UDP_CHECKSUM, be16 C), (IP_VERSION, [0x45]), (1, [0]), (IP_LEN, ?N), (4, [0, 0]), (6, [0, 0]), (8, [63]),
       (IP_PROTOCOL, [17]), (IP_CHECKSUM, [0, 0]), (IP_SOURCE, u_saddr u), (IP_DEST, u_daddr u)] ((take 8 H @ V @ [0, 0]) @ data) = Some (?B @ data)"
    by (rule put_fields_append) (use udp_fields_2 [of "take 8 H" u L "be16 C" ?N] bl(2) u Vl in \<open>simp add: V_def\<close>)
  note p2 = this
  define P where "P = wsum ([0x45, 0] @ ?N @ [0, 0, 0, 0, 63, 17] @ [0, 0] @ u_saddr u @ u_daddr u)"
  have "take (2 * (IP_END div 2)) (?B @ data) = [0x45, 0] @ ?N @ [0, 0, 0, 0, 63, 17] @ [0, 0] @ u_saddr u @ u_daddr u"
    using u by (simp add: IP_END_def udp_ok_def)
  moreover have "2 * (IP_END div 2) \<le> length (?B @ data)" "IP_END div 2 \<le> 65536" using u by (simp_all add: IP_END_def udp_ok_def)
  ultimately have q: "ipv4_checksum (?B @ data) (IP_END div 2) = Some (word_of_int (65535 - fold16 P))"
    unfolding P_def by (simp only: ipv4_checksum_spec)
  define I :: u16 where "I = ucast (word_of_int (65535 - fold16 P) :: u32)"
  have I: "uint I = 65535 - fold16 P" using uint_checksum [of P, OF _ refl] wsum_nonneg by (simp add: I_def P_def)
  have p3: "put_fields [(IP_CHECKSUM, be16 I)] (?B @ data) = Some (udp_packet u len I C data)"
    by (simp add: IP_CHECKSUM_def udp_packet_def L_def
        store_bytes_at [of _ "[0x45, 0] @ ?N @ [0, 0, 0, 0, 63, 17]" "[0, 0]" "u_saddr u @ u_daddr u @ u_sport u @ u_dport u @ L @ be16 C @ data" 10])
  define X where "X = take 8 H @ V @ [0, 0]"
  have ld: "load (X @ data) len = Some (data ! k)" "store (X @ data) len 0 = Some (X @ data[k := 0])"
    "store (X @ data[k := 0]) len (data ! k) = Some (X @ data)" unfolding X_def ls using bl(4) by (simp_all add: load_def store_def)
  have cs: "ipv4_checksum (drop UDP_VIRT_SADDR (X @ data[k := 0])) ?n = Some sum"
    unfolding X_def dW ipv4_checksum_spec [OF Wl] S sum_def by simp
  have f: "fill_udp buf len (Some u) = Some (udp_packet u len I C data)"
    unfolding fill_udp_def option.case bind.bind_lunit L_def [symmetric] p1 [folded X_def] ld cs Let_def C_def [symmetric] p2 [folded X_def] q I_def [symmetric] p3 ..
  have "checksum_ok (([0x45, 0] @ ?N @ [0, 0, 0, 0, 63, 17]) @ be16 I @ u_saddr u @ u_daddr u)"
    by (rule checksum_inserted [OF _ _ disjI1 [OF I]]) (simp_all add: P_def)
  then have k1: "checksum_ok (take 20 (udp_packet u len I C data))" using u by (simp add: udp_packet_def udp_ok_def)
  have "checksum_ok (V @ be16 C @ take k data)" by (rule checksum_inserted [OF _ S_def C]) (simp add: Vl)
  moreover have "int16 (int (len - 20)) = L" using len(1) by (simp add: L_def of_nat_diff)
  moreover have "drop 20 (take len (udp_packet u len I C data)) = u_sport u @ u_dport u @ L @ be16 C @ take k data"
  proof -
    define U where "U = [0x45, 0] @ ?N @ [0, 0, 0, 0, 63, 17] @ be16 I @ u_saddr u @ u_daddr u @ u_sport u @ u_dport u @ L @ be16 C"
    have "length U = 28" "drop 20 U = u_sport u @ u_dport u @ L @ be16 C" using u Vl by (simp_all add: U_def udp_ok_def)
    moreover have "udp_packet u len I C data = U @ data" by (simp add: udp_packet_def U_def L_def)
    ultimately show ?thesis by (simp add: bl(3))
  qed
  ultimately have k2: "checksum_ok (pseudo_header (u_saddr u) (u_daddr u) (len - 20) @ drop 20 (take len (udp_packet u len I C data)))"
    by (simp add: pseudo_header_def V_def)
  show thesis by (rule that [of I C]) (use f k1 k2 in \<open>simp_all add: data_def\<close>)
qed

subsection \<open>ICMP\<close>

lemma list24: "length xs = 24 \<Longrightarrow> \<exists>a0 a1 a2 a3 a4 a5 a6 a7 a8 a9 b0 b1 b2 b3 b4 b5 b6 b7 b8 b9 c0 c1 c2 c3.
    xs = [a0, a1, a2, a3, a4, a5, a6, a7, a8, a9, b0, b1, b2, b3, b4, b5, b6, b7, b8, b9, c0, c1, c2, c3]"
  by (simp add: numeral_eq_Suc length_Suc_conv) metis

lemma icmp_fields:
  assumes "length H = 24" "length N = 2" "length m = 4" "length h = 4"
  shows "put_fields [(IP_VERSION, [0x45]), (1, [0]), (IP_LEN, N), (4, [0, 0]), (6, [0, 0]), (8, [63]), (IP_PROTOCOL, [1]),
           (IP_CHECKSUM, [0, 0]), (IP_SOURCE, m), (IP_DEST, h), (ICMP_TYPE, [0]), (21, [0]), (ICMP_CHECKSUM, [0, 0])] H
    = Some ([0x45, 0] @ N @ [0, 0, 0, 0, 63, 1, 0, 0] @ m @ h @ [0, 0, 0, 0])"
proof -
  obtain a0 a1 a2 a3 a4 a5 a6 a7 a8 a9 b0 b1 b2 b3 b4 b5 b6 b7 b8 b9 c0 c1 c2 c3 where
    "H = [a0, a1, a2, a3, a4, a5, a6, a7, a8, a9, b0, b1, b2, b3, b4, b5, b6, b7, b8, b9, c0, c1, c2, c3]"
    using list24 [OF assms(1)] by (elim exE) (rule that)
  moreover obtain n0 n1 where "N = [n0, n1]" using list2 assms(2) by blast
  moreover obtain m0 m1 m2 m3 where "m = [m0, m1, m2, m3]" using list4 assms(3) by blast
  moreover obtain h0 h1 h2 h3 where "h = [h0, h1, h2, h3]" using list4 assms(4) by blast
  ultimately show ?thesis by (simp add: field_offsets store_bytes_def)
qed

definition icmp_packet :: "u8 list \<Rightarrow> u8 list \<Rightarrow> int \<Rightarrow> u16 \<Rightarrow> u16 \<Rightarrow> u8 list \<Rightarrow> u8 list" where
  "icmp_packet src dst len ipsum isum data = [0x45, 0] @ int16 len @ [0, 0, 0, 0, 63, 1] @ be16 ipsum @ src @ dst @ [0, 0] @ be16 isum @ data"

text \<open>An echo request to an address.\<close>

definition echo_request :: "u8 list \<Rightarrow> u8 list \<Rightarrow> bool" where
  "echo_request ip buf \<longleftrightarrow> buf ! 0 = 0x45 \<and> take 4 (drop 16 buf) = ip \<and> buf ! 9 = 1 \<and> buf ! 20 = 8"

lemma process_icmp_ignores:
  assumes "24 \<le> length buf" "\<not> echo_request ip buf"
  shows "process_icmp ip buf = Some (0, buf)"
  using assms by (auto simp: process_icmp_def echo_request_def load_def load_bytes_def field_offsets)

lemma process_icmp_spec:
  assumes r: "echo_request ip buf" and b: "n = nat (min (be_val (take 2 (drop 2 buf)) - 24) 64)" "24 \<le> be_val (take 2 (drop 2 buf))" "24 + n + n mod 2 \<le> length buf"
    and ip: "length ip = 4"
  obtains ipsum isum where "process_icmp ip buf = Some (int (24 + n), icmp_packet ip (take 4 (drop 12 buf)) (int (24 + n)) ipsum isum (drop 24 buf))"
    "checksum_ok (take 20 (icmp_packet ip (take 4 (drop 12 buf)) (int (24 + n)) ipsum isum (drop 24 buf)))"
    "checksum_ok (drop 20 (take (24 + n + n mod 2) (icmp_packet ip (take 4 (drop 12 buf)) (int (24 + n)) ipsum isum (drop 24 buf))))"
proof -
  define H data his N where "H = take 24 buf" and "data = drop 24 buf" and "his = take 4 (drop 12 buf)" and "N = int16 (int (24 + n))"
  have nn: "min (be_val (take 2 (drop 2 buf)) - 24) 64 = int n" "int n + 24 = int (24 + n)" "24 + int n = int (24 + n)" using b(1,2) by simp_all
  have n64: "n \<le> 64" using b(1) by simp
  have bl: "buf = H @ data" "length H = 24" "n + n mod 2 \<le> length data" "length his = 4" "length N = 2" using b(3) by (simp_all add: H_def data_def his_def N_def)
  have 1: "put_fields [(IP_VERSION, [0x45]), (1, [0]), (IP_LEN, N), (4, [0, 0]), (6, [0, 0]), (8, [63]), (IP_PROTOCOL, [1]),
           (IP_CHECKSUM, [0, 0]), (IP_SOURCE, ip), (IP_DEST, his), (ICMP_TYPE, [0]), (21, [0]), (ICMP_CHECKSUM, [0, 0])] buf
    = Some (([0x45, 0] @ N @ [0, 0, 0, 0, 63, 1, 0, 0] @ ip @ his @ [0, 0, 0, 0]) @ data)"
    unfolding bl(1) by (rule put_fields_append [OF icmp_fields [OF bl(2,5) ip bl(4)]])
  define X where "X = [0x45, 0] @ N @ [0, 0, 0, 0, 63, 1, 0, 0] @ ip @ his"
  have Xl: "length X = 20" using bl ip by (simp add: X_def)
  let ?k = "nat ((int n + 4 + 1) div 2)"
  have k: "2 * ?k = 4 + (n + n mod 2)"
  proof -
    have "(int n + 4 + 1) div 2 = int ((n + 5) div 2)" by simp
    then have "?k = (n + 5) div 2" by simp
    moreover have "2 * ((n + 5) div 2) = 4 + (n + n mod 2)" by (cases "even n") (auto elim!: evenE oddE)
    ultimately show ?thesis by simp
  qed
  define S where "S = wsum ([0, 0] @ [0, 0] @ take (n + n mod 2) data)"
  have d: "drop ICMP_TYPE ((X @ [0, 0, 0, 0]) @ data) = [0, 0, 0, 0] @ data" using Xl by (simp add: ICMP_TYPE_def)
  have c1: "ipv4_checksum (drop ICMP_TYPE ((X @ [0, 0, 0, 0]) @ data)) ?k = Some (word_of_int (65535 - fold16 S))"
  proof -
    have "take (2 * ?k) ([0, 0, 0, 0] @ data) = [0, 0] @ [0, 0] @ take (n + n mod 2) data"
      unfolding k take_append by simp
    moreover have "2 * ?k \<le> length ([0, 0, 0, 0] @ data)" "?k \<le> 65536" using bl(3) n64 k by simp_all
    ultimately show ?thesis unfolding d S_def by (simp only: ipv4_checksum_spec)
  qed
  define C :: u16 where "C = ucast (word_of_int (65535 - fold16 S) :: u32)"
  have C: "uint C = 65535 - fold16 S" using uint_checksum [of S, OF _ refl] wsum_nonneg by (simp add: C_def S_def)
  have 2: "put_fields [(ICMP_CHECKSUM, be16 C)] ((X @ [0, 0, 0, 0]) @ data) = Some (X @ [0, 0] @ be16 C @ data)"
    using Xl by (simp add: ICMP_CHECKSUM_def store_bytes_at [of _ "X @ [0, 0]" "[0, 0]" data 22])
  define P where "P = wsum X"
  have c2: "ipv4_checksum (X @ [0, 0] @ be16 C @ data) 10 = Some (word_of_int (65535 - fold16 P))"
    by (subst ipv4_checksum_spec) (use Xl in \<open>simp_all add: P_def\<close>)
  define I :: u16 where "I = ucast (word_of_int (65535 - fold16 P) :: u32)"
  have I: "uint I = 65535 - fold16 P" using uint_checksum [of P, OF _ refl] wsum_nonneg by (simp add: I_def P_def)
  let ?r = "icmp_packet ip his (int (24 + n)) I C data"
  have 3: "put_fields [(IP_CHECKSUM, be16 I)] (X @ [0, 0] @ be16 C @ data) = Some ?r"
    by (simp add: IP_CHECKSUM_def icmp_packet_def X_def N_def
        store_bytes_at [of _ "[0x45, 0] @ N @ [0, 0, 0, 0, 63, 1]" "[0, 0]" "ip @ his @ [0, 0] @ be16 C @ data" 10, unfolded N_def])
  have l24: "24 \<le> length buf" "buf \<noteq> []" using b(3) by auto
  have ld: "load buf IP_VERSION = Some 0x45" "load_bytes buf IP_DEST 4 = Some ip" "load_bytes buf IP_LEN 2 = Some (take 2 (drop 2 buf))"
    "load buf IP_PROTOCOL = Some 1" "load buf ICMP_TYPE = Some 8" "load_bytes buf IP_SOURCE 4 = Some his"
    using r l24 by (simp_all add: load_def load_bytes_def echo_request_def field_offsets his_def)
  have X1: "([0x45, 0] @ N @ [0, 0, 0, 0, 63, 1, 0, 0] @ ip @ his @ [0, 0, 0, 0]) @ data = (X @ [0, 0, 0, 0]) @ data" by (simp add: X_def)
  have f: "process_icmp ip buf = Some (int (24 + n), ?r)"
    unfolding process_icmp_def ld bind.bind_lunit Let_def nn N_def [symmetric] 1 [unfolded X1] c1 C_def [symmetric] 2 c2 I_def [symmetric] 3 by simp
  have "checksum_ok (([0x45, 0] @ N @ [0, 0, 0, 0, 63, 1]) @ be16 I @ ip @ his)"
    by (rule checksum_inserted [OF _ _ disjI1 [OF I]]) (simp_all add: P_def X_def bl(5))
  then have k1: "checksum_ok (take 20 ?r)" using ip bl(4) by (simp add: icmp_packet_def N_def)
  have "checksum_ok ([0, 0] @ be16 C @ take (n + n mod 2) data)" by (rule checksum_inserted [OF _ S_def disjI1 [OF C]]) simp
  moreover have "drop 20 (take (24 + n + n mod 2) ?r) = [0, 0] @ be16 C @ take (n + n mod 2) data"
  proof -
    define U where "U = [0x45, 0] @ N @ [0, 0, 0, 0, 63, 1] @ be16 I @ ip @ his @ [0, 0] @ be16 C"
    have "length U = 24" "drop 20 U = [0, 0] @ be16 C" using ip bl(4,5) by (simp_all add: U_def)
    moreover have "?r = U @ data" by (simp add: icmp_packet_def U_def N_def)
    ultimately show ?thesis by simp
  qed
  ultimately have k2: "checksum_ok (drop 20 (take (24 + n + n mod 2) ?r))" by simp
  show thesis by (rule that [of I C]) (use f k1 k2 in \<open>simp_all only: his_def data_def\<close>)
qed

subsection \<open>ARP\<close>

definition arp_request :: "u8 list \<Rightarrow> u8 list \<Rightarrow> bool" where
  "arp_request ip buf \<longleftrightarrow> take 2 (drop 6 buf) = [0, 1] \<and> take 4 (drop 24 buf) = ip"

lemma arp_fields:
  assumes "length H = 28" "length mac = 6" "length ip = 4" "length hm = 6" "length hi = 4"
  shows "put_fields [(0, [0, 1]), (2, [8, 0]), (4, [6]), (5, [4]), (ARP_OPER, [0, 2]), (ARP_SHA, mac), (ARP_SPA, ip), (ARP_THA, hm), (ARP_TPA, hi)] H
    = Some ([0, 1, 8, 0, 6, 4, 0, 2] @ mac @ ip @ hm @ hi)"
proof -
  have c: "consecutive 0 [(0, [0, 1]), (2, [8, 0]), (4, [6]), (5, [4]), (ARP_OPER, [0, 2]), (ARP_SHA, mac), (ARP_SPA, ip), (ARP_THA, hm), (ARP_TPA, hi)]"
    using assms by (simp add: field_offsets)
  show ?thesis using assms by (simp add: put_consecutive [OF c] del: put_fields.simps)
qed

lemma process_arp_spec:
  assumes "28 \<le> length buf" "length mac = 6" "length ip = 4"
  shows "process_arp mac ip buf len =
    Some (if 28 \<le> len \<and> arp_request ip buf
          then (28, [0, 1, 8, 0, 6, 4, 0, 2] @ mac @ ip @ take 6 (drop 8 buf) @ take 4 (drop 14 buf) @ drop 28 buf) else (0, buf))"
proof -
  have "put_fields [(0, [0, 1]), (2, [8, 0]), (4, [6]), (5, [4]), (ARP_OPER, [0, 2]), (ARP_SHA, mac), (ARP_SPA, ip),
      (ARP_THA, take 6 (drop 8 buf)), (ARP_TPA, take 4 (drop 14 buf))] (take 28 buf @ drop 28 buf)
    = Some (([0, 1, 8, 0, 6, 4, 0, 2] @ mac @ ip @ take 6 (drop 8 buf) @ take 4 (drop 14 buf)) @ drop 28 buf)"
    by (rule put_fields_append [OF arp_fields]) (use assms in simp_all)
  then show ?thesis using assms(1) unfolding append_take_drop_id
    by (auto simp: process_arp_def arp_request_def load_bytes_def ARP_OPER_def ARP_TPA_def ARP_SHA_def ARP_SPA_def ARP_END_def ARP_THA_def simp del: put_fields.simps)
qed

subsection \<open>BOOTP\<close>

definition bootp_body :: "u8 list \<Rightarrow> int \<Rightarrow> u8 list" where
  "bootp_body mac retry = [1, 1, 6, 0, mac ! 0 XOR mac ! 4, mac ! 1 XOR mac ! 5, mac ! 2 XOR word_of_int (retry div 256), mac ! 3 XOR word_of_int retry,
     word_of_int (retry div 256), word_of_int retry, 0, 0] @ replicate 16 0 @ mac @ replicate 266 0"

lemma put_fields_split: "put_fields (fs @ gs) buf = Option.bind (put_fields fs buf) (put_fields gs)"
proof (induction fs buf rule: put_fields.induct)
  case (2 at bs fs buf)
  then show ?case by (cases "store_bytes buf at bs") simp_all
qed simp

lemma set_xid_spec:
  assumes "length U = 28"
  shows "set_xid retry (U @ [1, 1, 6, 0] @ [m0, m1, m2, m3, m4, m5] @ rest)
    = Some ((U @ [1, 1, 6, 0, m0 XOR m4, m1 XOR m5, m2 XOR word_of_int (retry div 256), m3 XOR word_of_int retry]) @ [m4, m5] @ rest)"
  using assms by (simp add: set_xid_def xor_at_def BOOTP_XID_def load_def store_def nth_append list_update_append)

lemma prepare_bootp_spec:
  assumes b: "328 < length buf" and m: "length mac = 6"
  shows "prepare_bootp mac buf retry =
    fill_udp (take 28 buf @ bootp_body mac retry @ drop 328 buf) 328
      (Some \<lparr>u_saddr = replicate 4 0, u_daddr = replicate 4 0xff, u_sport = [0, 68], u_dport = [0, 67]\<rparr>)"
proof -
  obtain m0 m1 m2 m3 m4 m5 where mac: "mac = [m0, m1, m2, m3, m4, m5]" using m by (auto simp: numeral_eq_Suc length_Suc_conv)
  define U where "U = take 28 buf"
  have U: "length U = 28" using b by (simp add: U_def)
  let ?hi = "word_of_int (retry div 256) :: u8" and ?lo = "word_of_int retry :: u8"
  have 1: "put_fields [(BOOTP_OP, [1]), (29, [1]), (30, [6]), (31, [0]), (BOOTP_XID, mac)] buf = Some (U @ [1, 1, 6, 0] @ mac @ drop 38 buf)"
  proof -
    have "consecutive 28 [(BOOTP_OP, [1]), (29, [1]), (30, [6]), (31, [0]), (BOOTP_XID, mac)]" by (simp add: BOOTP_OP_def BOOTP_XID_def)
    from put_consecutive [OF this, of buf] show ?thesis using b m by (simp add: U_def del: put_fields.simps)
  qed
  define X where "X = U @ [1, 1, 6, 0, m0 XOR m4, m1 XOR m5, m2 XOR ?hi, m3 XOR ?lo]"
  have X: "length X = 36" using U by (simp add: X_def)
  let ?Y = "X @ [?hi, ?lo, 0, 0] @ replicate 16 0 @ replicate 16 0 @ drop 72 buf"
  have 2: "put_fields [(BOOTP_SECS, [?hi]), (37, [?lo]), (38, [0, 0]), (40, replicate 4 0), (BOOTP_YIADDR, replicate 4 0), (48, replicate 4 0),
      (52, replicate 4 0), (BOOTP_CHADDR, replicate 16 0)] (X @ [m4, m5] @ drop 38 buf) = Some ?Y"
  proof -
    have "consecutive 36 [(BOOTP_SECS, [?hi]), (37, [?lo]), (38, [0, 0]), (40, replicate 4 0), (BOOTP_YIADDR, replicate 4 0), (48, replicate 4 0),
      (52, replicate 4 0), (BOOTP_CHADDR, replicate 16 0)]" by (simp add: field_offsets)
    from put_consecutive [OF this, of "X @ [m4, m5] @ drop 38 buf"] show ?thesis using b X
      by (simp add: replicate_add [symmetric] del: put_fields.simps) 
  qed
  let ?Z = "X @ [?hi, ?lo, 0, 0] @ replicate 16 0 @ mac @ replicate 10 0 @ drop 72 buf"
  have z: "replicate 16 (0 :: u8) = replicate 6 0 @ replicate 10 0" "replicate 266 (0 :: u8) = replicate 10 0 @ replicate 64 0 @ replicate 128 0 @ replicate 64 0"
    by (simp_all add: replicate_add [symmetric])
  have "?Y = (X @ [?hi, ?lo, 0, 0] @ replicate 16 0) @ replicate 6 0 @ (replicate 10 0 @ drop 72 buf)" using z(1) by simp
  then have 3: "put_fields [(BOOTP_CHADDR, mac)] ?Y = Some ?Z"
    using store_bytes_at [of ?Y "X @ [?hi, ?lo, 0, 0] @ replicate 16 0" "replicate 6 0" "replicate 10 0 @ drop 72 buf" 56 mac] X m by (simp add: BOOTP_CHADDR_def)
  have 4: "put_fields [(72, replicate 64 0), (136, replicate 128 0), (264, replicate 64 0)] ?Z = Some (U @ bootp_body mac retry @ drop 328 buf)"
  proof -
    have c: "consecutive 72 [(72, replicate 64 0), (136, replicate 128 0), (264, replicate 64 0)]" by simp
    define T where "T = X @ [?hi, ?lo, 0, 0] @ replicate 16 0 @ mac @ replicate 10 0"
    have T: "length T = 72" "?Z = T @ drop 72 buf" using X m by (simp_all add: T_def)
    have "U @ bootp_body mac retry @ drop 328 buf = T @ (replicate 64 0 @ replicate 128 0 @ replicate 64 0) @ drop 328 buf"
      unfolding bootp_body_def z(2) by (simp add: T_def X_def mac)
    then show ?thesis unfolding T(2) using put_consecutive [OF c, of "T @ drop 72 buf"] T(1) b by (simp del: put_fields.simps)
  qed
  have "put_fields ([(BOOTP_SECS, [?hi]), (37, [?lo]), (38, [0, 0]), (40, replicate 4 0), (BOOTP_YIADDR, replicate 4 0), (48, replicate 4 0),
      (52, replicate 4 0), (BOOTP_CHADDR, replicate 16 0)] @ [(BOOTP_CHADDR, mac)] @ [(72, replicate 64 0), (136, replicate 128 0), (264, replicate 64 0)])
      (X @ [m4, m5] @ drop 38 buf) = Some (U @ bootp_body mac retry @ drop 328 buf)"
    unfolding put_fields_split 2 bind.bind_lunit 3 4 ..
  then have 5: "put_fields [(BOOTP_SECS, [?hi]), (37, [?lo]), (38, [0, 0]), (40, replicate 4 0), (BOOTP_YIADDR, replicate 4 0), (48, replicate 4 0),
      (52, replicate 4 0), (BOOTP_CHADDR, replicate 16 0), (BOOTP_CHADDR, mac), (72, replicate 64 0), (136, replicate 128 0), (264, replicate 64 0)]
      (X @ [m4, m5] @ drop 38 buf) = Some (U @ bootp_body mac retry @ drop 328 buf)" by (simp only: append.simps)
  show ?thesis unfolding prepare_bootp_def mac 1 [unfolded mac] bind.bind_lunit set_xid_spec [OF U] X_def [symmetric] 5 [unfolded mac] BOOTP_END_def U_def [symmetric] ..
qed

lemma process_bootp_spec:
  assumes "328 \<le> length buf"
  shows "process_bootp mac buf len s =
    Some (if len = 328 \<and> take 2 (drop 20 buf) = [0, 67] \<and> take 6 (drop 56 buf) = mac
          then (True, setIP (take 4 (drop 44 buf)) (s\<lparr>ip_status := IP_OK_BOOTP\<rparr>)) else (False, s))"
  using assms by (simp add: process_bootp_def load_bytes_def field_offsets)

text \<open>The answer to \<open>rdate\<close> is one byte longer than its buffer allows: the byte behind the packet is outside the array.\<close>

lemma rdate_answer_overruns: "length buf = 32 \<Longrightarrow> fill_udp buf 32 (Some u) = None"
proof -
  assume l: "length buf = 32"
  have "put_fields fs b = Some b' \<Longrightarrow> length b' = length b" for fs b b'
    by (induction fs b rule: put_fields.induct) (auto simp: bind_eq_Some_conv dest: length_store_bytes)
  then have "load b 32 = None" if "put_fields fs buf = Some b" for fs b using that l by (auto simp: load_def)
  then have "Option.bind (put_fields fs buf) (\<lambda>b. Option.bind (load b 32) (g b)) = None" for fs g by (cases "put_fields fs buf") auto
  then show ?thesis unfolding fill_udp_def option.case bind.bind_lunit .
qed

section \<open>Properties\<close>

text \<open>
  C21. UDP packets are valid. For a packet of \<open>len\<close> bytes in a buffer with room for one byte more, \<open>fill_udp\<close> returns the packet with the
  addresses and ports it was given, or those of the received packet exchanged, with both length fields set and the payload
  unchanged; the IP header checksum and the UDP checksum over pseudo header, header and payload (of even or odd length) verify at the receiver.
\<close>

theorem fill_udp_valid:
  assumes "28 \<le> len" "len < length buf" "len < 65536"
    and "case uaddr of
           None \<Rightarrow> u = \<lparr>u_saddr = take 4 (drop 16 buf), u_daddr = take 4 (drop 12 buf), u_sport = take 2 (drop 22 buf), u_dport = take 2 (drop 20 buf)\<rparr>
         | Some v \<Rightarrow> u = v \<and> udp_ok v"
  shows "\<exists>ipsum udpsum. fill_udp buf len uaddr = Some (udp_packet u len ipsum udpsum (drop 28 buf))
    \<and> checksum_ok (take 20 (udp_packet u len ipsum udpsum (drop 28 buf)))
    \<and> checksum_ok (pseudo_header (u_saddr u) (u_daddr u) (len - 20) @ drop 20 (take len (udp_packet u len ipsum udpsum (drop 28 buf))))"
proof -
  have "udp_ok u" using assms by (auto simp: udp_ok_def split: option.splits)
  then obtain ipsum udpsum where f: "fill_udp buf len (Some u) = Some (udp_packet u len ipsum udpsum (drop 28 buf))"
    "checksum_ok (take 20 (udp_packet u len ipsum udpsum (drop 28 buf)))"
    "checksum_ok (pseudo_header (u_saddr u) (u_daddr u) (len - 20) @ drop 20 (take len (udp_packet u len ipsum udpsum (drop 28 buf))))"
    using fill_udp_spec [OF assms(1-3)] by blast
  have "fill_udp buf len uaddr = fill_udp buf len (Some u)"
  proof (cases uaddr)
    case None
    then have "reply_addr buf = Some u" using assms by (simp add: reply_addr_def load_bytes_def field_offsets)
    then show ?thesis by (simp add: fill_udp_def None)
  qed (use assms(4) in simp)
  then show ?thesis using f by metis
qed

theorem fill_udp_valid_witness:
  "\<exists>i c. fill_udp (replicate 40 7) 31 None
    = Some (udp_packet \<lparr>u_saddr = replicate 4 7, u_daddr = replicate 4 7, u_sport = replicate 2 7, u_dport = replicate 2 7\<rparr> 31 i c (replicate 12 7))"
  using fill_udp_valid [where len = 31 and buf = "replicate 40 7" and uaddr = None
      and u = "\<lparr>u_saddr = replicate 4 7, u_daddr = replicate 4 7, u_sport = replicate 2 7, u_dport = replicate 2 7\<rparr>"]
  by auto

text \<open>
  Echo requests are answered. A packet that is not an ICMP echo request to the own address is left alone and not answered; one that is
  becomes an echo reply to its sender with the same data, cut to 64 bytes, with the right lengths and a valid IP header
  checksum; the ICMP checksum is valid for data of even length, and for odd length if the byte that follows in the buffer is counted too.
\<close>

theorem icmp_echo_answered:
  assumes "24 \<le> length buf" "length ip = 4"
    and "echo_request ip buf \<Longrightarrow> 24 \<le> be_val (take 2 (drop 2 buf)) \<and> n = nat (min (be_val (take 2 (drop 2 buf)) - 24) 64) \<and> 24 + n + n mod 2 \<le> length buf"
  shows "if echo_request ip buf
    then \<exists>ipsum isum. let reply = icmp_packet ip (take 4 (drop 12 buf)) (int (24 + n)) ipsum isum (drop 24 buf)
           in process_icmp ip buf = Some (int (24 + n), reply) \<and> checksum_ok (take 20 reply) \<and> checksum_ok (drop 20 (take (24 + n + n mod 2) reply))
    else process_icmp ip buf = Some (0, buf)"
proof (cases "echo_request ip buf")
  case True
  with assms(3) have b: "n = nat (min (be_val (take 2 (drop 2 buf)) - 24) 64)" "24 \<le> be_val (take 2 (drop 2 buf))" "24 + n + n mod 2 \<le> length buf" by auto
  show ?thesis unfolding if_P [OF True] Let_def by (rule process_icmp_spec [OF True b assms(2)]) blast
qed (use process_icmp_ignores [OF assms(1)] in simp)

theorem icmp_echo_answered_witness:
  "\<exists>i s. process_icmp [10, 0, 0, 7] [0x45, 0, 0, 28, 0, 0, 0, 0, 0, 1, 0, 0, 10, 0, 0, 1, 10, 0, 0, 7, 8, 0, 0, 0, 1, 2, 3, 4]
    = Some (28, icmp_packet [10, 0, 0, 7] [10, 0, 0, 1] 28 i s [1, 2, 3, 4])"
proof -
  define b :: "u8 list" where "b = [0x45, 0, 0, 28, 0, 0, 0, 0, 0, 1, 0, 0, 10, 0, 0, 1, 10, 0, 0, 7, 8, 0, 0, 0, 1, 2, 3, 4]"
  have "echo_request [10, 0, 0, 7] b" "be_val (take 2 (drop 2 b)) = 28" "drop 24 b = [1, 2, 3, 4]" "take 4 (drop 12 b) = [10, 0, 0, 1]" "length b = 28"
    by (simp_all add: echo_request_def be_val_def b_def)
  note f = this
  have p: "24 \<le> length b" "length [10, 0, 0, 7 :: u8] = 4" "24 \<le> (28 :: int) \<and> 4 = nat (min (28 - 24) 64) \<and> 24 + 4 + 4 mod 2 \<le> length b"
    using f(5) by simp_all
  have "\<exists>i s. process_icmp [10, 0, 0, 7] b = Some (int (24 + 4), icmp_packet [10, 0, 0, 7] (take 4 (drop 12 b)) (int (24 + 4)) i s (drop 24 b))"
    using icmp_echo_answered [of b "[10, 0, 0, 7]" 4, unfolded f(2) if_P [OF f(1)] Let_def, OF p(1,2)] p(3) by blast
  then show ?thesis unfolding b_def [symmetric] f by simp
qed

text \<open>
  ARP. Exactly the ARP requests for the own address, in frames long enough, are answered; the answer gives the own hardware and IP address as
  sender and the requester's as target, in the format for Ethernet and IP. Everything else is left alone.
\<close>

theorem arp_request_answered:
  assumes "28 \<le> length buf" "length mac = 6" "length ip = 4"
  shows "process_arp mac ip buf len =
    Some (if 28 \<le> len \<and> arp_request ip buf
          then (28, [0, 1, 8, 0, 6, 4, 0, 2] @ mac @ ip @ take 6 (drop 8 buf) @ take 4 (drop 14 buf) @ drop 28 buf) else (0, buf))"
  by (rule process_arp_spec [OF assms])

theorem arp_request_answered_witness:
  "process_arp [1, 2, 3, 4, 5, 6] [10, 0, 0, 7] ([0, 1, 8, 0, 6, 4, 0, 1] @ replicate 6 9 @ [10, 0, 0, 1] @ replicate 6 0 @ [10, 0, 0, 7]) 46
    = Some (28, [0, 1, 8, 0, 6, 4, 0, 2] @ [1, 2, 3, 4, 5, 6] @ [10, 0, 0, 7] @ replicate 6 9 @ [10, 0, 0, 1])"
  using arp_request_answered [of "[0, 1, 8, 0, 6, 4, 0, 1] @ replicate 6 9 @ [10, 0, 0, 1] @ replicate 6 0 @ [10, 0, 0, 7]" "[1, 2, 3, 4, 5, 6]" "[10, 0, 0, 7]" 46]
  by (simp add: arp_request_def)

text \<open>
  C22. Address configuration. The request of \<open>prepare_bootp\<close> is a valid UDP broadcast from port 68 to port 67 that carries the own hardware address and the
  number of the attempt; the answer that \<open>process_bootp\<close> accepts is exactly one of full size, from port 67, for the own hardware
  address: then the address offered is the own address from there on (training goes on if it is all zero), and nothing else changes it.
\<close>

theorem bootp_configures_address:
  assumes "328 < length buf" "length mac = 6" "328 \<le> length answer"
  shows "(\<exists>ipsum udpsum. let u = \<lparr>u_saddr = replicate 4 0, u_daddr = replicate 4 0xff, u_sport = [0, 68], u_dport = [0, 67]\<rparr>;
             p = udp_packet u 328 ipsum udpsum (bootp_body mac retry @ drop 328 buf)
           in prepare_bootp mac buf retry = Some p \<and> checksum_ok (take 20 p) \<and> checksum_ok (pseudo_header (replicate 4 0) (replicate 4 0xff) 308 @ drop 20 (take 328 p)))
    \<and> (\<exists>r s'. process_bootp mac answer len s = Some (r, s')
        \<and> (r \<longleftrightarrow> len = 328 \<and> take 2 (drop 20 answer) = [0, 67] \<and> take 6 (drop 56 answer) = mac)
        \<and> (if r then ip_addr s' = take 4 (drop 44 answer) \<and> ip_status s' = (if take 4 (drop 44 answer) = [0, 0, 0, 0] then IP_TRAINING else IP_OK_BOOTP)
           else s' = s))"
proof
  let ?b = "take 28 buf @ bootp_body mac retry @ drop 328 buf"
  let ?u = "\<lparr>u_saddr = replicate 4 0, u_daddr = replicate 4 0xff, u_sport = [0, 68], u_dport = [0, 67]\<rparr> :: wr_udp_addr"
  have b: "udp_ok ?u" "328 < length ?b" "drop 28 ?b = bootp_body mac retry @ drop 328 buf"
    using assms(1,2) by (simp_all add: udp_ok_def bootp_body_def)
  obtain i c where f: "fill_udp ?b 328 (Some ?u) = Some (udp_packet ?u 328 i c (drop 28 ?b))" "checksum_ok (take 20 (udp_packet ?u 328 i c (drop 28 ?b)))"
    "checksum_ok (pseudo_header (u_saddr ?u) (u_daddr ?u) (328 - 20) @ drop 20 (take 328 (udp_packet ?u 328 i c (drop 28 ?b))))"
    by (rule fill_udp_spec [OF _ b(2) _ b(1)]) simp_all
  then show "\<exists>ipsum udpsum. let u = ?u; p = udp_packet u 328 ipsum udpsum (bootp_body mac retry @ drop 328 buf)
      in prepare_bootp mac buf retry = Some p \<and> checksum_ok (take 20 p) \<and> checksum_ok (pseudo_header (replicate 4 0) (replicate 4 0xff) 308 @ drop 20 (take 328 p))"
    unfolding Let_def prepare_bootp_spec [OF assms(1,2)] b(3) by (intro exI [of _ i] exI [of _ c]) simp
qed (use process_bootp_spec [OF assms(3), of mac len s] in \<open>auto simp: setIP_def Let_def\<close>)

theorem bootp_configures_address_witness:
  "\<exists>r s'. process_bootp (replicate 6 2) (replicate 20 0 @ [0, 67] @ replicate 22 0 @ [10, 0, 0, 7] @ replicate 8 0 @ replicate 6 2 @ replicate 266 0) 328
      \<lparr>ip_addr = [0, 0, 0, 0], ip_status = IP_TRAINING, bootp_retry = 3, bootp_tics = 9\<rparr> = Some (r, s') \<and> r \<and> ip_addr s' = [10, 0, 0, 7] \<and> ip_status s' = IP_OK_BOOTP"
proof -
  let ?a = "replicate 20 0 @ [0, 67] @ replicate 22 0 @ [10, 0, 0, 7] @ replicate 8 0 @ replicate 6 2 @ replicate 266 0 :: u8 list"
  have "take 2 (drop 20 ?a) = [0, 67]" "take 6 (drop 56 ?a) = replicate 6 2" "take 4 (drop 44 ?a) = [10, 0, 0, 7]" "length ?a = 328" by simp_all
  then show ?thesis using bootp_configures_address [of "replicate 400 0" "replicate 6 2" ?a 1 328 "\<lparr>ip_addr = [0, 0, 0, 0], ip_status = IP_TRAINING, bootp_retry = 3, bootp_tics = 9\<rparr>"]
    by (auto simp del: append.simps)
qed

end
