(* ===== verification/Storage_Init.thy ===== *)
theory Storage_Init
  imports Sdb_File
begin

text \<open>
  \<^verbatim>\<open>dev/storage-init.c\<close>: the boot script, a file of a two-byte size field and the shell commands, each ended by a
  newline. The end of the script is the first erased byte; the size field is written but never read.

  Results: adding a command appends its line to the script, whatever a flash does with the rewritten size field;
  reading returns the lines one by one.
\<close>

section \<open>Definitions\<close>

definition storage_init_erase :: "'d storage_rwops \<Rightarrow> 'd sdbfs \<Rightarrow> int \<times> 'd sdbfs" where
  "storage_init_erase ops fs =
     (let (r, fs) = sdbfs_open_id ops SDB_VENDOR SDB_DEV_INIT fs in
      if r < 0 then (- 1, fs)
      else
        (let (ret, fs) = sdbfs_ferase ops 0 (sint (fs_f_len fs)) fs;
             ret = (if word_of_int ret = fs_f_len fs then 1 else ret)
         in (if ret = 1 then 0 else - 1, sdbfs_close fs)))"

text \<open>
  The search for the end of the script. The counter \<open>used\<close> has 16 bits, so that the loop does not end on a file
  that is longer than its range and has no erased byte; \<open>byte\<close> is the local variable the byte is read into.
\<close>

partial_function (option) used_loop :: "'d storage_rwops \<Rightarrow> u16 \<Rightarrow> u8 \<Rightarrow> 'd sdbfs \<Rightarrow> (u16 \<times> 'd sdbfs) option" where
  "used_loop ops used byte fs =
     (let ((r, bs), fs) = sdbfs_fread ops (2 + uint used) 1 fs; byte = overlay bs [byte] ! 0 in
      if r \<noteq> 1 then Some (used, fs)
      else if byte = 0xff then Some (used, fs)
      else used_loop ops (used + 1) byte fs)"

declare used_loop.simps [code]

text \<open>The words of the command, each followed by a space, the last one by a newline. \<open>False\<close>: a write was cut.\<close>

fun add_words :: "'d storage_rwops \<Rightarrow> u8 list list \<Rightarrow> u16 \<Rightarrow> 'd sdbfs \<Rightarrow> bool \<times> u16 \<times> 'd sdbfs" where
  "add_words ops [] used fs = (True, used, fs)"
| "add_words ops (arg # args) used fs =
     (let len = int (length arg);
          (r, fs) = sdbfs_fwrite ops (2 + uint used) arg len fs in
      if r \<noteq> len then (False, used, fs)
      else
        (let used = used + word_of_int len;
             separator = (if args \<noteq> [] then 32 else 10);
             (r, fs) = sdbfs_fwrite ops (2 + uint used) [separator] 1 fs in
         if r \<noteq> 1 then (False, used, fs)
         else add_words ops args (used + 1) fs))"

text \<open>\<open>args\<close> are the arguments of the shell command, \<open>add\<close> first; \<open>le\<close> says that the processor is little-endian.\<close>

definition storage_init_add :: "'d storage_rwops \<Rightarrow> bool \<Rightarrow> u8 list list \<Rightarrow> u8 \<Rightarrow> 'd sdbfs \<Rightarrow> (int \<times> 'd sdbfs) option" where
  "storage_init_add ops le args byte fs =
     (let (r, fs) = sdbfs_open_id ops SDB_VENDOR SDB_DEV_INIT fs in
      if r < 0 then Some (- 1, fs)
      else do {
        (used, fs) \<leftarrow> used_loop ops 0 byte fs;
        let used = (if used > 256 then 0 else used);
        let (ok, used, fs) = add_words ops (drop 1 args) used fs;
        if \<not> ok then Some (- 1, sdbfs_close fs)
        else do {
          let size_field = (if le then rev else id) (be_bytes 2 (uint used));
          let (r, fs) = sdbfs_fwrite ops 0 size_field 2 fs;
          if r \<noteq> 2 then Some (- 1, sdbfs_close fs)
          else do {
            let ((r, readback), fs) = sdbfs_fread ops 0 2 fs;
            Some (if r \<noteq> 2 then - 1 else 0, sdbfs_close fs)
          }
        }
      })"

text \<open>\<open>shown\<close> is what has been printed of the script so far.\<close>

partial_function (option) show_loop :: "'d storage_rwops \<Rightarrow> u16 \<Rightarrow> u8 \<Rightarrow> u8 list \<Rightarrow> 'd sdbfs \<Rightarrow> (bool \<times> u16 \<times> u8 list \<times> 'd sdbfs) option" where
  "show_loop ops used byte shown fs =
     (let ((r, bs), fs) = sdbfs_fread ops (2 + uint used) 1 fs; byte = overlay bs [byte] ! 0 in
      if r \<noteq> 1 then Some (False, used, shown, fs)
      else if byte \<noteq> 0xff then show_loop ops (used + 1) byte (shown @ [byte]) fs
      else Some (True, used, shown, fs))"

declare show_loop.simps [code]

definition str_bytes :: "string \<Rightarrow> u8 list" where
  "str_bytes s = map of_char s"

definition storage_init_show :: "'d storage_rwops \<Rightarrow> u8 \<Rightarrow> 'd sdbfs \<Rightarrow> (int \<times> u8 list \<times> 'd sdbfs) option" where
  "storage_init_show ops byte fs =
     (let (r, fs) = sdbfs_open_id ops SDB_VENDOR SDB_DEV_INIT fs in
      if r < 0 then Some (- 1, [], fs)
      else do {
        (ok, used, shown, fs) \<leftarrow> show_loop ops 0 byte (str_bytes ''-- user-defined script --'' @ [10]) fs;
        if \<not> ok then Some (- 1, shown, sdbfs_close fs)
        else Some (0, if used = 0 then shown @ str_bytes ''(empty)'' @ [10] else shown, sdbfs_close fs)
      })"

text \<open>\<open>ptr\<close> is the static read position; \<open>None\<close>: a byte was stored outside the buffer.\<close>

function readcmd_loop :: "'d storage_rwops \<Rightarrow> nat \<Rightarrow> nat \<Rightarrow> u8 list \<Rightarrow> u16 \<Rightarrow> 'd sdbfs \<Rightarrow> (int \<times> u8 list \<times> u16 \<times> 'd sdbfs) option" where
  "readcmd_loop ops bufsize i buf ptr fs =
     (if i > bufsize then Some (- 1, buf, ptr, fs)
      else
        (let ((r, bs), fs) = sdbfs_fread ops (uint ptr) 1 fs; ptr = ptr + 1 in
         case store_bytes buf i bs of
           None \<Rightarrow> None
         | Some buf \<Rightarrow>
             (if r \<noteq> 1 then Some (- 1, buf, ptr, fs)
              else
                (case load buf i of
                   None \<Rightarrow> None
                 | Some c \<Rightarrow>
                     (if c = 0xff then Some (int i, buf, ptr, fs)
                      else if c \<noteq> 10 then readcmd_loop ops bufsize (i + 1) buf ptr fs
                      else Some (int i + 1, buf, ptr, fs))))))"
  by pat_completeness auto
termination
  by (relation "measure (\<lambda>(ops, bufsize, i, buf, ptr, fs). bufsize + 1 - i)") auto

declare readcmd_loop.simps [simp del]

definition storage_init_readcmd ::
  "'d storage_rwops \<Rightarrow> u8 list \<Rightarrow> nat \<Rightarrow> bool \<Rightarrow> u16 \<Rightarrow> 'd sdbfs \<Rightarrow> (int \<times> u8 list \<times> u16 \<times> 'd sdbfs) option" where
  "storage_init_readcmd ops buf bufsize next ptr fs =
     (let (r, fs) = sdbfs_open_id ops SDB_VENDOR SDB_DEV_INIT fs in
      if r < 0 then Some (- 1, buf, ptr, fs)
      else
        map_option (\<lambda>(ret, buf, ptr, fs). (ret, buf, ptr, sdbfs_close fs))
          (readcmd_loop ops bufsize 0 buf (if \<not> next then 2 else ptr) fs))"

subsection \<open>Specification notions\<close>

text \<open>The line of a command: its words with single spaces, and a newline.\<close>

fun script_line :: "u8 list list \<Rightarrow> u8 list" where
  "script_line [] = []"
| "script_line (w # ws) = w @ (if ws \<noteq> [] then 32 else 10) # script_line ws"

text \<open>A file with the script \<open>s\<close>: no erased byte in the script, only erased bytes behind it.\<close>

definition holds_script :: "u8 list \<Rightarrow> u8 list \<Rightarrow> bool" where
  "holds_script s bs \<longleftrightarrow> 2 + length s \<le> length bs \<and> take (length s) (drop 2 bs) = s \<and> 0xff \<notin> set s \<and> blank (drop (2 + length s) bs)"


section \<open>Facts\<close>

lemma holds_scriptE:
  assumes "holds_script s bs"
  obtains h where "bs = h @ s @ replicate (length bs - 2 - length s) 0xff" "length h = 2"
proof -
  from assms have "blank (drop (2 + length s) bs)" by (simp add: holds_script_def)
  then have "drop (2 + length s) bs = replicate (length bs - 2 - length s) 0xff"
    by (intro replicate_eqI) (auto simp: blank_def list_all_iff)
  moreover have "bs = take 2 bs @ take (length s) (drop 2 bs) @ drop (2 + length s) bs"
    by (metis append_take_drop_id drop_drop add.commute)
  ultimately have "bs = take 2 bs @ s @ replicate (length bs - 2 - length s) 0xff" using assms by (simp add: holds_script_def)
  then show ?thesis using assms by (intro that [of "take 2 bs"]) (simp_all add: holds_script_def)
qed

lemma holds_scriptI: "\<lbrakk>length h = 2; 0xff \<notin> set s; blank r\<rbrakk> \<Longrightarrow> holds_script s (h @ s @ r)"
  by (simp add: holds_script_def)

lemma uint_u16: "n < 65536 \<Longrightarrow> uint (of_nat n :: u16) = int n"
  by (simp add: unsigned_of_nat take_bit_nat_eq_self of_nat_eq_iff)

text \<open>The end of the script is found.\<close>

lemma used_loop_finds:
  assumes "file_open mem ops did p fs" "file_bytes mem p fs = h @ s @ rest" "length h = 2" "0xff \<notin> set s" "blank rest"
    "length s < 65536" "j \<le> length s"
  shows "\<exists>fs'. used_loop ops (of_nat j) byte fs = Some (of_nat (length s), fs') \<and> file_open mem ops did p fs'
    \<and> file_bytes mem p fs' = file_bytes mem p fs"
  using assms
proof (induction "length s - j" arbitrary: j byte fs)
  case 0
  then have j: "j = length s" by simp
  have u: "2 + uint (of_nat j :: u16) = int (2 + length s)" using 0 j by (simp add: uint_u16)
  show ?case
  proof (cases rest)
    case Nil
    then have n: "2 + length s = length (file_bytes mem p fs)" using 0 by simp
    from sdb.read_short_law [OF 0(2), of "2 + length s" 1] n obtain fs' where
      "sdbfs_fread ops (int (2 + length s)) 1 fs = ((0, []), fs')" "file_open mem ops did p fs'" "file_bytes mem p fs' = file_bytes mem p fs" by auto
    then show ?thesis using u j by (subst used_loop.simps) simp
  next
    case (Cons r rs)
    then have "2 + length s < length (file_bytes mem p fs)" "file_bytes mem p fs ! (2 + length s) = 0xff"
      using 0 by (simp_all add: nth_append blank_def)
    from sdb.read_byte [OF 0(2) this(1)] this(2) obtain fs' where
      "sdbfs_fread ops (int (2 + length s)) 1 fs = ((1, [0xff]), fs')" "file_open mem ops did p fs'" "file_bytes mem p fs' = file_bytes mem p fs" by auto
    then show ?thesis using u j by (subst used_loop.simps) (simp add: overlay_def)
  qed
next
  case (Suc k)
  have j: "j < length s" using Suc.hyps(2) by simp
  then have "2 + j < length (file_bytes mem p fs)" "file_bytes mem p fs ! (2 + j) = s ! j"
    using Suc.prems by (simp_all add: nth_append)
  from sdb.read_byte [OF Suc.prems(1) this(1)] this(2) obtain f1 where
    f1: "sdbfs_fread ops (int (2 + j)) 1 fs = ((1, [s ! j]), f1)" "file_open mem ops did p f1" "file_bytes mem p f1 = file_bytes mem p fs" by auto
  have "s ! j \<noteq> 0xff" using j Suc.prems(4) nth_mem by metis
  moreover have "2 + uint (of_nat j :: u16) = int (2 + j)" using j Suc.prems(6) by (simp add: uint_u16)
  ultimately have "used_loop ops (of_nat j) byte fs = used_loop ops (of_nat (Suc j)) (s ! j) f1"
    using f1(1) by (subst used_loop.simps) (simp add: overlay_def add.commute)
  moreover have "k = length s - Suc j" "Suc j \<le> length s" using Suc.hyps(2) j by simp_all
  ultimately show ?case using Suc.hyps(1) [of "Suc j" f1 "s ! j"] Suc.prems f1(2,3) by simp
qed

text \<open>The words are written behind the script.\<close>

lemma patch_append:
  "length a = i \<Longrightarrow> length c = length b \<Longrightarrow> patch (a @ b @ r) i c = a @ c @ r"
  by (simp add: patch_def)

lemma write_erased:
  assumes "file_open mem ops did p fs" "file_bytes mem p fs = a @ replicate n 0xff" "length bs \<le> n" "int (length a) = i"
  shows "\<exists>fs'. sdbfs_fwrite ops i bs (int (length bs)) fs = (int (length bs), fs') \<and> file_open mem ops did p fs'
    \<and> file_bytes mem p fs' = (a @ bs) @ replicate (n - length bs) 0xff"
proof -
  have n: "replicate n (0xff :: u8) = replicate (length bs) 0xff @ replicate (n - length bs) 0xff"
    using assms(3) by (simp add: replicate_add [symmetric])
  have "blank (take (length bs) (drop (length a) (file_bytes mem p fs)))" "length a + length bs \<le> length (file_bytes mem p fs)"
    using assms(2,3) by (simp_all add: blank_def list_all_iff)
  from sdb.write_blank [OF assms(1) this(2,1)] show ?thesis
    using patch_append [of a "length a" bs "replicate (length bs) 0xff" "replicate (n - length bs) 0xff"]
    by (simp add: assms(2) assms(4) [symmetric] n)
qed

lemma length_script_line: "length (script_line ws) = sum_list (map length ws) + length ws"
  by (induction ws) simp_all

lemma add_words_appends:
  assumes "file_open mem ops did p fs" "file_bytes mem p fs = a @ replicate n 0xff" "length a = 2 + u" "u + length (script_line ws) < 65536"
    "length (script_line ws) \<le> n"
  shows "\<exists>fs'. add_words ops ws (of_nat u) fs = (True, of_nat (u + length (script_line ws)), fs') \<and> file_open mem ops did p fs'
    \<and> file_bytes mem p fs' = (a @ script_line ws) @ replicate (n - length (script_line ws)) 0xff"
  using assms
proof (induction ws arbitrary: fs a n u)
  case Nil
  then show ?case by simp
next
  case (Cons w ws)
  let ?c = "if ws \<noteq> [] then 32 else 10 :: u8"
  have len: "length (script_line (w # ws)) = length w + 1 + length (script_line ws)" by simp
  have at: "int (length a) = 2 + uint (of_nat u :: u16)" using Cons.prems(3,4) by (simp add: uint_u16)
  obtain f1 where f1: "sdbfs_fwrite ops (2 + uint (of_nat u :: u16)) w (int (length w)) fs = (int (length w), f1)"
    "file_open mem ops did p f1" "file_bytes mem p f1 = (a @ w) @ replicate (n - length w) 0xff"
    using write_erased [OF Cons.prems(1,2) _ at, of w] Cons.prems(5) len by auto
  have at1: "int (length (a @ w)) = 2 + uint (of_nat (u + length w) :: u16)" using Cons.prems(3,4) len by (simp only: uint_u16) simp
  obtain f2 where f2: "sdbfs_fwrite ops (2 + uint (of_nat (u + length w) :: u16)) [?c] 1 f1 = (1, f2)"
    "file_open mem ops did p f2" "file_bytes mem p f2 = (a @ w @ [?c]) @ replicate (n - length w - 1) 0xff"
  proof -
    have "length [?c] \<le> n - length w" using Cons.prems(5) len by simp
    from write_erased [OF f1(2,3) this at1] show ?thesis by (auto intro: that)
  qed
  have "add_words ops (w # ws) (of_nat u) fs = add_words ops ws (of_nat (u + length w + 1)) f2"
    using f1(1) f2(1) by (simp add: Let_def ac_simps)
  moreover have "\<exists>fs'. add_words ops ws (of_nat (u + length w + 1)) f2 = (True, of_nat (u + length w + 1 + length (script_line ws)), fs') \<and> file_open mem ops did p fs'
    \<and> file_bytes mem p fs' = ((a @ w @ [?c]) @ script_line ws) @ replicate (n - length w - 1 - length (script_line ws)) 0xff"
    using Cons.prems len by (intro Cons.IH [OF f2(2,3)]) auto
  ultimately show ?case by (simp add: add.assoc diff_diff_left)
qed


lemma init_add_appends:
  assumes f: "has_file mem ops SDB_DEV_INIT p fs" and b: "holds_script s (file_bytes mem p fs)" "length s \<le> 256"
    and w: "0xff \<notin> set (script_line ws)" "2 + length s + length (script_line ws) \<le> length (file_bytes mem p fs)"
      "length (script_line ws) < 65000"
  shows "\<exists>fs'. storage_init_add ops le (arg0 # ws) byte fs = Some (0, fs') \<and> has_file mem ops SDB_DEV_INIT p fs'
    \<and> holds_script (s @ script_line ws) (file_bytes mem p fs')"
proof -
  let ?n = "length (file_bytes mem p fs) - 2 - length s" and ?L = "script_line ws"
  obtain h where h: "file_bytes mem p fs = h @ s @ replicate ?n 0xff" "length h = 2" using holds_scriptE [OF b(1)] .
  obtain f0 where f0: "sdbfs_open_id ops SDB_VENDOR SDB_DEV_INIT fs = (0, f0)" "file_open mem ops SDB_DEV_INIT p f0"
    "file_bytes mem p f0 = file_bytes mem p fs" using sdb.open_law [OF f] by auto
  obtain f1 where f1: "used_loop ops 0 byte f0 = Some (of_nat (length s), f1)" "file_open mem ops SDB_DEV_INIT p f1"
    "file_bytes mem p f1 = (h @ s) @ replicate ?n 0xff"
    using used_loop_finds [OF f0(2), of h s "replicate ?n 0xff" 0 byte] h b f0(3) by (auto simp: holds_script_def blank_def list_all_iff)
  have "of_nat (length s) \<le> (256 :: u16)" using b(2) by (simp add: word_le_nat_alt unat_of_nat)
  then have u: "(if of_nat (length s) > (256 :: u16) then 0 else of_nat (length s)) = (of_nat (length s) :: u16)" by (simp add: not_less [symmetric])
  obtain f2 where f2: "add_words ops ws (of_nat (length s)) f1 = (True, of_nat (length s + length ?L), f2)" "file_open mem ops SDB_DEV_INIT p f2"
    "file_bytes mem p f2 = ((h @ s) @ ?L) @ replicate (?n - length ?L) 0xff"
  proof -
    have "length (h @ s) = 2 + length s" "length s + length ?L < 65536" "length ?L \<le> ?n" using h(2) b(2) w by simp_all
    from add_words_appends [OF f1(2,3) this] show ?thesis by (blast intro: that)
  qed
  let ?z = "(if le then rev else id) (be_bytes 2 (uint (of_nat (length s + length ?L) :: u16)))"
  have z: "length ?z = 2" by simp
  obtain f3 c where f3: "sdbfs_fwrite ops 0 ?z 2 f2 = (2, f3)" "file_open mem ops SDB_DEV_INIT p f3" "length c = 2"
    "file_bytes mem p f3 = patch (file_bytes mem p f2) 0 c"
    using sdb.write_law [OF f2(2), of 0 ?z] h(2) unfolding z f2(3) by auto
  have b3: "file_bytes mem p f3 = c @ (s @ ?L) @ replicate (?n - length ?L) 0xff" using f3(3) h(2) by (simp add: f3(4) f2(3) patch_def)
  obtain x f4 where f4: "sdbfs_fread ops 0 2 f3 = ((2, x), f4)" "file_open mem ops SDB_DEV_INIT p f4" "file_bytes mem p f4 = file_bytes mem p f3"
    using sdb.read_law [OF f3(2), of 0 2] f3(3) unfolding b3 by auto
  have "storage_init_add ops le (arg0 # ws) byte fs = Some (0, sdbfs_close f4)"
    unfolding storage_init_add_def using f0(1) f1(1) f2(1) f3(1) f4(1) by (simp add: u Let_def)
  moreover have "holds_script (s @ ?L) (file_bytes mem p f4)"
    unfolding f4(3) b3 using f3(3) b(1) w(1) by (intro holds_scriptI) (auto simp: holds_script_def blank_def list_all_iff)
  ultimately show ?thesis using sdb.close_law [OF f4(2)] by auto
qed

text \<open>Reading a line.\<close>

lemma store_byte_at: "i < length buf \<Longrightarrow> store_bytes buf i [b] = Some (buf[i := b])"
  by (simp add: store_bytes_def upd_conv_take_nth_drop)

lemma load_update: "i < length buf \<Longrightarrow> load (buf[i := b]) i = Some b"
  by (simp add: load_def)

lemma readcmd_step:
  assumes "file_open mem ops did p fs" "at < length (file_bytes mem p fs)" "at < 65536" "i \<le> bufsize" "i < length buf"
  shows "\<exists>fs'. file_open mem ops did p fs' \<and> file_bytes mem p fs' = file_bytes mem p fs \<and>
    readcmd_loop ops bufsize i buf (of_nat at) fs =
      (let c = file_bytes mem p fs ! at in
       if c = 0xff then Some (int i, buf[i := c], of_nat (Suc at), fs')
       else if c \<noteq> 10 then readcmd_loop ops bufsize (Suc i) (buf[i := c]) (of_nat (Suc at)) fs'
       else Some (int i + 1, buf[i := c], of_nat (Suc at), fs'))"
proof -
  obtain fs' where "sdbfs_fread ops (int at) 1 fs = ((1, [file_bytes mem p fs ! at]), fs')" "file_open mem ops did p fs'"
    "file_bytes mem p fs' = file_bytes mem p fs" using sdb.read_byte [OF assms(1,2)] by blast
  moreover have "uint (of_nat at :: u16) = int at" using assms(3) by (rule uint_u16)
  ultimately show ?thesis using assms(4,5)
    by (intro exI [of _ fs']) (simp add: readcmd_loop.simps [of ops bufsize i] store_byte_at load_update Let_def add.commute)
qed

lemma readcmd_line:
  assumes "file_open mem ops did p fs" "file_bytes mem p fs = a @ l @ 10 # rest" "10 \<notin> set l" "0xff \<notin> set l"
    "i + length l \<le> bufsize" "i + length l < length buf" "length a + length l < 65536"
  shows "\<exists>fs'. readcmd_loop ops bufsize i buf (of_nat (length a)) fs =
      Some (int i + int (length l) + 1, take i buf @ l @ 10 # drop (i + length l + 1) buf, of_nat (length a + length l + 1), fs')
    \<and> file_open mem ops did p fs' \<and> file_bytes mem p fs' = file_bytes mem p fs"
  using assms
proof (induction l arbitrary: a i buf fs)
  case Nil
  then obtain fs' where "file_open mem ops did p fs'" "file_bytes mem p fs' = file_bytes mem p fs"
    "readcmd_loop ops bufsize i buf (of_nat (length a)) fs = Some (int i + 1, buf[i := 10], of_nat (Suc (length a)), fs')"
    using readcmd_step [OF Nil.prems(1), of "length a" i bufsize buf] by (auto simp: Let_def)
  then show ?case using Nil.prems by (auto simp: upd_conv_take_nth_drop)
next
  case (Cons c l)
  then obtain f1 where f1: "file_open mem ops did p f1" "file_bytes mem p f1 = file_bytes mem p fs"
    "readcmd_loop ops bufsize i buf (of_nat (length a)) fs = readcmd_loop ops bufsize (Suc i) (buf[i := c]) (of_nat (Suc (length a))) f1"
    using readcmd_step [OF Cons.prems(1), of "length a" i bufsize buf] by (auto simp: Let_def)
  have "\<exists>fs'. readcmd_loop ops bufsize (Suc i) (buf[i := c]) (of_nat (length (a @ [c]))) f1 =
      Some (int (Suc i) + int (length l) + 1, take (Suc i) (buf[i := c]) @ l @ 10 # drop (Suc i + length l + 1) (buf[i := c]), of_nat (length (a @ [c]) + length l + 1), fs')
    \<and> file_open mem ops did p fs' \<and> file_bytes mem p fs' = file_bytes mem p f1"
    using Cons.prems f1(2) by (intro Cons.IH [OF f1(1)]) auto
  moreover have "take (Suc i) (buf[i := c]) = take i buf @ [c]" using Cons.prems(6) by (simp add: take_Suc_conv_app_nth)
  ultimately show ?case using f1(2,3) by (simp add: algebra_simps)
qed


lemma readcmd_next:
  assumes "has_file mem ops SDB_DEV_INIT p fs" "file_bytes mem p fs = a @ l @ 10 # rest" "10 \<notin> set l" "0xff \<notin> set l"
    "length l \<le> bufsize" "length l < length buf" "length a + length l < 65536" "(if \<not> next then 2 else ptr) = of_nat (length a)"
  shows "\<exists>fs'. storage_init_readcmd ops buf bufsize next ptr fs =
      Some (int (length l) + 1, l @ 10 # drop (length l + 1) buf, of_nat (length a + length l + 1), fs')
    \<and> has_file mem ops SDB_DEV_INIT p fs' \<and> file_bytes mem p fs' = file_bytes mem p fs"
proof -
  obtain f0 where f0: "sdbfs_open_id ops SDB_VENDOR SDB_DEV_INIT fs = (0, f0)" "file_open mem ops SDB_DEV_INIT p f0"
    "file_bytes mem p f0 = file_bytes mem p fs" using sdb.open_law [OF assms(1)] by auto
  obtain f1 where "readcmd_loop ops bufsize 0 buf (of_nat (length a)) f0 =
      Some (int (length l) + 1, l @ 10 # drop (length l + 1) buf, of_nat (length a + length l + 1), f1)"
    "file_open mem ops SDB_DEV_INIT p f1" "file_bytes mem p f1 = file_bytes mem p fs"
    using readcmd_line [OF f0(2), of a l rest 0 bufsize buf] assms f0(3) by auto
  then show ?thesis using f0(1) sdb.close_law [of mem ops SDB_DEV_INIT p f1] assms(8) by (auto simp: storage_init_readcmd_def)
qed

lemma readcmd_end:
  assumes "has_file mem ops SDB_DEV_INIT p fs" "file_bytes mem p fs = a @ rest" "blank rest" "length a < 65536" "0 < length buf"
    "(if \<not> next then 2 else ptr) = of_nat (length a)"
  shows "\<exists>r buf' ptr' fs'. storage_init_readcmd ops buf bufsize next ptr fs = Some (r, buf', ptr', fs') \<and> r \<le> 0
    \<and> length buf' = length buf \<and> drop 1 buf' = drop 1 buf \<and> has_file mem ops SDB_DEV_INIT p fs' \<and> file_bytes mem p fs' = file_bytes mem p fs"
proof -
  obtain f0 where f0: "sdbfs_open_id ops SDB_VENDOR SDB_DEV_INIT fs = (0, f0)" "file_open mem ops SDB_DEV_INIT p f0"
    "file_bytes mem p f0 = file_bytes mem p fs" using sdb.open_law [OF assms(1)] by auto
  have "\<exists>r buf' f1. readcmd_loop ops bufsize 0 buf (of_nat (length a)) f0 = Some (r, buf', of_nat (length a) + 1, f1) \<and> r \<le> 0
    \<and> length buf' = length buf \<and> drop 1 buf' = drop 1 buf
    \<and> file_open mem ops SDB_DEV_INIT p f1 \<and> file_bytes mem p f1 = file_bytes mem p fs"
  proof (cases rest)
    case Nil
    then have n: "length a = length (file_bytes mem p f0)" using assms(2) f0(3) by simp
    from sdb.read_short_law [OF f0(2), of "length a" 1] n obtain f1 where
      "sdbfs_fread ops (int (length a)) 1 f0 = ((0, []), f1)" "file_open mem ops SDB_DEV_INIT p f1" "file_bytes mem p f1 = file_bytes mem p f0" by auto
    moreover have "store_bytes buf 0 [] = Some buf" by (simp add: store_bytes_def)
    ultimately show ?thesis using assms(4) f0(3) by (simp add: readcmd_loop.simps uint_u16)
  next
    case (Cons b bs)
    then have "file_bytes mem p f0 ! length a = 0xff" "length a < length (file_bytes mem p f0)"
      using assms(2,3) f0(3) by (simp_all add: blank_def)
    then show ?thesis using readcmd_step [OF f0(2), of "length a" 0 bufsize buf] assms(4,5) f0(3) by (auto simp: Let_def add.commute)
  qed
  then obtain r buf' f1 where "readcmd_loop ops bufsize 0 buf (of_nat (length a)) f0 = Some (r, buf', of_nat (length a) + 1, f1)" "r \<le> 0"
    "length buf' = length buf" "drop 1 buf' = drop 1 buf" "file_open mem ops SDB_DEV_INIT p f1" "file_bytes mem p f1 = file_bytes mem p fs" by blast
  then show ?thesis using f0(1) sdb.close_law [of mem ops SDB_DEV_INIT p f1] assms(6) by (auto simp: storage_init_readcmd_def)
qed

text \<open>Erasing leaves an empty script.\<close>

lemma init_erase_empty:
  assumes "has_file mem ops SDB_DEV_INIT p fs" "2 \<le> length (file_bytes mem p fs)"
  shows "\<exists>fs'. storage_init_erase ops fs = (0, fs') \<and> has_file mem ops SDB_DEV_INIT p fs' \<and> holds_script [] (file_bytes mem p fs')
    \<and> length (file_bytes mem p fs') = length (file_bytes mem p fs)"
proof -
  obtain f0 where f0: "sdbfs_open_id ops SDB_VENDOR SDB_DEV_INIT fs = (0, f0)" "file_open mem ops SDB_DEV_INIT p f0"
    "file_bytes mem p f0 = file_bytes mem p fs" using sdb.open_law [OF assms(1)] by auto
  obtain f1 where f1: "sdbfs_ferase ops 0 (sint (fs_f_len f0)) f0 = (sint (fs_f_len f0), f1)" "file_open mem ops SDB_DEV_INIT p f1"
    "file_bytes mem p f1 = replicate (length (file_bytes mem p f0)) 0xff" using sdb.erase_all [OF f0(2)] unfolding file_len_sint [OF f0(2)] by blast
  have "fs_f_len f1 = fs_f_len f0" using file_openD(4) [OF f1(2)] file_openD(4) [OF f0(2)] by (simp add: word_uint_eq_iff)
  then have "storage_init_erase ops fs = (0, sdbfs_close f1)" using f0(1) f1(1) by (simp add: storage_init_erase_def)
  moreover have "holds_script [] (file_bytes mem p f1)" using assms(2) f1(3) f0(3) by (simp add: holds_script_def blank_def list_all_iff)
  ultimately show ?thesis using sdb.close_law [OF f1(2)] f1(3) f0(3) by simp
qed

text \<open>Adding one command after the other.\<close>

definition add_command :: "'d storage_rwops \<Rightarrow> bool \<Rightarrow> u8 list list \<Rightarrow> 'd sdbfs \<Rightarrow> 'd sdbfs option" where
  "add_command ops le ws fs =
     (case storage_init_add ops le (str_bytes ''add'' # ws) 0 fs of
        None \<Rightarrow> None
      | Some (r, fs) \<Rightarrow> if r = 0 then Some fs else None)"

definition script :: "u8 list list list \<Rightarrow> u8 list" where
  "script css = concat (map script_line css)"

lemma add_commands:
  assumes "has_file mem ops SDB_DEV_INIT p fs" "holds_script s (file_bytes mem p fs)" "0xff \<notin> set (script css)"
    "length s + length (script css) \<le> 256" "2 + length s + length (script css) \<le> nat (p_len p)"
  shows "\<exists>fs'. for_each (add_command ops le) css fs = Some fs' \<and> has_file mem ops SDB_DEV_INIT p fs'
    \<and> holds_script (s @ script css) (file_bytes mem p fs')"
  using assms
proof (induction css arbitrary: s fs)
  case Nil
  then show ?case by (simp add: script_def)
next
  case (Cons ws css)
  have sc: "script (ws # css) = script_line ws @ script css" by (simp add: script_def)
  obtain f1 where f1: "storage_init_add ops le (str_bytes ''add'' # ws) 0 fs = Some (0, f1)" "has_file mem ops SDB_DEV_INIT p f1"
    "holds_script (s @ script_line ws) (file_bytes mem p f1)"
    using init_add_appends [OF Cons.prems(1,2), of ws le "str_bytes ''add''" 0] Cons.prems(3-5) by (auto simp: sc length_file_bytes)
  have "\<exists>fs'. for_each (add_command ops le) css f1 = Some fs' \<and> has_file mem ops SDB_DEV_INIT p fs'
    \<and> holds_script ((s @ script_line ws) @ script css) (file_bytes mem p fs')"
    using Cons.prems(3-5) by (intro Cons.IH [OF f1(2,3)]) (auto simp: sc)
  moreover have "add_command ops le ws fs = Some f1" using f1(1) by (simp add: add_command_def)
  ultimately show ?case by (simp add: sc)
qed

end
