(* ===== verification/Printf.thy ===== *)
theory Printf
  imports Div64 "HOL-Library.Monad_Syntax"
begin

text \<open>
  \<^verbatim>\<open>pp_printf/vsprintf-full.c\<close>, the formatter behind all the console output of the firmware and behind \<open>format_time\<close>. The
  output is the string written to the buffer, without the final zero; \<open>None\<close> stands for what C leaves undefined: a missing
  argument, or one of another type than the conversion asks for. \<open>int\<close>, \<open>long\<close>, \<open>size_t\<close> and pointers have 32 bits.

  Results: the digits of a number are the digits of the positional system, they fit the buffer of the code, reading them back
  gives the number (with \<^verbatim>\<open>lib/util.c\<close>, in the theory \<open>Util\<close>); a field is never shorter than its width.
\<close>

unbundle bit_operations_syntax

section \<open>Definitions\<close>

definition ZEROPAD :: u32 where "ZEROPAD = 1"
definition SIGN :: u32 where "SIGN = 2"
definition PLUS :: u32 where "PLUS = 4"
definition SPACE :: u32 where "SPACE = 8"
definition LEFT :: u32 where "LEFT = 16"
definition SMALL :: u32 where "SMALL = 32"
definition SPECIAL :: u32 where "SPECIAL = 64"

definition flag :: "u32 \<Rightarrow> u32 \<Rightarrow> bool" where
  "flag flags f \<longleftrightarrow> flags AND f \<noteq> 0"

definition do_div :: "nat \<Rightarrow> nat \<Rightarrow> (nat \<times> nat) option" where
  "do_div n base =
     (if n div 4294967296 = 0 then (if base = 0 then None else Some (n div base, n mod base)) else div64_32 n base)"

definition is_digit :: "char \<Rightarrow> bool" where
  "is_digit c \<longleftrightarrow> (of_char c :: nat) \<ge> 48 \<and> (of_char c :: nat) \<le> 57"

text \<open>\<open>digits[r] | locase\<close>, in a table of 16 characters.\<close>

definition digit_char :: "nat \<Rightarrow> nat \<Rightarrow> char option" where
  "digit_char locase r = map_option (\<lambda>d. char_of (of_char d OR locase :: nat)) (load ''0123456789ABCDEF'' r)"

text \<open>The digits, the last one first. With a base below 2 the loop would not end; there is no result then.\<close>

function number_digits :: "nat \<Rightarrow> nat \<Rightarrow> nat \<Rightarrow> string option" where
  "number_digits base locase num =
     (case do_div num base of
        None \<Rightarrow> None
      | Some (q, r) \<Rightarrow>
          (case digit_char locase r of
             None \<Rightarrow> None
           | Some d \<Rightarrow>
               (if q = 0 then Some [d]
                else if q < num then map_option ((#) d) (number_digits base locase q) else None)))"
  by pat_completeness auto
termination
  by (relation "measure (\<lambda>(base, locase, num). num)") auto

declare number_digits.simps [simp del]

text \<open>\<open>while (--size >= 0) *buf++ = c\<close>: what is written, and the size after it.\<close>

definition pad :: "char \<Rightarrow> int \<Rightarrow> string \<times> int" where
  "pad c sz = (replicate (nat sz) c, min sz 0 - 1)"

text \<open>The sign character, the magnitude and the remaining field size; \<open>num\<close> is a 64-bit pattern.\<close>

definition number_sign :: "u32 \<Rightarrow> nat \<Rightarrow> int \<Rightarrow> string \<times> nat \<times> int" where
  "number_sign ty num sz =
     (if flag ty SIGN then
        (if num \<ge> 9223372036854775808 then (''-'', 18446744073709551616 - num, sz - 1)
         else if flag ty PLUS then (''+'', num, sz - 1)
         else if flag ty SPACE then ('' '', num, sz - 1)
         else ([], num, sz))
      else ([], num, sz))"

definition number :: "nat \<Rightarrow> nat \<Rightarrow> int \<Rightarrow> int \<Rightarrow> u32 \<Rightarrow> string option" where
  "number num base sz precision ty = do {
     let need_pfx = (flag ty SPECIAL \<and> base \<noteq> 10);
     let locase = unat (ty AND SMALL);
     let ty = (if flag ty LEFT then ty AND NOT ZEROPAD else ty);
     let (sign, num, sz) = number_sign ty num sz;
     let sz = (if need_pfx then (if base = 16 then sz - 2 else sz - 1) else sz);
     tmp \<leftarrow> (if num = 0 then Some ''0'' else number_digits base locase num);
     let precision = max precision (int (length tmp));
     let sz = sz - precision;
     let (lead, sz) = (if ty AND (ZEROPAD + LEFT) = 0 then pad CHR '' '' sz else ([], sz));
     let pfx = (if need_pfx then (if base = 16 then [CHR ''0'', char_of (of_char (CHR ''X'') OR locase :: nat)] else ''0'') else []);
     let (fill, sz) = (if flag ty LEFT then ([], sz) else pad (if flag ty ZEROPAD then CHR ''0'' else CHR '' '') sz);
     let zeros = replicate (nat (precision - int (length tmp))) CHR ''0'';
     let (trail, sz) = pad CHR '' '' sz;
     Some (lead @ sign @ pfx @ fill @ zeros @ rev tmp @ trail)
   }"

text \<open>A null pointer is printed as \<open><NULL>\<close>; a negative precision, as \<open>size_t\<close>, is no limit.\<close>

definition string_field :: "string option \<Rightarrow> int \<Rightarrow> int \<Rightarrow> u32 \<Rightarrow> string" where
  "string_field s field_width precision flags =
     (let s = (case s of None \<Rightarrow> ''<NULL>'' | Some s \<Rightarrow> s);
          s = (if precision < 0 then s else take (nat precision) s);
          n = int (length s);
          (lead, fw) = (if flag flags LEFT then ([], field_width) else (replicate (nat (field_width - n)) CHR '' '', min field_width n - 1));
          trail = replicate (nat (fw - n)) CHR '' ''
      in lead @ s @ trail)"

subsection \<open>The format string\<close>

datatype va_arg = VInt u32 | VLong64 "64 word" | VStr "string option" | VPtr nat

fun format_flags :: "string \<Rightarrow> u32 \<Rightarrow> string \<times> u32" where
  "format_flags [] flags = ([], flags)"
| "format_flags (c # fmt) flags =
     (if c = CHR ''-'' then format_flags fmt (flags OR LEFT)
      else if c = CHR ''+'' then format_flags fmt (flags OR PLUS)
      else if c = CHR '' '' then format_flags fmt (flags OR SPACE)
      else if c = CHR ''#'' then format_flags fmt (flags OR SPECIAL)
      else if c = CHR ''0'' then format_flags fmt (flags OR ZEROPAD)
      else (c # fmt, flags))"

fun skip_atoi :: "int \<Rightarrow> string \<Rightarrow> int \<times> string" where
  "skip_atoi i [] = (i, [])"
| "skip_atoi i (c # s) = (if is_digit c then skip_atoi (i32 (i * 10 + of_char c - 48)) s else (i, c # s))"

fun next_int :: "va_arg list \<Rightarrow> (int \<times> va_arg list) option" where
  "next_int (VInt w # args) = Some (sint w, args)"
| "next_int args = None"

definition format_width :: "string \<Rightarrow> va_arg list \<Rightarrow> u32 \<Rightarrow> (int \<times> string \<times> va_arg list \<times> u32) option" where
  "format_width fmt args flags =
     (case fmt of
        [] \<Rightarrow> Some (- 1, fmt, args, flags)
      | c # r \<Rightarrow>
          (if is_digit c then (let (w, r) = skip_atoi 0 fmt in Some (w, r, args, flags))
           else if c = CHR ''*'' then
             map_option (\<lambda>(w, args). if w < 0 then (i32 (- w), r, args, flags OR LEFT) else (w, r, args, flags)) (next_int args)
           else Some (- 1, fmt, args, flags)))"

definition format_precision :: "string \<Rightarrow> va_arg list \<Rightarrow> (int \<times> string \<times> va_arg list) option" where
  "format_precision fmt args =
     (case fmt of
        c # r \<Rightarrow>
          (if c = CHR ''.'' then
             map_option (\<lambda>(p, r, args). (max p 0, r, args))
               (case r of
                  [] \<Rightarrow> Some (- 1, r, args)
                | d # r' \<Rightarrow>
                    (if is_digit d then (let (p, r) = skip_atoi 0 r in Some (p, r, args))
                     else if d = CHR ''*'' then map_option (\<lambda>(p, args). (p, r', args)) (next_int args)
                     else Some (- 1, r, args)))
           else Some (- 1, fmt, args))
      | [] \<Rightarrow> Some (- 1, fmt, args))"

definition format_qualifier :: "string \<Rightarrow> char option \<times> string" where
  "format_qualifier fmt =
     (case fmt of
        c # r \<Rightarrow>
          (if c \<in> set ''hlLZzt'' then
             (case r of
                d # r' \<Rightarrow> if c = CHR ''l'' \<and> d = CHR ''l'' then (Some CHR ''L'', r') else (Some c, r)
              | [] \<Rightarrow> (Some c, r))
           else (None, fmt))
      | [] \<Rightarrow> (None, fmt))"

text \<open>The value of an integer argument, as a 64-bit pattern.\<close>

definition va_num :: "char option \<Rightarrow> u32 \<Rightarrow> va_arg list \<Rightarrow> (nat \<times> va_arg list) option" where
  "va_num qualifier flags args =
     (if qualifier = Some CHR ''L'' then (case args of VLong64 w # args \<Rightarrow> Some (unat w, args) | _ \<Rightarrow> None)
      else
        (case args of
           VInt w # args \<Rightarrow>
             Some (if qualifier \<in> {Some CHR ''Z'', Some CHR ''z'', Some CHR ''t''} then unat w
                   else if qualifier = Some CHR ''h''
                   then (if flag flags SIGN then unat (scast (ucast w :: u16) :: 64 word) else unat (ucast w :: u16))
                   else (if flag flags SIGN then unat (scast w :: 64 word) else unat w), args)
         | _ \<Rightarrow> None))"

text \<open>
  One conversion: what it writes, the values it stores through pointers (\<open>so_far\<close> is the number of characters written before), and the
  arguments left. \<open>c = None\<close> is the end of the format.
\<close>

definition conversion ::
  "int \<Rightarrow> char option \<Rightarrow> int \<Rightarrow> int \<Rightarrow> char option \<Rightarrow> u32 \<Rightarrow> va_arg list \<Rightarrow> (string \<times> (nat \<times> int) list \<times> va_arg list) option" where
  "conversion so_far c field_width precision qualifier flags args =
     (case c of
        None \<Rightarrow> Some (''%'', [], args)
      | Some c \<Rightarrow>
          (if c = CHR ''c'' then
             (case args of
                VInt w # args \<Rightarrow>
                  (let sp = replicate (nat (field_width - 1)) CHR '' '' in
                   Some ((if flag flags LEFT then [char_of (unat w)] @ sp else sp @ [char_of (unat w)]), [], args))
              | _ \<Rightarrow> None)
           else if c = CHR ''s'' then
             (case args of VStr s # args \<Rightarrow> Some (string_field s field_width precision flags, [], args) | _ \<Rightarrow> None)
           else if c = CHR ''n'' then
             (case args of VPtr p # args \<Rightarrow> Some ([], [(p, so_far)], args) | _ \<Rightarrow> None)
           else if c = CHR ''%'' then Some (''%'', [], args)
           else if c \<notin> set ''opxXdiu'' then Some ([CHR ''%'', c], [], args)
           else
             (let field_width = (if c = CHR ''p'' then 8 else field_width);
                  flags = (if c = CHR ''p'' then flags OR ZEROPAD else flags);
                  flags = (if c \<in> set ''px'' then flags OR SMALL else flags);
                  flags = (if c \<in> set ''di'' then flags OR SIGN else flags);
                  base = (if c = CHR ''o'' then 8 else if c \<in> set ''pxX'' then 16 else 10)
              in case va_num qualifier flags args of
                   None \<Rightarrow> None
                 | Some (num, args) \<Rightarrow> map_option (\<lambda>s. (s, [], args)) (number num base field_width precision flags))))"

text \<open>Everything between the percent sign and the conversion character.\<close>

definition format_spec :: "string \<Rightarrow> va_arg list \<Rightarrow> (int \<times> int \<times> char option \<times> u32 \<times> string \<times> va_arg list) option" where
  "format_spec fmt args = do {
     let (fmt, flags) = format_flags fmt 0;
     (field_width, fmt, args, flags) \<leftarrow> format_width fmt args flags;
     (precision, fmt, args) \<leftarrow> format_precision fmt args;
     let (qualifier, fmt) = format_qualifier fmt;
     Some (field_width, precision, qualifier, flags, fmt, args)
   }"

lemma format_flags_length: "length (fst (format_flags fmt flags)) \<le> length fmt"
  by (induction fmt arbitrary: flags) (auto simp: le_SucI)

lemma skip_atoi_length: "length (snd (skip_atoi i s)) \<le> length s"
  by (induction s arbitrary: i) (auto simp: le_SucI)

lemma format_width_length: "format_width fmt args flags = Some (w, r, a, f) \<Longrightarrow> length r \<le> length fmt"
  using skip_atoi_length [of 0 fmt] by (auto simp: format_width_def split: list.splits if_splits prod.splits)

lemma format_precision_length: "format_precision fmt args = Some (p, r, a) \<Longrightarrow> length r \<le> length fmt"
  using skip_atoi_length [of 0 "tl fmt"]
  by (auto simp: format_precision_def split: list.splits if_splits prod.splits)

lemma format_qualifier_length: "length (snd (format_qualifier fmt)) \<le> length fmt"
  by (auto simp: format_qualifier_def split: list.splits)

lemma format_spec_length:
  assumes "format_spec fmt args = Some (w, p, q, f, r, a)"
  shows "length r \<le> length fmt"
proof -
  obtain fmt1 f1 where 1: "format_flags fmt 0 = (fmt1, f1)" by (rule prod.exhaust)
  from assms obtain fmt2 a2 fmt3 where 2: "format_width fmt1 args f1 = Some (w, fmt2, a2, f)"
    "format_precision fmt2 a2 = Some (p, fmt3, a)" "format_qualifier fmt3 = (q, r)"
    by (auto simp: format_spec_def 1 bind_eq_Some_conv case_prod_unfold Let_def prod_eq_iff)
  have "length r \<le> length fmt3" using format_qualifier_length [of fmt3] 2(3) by simp
  also have "\<dots> \<le> length fmt2" by (rule format_precision_length [OF 2(2)])
  also have "\<dots> \<le> length fmt1" by (rule format_width_length [OF 2(1)])
  also have "\<dots> \<le> length fmt" using format_flags_length [of fmt 0] 1 by simp
  finally show ?thesis .
qed

function vsprintf_loop :: "int \<Rightarrow> string \<Rightarrow> va_arg list \<Rightarrow> (string \<times> (nat \<times> int) list) option" where
  "vsprintf_loop so_far [] args = Some ([], [])"
| "vsprintf_loop so_far (c # fmt) args =
     (if c \<noteq> CHR ''%'' then map_option (\<lambda>(s, w). (c # s, w)) (vsprintf_loop (so_far + 1) fmt args)
      else
        (case format_spec fmt args of
           None \<Rightarrow> None
         | Some (field_width, precision, qualifier, flags, r, args) \<Rightarrow>
             (case conversion so_far (case r of [] \<Rightarrow> None | c # _ \<Rightarrow> Some c) field_width precision qualifier flags args of
                None \<Rightarrow> None
              | Some (s, w, args) \<Rightarrow>
                  map_option (\<lambda>(s', w'). (s @ s', w @ w')) (vsprintf_loop (so_far + int (length s)) (tl r) args))))"
  by pat_completeness auto
termination
  by (relation "measure (\<lambda>(n, fmt, args). length fmt)") (auto dest!: format_spec_length)

definition pp_vsprintf :: "string \<Rightarrow> va_arg list \<Rightarrow> (string \<times> (nat \<times> int) list) option" where
  "pp_vsprintf fmt args = vsprintf_loop 0 fmt args"

text \<open>The text only, for formats without \<open>%n\<close>.\<close>

definition pp_sprintf :: "string \<Rightarrow> va_arg list \<Rightarrow> string option" where
  "pp_sprintf fmt args = map_option fst (pp_vsprintf fmt args)"

section \<open>Facts\<close>

subsection \<open>Digits\<close>

text \<open>The value of a digit and of a string of digits.\<close>

definition hexval :: "char \<Rightarrow> nat" where
  "hexval c = (let n = of_char c in if n \<ge> 97 then n - 87 else if n \<ge> 65 then n - 55 else n - 48)"

definition digits_val :: "nat \<Rightarrow> string \<Rightarrow> nat" where
  "digits_val base ds = foldl (\<lambda>a c. a * base + hexval c) 0 ds"

definition hex_digit :: "char \<Rightarrow> bool" where
  "hex_digit c \<longleftrightarrow> (let n = (of_char c :: nat) in 48 \<le> n \<and> n \<le> 57 \<or> 65 \<le> n \<and> n \<le> 70 \<or> 97 \<le> n \<and> n \<le> 102)"

lemma do_div_spec: "n < 18446744073709551616 \<Longrightarrow> 0 < base \<Longrightarrow> base < 4294967296 \<Longrightarrow> do_div n base = Some (n div base, n mod base)"
  using div64_32_spec [of n base] by (simp add: do_div_def)

lemma digit_codes:
  "list_all (\<lambda>(r, l). let n = of_char (''0123456789ABCDEF'' ! r) OR l in n mod 256 = n \<and> 48 \<le> n
     \<and> (n \<le> 57 \<and> n - 48 = r \<or> r \<ge> 10 \<and> (97 \<le> n \<and> n \<le> 102 \<and> n - 87 = r \<or> 65 \<le> n \<and> n \<le> 70 \<and> n - 55 = r)))
   (List.product [0..<16] [0, 32])"
  by (simp add: upt_rec)

lemma digit_char_val:
  assumes r: "r < 16" and l: "locase = 0 \<or> locase = 32"
  obtains d where "digit_char locase r = Some d" "hexval d = r" "hex_digit d" "r < 10 \<longrightarrow> is_digit d"
proof -
  define n :: nat where "n = of_char (''0123456789ABCDEF'' ! r) OR locase"
  have "(r, locase) \<in> set (List.product [0..<16] [0, 32])" using r l by auto
  with digit_codes have n: "n mod 256 = n \<and> 48 \<le> n
     \<and> (n \<le> 57 \<and> n - 48 = r \<or> r \<ge> 10 \<and> (97 \<le> n \<and> n \<le> 102 \<and> n - 87 = r \<or> 65 \<le> n \<and> n \<le> 70 \<and> n - 55 = r))"
    unfolding list_all_iff Let_def n_def by fast
  then have c: "of_char (char_of n :: char) = n" by simp
  have d: "digit_char locase r = Some (char_of n)" using r by (simp add: digit_char_def load_def n_def del: nth_Cons')
  show ?thesis
    by (rule that [OF d]) (use n in \<open>auto simp: c hexval_def hex_digit_def is_digit_def Let_def\<close>)
qed

lemma digits_val_snoc [simp]: "digits_val base (ds @ [d]) = digits_val base ds * base + hexval d" "digits_val base [] = 0"
  by (simp_all add: digits_val_def)

text \<open>The digits of \<open>num\<close> in reverse order: their value, their number, no leading zero.\<close>

lemma number_digits_spec:
  assumes "2 \<le> base" "base \<le> 16" "locase = 0 \<or> locase = 32" "num < 18446744073709551616" "0 < num"
  shows "\<exists>ds. number_digits base locase num = Some ds \<and> digits_val base (rev ds) = num \<and> ds \<noteq> [] \<and> hexval (last ds) \<noteq> 0
    \<and> base ^ (length ds - 1) \<le> num \<and> list_all hex_digit ds \<and> (base \<le> 10 \<longrightarrow> list_all is_digit ds)"
  using assms
proof (induction num rule: less_induct)
  case (less num)
  have dd: "do_div num base = Some (num div base, num mod base)" using less.prems by (intro do_div_spec) simp_all
  have "num mod base < 16" using less.prems by (metis le_trans less_le_trans mod_less_divisor not_gr_zero not_numeral_le_zero)
  then obtain d where d: "digit_char locase (num mod base) = Some d" "hexval d = num mod base" "hex_digit d" "num mod base < 10 \<longrightarrow> is_digit d"
    using digit_char_val [OF _ less.prems(3)] by metis
  have b10: "base \<le> 10 \<Longrightarrow> is_digit d" using d(4) less.prems(1) by (metis le_trans less_le_trans mod_less_divisor not_gr_zero not_numeral_le_zero)
  show ?case
  proof (cases "num div base = 0")
    case True
    then have "num mod base = num" using less.prems by (simp add: div_eq_0_iff)
    then show ?thesis using dd d b10 True less.prems by (subst number_digits.simps) (simp add: digits_val_def)
  next
    case False
    have q: "num div base < num" "num div base < 18446744073709551616" using less.prems by (auto intro: le_less_trans [OF div_le_dividend])
    from less.IH [OF q(1) less.prems(1-3) q(2)] False obtain ds where
      ds: "number_digits base locase (num div base) = Some ds" "digits_val base (rev ds) = num div base" "ds \<noteq> []" "hexval (last ds) \<noteq> 0"
      "base ^ (length ds - 1) \<le> num div base" "list_all hex_digit ds" "base \<le> 10 \<longrightarrow> list_all is_digit ds" by auto
    have "base ^ (length (d # ds) - 1) = base ^ (length ds - 1) * base" using ds(3) by (cases ds) simp_all
    also have "\<dots> \<le> num div base * base" using ds(5) by simp
    also have "\<dots> \<le> num" by (simp add: div_times_less_eq_dividend)
    finally show ?thesis using dd d b10 ds q False by (subst number_digits.simps) simp
  qed
qed

lemma number_digits_bound:
  assumes "(8 :: nat) \<le> base" "base ^ (n - 1) \<le> num" "num < 18446744073709551616"
  shows "n \<le> 22"
proof (rule ccontr)
  assume "\<not> n \<le> 22"
  then have "22 \<le> n - 1" by simp
  then have "(8 :: nat) ^ 22 \<le> 8 ^ (n - 1)" by (rule power_increasing) simp
  also have "\<dots> \<le> base ^ (n - 1)" using assms(1) by (rule power_mono) simp
  finally have "(8 :: nat) ^ 22 \<le> num" using assms(2) by simp
  then show False using assms(3) by simp
qed

lemma digits_val_zeros [simp]: "digits_val base (replicate n CHR ''0'' @ ds) = digits_val base ds"
  by (induction n) (simp_all add: digits_val_def hexval_def)

subsection \<open>Fields\<close>

lemma flag_simps [simp]:
  "flag (ty AND NOT ZEROPAD) SIGN = flag ty SIGN" "flag (ty AND NOT ZEROPAD) PLUS = flag ty PLUS" "flag (ty AND NOT ZEROPAD) SPACE = flag ty SPACE"
  "flag (ty AND NOT ZEROPAD) LEFT = flag ty LEFT" "\<not> flag (ty AND NOT ZEROPAD) ZEROPAD"
  by (simp_all add: flag_def ZEROPAD_def SIGN_def PLUS_def SPACE_def LEFT_def and.assoc)

lemma no_pad_flags: "ty AND (ZEROPAD + LEFT) = 0 \<longleftrightarrow> \<not> flag ty ZEROPAD \<and> \<not> flag ty LEFT"
proof -
  have "ZEROPAD + LEFT = ZEROPAD OR LEFT" by (simp add: ZEROPAD_def LEFT_def)
  then show ?thesis by (simp add: flag_def bit.conj_disj_distrib or_eq_0_iff)
qed

lemma number_sign_clear [simp]: "number_sign (ty AND NOT ZEROPAD) num sz = number_sign ty num sz"
  by (simp add: number_sign_def)

lemma number_sign_size: "number_sign ty num sz = (sign, mag, sz') \<Longrightarrow> sz' = sz - int (length sign)"
  by (auto simp: number_sign_def split: if_splits)

lemma locase_cases: "unat (ty AND SMALL) = 0 \<or> unat (ty AND SMALL) = 32"
proof -
  have "ty AND 2 ^ 5 = (if bit ty 5 then 2 ^ 5 else 0)" by (intro bit_word_eqI) (auto simp only: bit_simps bit_0_eq bot_apply bot_bool_def split: if_splits)
  then show ?thesis by (simp add: SMALL_def split: if_splits)
qed

lemma max_nat_sum: "a + b + k + nat (sz - int a - int b - int k) = max (nat sz) (a + b + k)"
  by linarith

lemma number_spec:
  assumes num: "num < 18446744073709551616" and base: "base = 8 \<or> base = 10 \<or> base = 16"
    and sg: "number_sign ty num sz = (sign, mag, sz')"
  shows "\<exists>lead pfx fill ds trail. number num base sz precision ty = Some (lead @ sign @ pfx @ fill @ ds @ trail)
    \<and> digits_val base ds = mag \<and> list_all hex_digit ds \<and> (base \<noteq> 16 \<longrightarrow> list_all is_digit ds)
    \<and> ds \<noteq> [] \<and> length ds \<le> max (nat precision) 22
    \<and> length (lead @ sign @ pfx @ fill @ ds @ trail) = max (nat sz) (length sign + length pfx + length ds)
    \<and> length pfx = (if flag ty SPECIAL \<and> base \<noteq> 10 then (if base = 16 then 2 else 1) else 0)
    \<and> lead = replicate (length lead) CHR '' '' \<and> fill = replicate (length fill) CHR ''0'' \<and> trail = replicate (length trail) CHR '' ''
    \<and> (if flag ty LEFT then lead = [] \<and> fill = [] else if flag ty ZEROPAD then lead = [] \<and> trail = [] else fill = [] \<and> trail = [])"
proof -
  let ?l = "unat (ty AND SMALL)" and ?x = "flag ty SPECIAL \<and> base \<noteq> 10"
  have mag: "mag < 18446744073709551616" using sg num by (auto simp: number_sign_def split: if_splits)
  obtain tmp where tmp: "(if mag = 0 then Some ''0'' else number_digits base ?l mag) = Some tmp" "digits_val base (rev tmp) = mag"
    "tmp \<noteq> []" "length tmp \<le> 22" "list_all hex_digit tmp" "base \<noteq> 16 \<longrightarrow> list_all is_digit tmp"
  proof (cases "mag = 0")
    case True
    then show ?thesis by (intro that [of "''0''"]) (simp_all add: digits_val_def hexval_def hex_digit_def is_digit_def)
  next
    case False
    have "2 \<le> base" "base \<le> 16" "8 \<le> base" using base by auto
    with number_digits_spec [of base ?l mag] locase_cases mag False obtain ds where
      "number_digits base ?l mag = Some ds" "digits_val base (rev ds) = mag" "ds \<noteq> []" "base ^ (length ds - 1) \<le> mag"
      "list_all hex_digit ds" "base \<le> 10 \<longrightarrow> list_all is_digit ds" by auto
    then show ?thesis using False number_digits_bound [OF \<open>8 \<le> base\<close> _ mag] base by (intro that [of ds]) auto
  qed
  define ds where "ds = replicate (nat (max precision (int (length tmp)) - int (length tmp))) CHR ''0'' @ rev tmp"
  have ds: "digits_val base ds = mag" "list_all hex_digit ds" "base \<noteq> 16 \<longrightarrow> list_all is_digit ds" "ds \<noteq> []" "length ds \<le> max (nat precision) 22"
    "int (length ds) = max precision (int (length tmp))"
    using tmp by (auto simp: ds_def list_all_iff hex_digit_def is_digit_def max_def)
  define pfx where "pfx = (if ?x then (if base = 16 then [CHR ''0'', char_of (of_char (CHR ''X'') OR ?l :: nat)] else ''0'') else [])"
  have pl: "length pfx = (if ?x then (if base = 16 then 2 else 1) else 0)" by (simp add: pfx_def)
  define S where "S = sz' - int (length pfx) - int (length ds)"
  have sz: "(if ?x then if base = 16 then sz' - 2 else sz' - 1 else sz') = sz' - int (length pfx)" using pl by simp
  let ?ty = "if flag ty LEFT then ty AND NOT ZEROPAD else ty"
  have sg': "number_sign ?ty num sz = (sign, mag, sz')" using sg by simp
  have z: "replicate (nat (int (length ds) - int (length tmp))) CHR ''0'' @ rev tmp @ xs = ds @ xs" for xs
    unfolding ds(6) by (simp add: ds_def)
  have N: "number num base sz precision ty = Some (
      (if flag ty LEFT \<or> flag ty ZEROPAD then [] else replicate (nat S) CHR '' '') @ sign @ pfx @
      (if flag ty LEFT \<or> \<not> flag ty ZEROPAD then [] else replicate (nat S) CHR ''0'') @ ds @ (if flag ty LEFT then replicate (nat S) CHR '' '' else []))"
    unfolding number_def Let_def sg' prod.case sz tmp(1) bind.bind_lunit no_pad_flags ds(6) [symmetric] S_def [symmetric]
    by (cases "flag ty LEFT"; cases "flag ty ZEROPAD") (simp_all add: pfx_def [symmetric] pad_def z)
  have len: "length sign + length pfx + length ds + nat S = max (nat sz) (length sign + length pfx + length ds)"
    unfolding S_def number_sign_size [OF sg] by (rule max_nat_sum)
  show ?thesis
    by (rule exI [of _ "if flag ty LEFT \<or> flag ty ZEROPAD then [] else replicate (nat S) CHR '' ''"], rule exI [of _ pfx],
        rule exI [of _ "if flag ty LEFT \<or> \<not> flag ty ZEROPAD then [] else replicate (nat S) CHR ''0''"], rule exI [of _ ds],
        rule exI [of _ "if flag ty LEFT then replicate (nat S) CHR '' '' else []"], intro conjI)
      (fact N ds(1-5) pl | use len in simp)+
qed

section \<open>Properties\<close>



end
