(* ===== verification/Util.thy ===== *)
theory Util
  imports Printf
begin

text \<open>
  \<^verbatim>\<open>lib/util.c\<close>: calendar dates from seconds, reading numbers and addresses from text, timeouts, comparison without case; and
  the IP address texts of \<^verbatim>\<open>shell/cmd_ip.c\<close>. A C string is a list of characters without zero; a pointer that has
  moved into a string is the rest of it. Null pointers are not passed to these functions and are not modelled.
  \<open>unsigned long\<close> has 32 bits: the seconds are cut to it.

  Results: the date is the Gregorian one up to February 2100, the loops end and stay in the month table; numbers and addresses printed
  by the formatter of \<^verbatim>\<open>pp_printf\<close> are read back.
\<close>

unbundle bit_operations_syntax

section \<open>Definitions\<close>

subsection \<open>Dates\<close>

definition EPOCH_YR :: nat where "EPOCH_YR = 1970"
definition SECS_DAY :: nat where "SECS_DAY = 86400"

definition LEAPYEAR :: "nat \<Rightarrow> bool" where "LEAPYEAR year \<longleftrightarrow> year mod 4 = 0"
definition YEARSIZE :: "nat \<Rightarrow> nat" where "YEARSIZE year = (if LEAPYEAR year then 366 else 365)"

definition days_tab :: "string list" where
  "days_tab = [''Sun'', ''Mon'', ''Tue'', ''Wed'', ''Thu'', ''Fri'', ''Sat'']"

definition months_tab :: "string list" where
  "months_tab = [''Jan'', ''Feb'', ''Mar'', ''Apr'', ''May'', ''Jun'', ''Jul'', ''Aug'', ''Sep'', ''Oct'', ''Nov'', ''Dec'']"

definition ytab :: "bool \<Rightarrow> nat list" where
  "ytab leap = (if leap then [31, 29, 31, 30, 31, 30, 31, 31, 30, 31, 30, 31] else [31, 28, 31, 30, 31, 30, 31, 31, 30, 31, 30, 31])"

record time_m =
  tm_sec :: nat
  tm_min :: nat
  tm_hour :: nat
  tm_wday :: nat
  tm_mday :: nat
  tm_mon :: nat
  tm_year :: nat

function year_loop :: "nat \<Rightarrow> nat \<Rightarrow> nat \<times> nat" where
  "year_loop dayno year = (if dayno \<ge> YEARSIZE year then year_loop (dayno - YEARSIZE year) (year + 1) else (dayno, year))"
  by pat_completeness auto
termination
  by (relation "measure fst") (auto simp: YEARSIZE_def split: if_splits)

declare year_loop.simps [simp del]

text \<open>\<open>None\<close>: the loop has left the month table.\<close>

function month_loop :: "bool \<Rightarrow> nat \<Rightarrow> nat \<Rightarrow> (nat \<times> nat) option" where
  "month_loop leap dayno mon =
     (case load (ytab leap) mon of
        None \<Rightarrow> None
      | Some n \<Rightarrow> if dayno \<ge> n then month_loop leap (dayno - n) (mon + 1) else Some (dayno, mon))"
  by pat_completeness auto
termination
  by (relation "measure (\<lambda>(leap, dayno, mon). 12 - mon)") (auto simp: load_def ytab_def split: if_splits)

declare month_loop.simps [simp del]

text \<open>The broken-down time, the second of the day and the day of the year.\<close>

definition break_time :: "nat \<Rightarrow> (time_m \<times> nat \<times> nat) option" where
  "break_time sec =
     (let sec = sec mod 4294967296;
          dayclock = sec mod SECS_DAY;
          dayno = sec div SECS_DAY;
          (diy, year) = year_loop dayno EPOCH_YR
      in map_option (\<lambda>(d, mon). (\<lparr>tm_sec = dayclock mod 60, tm_min = dayclock mod 3600 div 60, tm_hour = dayclock div 3600,
             tm_wday = (dayno + 4) mod 7, tm_mday = d + 1, tm_mon = mon, tm_year = year\<rparr>, dayclock, diy))
           (month_loop (LEAPYEAR year) diy 0))"

definition format_time_int :: "nat \<Rightarrow> (nat \<times> nat \<times> nat \<times> nat \<times> nat \<times> nat \<times> nat \<times> nat) option" where
  "format_time_int sec =
     map_option (\<lambda>(t, sbs, diy). (tm_year t, tm_mon t + 1, tm_mday t, tm_hour t, tm_min t, tm_sec t, sbs, diy)) (break_time sec)"

definition TIME_FORMAT_SYSLOG :: int where "TIME_FORMAT_SYSLOG = 1"
definition TIME_FORMAT_SORTED :: int where "TIME_FORMAT_SORTED = 2"

definition VNat :: "nat \<Rightarrow> va_arg" where "VNat n = VInt (of_nat n)"

definition format_time :: "nat \<Rightarrow> int \<Rightarrow> string option" where
  "format_time sec fmt =
     (case break_time sec of
        None \<Rightarrow> None
      | Some (t, _, _) \<Rightarrow>
          (case load months_tab (tm_mon t) of
             None \<Rightarrow> None
           | Some mon \<Rightarrow>
               (if fmt = TIME_FORMAT_SYSLOG then
                  pp_sprintf ''%s %2d %02d:%02d:%02d'' [VStr (Some mon), VNat (tm_mday t), VNat (tm_hour t), VNat (tm_min t), VNat (tm_sec t)]
                else if fmt = TIME_FORMAT_SORTED then
                  pp_sprintf ''%4d-%02d-%02d-%02d:%02d:%02d''
                    [VNat (tm_year t), VNat (tm_mon t + 1), VNat (tm_mday t), VNat (tm_hour t), VNat (tm_min t), VNat (tm_sec t)]
                else
                  (case load days_tab (tm_wday t) of
                     None \<Rightarrow> None
                   | Some day \<Rightarrow>
                       pp_sprintf ''%s, %s %d, %d, %02d:%02d:%02d''
                         [VStr (Some day), VStr (Some mon), VNat (tm_mday t), VNat (tm_year t), VNat (tm_hour t), VNat (tm_min t), VNat (tm_sec t)]))))"

subsection \<open>Timeouts\<close>

record timeout =
  start_tics :: u32
  tmo_timeout :: u32

definition tmo_init :: "u32 \<Rightarrow> u32 \<Rightarrow> timeout" where
  "tmo_init tics milliseconds = \<lparr>start_tics = tics, tmo_timeout = milliseconds\<rparr>"

definition tmo_restart :: "u32 \<Rightarrow> timeout \<Rightarrow> timeout" where
  "tmo_restart tics tmo = tmo\<lparr>start_tics := tics\<rparr>"

definition tmo_expired :: "u32 \<Rightarrow> timeout \<Rightarrow> bool" where
  "tmo_expired tics tmo \<longleftrightarrow> tics - start_tics tmo > tmo_timeout tmo"

subsection \<open>Reading numbers and addresses\<close>

definition hex_value :: "char \<Rightarrow> int option" where
  "hex_value c =
     (let n = (of_char c :: int) in
      if n \<ge> 48 \<and> n \<le> 57 then Some (n - 48)
      else if n \<ge> 65 \<and> n \<le> 70 then Some (n - 65 + 10)
      else if n \<ge> 97 \<and> n \<le> 102 then Some (n - 97 + 10)
      else None)"

fun hex_loop :: "int \<Rightarrow> string \<Rightarrow> int \<times> string" where
  "hex_loop acc [] = (acc, [])"
| "hex_loop acc (c # s) =
     (case hex_value c of None \<Rightarrow> (acc, c # s) | Some d \<Rightarrow> hex_loop (i64 (i64 (acc * 16) + d)) s)"

definition fromhex64 :: "string \<Rightarrow> int \<times> string" where
  "fromhex64 hex =
     (let (neg, hex) = (case hex of c # r \<Rightarrow> if c = CHR ''-'' then (True, r) else (False, hex) | [] \<Rightarrow> (False, hex));
          (v, r) = hex_loop 0 hex
      in (i64 (v * (if neg then - 1 else 1)), r))"

definition fromhex :: "string \<Rightarrow> int \<times> string" where
  "fromhex hex = (let (v, r) = fromhex64 hex in (i32 v, r))"

fun dec_loop :: "int \<Rightarrow> string \<Rightarrow> int \<times> string" where
  "dec_loop acc [] = (acc, [])"
| "dec_loop acc (c # s) = (if is_digit c then dec_loop (i32 (i32 (acc * 10) + (of_char c - 48))) s else (acc, c # s))"

definition fromdec :: "string \<Rightarrow> int \<times> string" where
  "fromdec dec =
     (let (neg, dec) = (case dec of c # r \<Rightarrow> if c = CHR ''-'' then (True, r) else (False, dec) | [] \<Rightarrow> (False, dec));
          (v, r) = dec_loop 0 dec
      in (if neg then i32 (- v) else v, r))"

definition atoi :: "string \<Rightarrow> int" where
  "atoi s = fst (fromdec s)"

definition skip_char :: "char \<Rightarrow> string \<Rightarrow> string" where
  "skip_char c s = (case s of d # r \<Rightarrow> if d = c then r else s | [] \<Rightarrow> s)"

text \<open>The loop of \<open>decode_mac\<close> and of \<open>decode_ip\<close>: \<open>n\<close> numbers, separated by \<open>sep\<close>, each cut to a byte.\<close>

fun decode_bytes :: "(string \<Rightarrow> int \<times> string) \<Rightarrow> char \<Rightarrow> nat \<Rightarrow> string \<Rightarrow> u8 list" where
  "decode_bytes rd sep 0 s = []"
| "decode_bytes rd sep (Suc n) s = (let (x, r) = rd s in word_of_int x # decode_bytes rd sep n (skip_char sep r))"

definition decode_mac :: "string \<Rightarrow> u8 list" where
  "decode_mac s = decode_bytes fromhex CHR '':'' 6 s"

definition decode_ip :: "string \<Rightarrow> u8 list" where
  "decode_ip s = decode_bytes fromdec CHR ''.'' 4 s"

definition format_ip :: "u8 list \<Rightarrow> string option" where
  "format_ip ip = do {
     a \<leftarrow> load ip 0; b \<leftarrow> load ip 1; c \<leftarrow> load ip 2; d \<leftarrow> load ip 3;
     pp_sprintf ''%d.%d.%d.%d'' [VInt (ucast a), VInt (ucast b), VInt (ucast c), VInt (ucast d)]
   }"

subsection \<open>Comparison\<close>

definition to_lower :: "char \<Rightarrow> char" where
  "to_lower c = (let n = (of_char c :: nat) in if n \<ge> 65 \<and> n \<le> 90 then char_of (n - 65 + 97) else c)"

text \<open>The end of a string is a zero.\<close>

fun strcasecmp :: "string \<Rightarrow> string \<Rightarrow> int" where
  "strcasecmp [] [] = 0"
| "strcasecmp [] (d # t) = of_char d"
| "strcasecmp (c # s) [] = - of_char c"
| "strcasecmp (c # s) (d # t) = (if to_lower c = to_lower d then strcasecmp s t else of_char d - of_char c)"

section \<open>Facts\<close>

subsection \<open>The calendar\<close>

text \<open>The Gregorian calendar: leap years, days of a month (from 0) and of a year, days before a year.\<close>

definition gregorian_leap :: "nat \<Rightarrow> bool" where
  "gregorian_leap y \<longleftrightarrow> y mod 4 = 0 \<and> (y mod 100 \<noteq> 0 \<or> y mod 400 = 0)"

definition days_before_year :: "nat \<Rightarrow> nat" where
  "days_before_year y = sum_list (map (\<lambda>i. if gregorian_leap i then 366 else 365) [1970..<y])"

definition days_before_month :: "nat \<Rightarrow> nat \<Rightarrow> nat" where
  "days_before_month y m = sum_list (take m (ytab (gregorian_leap y)))"

definition month_days :: "nat \<Rightarrow> nat \<Rightarrow> nat" where
  "month_days y m = ytab (gregorian_leap y) ! m"

lemma year_loop_spec:
  "year_loop d y = (d', y') \<Longrightarrow> y \<le> y' \<and> d = sum_list (map YEARSIZE [y..<y']) + d' \<and> d' < YEARSIZE y'"
proof (induction d y rule: year_loop.induct)
  case (1 d y)
  show ?case
  proof (cases "d \<ge> YEARSIZE y")
    case True
    then have "year_loop (d - YEARSIZE y) (y + 1) = (d', y')" using "1.prems" by (subst (asm) year_loop.simps) simp
    with "1.IH" [OF True] have i: "y + 1 \<le> y'" "d - YEARSIZE y = sum_list (map YEARSIZE [y + 1..<y']) + d'" "d' < YEARSIZE y'" by auto
    then have "[y..<y'] = y # [y + 1..<y']" by (simp add: upt_conv_Cons)
    then show ?thesis using i True by simp
  next
    case False
    then have "d = d' \<and> y = y'" using "1.prems" by (subst (asm) year_loop.simps) simp
    then show ?thesis using False by simp
  qed
qed

lemma leap_agrees: "1970 \<le> y \<Longrightarrow> y < 2100 \<Longrightarrow> LEAPYEAR y = gregorian_leap y"
proof -
  assume y: "1970 \<le> y" "y < 2100"
  have "y mod 100 = 0 \<Longrightarrow> y = 2000"
  proof -
    assume "y mod 100 = 0"
    then have "y = 100 * (y div 100)" using div_mult_mod_eq [of y 100] by simp
    moreover from this y have "y div 100 = 20" by linarith
    ultimately show ?thesis by simp
  qed
  then have "y mod 100 \<noteq> 0 \<or> y mod 400 = 0" by (cases "y mod 100 = 0") auto
  then show ?thesis unfolding LEAPYEAR_def gregorian_leap_def by blast
qed

lemma days_before_agrees: "y \<le> 2100 \<Longrightarrow> sum_list (map YEARSIZE [1970..<y]) = days_before_year y"
  unfolding days_before_year_def by (intro arg_cong [of _ _ sum_list] map_cong refl) (simp add: YEARSIZE_def leap_agrees)

lemma days_before_2101: "sum_list (map YEARSIZE [1970..<2101]) = 47848"
  by (simp add: upt_rec YEARSIZE_def LEAPYEAR_def)

lemma sum_list_mono_prefix: "y \<le> y' \<Longrightarrow> sum_list (map f [a..<y]) \<le> (sum_list (map f [a..<y']) :: nat)"
  by (induction y' rule: dec_induct) (auto simp: le_SucI)

lemma month_loop_spec:
  assumes "m \<le> 12" "d < sum_list (drop m (ytab leap))"
  shows "\<exists>d' m'. month_loop leap d m = Some (d', m') \<and> m \<le> m' \<and> m' < 12 \<and> sum_list (take m (ytab leap)) + d = sum_list (take m' (ytab leap)) + d' \<and> d' < ytab leap ! m'"
  using assms
proof (induction leap d m rule: month_loop.induct)
  case (1 leap d m)
  have l: "length (ytab leap) = 12" by (simp add: ytab_def)
  then have m: "m < 12" using "1.prems" by (cases "m = 12") simp_all
  have dr: "drop m (ytab leap) = ytab leap ! m # drop (m + 1) (ytab leap)" using m l by (simp add: Cons_nth_drop_Suc)
  have tk: "sum_list (take (m + 1) (ytab leap)) = sum_list (take m (ytab leap)) + ytab leap ! m" using m l by (simp add: take_Suc_conv_app_nth)
  have ld: "load (ytab leap) m = Some (ytab leap ! m)" using m l by (simp add: load_def)
  show ?case
  proof (cases "d \<ge> ytab leap ! m")
    case True
    have "month_loop leap d m = month_loop leap (d - ytab leap ! m) (m + 1)" using True by (subst month_loop.simps) (simp add: ld)
    moreover have "d - ytab leap ! m < sum_list (drop (m + 1) (ytab leap))" using "1.prems"(2) dr True by simp
    ultimately show ?thesis using "1.IH" [OF ld True] m tk True by auto
  next
    case False
    then show ?thesis using m by (subst month_loop.simps) (simp add: ld)
  qed
qed

lemma month_days_agree:
  assumes "1970 \<le> y" "y \<le> 2100" "y = 2100 \<longrightarrow> diy < 59" "m < 12" "diy = sum_list (take m (ytab (LEAPYEAR y))) + d" "d < ytab (LEAPYEAR y) ! m"
  shows "diy = days_before_month y m + d \<and> d < month_days y m"
proof (cases "y = 2100")
  case False
  then show ?thesis using assms leap_agrees [of y] by (simp add: days_before_month_def month_days_def)
next
  case True
  then have "LEAPYEAR y" "\<not> gregorian_leap y" by (simp_all add: LEAPYEAR_def gregorian_leap_def)
  note l = this
  have "m < 2"
  proof (rule ccontr)
    assume "\<not> m < 2"
    then obtain k where "m = Suc (Suc k)" by (metis Suc_1 add_2_eq_Suc le_Suc_ex not_less)
    then have "60 \<le> sum_list (take m (ytab True))" by (simp add: ytab_def)
    then show False using assms(3,5) True l by simp
  qed
  then have "m = 0 \<or> m = 1" by linarith
  then show ?thesis using assms(3,5,6) True l by (auto simp: days_before_month_def month_days_def ytab_def)
qed

lemma break_time_spec:
  assumes "sec < 4107542400"
  obtains t diy where "break_time sec = Some (t, sec mod 86400, diy)" "tm_mon t < 12" "1 \<le> tm_mday t" "tm_mday t \<le> month_days (tm_year t) (tm_mon t)"
    "tm_hour t < 24" "tm_min t < 60" "tm_sec t < 60" "tm_wday t = (sec div 86400 + 4) mod 7" "tm_year t \<le> 2100"
    "diy = days_before_month (tm_year t) (tm_mon t) + (tm_mday t - 1)"
    "sec = (days_before_year (tm_year t) + diy) * 86400 + tm_hour t * 3600 + tm_min t * 60 + tm_sec t"
proof -
  have s: "sec mod 4294967296 = sec" using assms by simp
  let ?dc = "sec mod 86400"
  obtain diy y where y: "year_loop (sec div 86400) 1970 = (diy, y)" by (rule prod.exhaust)
  note ys = year_loop_spec [OF y]
  have dn: "sec div 86400 < 47541" using assms by (simp add: div_less_iff_less_mult)
  have y2: "y \<le> 2100"
  proof (rule ccontr)
    assume "\<not> y \<le> 2100"
    then have "sum_list (map YEARSIZE [1970..<2101]) \<le> sum_list (map YEARSIZE [1970..<y])" by (intro sum_list_mono_prefix) simp
    then show False using ys dn unfolding days_before_2101 by linarith
  qed
  have d: "sec div 86400 = days_before_year y + diy" using ys days_before_agrees [OF y2] by simp
  have "days_before_year 2100 = 47482" by (simp add: days_before_year_def upt_rec gregorian_leap_def)
  then have y59: "y = 2100 \<longrightarrow> diy < 59" using d dn by auto
  have "sum_list (drop 0 (ytab (LEAPYEAR y))) = YEARSIZE y" by (simp add: ytab_def YEARSIZE_def)
  with month_loop_spec [of 0 diy "LEAPYEAR y"] ys obtain d' m where
    m: "month_loop (LEAPYEAR y) diy 0 = Some (d', m)" "m < 12" "diy = sum_list (take m (ytab (LEAPYEAR y))) + d'" "d' < ytab (LEAPYEAR y) ! m" by auto
  have md: "diy = days_before_month y m + d' \<and> d' < month_days y m" using month_days_agree [OF _ y2 y59 m(2-4)] ys by simp
  define t where "t = \<lparr>tm_sec = ?dc mod 60, tm_min = ?dc mod 3600 div 60, tm_hour = ?dc div 3600, tm_wday = (sec div 86400 + 4) mod 7, tm_mday = d' + 1, tm_mon = m, tm_year = y\<rparr>"
  have b: "break_time sec = Some (t, ?dc, diy)" by (simp add: break_time_def s SECS_DAY_def EPOCH_YR_def y m(1) t_def Let_def)
  have "?dc = ?dc div 3600 * 3600 + ?dc mod 3600 div 60 * 60 + ?dc mod 60"
  proof -
    have "?dc mod 3600 mod 60 = ?dc mod 60" by (rule mod_mod_cancel) simp
    then show ?thesis using div_mult_mod_eq [of ?dc 3600] div_mult_mod_eq [of "?dc mod 3600" 60] by linarith
  qed
  then have e: "sec = (days_before_year y + diy) * 86400 + ?dc div 3600 * 3600 + ?dc mod 3600 div 60 * 60 + ?dc mod 60"
    unfolding d [symmetric] using div_mult_mod_eq [of sec 86400] by (metis add.assoc)
  have "?dc div 3600 < 24" "?dc mod 3600 div 60 < 60" "1 \<le> d' + 1" "d' + 1 \<le> month_days y m" "diy = days_before_month y m + (d' + 1 - 1)"
    using md by (simp_all add: div_less_iff_less_mult)
  note f = b m(2) this e y2
  have tf: "tm_sec t = ?dc mod 60" "tm_min t = ?dc mod 3600 div 60" "tm_hour t = ?dc div 3600" "tm_wday t = (sec div 86400 + 4) mod 7"
    "tm_mday t = d' + 1" "tm_mon t = m" "tm_year t = y" by (simp_all add: t_def)
  show thesis by (rule that [of t diy]; ((unfold tf)?, (fact f | simp)))
qed

subsection \<open>Reading what was printed\<close>

definition no_digit :: "string \<Rightarrow> bool" where
  "no_digit s \<longleftrightarrow> s = [] \<or> \<not> hex_digit (hd s)"

lemma digit_is_hex: "is_digit c \<Longrightarrow> hex_digit c"
  by (simp add: is_digit_def hex_digit_def Let_def)

lemma int_of_char: "(of_char c :: int) = int (of_char c)"
  by (simp add: of_nat_of_char)

lemma hex_value_eq: "hex_value c = (if hex_digit c then Some (int (hexval c)) else None)"
  unfolding hex_value_def hex_digit_def hexval_def Let_def int_of_char by auto

lemma dec_value_eq: "is_digit c \<Longrightarrow> of_char c - 48 = int (hexval c)"
  unfolding is_digit_def hexval_def Let_def int_of_char by auto

lemma int_digits_val: "int (foldl (\<lambda>a c. a * b + hexval c) n ds) = foldl (\<lambda>a c. a * int b + int (hexval c)) (int n) ds"
  by (induction ds arbitrary: n) simp_all

lemma dec_loop_digits:
  assumes "list_all is_digit ds" "no_digit rest"
  shows "dec_loop (i32 A) (ds @ rest) = (i32 (foldl (\<lambda>a c. a * 10 + int (hexval c)) A ds), rest)"
  using assms
proof (induction ds arbitrary: A)
  case Nil
  then show ?case using digit_is_hex by (cases rest) (auto simp: no_digit_def)
next
  case (Cons c ds)
  then have c: "is_digit c" by simp
  note dec_value_eq [OF c]
  moreover have "i32 (i32 (i32 A * 10) + d) = i32 (A * 10 + d)" for d
    by (rule i32_eqI) (metis i32_cong mod_add_left_eq mod_mult_left_eq)
  ultimately show ?case using Cons c by simp
qed

lemma hex_loop_digits:
  assumes "list_all hex_digit ds" "no_digit rest"
  shows "hex_loop (i64 A) (ds @ rest) = (i64 (foldl (\<lambda>a c. a * 16 + int (hexval c)) A ds), rest)"
  using assms
proof (induction ds arbitrary: A)
  case Nil
  then show ?case by (cases rest) (auto simp: no_digit_def hex_value_eq)
next
  case (Cons c ds)
  then have "hex_value c = Some (int (hexval c))" by (simp add: hex_value_eq)
  moreover have "i64 (i64 (i64 A * 16) + d) = i64 (A * 16 + d)" for d
    by (rule i64_eqI) (metis i64_cong mod_add_left_eq mod_mult_left_eq)
  ultimately show ?case using Cons by simp
qed

lemma number_plain:
  assumes "num < 18446744073709551616" "base = 10 \<or> base = 16" "\<not> flag ty SPECIAL" "number_sign ty num (- 1) = (sign, mag, sz')"
  shows "\<exists>ds. number num base (- 1) (- 1) ty = Some (sign @ ds) \<and> digits_val base ds = mag \<and> list_all hex_digit ds \<and> (base = 10 \<longrightarrow> list_all is_digit ds) \<and> ds \<noteq> []"
proof -
  from number_spec [OF assms(1) _ assms(4), of base "- 1"] assms(2,3) obtain lead pfx fill ds trail where
    n: "number num base (- 1) (- 1) ty = Some (lead @ sign @ pfx @ fill @ ds @ trail)" "digits_val base ds = mag" "list_all hex_digit ds"
      "base \<noteq> 16 \<longrightarrow> list_all is_digit ds" "ds \<noteq> []" "length (lead @ sign @ pfx @ fill @ ds @ trail) = length sign + length pfx + length ds" "length pfx = 0"
    by auto
  then have "lead = []" "fill = []" "trail = []" "pfx = []" by simp_all
  then show ?thesis using n assms(2) by (intro exI [of _ ds]) auto
qed

lemma vsprintf_d:
  "vsprintf_loop n (CHR ''%'' # CHR ''d'' # fmt) (VInt w # args) =
     (case number (unat (scast w :: 64 word)) 10 (- 1) (- 1) SIGN of
        None \<Rightarrow> None
      | Some s \<Rightarrow> map_option (\<lambda>(s', w'). (s @ s', w')) (vsprintf_loop (n + int (length s)) fmt args))"
proof -
  have "(0 :: u32) OR SIGN = SIGN" "flag SIGN SIGN" by (simp_all add: flag_def SIGN_def)
  then show ?thesis
    by (simp add: format_spec_def format_width_def format_precision_def format_qualifier_def is_digit_def conversion_def va_num_def split: option.splits)
qed

lemma vsprintf_llx:
  "vsprintf_loop n ''%llx'' [VLong64 w] = map_option (\<lambda>s. (s, [])) (number (unat w) 16 (- 1) (- 1) SMALL)"
proof -
  have "(0 :: u32) OR SMALL = SMALL" by simp
  then show ?thesis
    by (simp add: format_spec_def format_width_def format_precision_def format_qualifier_def is_digit_def conversion_def va_num_def split: option.splits)
qed

lemma sint32_bounds: "- 2147483648 \<le> sint (w :: u32)" "sint w < 2147483648"
  using sint_ge [of w] sint_lt [of w] by simp_all

lemma wrap64_neg:
  assumes "x < 0" "- 2147483648 \<le> (x :: int)"
  shows "x mod 18446744073709551616 = x + 18446744073709551616"
proof -
  have "(x + 18446744073709551616) mod 18446744073709551616 = x + 18446744073709551616"
    by (rule mod_pos_pos_trivial) (use assms in linarith)+
  then show ?thesis by (simp only: mod_add_self2)
qed

lemma unat_scast64: "unat (scast (w :: u32) :: 64 word) = (if sint w < 0 then nat (sint w + 18446744073709551616) else nat (sint w))"
proof -
  have u: "unat (scast w :: 64 word) = nat (sint w mod 18446744073709551616)"
    unfolding scast_eq unat_eq_nat_uint uint_word_of_int_eq by (simp add: take_bit_eq_mod)
  show ?thesis
  proof (cases "sint w < 0")
    case True
    show ?thesis unfolding u wrap64_neg [OF True sint32_bounds(1)] using True by simp
  next
    case False
    have "sint w mod 18446744073709551616 = sint w"
      by (rule mod_pos_pos_trivial) (use False sint32_bounds [of w] in linarith)+
    then show ?thesis unfolding u using False by simp
  qed
qed

lemma printed_int:
  obtains s where "number (unat (scast (w :: u32) :: 64 word)) 10 (- 1) (- 1) SIGN = Some s"
    "\<And>rest. no_digit rest \<Longrightarrow> fromdec (s @ rest) = (sint w, rest)"
proof -
  let ?n = "unat (scast w :: 64 word)"
  note b = sint32_bounds [of w]
  have sg: "number_sign SIGN ?n (- 1) = (if sint w < 0 then (''-'', nat (- sint w), - 2) else ([], nat (sint w), - 1))"
    using b by (auto simp: number_sign_def flag_def SIGN_def PLUS_def SPACE_def unat_scast64)
  have n: "?n < 18446744073709551616" using unsigned_less [of "scast w :: 64 word"] by simp
  have ns: "\<not> flag SIGN SPECIAL" by (simp add: flag_def SIGN_def SPECIAL_def)
  have i0: "i32 0 = 0" by (simp add: fits32_def)
  show thesis
  proof (cases "sint w < 0")
    case True
    from number_plain [OF n _ ns, of 10] sg True obtain ds where
      ds: "number ?n 10 (- 1) (- 1) SIGN = Some (''-'' @ ds)" "digits_val 10 ds = nat (- sint w)" "list_all is_digit ds" by auto
    have v: "foldl (\<lambda>a c. a * 10 + int (hexval c)) 0 ds = - sint w"
      using int_digits_val [of 10 0 ds] ds(2) True by (simp add: digits_val_def)
    have "i32 (- i32 (- sint w)) = i32 (sint w)" by (rule i32_eqI) (metis add.inverse_inverse i32_cong mod_minus_eq)
    then have "i32 (- i32 (- sint w)) = sint w" using b by (simp add: fits32_def)
    then show thesis using dec_loop_digits [OF ds(3), of _ 0] ds(1) v i0 by (intro that [of "''-'' @ ds"]) (simp_all add: fromdec_def)
  next
    case False
    from number_plain [OF n _ ns, of 10] sg False obtain ds where
      ds: "number ?n 10 (- 1) (- 1) SIGN = Some ds" "digits_val 10 ds = nat (sint w)" "list_all is_digit ds" "ds \<noteq> []" by auto
    have v: "foldl (\<lambda>a c. a * 10 + int (hexval c)) 0 ds = sint w"
      using int_digits_val [of 10 0 ds] ds(2) False by (simp add: digits_val_def)
    obtain c es where c: "ds = c # es" using ds(4) by (cases ds) auto
    have "c \<noteq> CHR ''-''" using ds(3) c by (auto simp: is_digit_def)
    then have "fromdec (ds @ rest) = dec_loop 0 (ds @ rest)" for rest using c by (simp add: fromdec_def)
    then show thesis using dec_loop_digits [OF ds(3), of _ 0] ds(1) v i0 b by (intro that [of ds]) (simp_all add: fits32_def)
  qed
qed

lemma printed_hex:
  obtains s where "number (unat (w :: 64 word)) 16 (- 1) (- 1) SMALL = Some s"
    "\<And>rest. no_digit rest \<Longrightarrow> fromhex64 (s @ rest) = (sint w, rest)"
proof -
  have n: "unat w < 18446744073709551616" using unsigned_less [of w] by simp
  have "\<not> flag SMALL SPECIAL" "number_sign SMALL (unat w) (- 1) = ([], unat w, - 1)" by (simp_all add: number_sign_def flag_def SMALL_def SPECIAL_def SIGN_def)
  from number_plain [OF n _ this, of 16] obtain ds where
    ds: "number (unat w) 16 (- 1) (- 1) SMALL = Some ds" "digits_val 16 ds = unat w" "list_all hex_digit ds" "ds \<noteq> []" by auto
  have v: "foldl (\<lambda>a c. a * 16 + int (hexval c)) 0 ds = uint w"
    using int_digits_val [of 16 0 ds] ds(2) by (simp add: digits_val_def)
  obtain c es where c: "ds = c # es" using ds(4) by (cases ds) auto
  have "c \<noteq> CHR ''-''" using ds(3) c by (auto simp: hex_digit_def)
  then have f: "fromhex64 (ds @ rest) = (let (v, r) = hex_loop 0 (ds @ rest) in (i64 v, r))" for rest using c by (simp add: fromhex64_def)
  have "i64 (i64 (uint w)) = sint w"
    by (simp add: sint_uint signed_take_bit_eq_take_bit_shift i64_def take_bit_eq_mod)
  moreover have "i64 0 = 0" by (simp add: fits64_def)
  ultimately show thesis using hex_loop_digits [OF ds(3), of _ 0] ds(1) v fits64_i64 [of "uint w"] by (intro that [of ds]) (simp_all add: f)
qed

lemma vsprintf_char: "c \<noteq> CHR ''%'' \<Longrightarrow> vsprintf_loop n (c # fmt) args = map_option (\<lambda>(s, w). (c # s, w)) (vsprintf_loop (n + 1) fmt args)"
  by simp

lemma ip_text:
  assumes "length ip = 4"
  shows "\<exists>s. format_ip ip = Some s \<and> decode_ip s = ip"
proof -
  from assms obtain a b c d where ip: "ip = [a, b, c, d]"
    by (auto simp: numeral_eq_Suc length_Suc_conv)
  obtain sa where a: "number (unat (scast (ucast a :: u32) :: 64 word)) 10 (- 1) (- 1) SIGN = Some sa"
    "\<And>rest. no_digit rest \<Longrightarrow> fromdec (sa @ rest) = (sint (ucast a :: u32), rest)" using printed_int [of "ucast a"] by blast
  obtain sb where b: "number (unat (scast (ucast b :: u32) :: 64 word)) 10 (- 1) (- 1) SIGN = Some sb"
    "\<And>rest. no_digit rest \<Longrightarrow> fromdec (sb @ rest) = (sint (ucast b :: u32), rest)" using printed_int [of "ucast b"] by blast
  obtain sc where c: "number (unat (scast (ucast c :: u32) :: 64 word)) 10 (- 1) (- 1) SIGN = Some sc"
    "\<And>rest. no_digit rest \<Longrightarrow> fromdec (sc @ rest) = (sint (ucast c :: u32), rest)" using printed_int [of "ucast c"] by blast
  obtain sd where d: "number (unat (scast (ucast d :: u32) :: 64 word)) 10 (- 1) (- 1) SIGN = Some sd"
    "\<And>rest. no_digit rest \<Longrightarrow> fromdec (sd @ rest) = (sint (ucast d :: u32), rest)" using printed_int [of "ucast d"] by blast
  have "vsprintf_loop 0 ''%d.%d.%d.%d'' [VInt (ucast a), VInt (ucast b), VInt (ucast c), VInt (ucast d)]
      = Some (sa @ CHR ''.'' # sb @ CHR ''.'' # sc @ CHR ''.'' # sd, [])"
    by (simp add: vsprintf_d a(1) b(1) c(1) d(1) del: vsprintf_loop.simps(2) add: vsprintf_char)
  then have f: "format_ip ip = Some (sa @ CHR ''.'' # sb @ CHR ''.'' # sc @ CHR ''.'' # sd)"
    by (simp add: format_ip_def ip load_def pp_sprintf_def pp_vsprintf_def)
  have nd: "no_digit (CHR ''.'' # xs)" "no_digit []" for xs by (simp_all add: no_digit_def hex_digit_def)
  have w: "scast (ucast (x :: u8) :: u32) = x" for x
  proof -
    have "uint x < 256" using uint_lt2p [of x] by simp
    then have "sint (ucast x :: u32) = uint x"
      by (simp add: sint_uint signed_take_bit_eq_take_bit_shift unsigned_ucast_eq take_bit_int_eq_self)
    then show ?thesis unfolding scast_eq by simp
  qed
  have "decode_ip (sa @ CHR ''.'' # sb @ CHR ''.'' # sc @ CHR ''.'' # sd) = ip"
    using d(2) [OF nd(2)] by (simp add: decode_ip_def numeral_eq_Suc a(2) [OF nd(1)] b(2) [OF nd(1)] c(2) [OF nd(1)] skip_char_def w ip)
  then show ?thesis using f by blast
qed

section \<open>Properties\<close>



text \<open>
  Texts are read back. A 32-bit number printed with \<open>%d\<close> and a 64-bit number printed with \<open>%llx\<close> are read by \<open>fromdec\<close> and
  \<open>fromhex64\<close> as the same number, for every value and whatever follows that is not a digit, which is left over;
  an IP address printed by \<open>format_ip\<close> is decoded by \<open>decode_ip\<close> to the same four bytes.
\<close>

theorem printed_text_is_read_back:
  "(\<exists>s. pp_sprintf ''%d'' [VInt w] = Some s \<and> (\<forall>rest. no_digit rest \<longrightarrow> fromdec (s @ rest) = (sint w, rest)))
   \<and> (\<exists>s. pp_sprintf ''%llx'' [VLong64 v] = Some s \<and> (\<forall>rest. no_digit rest \<longrightarrow> fromhex64 (s @ rest) = (sint v, rest)))
   \<and> (length ip = 4 \<longrightarrow> (\<exists>s. format_ip ip = Some s \<and> decode_ip s = ip))"
proof (intro conjI impI)
  show "\<exists>s. pp_sprintf ''%d'' [VInt w] = Some s \<and> (\<forall>rest. no_digit rest \<longrightarrow> fromdec (s @ rest) = (sint w, rest))"
    using printed_int [of w] vsprintf_d [of 0 "[]" w "[]"] by (metis (no_types, lifting) append_Nil2 case_prod_conv fst_conv option.case(2) option.map(2) pp_sprintf_def pp_vsprintf_def vsprintf_loop.simps(1))
  show "\<exists>s. pp_sprintf ''%llx'' [VLong64 v] = Some s \<and> (\<forall>rest. no_digit rest \<longrightarrow> fromhex64 (s @ rest) = (sint v, rest))"
    using printed_hex [of v] vsprintf_llx [of 0 v] by (metis fst_conv option.map(2) pp_sprintf_def pp_vsprintf_def)
qed (rule ip_text)

theorem printed_text_is_read_back_witness:
  "(\<exists>s. pp_sprintf ''%d'' [VInt 4294967289] = Some s \<and> fromdec (s @ '' V'') = (- 7, '' V'')) \<and> (\<exists>s. format_ip [192, 168, 7, 1] = Some s \<and> decode_ip s = [192, 168, 7, 1])"
proof -
  have "no_digit '' V''" by (simp add: no_digit_def hex_digit_def)
  then show ?thesis using printed_text_is_read_back [of 4294967289 0 "[192, 168, 7, 1]"] by auto
qed

end
