(* ===== verification/Shell.thy ===== *)
theory Shell
  imports Storage_Init Util
begin

text \<open>
  \<^verbatim>\<open>shell/shell.c\<close> and \<^verbatim>\<open>shell/cmd_init.c\<close>: the line editor, the splitting of a line into words, the dispatch
  to the commands, and the boot scripts. The commands and the callback of the full-screen user interface
  are parameters: \<open>call id args\<close> runs the command \<open>id\<close> and returns its value and the state after it. Everything outside the
  shell that a command can change is the component \<open>sh_world\<close>. What is sent to the terminal is recorded in
  \<open>sh_out\<close>.

  \<open>None\<close> stands for an access outside the line buffer, or a loop that does not end.

  Results: the editor implements a line with a cursor, and the terminal shows that line; the shell stays inside its
  buffer; a line is split into its words; the boot script runs the commands that were added to it.
\<close>

section \<open>Definitions\<close>

definition SH_MAX_LINE_LEN :: nat where "SH_MAX_LINE_LEN = 80"
definition SH_MAX_ARGS :: nat where "SH_MAX_ARGS = 8"
definition SHELL_MAX_COMMANDS :: nat where "SHELL_MAX_COMMANDS = 40"
definition EINVAL :: int where "EINVAL = 22"

definition ESCAPE_FLAG :: u16 where "ESCAPE_FLAG = 0x100"
definition KEY_LEFT :: u16 where "KEY_LEFT = ESCAPE_FLAG OR 68"
definition KEY_RIGHT :: u16 where "KEY_RIGHT = ESCAPE_FLAG OR 67"
definition KEY_ENTER :: u16 where "KEY_ENTER = 13"
definition KEY_ENTER10 :: u16 where "KEY_ENTER10 = 10"
definition KEY_ESCAPE :: u16 where "KEY_ESCAPE = 27"
definition KEY_BACKSPACE :: u16 where "KEY_BACKSPACE = 127"
definition KEY_DELETE :: u16 where "KEY_DELETE = 126"

datatype sh_state = SH_PROMPT | SH_INPUT | SH_EXEC | SH_EXEC_UI

text \<open>Output: the escape sequence of \<open>esc\<close>, \<open>pp_printf("%c", key)\<close>, or another \<open>pp_printf\<close> with its format and arguments.\<close>

datatype term_out = Esc char | Putc u8 | Print string "va_arg list"

record ('d, 'w) shell =
  cmd_buf :: "u8 list"
  cmd_pos :: int
  cmd_len :: int
  sh_st :: sh_state
  current_key :: u16
  sh_cmds :: "(string \<times> nat) list"
  shell_is_interacting :: bool
  shell_ui_callback :: "nat option"
  init_p :: nat
  init_ptr :: u16
  sh_fs :: "'d sdbfs"
  sh_out :: "term_out list"
  sh_world :: 'w

type_synonym ('d, 'w) sh_call = "nat \<Rightarrow> u8 list list \<Rightarrow> ('d, 'w) shell \<Rightarrow> (int \<times> ('d, 'w) shell) option"

definition emit :: "term_out list \<Rightarrow> ('d, 'w) shell \<Rightarrow> ('d, 'w) shell" where
  "emit os s = s\<lparr>sh_out := sh_out s @ os\<rparr>"

definition endl :: string where
  "endl = [CHR 0x0A]"

definition VBytes :: "u8 list \<Rightarrow> va_arg" where
  "VBytes bs = VStr (Some (map (\<lambda>b. char_of (unat b)) bs))"

text \<open>Indices are C integers: a negative one is outside the buffer.\<close>

definition store_at :: "u8 list \<Rightarrow> int \<Rightarrow> u8 \<Rightarrow> u8 list option" where
  "store_at buf i c = (if i < 0 then None else store buf (nat i) c)"

text \<open>\<open>memmove(&buf[d], &buf[s], n)\<close>.\<close>

definition memmove_at :: "u8 list \<Rightarrow> int \<Rightarrow> int \<Rightarrow> int \<Rightarrow> u8 list option" where
  "memmove_at buf d s n =
     (if d < 0 \<or> s < 0 \<or> n < 0 then None else Option.bind (load_bytes buf (nat s) (nat n)) (store_bytes buf (nat d)))"

text \<open>The C string at an index.\<close>

definition cstring :: "u8 list \<Rightarrow> nat \<Rightarrow> u8 list option" where
  "cstring buf i = (if 0 \<in> set (drop i buf) then Some (takeWhile (\<lambda>b. b \<noteq> 0) (drop i buf)) else None)"

definition bytes_str :: "u8 list \<Rightarrow> string" where
  "bytes_str bs = map (\<lambda>b. char_of (unat b)) bs"

subsection \<open>The line editor\<close>

definition insert_key :: "u8 \<Rightarrow> ('d, 'w) shell \<Rightarrow> (bool \<times> ('d, 'w) shell) option" where
  "insert_key c s =
     (if cmd_len s \<ge> int SH_MAX_LINE_LEN then Some (False, s)
      else do {
        buf \<leftarrow> (if cmd_pos s \<noteq> cmd_len s then memmove_at (cmd_buf s) (cmd_pos s + 1) (cmd_pos s) (cmd_len s - cmd_pos s) else Some (cmd_buf s));
        buf \<leftarrow> store_at buf (cmd_pos s) c;
        Some (True, s\<lparr>cmd_buf := buf, cmd_pos := cmd_pos s + 1, cmd_len := cmd_len s + 1\<rparr>)
      })"

definition delete_key :: "int \<Rightarrow> ('d, 'w) shell \<Rightarrow> ('d, 'w) shell option" where
  "delete_key where s =
     map_option (\<lambda>buf. s\<lparr>cmd_buf := buf, cmd_len := cmd_len s - 1\<rparr>) (memmove_at (cmd_buf s) where (where + 1) (cmd_len s - where))"

definition handle_key :: "u16 \<Rightarrow> ('d, 'w) shell \<Rightarrow> ('d, 'w) shell option" where
  "handle_key key s =
     (if key = KEY_LEFT then
        Some (if cmd_pos s > 0 then emit [Esc CHR ''D''] (s\<lparr>cmd_pos := cmd_pos s - 1\<rparr>) else s)
      else if key = KEY_RIGHT then
        Some (if cmd_pos s < cmd_len s then emit [Esc CHR ''C''] (s\<lparr>cmd_pos := cmd_pos s + 1\<rparr>) else s)
      else if key = KEY_ENTER \<or> key = KEY_ENTER10 then
        Some (emit [Print endl []] s\<lparr>sh_st := SH_EXEC\<rparr>)
      else if key = KEY_DELETE then
        (if cmd_pos s \<noteq> cmd_len s then map_option (emit [Esc CHR ''P'']) (delete_key (cmd_pos s) s) else Some s)
      else if key = KEY_BACKSPACE then
        (if cmd_pos s > 0 then
           map_option (\<lambda>s. s\<lparr>cmd_pos := cmd_pos s - 1\<rparr>) (delete_key (cmd_pos s - 1) (emit [Esc CHR ''D'', Esc CHR ''P''] s))
         else Some s)
      else if key = 9 then Some s
      else if key AND ESCAPE_FLAG = 0 then
        map_option (\<lambda>(ok, s). if ok then emit [Esc CHR ''@'', Putc (ucast key)] s else s) (insert_key (ucast key) s)
      else Some s)"

definition shell_input :: "int \<Rightarrow> ('d, 'w) shell \<Rightarrow> (int \<times> ('d, 'w) shell) option" where
  "shell_input c s =
     (if c < 0 then Some (0, s)
      else
        (let key = (if c = 27 \<or> (current_key s AND ESCAPE_FLAG \<noteq> 0 \<and> c = 91) then ESCAPE_FLAG else current_key s OR word_of_int c);
             s = s\<lparr>current_key := key\<rparr> in
         if key AND 0xff \<noteq> 0 then map_option (\<lambda>s. (1, s\<lparr>current_key := 0\<rparr>)) (handle_key key s)
         else Some (1, s)))"

subsection \<open>Words and dispatch\<close>

text \<open>\<open>while (cmd_buf[i] == ' ') cmd_buf[i++] = 0;\<close> and \<open>while (cmd_buf[i] != ' ' && cmd_buf[i]) i++;\<close>\<close>

function skip_spaces :: "u8 list \<Rightarrow> nat \<Rightarrow> (u8 list \<times> nat) option" where
  "skip_spaces buf i =
     (case load buf i of
        None \<Rightarrow> None
      | Some c \<Rightarrow> if c = 32 then skip_spaces (buf[i := 0]) (i + 1) else Some (buf, i))"
  by pat_completeness auto
termination
  by (relation "measure (\<lambda>(buf, i). length buf - i)") (auto simp: load_def split: if_splits)

function skip_word :: "u8 list \<Rightarrow> nat \<Rightarrow> nat option" where
  "skip_word buf i =
     (case load buf i of
        None \<Rightarrow> None
      | Some c \<Rightarrow> if c \<noteq> 32 \<and> c \<noteq> 0 then skip_word buf (i + 1) else Some i)"
  by pat_completeness auto
termination
  by (relation "measure (\<lambda>(buf, i). length buf - i)") (auto simp: load_def split: if_splits)

declare skip_spaces.simps [simp del] skip_word.simps [simp del]

text \<open>The positions of at most \<open>n\<close> more words from \<open>i\<close> on.\<close>

fun tokens :: "nat \<Rightarrow> u8 list \<Rightarrow> nat \<Rightarrow> (nat list \<times> u8 list) option" where
  "tokens 0 buf i = Some ([], buf)"
| "tokens (Suc n) buf i =
     (case skip_spaces buf i of
        None \<Rightarrow> None
      | Some (buf, i) \<Rightarrow>
          (case load buf i of
             None \<Rightarrow> None
           | Some c \<Rightarrow>
               (if c = 0 then Some ([], buf)
                else
                  (case skip_word buf i of
                     None \<Rightarrow> None
                   | Some j \<Rightarrow>
                       (case load buf j of
                          None \<Rightarrow> None
                        | Some c \<Rightarrow> if c = 0 then Some ([i], buf) else map_option (\<lambda>(ts, buf). (i # ts, buf)) (tokens n buf j))))))"

definition dispatch_args :: "('d, 'w) sh_call \<Rightarrow> u8 list list \<Rightarrow> ('d, 'w) shell \<Rightarrow> (int \<times> ('d, 'w) shell) option" where
  "dispatch_args call args s =
     (if args = [] then Some (0, s)
      else if hd args ! 0 = 35 then Some (0, s)
      else
        (case find (\<lambda>(name, f). strcasecmp name (bytes_str (hd args)) = 0) (sh_cmds s) of
           Some (name, f) \<Rightarrow>
             map_option (\<lambda>(rv, s). (rv, if rv < 0 then emit [Print (''Command \"%s\": error %d'' @ endl) [VStr (Some name), VInt (word_of_int rv)]] s else s))
               (call f (tl args) s)
         | None \<Rightarrow> Some (- EINVAL, emit [Print (''Unrecognized command \"%s\".'' @ endl) [VBytes (hd args)]] s)))"

definition shell_exec_line :: "('d, 'w) sh_call \<Rightarrow> ('d, 'w) shell \<Rightarrow> (int \<times> ('d, 'w) shell) option" where
  "shell_exec_line call s = do {
     (ts, buf) \<leftarrow> tokens SH_MAX_ARGS (cmd_buf s) 0;
     args \<leftarrow> those (map (cstring buf) ts);
     dispatch_args call args (s\<lparr>cmd_buf := buf\<rparr>)
   }"

text \<open>\<open>cmd = None\<close>: the line is in the buffer already. Otherwise \<open>strncpy\<close> copies at most 80 characters.\<close>

definition shell_exec :: "('d, 'w) sh_call \<Rightarrow> u8 list option \<Rightarrow> ('d, 'w) shell \<Rightarrow> (int \<times> ('d, 'w) shell) option" where
  "shell_exec call cmd s = do {
     let buf = (case cmd of None \<Rightarrow> cmd_buf s
                | Some cmd \<Rightarrow> take SH_MAX_LINE_LEN (cmd @ replicate SH_MAX_LINE_LEN 0) @ drop SH_MAX_LINE_LEN (cmd_buf s));
     line \<leftarrow> cstring buf 0;
     (i, s) \<leftarrow> shell_exec_line call (s\<lparr>cmd_buf := buf, cmd_len := int (length line), shell_is_interacting := True\<rparr>);
     buf \<leftarrow> store (cmd_buf s) 0 0;
     Some (i, s\<lparr>shell_is_interacting := False, cmd_buf := buf\<rparr>)
   }"

definition shell_init :: "('d, 'w) shell \<Rightarrow> ('d, 'w) shell" where
  "shell_init s = s\<lparr>cmd_len := 0, cmd_pos := 0, sh_st := SH_PROMPT, shell_ui_callback := None\<rparr>"

text \<open>
  One call of \<open>shell_interactive\<close>. \<open>c\<close> is what \<open>console_getc\<close> returns if it is called; \<open>ui\<close> runs the callback of the user
  interface, \<open>redraw\<close> is \<open>redraw_gui\<close>.
\<close>

definition shell_interactive ::
  "('d, 'w) sh_call \<Rightarrow> (nat \<Rightarrow> ('d, 'w) shell \<Rightarrow> int \<times> ('d, 'w) shell) \<Rightarrow> (('d, 'w) shell \<Rightarrow> ('d, 'w) shell) \<Rightarrow>
     int \<Rightarrow> ('d, 'w) shell \<Rightarrow> (int \<times> ('d, 'w) shell) option" where
  "shell_interactive call ui redraw c s =
     (case sh_st s of
        SH_PROMPT \<Rightarrow> Some (1, emit [Print ''wrc# '' []] s\<lparr>cmd_pos := 0, cmd_len := 0, sh_st := SH_INPUT\<rparr>)
      | SH_INPUT \<Rightarrow> shell_input c s
      | SH_EXEC \<Rightarrow> do {
          buf \<leftarrow> store_at (cmd_buf s) (cmd_len s) 0;
          (rv, s) \<leftarrow> shell_exec_line call (s\<lparr>cmd_buf := buf\<rparr>);
          Some (1, if sh_st s = SH_EXEC_UI then s else s\<lparr>sh_st := SH_PROMPT\<rparr>)
        }
      | SH_EXEC_UI \<Rightarrow> do {
          let s = (if c = 114 then redraw s else s);
          let (leave, s) = (case shell_ui_callback s of None \<Rightarrow> (True, s) | Some u \<Rightarrow> (let (r, s) = ui u s in (r < 0, s)));
          if leave \<or> c = 27 \<or> c = 113
          then map_option (\<lambda>buf. (1, s\<lparr>cmd_buf := buf, sh_st := SH_PROMPT\<rparr>)) (store_at (cmd_buf s) (cmd_len s) 0)
          else Some (1, s)
        })"

subsection \<open>Boot scripts\<close>

text \<open>
  \<open>init\<close> is the built-in script \<open>CONFIG_INIT_COMMAND\<close> (\<open>None\<close>: not configured), commands separated by semicolons;
  \<open>init_p\<close> is the static pointer into it. The result is the length of the command.
\<close>

definition build_init_readcmd :: "u8 list \<Rightarrow> nat \<Rightarrow> ('d, 'w) shell \<Rightarrow> (nat \<times> ('d, 'w) shell) option" where
  "build_init_readcmd init maxlen s = do {
     let cmd = take maxlen (takeWhile (\<lambda>b. b \<noteq> 59) (drop (init_p s) init));
     buf \<leftarrow> store_bytes (cmd_buf s) 0 (cmd @ [0]);
     let p = init_p s + length cmd;
     let p = (if p < length init \<and> init ! p = 59 then p + 1 else p);
     Some (length cmd, s\<lparr>cmd_buf := buf, init_p := (if cmd = [] then 0 else p)\<rparr>)
   }"

definition executing :: "u8 list \<Rightarrow> term_out" where
  "executing cmd = Print (''executing: %s'' @ endl) [VBytes cmd]"

partial_function (option) boot_builtin :: "('d, 'w) sh_call \<Rightarrow> u8 list \<Rightarrow> ('d, 'w) shell \<Rightarrow> ('d, 'w) shell option" where
  "boot_builtin call init s =
     (case build_init_readcmd init SH_MAX_LINE_LEN s of
        None \<Rightarrow> None
      | Some (len, s) \<Rightarrow>
          (let s = s\<lparr>cmd_len := int len\<rparr> in
           if len = 0 then Some s
           else
             (case cstring (cmd_buf s) 0 of
                None \<Rightarrow> None
              | Some cmd \<Rightarrow>
                  (case shell_exec call None (emit [executing cmd] s) of
                     None \<Rightarrow> None
                   | Some (r, s) \<Rightarrow> boot_builtin call init s))))"

partial_function (option) boot_flash :: "'d storage_rwops \<Rightarrow> ('d, 'w) sh_call \<Rightarrow> bool \<Rightarrow> ('d, 'w) shell \<Rightarrow> ('d, 'w) shell option" where
  "boot_flash ops call next s =
     (case storage_init_readcmd ops (cmd_buf s) SH_MAX_LINE_LEN next (init_ptr s) (sh_fs s) of
        None \<Rightarrow> None
      | Some (len, buf, ptr, fs) \<Rightarrow>
          (let s = s\<lparr>cmd_len := len, cmd_buf := buf, init_ptr := ptr, sh_fs := fs\<rparr> in
           if len \<le> 0 then Some (if \<not> next then emit [Print (''Empty init script...'' @ endl) []] s else s)
           else
             (case store_at buf (len - 1) 0 of
                None \<Rightarrow> None
              | Some buf \<Rightarrow>
                  (case cstring buf 0 of
                     None \<Rightarrow> None
                   | Some cmd \<Rightarrow>
                       (case shell_exec call None (emit [executing cmd] (s\<lparr>cmd_buf := buf\<rparr>)) of
                          None \<Rightarrow> None
                        | Some (r, s) \<Rightarrow> boot_flash ops call True s)))))"

declare boot_builtin.simps [code] boot_flash.simps [code]

definition shell_boot_script ::
  "'d storage_rwops \<Rightarrow> u8 list option \<Rightarrow> bool \<Rightarrow> ('d, 'w) sh_call \<Rightarrow> ('d, 'w) shell \<Rightarrow> ('d, 'w) shell option" where
  "shell_boot_script ops init has_flash_init call s = do {
     s \<leftarrow> (case init of None \<Rightarrow> Some s | Some init \<Rightarrow> boot_builtin call init s);
     if has_flash_init then boot_flash ops call False s else Some s
   }"

subsection \<open>Registration, the user interface and sub-commands\<close>

definition shell_register_command :: "string \<Rightarrow> nat \<Rightarrow> ('d, 'w) shell \<Rightarrow> ('d, 'w) shell" where
  "shell_register_command name f s =
     (if length (sh_cmds s) \<ge> SHELL_MAX_COMMANDS then emit [Print (''can't register shell command '' @ [CHR 0x27] @ ''%s'' @ [CHR 0x27] @ '', increase SHELL_MAX_COMMANDS'' @ endl) [VStr (Some name)]] s
      else s\<lparr>sh_cmds := sh_cmds s @ [(name, f)]\<rparr>)"

definition shell_activate_ui_command :: "nat \<Rightarrow> ('d, 'w) shell \<Rightarrow> ('d, 'w) shell" where
  "shell_activate_ui_command callback s = s\<lparr>shell_ui_callback := Some callback, sh_st := SH_EXEC_UI, cmd_len := 0\<rparr>"

definition cmd_help :: "('d, 'w) shell \<Rightarrow> int \<times> ('d, 'w) shell" where
  "cmd_help s = (0, emit (Print (''Available commands:'' @ endl) [] # map (\<lambda>(name, f). Print ('' %s'' @ endl) [VStr (Some name)]) (sh_cmds s)) s)"

text \<open>The index of the sub-command, or -1 and the list of them; \<open>name\<close> is the command's own name, \<open>args[-1]\<close>.\<close>

definition usage :: "string list \<Rightarrow> u8 list \<Rightarrow> term_out list" where
  "usage subs name = Print (''usage:'' @ endl) [] # map (\<lambda>x. Print ('' %s %s'' @ endl) [VBytes name, VStr (Some x)]) subs"

definition sub_cmd :: "string list \<Rightarrow> u8 list \<Rightarrow> u8 list list \<Rightarrow> ('d, 'w) shell \<Rightarrow> int \<times> ('d, 'w) shell" where
  "sub_cmd subs name args s =
     (case args of
        a # _ \<Rightarrow> (if bytes_str a \<in> set subs then (int (length (takeWhile (\<lambda>x. x \<noteq> bytes_str a) subs)), s)
                   else (- 1, emit (usage subs name) s))
      | [] \<Rightarrow> (- 1, emit (usage subs name) s))"

text \<open>\<open>init show\<close> prints the built-in script, with the static pointer of the boot script.\<close>

partial_function (option) show_builtin :: "u8 list \<Rightarrow> nat \<Rightarrow> ('d, 'w) shell \<Rightarrow> (nat \<times> ('d, 'w) shell) option" where
  "show_builtin init i s =
     (case build_init_readcmd init SH_MAX_LINE_LEN s of
        None \<Rightarrow> None
      | Some (len, s) \<Rightarrow>
          (let s = s\<lparr>cmd_len := int len\<rparr> in
           if len = 0 then Some (i, s)
           else
             (case cstring (cmd_buf s) 0 of
                None \<Rightarrow> None
              | Some cmd \<Rightarrow> show_builtin init (i + 1) (emit [Print (''%s'' @ endl) [VBytes cmd]] s))))"

declare show_builtin.simps [code]

definition shell_show_build_init :: "u8 list option \<Rightarrow> ('d, 'w) shell \<Rightarrow> ('d, 'w) shell option" where
  "shell_show_build_init init s = do {
     (i, s) \<leftarrow> (case init of None \<Rightarrow> Some | Some init \<Rightarrow> (\<lambda>(i, s). show_builtin init i s))
       (0, emit [Print (''-- built-in script --'' @ endl) []] s);
     Some (if i = 0 then emit [Print (''(empty)'' @ endl) []] s else s)
   }"

definition init_cmds :: "string list" where
  "init_cmds = [''erase'', ''add'', ''show'', ''boot'']"

definition cmd_init ::
  "'d storage_rwops \<Rightarrow> bool \<Rightarrow> u8 \<Rightarrow> u8 list option \<Rightarrow> bool \<Rightarrow> ('d, 'w) sh_call \<Rightarrow> u8 list list \<Rightarrow> ('d, 'w) shell \<Rightarrow> (int \<times> ('d, 'w) shell) option" where
  "cmd_init ops le byte init has_flash_init call args s =
     (let (icmd, s) = sub_cmd init_cmds (str_bytes ''init'') args s in
      if icmd = 0 then
        (let (r, fs) = storage_init_erase ops (sh_fs s); s = s\<lparr>sh_fs := fs\<rparr>
         in Some (0, if r < 0 then emit [Print (''Could not erase init script'' @ endl) []] s else s))
      else if icmd = 1 then
        (if length args < 2 then Some (- 1, s)
         else
           map_option (\<lambda>(r, fs). (0, emit [Print ((if r < 0 then ''Could not add the command'' else ''OK.'') @ endl) []] (s\<lparr>sh_fs := fs\<rparr>)))
             (storage_init_add ops le args byte (sh_fs s)))
      else if icmd = 2 then do {
        s \<leftarrow> shell_show_build_init init s;
        (r, shown, fs) \<leftarrow> storage_init_show ops byte (sh_fs s);
        Some (0, emit (map Putc shown) (s\<lparr>sh_fs := fs\<rparr>))
      }
      else if icmd = 3 then map_option (Pair 0) (shell_boot_script ops init has_flash_init call s)
      else Some (- 1, s))"


section \<open>Specification notions\<close>

subsection \<open>A line with a cursor\<close>

text \<open>The keys of a terminal; an arrow key sends escape, bracket and a letter.\<close>

datatype key = Left_key | Right_key | Enter_key | Delete_key | Backspace_key | Char_key u8 | No_key

definition decode :: "bool \<Rightarrow> int \<Rightarrow> key \<times> bool" where
  "decode esc c =
     (if c = 27 \<or> (esc \<and> c = 91) then (No_key, True)
      else if c = 0 then (No_key, esc)
      else if esc then (if c = 68 then Left_key else if c = 67 then Right_key else No_key, False)
      else (if c = 13 \<or> c = 10 then Enter_key else if c = 126 then Delete_key else if c = 127 then Backspace_key
            else if c = 9 then No_key else Char_key (word_of_int c), False))"

fun decode_all :: "bool \<Rightarrow> int list \<Rightarrow> key list" where
  "decode_all esc [] = []"
| "decode_all esc (c # cs) = fst (decode esc c) # decode_all (snd (decode esc c)) cs"

text \<open>The text before and behind the cursor, and what a key does to it.\<close>

type_synonym line = "u8 list \<times> u8 list"

fun edit :: "key \<Rightarrow> line \<Rightarrow> line" where
  "edit Left_key (l, r) = (if l = [] then (l, r) else (butlast l, last l # r))"
| "edit Right_key (l, r) = (if r = [] then (l, r) else (l @ [hd r], tl r))"
| "edit Delete_key (l, r) = (l, tl r)"
| "edit Backspace_key (l, r) = (butlast l, r)"
| "edit (Char_key c) (l, r) = (if length l + length r \<ge> SH_MAX_LINE_LEN then (l, r) else (l @ [c], r))"
| "edit Enter_key (l, r) = (l, r)"
| "edit No_key (l, r) = (l, r)"

text \<open>A terminal line: cursor left and right, delete a character, insert a blank, and print over a character.\<close>

fun term_step :: "term_out \<Rightarrow> line \<Rightarrow> line" where
  "term_step (Esc c) (l, r) =
     (if c = CHR ''D'' then (if l = [] then (l, r) else (butlast l, last l # r))
      else if c = CHR ''C'' then (if r = [] then (l, r) else (l @ [hd r], tl r))
      else if c = CHR ''P'' then (l, tl r)
      else if c = CHR ''@'' then (l, 32 # r)
      else (l, r))"
| "term_step (Putc b) (l, r) = (l @ [b], tl r)"
| "term_step (Print f as) x = x"

definition line_of :: "('d, 'w) shell \<Rightarrow> line" where
  "line_of s = (take (nat (cmd_pos s)) (cmd_buf s), drop (nat (cmd_pos s)) (take (nat (cmd_len s)) (cmd_buf s)))"

definition line_ok :: "('d, 'w) shell \<Rightarrow> bool" where
  "line_ok s \<longleftrightarrow> length (cmd_buf s) = 81 \<and> 0 \<le> cmd_pos s \<and> cmd_pos s \<le> cmd_len s \<and> cmd_len s \<le> 80"

text \<open>The state of the key decoder.\<close>

definition key_state :: "bool \<Rightarrow> ('d, 'w) shell \<Rightarrow> bool" where
  "key_state esc s \<longleftrightarrow> current_key s = (if esc then ESCAPE_FLAG else 0)"

section \<open>Facts\<close>

subsection \<open>The editor\<close>

text \<open>A buffer in the shape of a line: the text before and behind the cursor, and the rest.\<close>

definition line_shape :: "('d, 'w) shell \<Rightarrow> u8 list \<Rightarrow> u8 list \<Rightarrow> u8 list \<Rightarrow> bool" where
  "line_shape s l r t \<longleftrightarrow> cmd_buf s = l @ r @ t \<and> cmd_pos s = int (length l) \<and> cmd_len s = int (length l + length r)
     \<and> length l + length r \<le> 80 \<and> length (l @ r @ t) = 81"

lemma line_okE:
  assumes "line_ok s"
  obtains l r t where "line_shape s l r t"
proof -
  let ?p = "nat (cmd_pos s)" and ?n = "nat (cmd_len s)"
  have b: "?p \<le> ?n" "?n \<le> 80" "length (cmd_buf s) = 81" using assms by (auto simp: line_ok_def)
  have "cmd_buf s = take ?p (cmd_buf s) @ drop ?p (take ?n (cmd_buf s)) @ drop ?n (cmd_buf s)"
    using b(1) by (metis append_assoc append_take_drop_id min.absorb1 take_take)
  then show ?thesis using b assms
    by (intro that [of "take ?p (cmd_buf s)" "drop ?p (take ?n (cmd_buf s))" "drop ?n (cmd_buf s)"]) (auto simp: line_shape_def line_ok_def)
qed

lemma line_shapeD: "line_shape s l r t \<Longrightarrow> line_ok s" "line_shape s l r t \<Longrightarrow> line_of s = (l, r)"
  by (auto simp: line_shape_def line_ok_def line_of_def nat_add_distrib)

lemma line_shape_pos:
  assumes "line_shape s l r t"
  shows "cmd_pos s > 0 \<longleftrightarrow> l \<noteq> []" "cmd_pos s < cmd_len s \<longleftrightarrow> r \<noteq> []" "cmd_pos s = cmd_len s \<longleftrightarrow> r = []"
  using assms by (auto simp: line_shape_def)

lemma insert_key_spec:
  assumes s: "line_shape s l r t" and "length l + length r < 80"
  shows "insert_key c s = Some (True, s\<lparr>cmd_buf := (l @ [c]) @ r @ tl t, cmd_pos := cmd_pos s + 1, cmd_len := cmd_len s + 1\<rparr>)"
proof -
  note a = assms [unfolded line_shape_def]
  obtain x t' where t: "t = x # t'" using a by (cases t) auto
  show ?thesis
  proof (cases r)
    case Nil
    then show ?thesis using a t by (simp add: insert_key_def SH_MAX_LINE_LEN_def store_at_def store_def nat_add_distrib)
  next
    case (Cons y r')
    have "memmove_at (cmd_buf s) (cmd_pos s + 1) (cmd_pos s) (cmd_len s - cmd_pos s) = Some (l @ [y] @ r @ t')"
      using a t Cons by (simp add: memmove_at_def load_bytes_def store_bytes_def nat_add_distrib)
    then show ?thesis using a Cons t by (simp add: insert_key_def SH_MAX_LINE_LEN_def store_at_def store_def)
  qed
qed

lemma delete_key_spec:
  assumes "cmd_buf s = l @ y # r @ t" "cmd_len s = int (length l + 1 + length r)" "w = int (length l)" "length l + length r < 80"
    "length (cmd_buf s) = 81"
  shows "\<exists>z. delete_key w s = Some (s\<lparr>cmd_buf := l @ r @ z # t, cmd_len := cmd_len s - 1\<rparr>)"
proof -
  obtain x t' where t: "t = x # t'" using assms by (cases t) auto
  have "memmove_at (cmd_buf s) w (w + 1) (cmd_len s - w) = Some (l @ (r @ [x]) @ x # t')"
    using assms t by (simp add: memmove_at_def load_bytes_def store_bytes_def nat_add_distrib)
  then show ?thesis using t by (intro exI [of _ x]) (simp add: delete_key_def)
qed

text \<open>What a key does: to the line, to the terminal, and to the state of the shell.\<close>

definition key_effect :: "key \<Rightarrow> ('d, 'w) shell \<Rightarrow> ('d, 'w) shell \<Rightarrow> bool" where
  "key_effect k s s' \<longleftrightarrow> line_ok s' \<and> line_of s' = edit k (line_of s) \<and> sh_st s' = (if k = Enter_key then SH_EXEC else sh_st s)
     \<and> sh_cmds s' = sh_cmds s \<and> sh_world s' = sh_world s
     \<and> (\<exists>os. sh_out s' = sh_out s @ os \<and> (k \<noteq> Enter_key \<longrightarrow> fold term_step os (line_of s) = line_of s'))"

lemma key_effectI:
  assumes "line_shape s l r t" "line_shape s' l' r' t'" "edit k (l, r) = (l', r')" "sh_st s' = sh_st s" "sh_out s' = sh_out s @ os"
    "fold term_step os (l, r) = (l', r')" "k \<noteq> Enter_key" "sh_cmds s' = sh_cmds s" "sh_world s' = sh_world s"
  shows "key_effect k s s'"
  using assms line_shapeD [OF assms(1)] line_shapeD [OF assms(2)] unfolding key_effect_def by auto

lemma key_no_effect: "line_ok s \<Longrightarrow> edit k (line_of s) = line_of s \<Longrightarrow> k \<noteq> Enter_key \<Longrightarrow> key_effect k s s"
  unfolding key_effect_def by (metis append_Nil2 fold_simps(1) id_apply)

definition key_of :: "u16 \<Rightarrow> key" where
  "key_of k =
     (if k = KEY_LEFT then Left_key else if k = KEY_RIGHT then Right_key else if k = KEY_ENTER \<or> k = KEY_ENTER10 then Enter_key
      else if k = KEY_DELETE then Delete_key else if k = KEY_BACKSPACE then Backspace_key else if k = 9 then No_key
      else if k AND ESCAPE_FLAG = 0 then Char_key (ucast k) else No_key)"

definition key_word :: "bool \<Rightarrow> int \<Rightarrow> u16" where
  "key_word esc c = (if c = 27 \<or> (esc \<and> c = 91) then ESCAPE_FLAG else (if esc then ESCAPE_FLAG else 0) OR word_of_int c)"

definition key_agrees :: "bool \<Rightarrow> int \<Rightarrow> bool" where
  "key_agrees esc c \<longleftrightarrow>
     (if key_word esc c AND 0xff \<noteq> 0 then decode esc c = (key_of (key_word esc c), False)
      else fst (decode esc c) = No_key \<and> key_word esc c = (if snd (decode esc c) then ESCAPE_FLAG else 0))"

lemma keys_agree: "list_all (key_agrees False) [0..255] \<and> list_all (key_agrees True) [0..255]"
  by code_simp

lemma key_agreesI:
  assumes "0 \<le> c" "c < 256"
  shows "key_agrees esc c"
proof -
  have "c \<in> set [0..255]" using assms by (simp only: set_upto) simp
  then show ?thesis using keys_agree unfolding list_all_iff by (metis (full_types))
qed


lemmas key_codes = KEY_LEFT_def KEY_RIGHT_def ESCAPE_FLAG_def KEY_ENTER_def KEY_ENTER10_def KEY_DELETE_def KEY_BACKSPACE_def

lemma handle_left:
  assumes "line_ok s"
  shows "\<exists>s'. handle_key KEY_LEFT s = Some s' \<and> key_effect Left_key s s'"
proof -
  obtain l r t where b: "line_shape s l r t" using line_okE [OF assms] .
  show ?thesis
  proof (cases "l = []")
    case True
    then show ?thesis using assms line_shape_pos [OF b] line_shapeD [OF b] by (auto simp: handle_key_def intro: key_no_effect)
  next
    case False
    let ?s = "emit [Esc CHR ''D''] (s\<lparr>cmd_pos := cmd_pos s - 1\<rparr>)"
    have "line_shape ?s (butlast l) (last l # r) t" using b False
      by (auto simp: line_shape_def emit_def of_nat_diff Suc_leI)
    then have "key_effect Left_key s ?s" using False by (intro key_effectI [OF b]) (auto simp: emit_def)
    then show ?thesis using False line_shape_pos [OF b] by (simp add: handle_key_def)
  qed
qed

lemma handle_right:
  assumes "line_ok s"
  shows "\<exists>s'. handle_key KEY_RIGHT s = Some s' \<and> key_effect Right_key s s'"
proof -
  obtain l r t where b: "line_shape s l r t" using line_okE [OF assms] .
  have k: "handle_key KEY_RIGHT s = Some (if cmd_pos s < cmd_len s then emit [Esc CHR ''C''] (s\<lparr>cmd_pos := cmd_pos s + 1\<rparr>) else s)"
    by (simp add: handle_key_def key_codes)
  show ?thesis
  proof (cases r)
    case Nil
    then show ?thesis using assms k line_shape_pos [OF b] line_shapeD [OF b] by (auto intro: key_no_effect)
  next
    case (Cons y r')
    let ?s = "emit [Esc CHR ''C''] (s\<lparr>cmd_pos := cmd_pos s + 1\<rparr>)"
    have "line_shape ?s (l @ [y]) r' t" using b Cons by (auto simp: line_shape_def emit_def)
    then have "key_effect Right_key s ?s" using Cons by (intro key_effectI [OF b]) (auto simp: emit_def)
    then show ?thesis using Cons k line_shape_pos [OF b] by simp
  qed
qed

lemma handle_delete:
  assumes "line_ok s"
  shows "\<exists>s'. handle_key KEY_DELETE s = Some s' \<and> key_effect Delete_key s s'"
proof -
  obtain l r t where b: "line_shape s l r t" using line_okE [OF assms] .
  have k: "handle_key KEY_DELETE s = (if cmd_pos s \<noteq> cmd_len s then map_option (emit [Esc CHR ''P'']) (delete_key (cmd_pos s) s) else Some s)"
    by (simp add: handle_key_def key_codes)
  show ?thesis
  proof (cases r)
    case Nil
    then show ?thesis using assms k line_shape_pos [OF b] line_shapeD [OF b] by (auto intro: key_no_effect)
  next
    case (Cons y r')
    obtain z where z: "delete_key (cmd_pos s) s = Some (s\<lparr>cmd_buf := l @ r' @ z # t, cmd_len := cmd_len s - 1\<rparr>)"
      using delete_key_spec [of s l y r' t "cmd_pos s"] b Cons by (auto simp: line_shape_def)
    let ?s = "emit [Esc CHR ''P''] (s\<lparr>cmd_buf := l @ r' @ z # t, cmd_len := cmd_len s - 1\<rparr>)"
    have "line_shape ?s l r' (z # t)" using b Cons by (auto simp: line_shape_def emit_def)
    then have "key_effect Delete_key s ?s" using Cons by (intro key_effectI [OF b]) (auto simp: emit_def)
    then show ?thesis using Cons k z line_shape_pos [OF b] by simp
  qed
qed

lemma handle_backspace:
  assumes "line_ok s"
  shows "\<exists>s'. handle_key KEY_BACKSPACE s = Some s' \<and> key_effect Backspace_key s s'"
proof -
  obtain l r t where b: "line_shape s l r t" using line_okE [OF assms] .
  let ?s0 = "emit [Esc CHR ''D'', Esc CHR ''P''] s"
  have k: "handle_key KEY_BACKSPACE s = (if cmd_pos s > 0 then map_option (\<lambda>s. s\<lparr>cmd_pos := cmd_pos s - 1\<rparr>) (delete_key (cmd_pos s - 1) ?s0) else Some s)"
    by (simp add: handle_key_def key_codes)
  show ?thesis
  proof (cases l rule: rev_cases)
    case Nil
    then show ?thesis using assms k line_shape_pos [OF b] line_shapeD [OF b] by (auto intro: key_no_effect)
  next
    case (snoc l' y)
    obtain z where z: "delete_key (cmd_pos s - 1) ?s0 = Some (?s0\<lparr>cmd_buf := l' @ r @ z # t, cmd_len := cmd_len s - 1\<rparr>)"
      using delete_key_spec [of ?s0 l' y r t "cmd_pos s - 1"] b snoc by (auto simp: line_shape_def emit_def)
    let ?s = "?s0\<lparr>cmd_buf := l' @ r @ z # t, cmd_len := cmd_len s - 1, cmd_pos := cmd_pos s - 1\<rparr>"
    have "line_shape ?s l' r (z # t)" using b snoc by (auto simp: line_shape_def emit_def)
    then have "key_effect Backspace_key s ?s" using snoc by (intro key_effectI [OF b]) (auto simp: emit_def)
    then show ?thesis using snoc k z line_shape_pos [OF b] by (simp add: emit_def)
  qed
qed

lemma handle_char:
  assumes "line_ok s" "k \<notin> {KEY_LEFT, KEY_RIGHT, KEY_ENTER, KEY_ENTER10, KEY_DELETE, KEY_BACKSPACE, 9}" "k AND ESCAPE_FLAG = 0"
  shows "\<exists>s'. handle_key k s = Some s' \<and> key_effect (Char_key (ucast k)) s s'"
proof -
  obtain l r t where b: "line_shape s l r t" using line_okE [OF assms(1)] .
  have k: "handle_key k s = map_option (\<lambda>(ok, s). if ok then emit [Esc CHR ''@'', Putc (ucast k)] s else s) (insert_key (ucast k) s)"
    using assms(2,3) by (simp add: handle_key_def)
  show ?thesis
  proof (cases "length l + length r < 80")
    case True
    let ?s = "emit [Esc CHR ''@'', Putc (ucast k)] (s\<lparr>cmd_buf := (l @ [ucast k]) @ r @ tl t, cmd_pos := cmd_pos s + 1, cmd_len := cmd_len s + 1\<rparr>)"
    have "line_shape ?s (l @ [ucast k]) r (tl t)" using b True by (auto simp: line_shape_def emit_def)
    then have "key_effect (Char_key (ucast k)) s ?s" using True
      by (intro key_effectI [OF b]) (auto simp: emit_def SH_MAX_LINE_LEN_def)
    then show ?thesis using k insert_key_spec [OF b True] by simp
  next
    case False
    then have "handle_key k s = Some s" using k b by (simp add: insert_key_def SH_MAX_LINE_LEN_def line_shape_def)
    then show ?thesis using assms(1) False line_shapeD(2) [OF b] by (auto simp: SH_MAX_LINE_LEN_def intro: key_no_effect)
  qed
qed

lemma handle_key_effect:
  assumes "line_ok s"
  shows "\<exists>s'. handle_key k s = Some s' \<and> key_effect (key_of k) s s'"
proof -
  have enter: "\<exists>s'. handle_key k s = Some s' \<and> key_effect Enter_key s s'" if "k = KEY_ENTER \<or> k = KEY_ENTER10"
  proof -
    have "handle_key k s = Some (emit [Print endl []] s\<lparr>sh_st := SH_EXEC\<rparr>)" using that by (auto simp: handle_key_def key_codes)
    then show ?thesis using assms by (simp add: key_effect_def line_ok_def line_of_def emit_def)
  qed
  have none: "\<exists>s'. handle_key k s = Some s' \<and> key_effect No_key s s'" if "handle_key k s = Some s"
    using that assms key_no_effect [of s No_key] by (cases "line_of s") auto
  consider "k = KEY_LEFT" | "k = KEY_RIGHT" | "k = KEY_ENTER \<or> k = KEY_ENTER10" | "k = KEY_DELETE" | "k = KEY_BACKSPACE" | "k = 9"
    | "k \<notin> {KEY_LEFT, KEY_RIGHT, KEY_ENTER, KEY_ENTER10, KEY_DELETE, KEY_BACKSPACE, 9}" by auto
  then show ?thesis
    by cases (use handle_left [OF assms] handle_right [OF assms] handle_delete [OF assms] handle_backspace [OF assms] enter none
      handle_char [OF assms, of k] in \<open>auto simp: key_of_def key_codes handle_key_def\<close>)
qed


lemma key_effect_current_key [simp]: "key_effect k (s\<lparr>current_key := x\<rparr>) s' = key_effect k s s'"
  "key_effect k s (s'\<lparr>current_key := x\<rparr>) = key_effect k s s'"
  by (simp_all add: key_effect_def line_ok_def line_of_def)

lemma line_ok_current_key [simp]: "line_ok (s\<lparr>current_key := x\<rparr>) = line_ok s"
  by (simp add: line_ok_def)

lemma shell_input_effect:
  assumes "line_ok s" "key_state esc s" "0 \<le> c" "c < 256"
  shows "\<exists>s'. shell_input c s = Some (1, s') \<and> key_effect (fst (decode esc c)) s s' \<and> key_state (snd (decode esc c)) s'"
proof -
  let ?k = "key_word esc c"
  have E: "ESCAPE_FLAG \<noteq> 0" by (simp add: ESCAPE_FLAG_def)
  have k: "(if c = 27 \<or> (current_key s AND ESCAPE_FLAG \<noteq> 0 \<and> c = 91) then ESCAPE_FLAG else current_key s OR word_of_int c) = ?k"
    using assms(2) E by (auto simp: key_state_def key_word_def)
  have a: "key_agrees esc c" using key_agreesI [OF assms(3,4)] .
  show ?thesis
  proof (cases "?k AND 0xff = 0")
    case True
    then have "fst (decode esc c) = No_key" "?k = (if snd (decode esc c) then ESCAPE_FLAG else 0)" using a by (simp_all add: key_agrees_def)
    moreover have "key_effect No_key s s" using key_no_effect [OF assms(1), of No_key] by (cases "line_of s") auto
    ultimately show ?thesis using True assms(3) k by (simp add: shell_input_def Let_def key_state_def)
  next
    case False
    then have d: "decode esc c = (key_of ?k, False)" using a by (simp add: key_agrees_def)
    obtain s' where "handle_key ?k (s\<lparr>current_key := ?k\<rparr>) = Some s'" "key_effect (key_of ?k) s s'"
      using handle_key_effect [of "s\<lparr>current_key := ?k\<rparr>" ?k] assms(1) by auto
    then show ?thesis using False d assms(3) k by (simp add: shell_input_def Let_def key_state_def)
  qed
qed

text \<open>A sequence of keys on one line.\<close>

lemma typed_keys:
  assumes "line_ok s" "key_state esc s" "sh_st s = SH_INPUT" "\<forall>c \<in> set cs. 0 \<le> c \<and> c < 256" "Enter_key \<notin> set (decode_all esc cs)"
  shows "\<exists>s' os. for_each (\<lambda>c s. map_option snd (shell_interactive call ui redraw c s)) cs s = Some s' \<and> line_ok s' \<and> sh_st s' = SH_INPUT
    \<and> key_state (fold (\<lambda>c e. snd (decode e c)) cs esc) s' \<and> sh_cmds s' = sh_cmds s \<and> sh_world s' = sh_world s
    \<and> line_of s' = fold edit (decode_all esc cs) (line_of s) \<and> sh_out s' = sh_out s @ os \<and> fold term_step os (line_of s) = line_of s'"
  using assms
proof (induction cs arbitrary: s esc)
  case Nil
  then show ?case by simp
next
  case (Cons c cs)
  obtain s1 where s1: "shell_input c s = Some (1, s1)" "key_effect (fst (decode esc c)) s s1" "key_state (snd (decode esc c)) s1"
    using shell_input_effect [OF Cons.prems(1,2), of c] Cons.prems(4) by auto
  then obtain os1 where e: "line_ok s1" "line_of s1 = edit (fst (decode esc c)) (line_of s)" "sh_st s1 = SH_INPUT"
    "sh_out s1 = sh_out s @ os1" "fold term_step os1 (line_of s) = line_of s1"
    "sh_cmds s1 = sh_cmds s" "sh_world s1 = sh_world s"
    using Cons.prems(3,5) by (auto simp: key_effect_def)
  obtain s' os where "for_each (\<lambda>c s. map_option snd (shell_interactive call ui redraw c s)) cs s1 = Some s'" "line_ok s'" "sh_st s' = SH_INPUT"
    "key_state (fold (\<lambda>c e. snd (decode e c)) cs (snd (decode esc c))) s'" "sh_cmds s' = sh_cmds s1" "sh_world s' = sh_world s1"
    "line_of s' = fold edit (decode_all (snd (decode esc c)) cs) (line_of s1)" "sh_out s' = sh_out s1 @ os" "fold term_step os (line_of s1) = line_of s'"
    using Cons.IH [OF e(1) s1(3) e(3)] Cons.prems(4,5) by auto
  moreover have "shell_interactive call ui redraw c s = Some (1, s1)" using s1(1) Cons.prems(3) by (simp add: shell_interactive_def)
  ultimately show ?case using e by (intro exI [of _ s'] exI [of _ "os1 @ os"]) simp
qed

subsection \<open>Splitting a line\<close>

text \<open>
  The words of a line, at most \<open>n\<close> of them; the last of them is the whole rest of the line.
\<close>

fun split_line :: "nat \<Rightarrow> u8 list \<Rightarrow> u8 list list" where
  "split_line 0 l = []"
| "split_line (Suc n) l =
     (let l = dropWhile (\<lambda>b. b = 32) l in
      if l = [] then []
      else if n = 0 then [l]
      else takeWhile (\<lambda>b. b \<noteq> 32) l # split_line n (dropWhile (\<lambda>b. b \<noteq> 32) l))"

lemma load_append: "load (a @ x # b) (length a) = Some x"
  by (simp add: load_def)

lemma skip_spaces_spec:
  assumes "list_all (\<lambda>b. b = 32) sp" "x \<noteq> 32"
  shows "skip_spaces (a @ sp @ x # b) (length a) = Some (a @ replicate (length sp) 0 @ x # b, length a + length sp)"
  using assms(1)
proof (induction sp arbitrary: a)
  case Nil
  then show ?case using assms(2) by (simp add: skip_spaces.simps load_append)
next
  case (Cons y sp)
  then have "skip_spaces (a @ (y # sp) @ x # b) (length a) = skip_spaces ((a @ [0]) @ sp @ x # b) (length (a @ [0]))"
    by (subst skip_spaces.simps) (simp add: load_append)
  then show ?case using Cons.IH [of "a @ [0]"] Cons.prems by simp
qed

lemma skip_word_spec:
  assumes "list_all (\<lambda>b. b \<noteq> 32 \<and> b \<noteq> 0) w" "x = 32 \<or> x = 0"
  shows "skip_word (a @ w @ x # b) (length a) = Some (length a + length w)"
  using assms(1)
proof (induction w arbitrary: a)
  case Nil
  then show ?case using assms(2) by (auto simp: skip_word.simps load_append)
next
  case (Cons y w)
  then have "skip_word (a @ (y # w) @ x # b) (length a) = skip_word ((a @ [y]) @ w @ x # b) (length (a @ [y]))"
    by (subst skip_word.simps) (simp add: load_append)
  then show ?case using Cons.IH [of "a @ [y]"] Cons.prems by simp
qed

lemma cstring_append:
  assumes "0 \<notin> set w" "i = length a"
  shows "cstring (a @ w @ 0 # b) i = Some w"
proof -
  have "takeWhile (\<lambda>b. b \<noteq> 0) (w @ 0 # b) = w" using assms(1) by (induction w) auto
  then show ?thesis using assms(2) by (simp add: cstring_def)
qed

lemma split_line_Nil [simp]: "split_line n [] = []"
  by (cases n) simp_all

text \<open>One turn of the loop at the spaces \<open>sp\<close> and the word \<open>w\<close>.\<close>

lemma tokens_blank:
  assumes "list_all (\<lambda>b. b = 32) sp"
  shows "tokens (Suc n) (a @ sp @ 0 # b) (length a) = Some ([], a @ replicate (length sp) 0 @ 0 # b)"
  using skip_spaces_spec [OF assms, of 0 a b] load_append [of "a @ replicate (length sp) 0" 0 b] by simp

lemma tokens_word:
  assumes sp: "list_all (\<lambda>b. b = 32) sp" and w: "list_all (\<lambda>b. b \<noteq> 32 \<and> b \<noteq> 0) w" "w \<noteq> []" and t: "t = [] \<or> hd t = 32"
    and z: "z = a @ replicate (length sp) 0"
  shows "tokens (Suc n) (a @ sp @ w @ t @ 0 # b) (length a) =
    (if t = [] then Some ([length z], z @ w @ 0 # b)
     else map_option (\<lambda>(ts, buf). (length z # ts, buf)) (tokens n (z @ w @ t @ 0 # b) (length (z @ w))))"
proof -
  obtain x w' where x: "w = x # w'" "x \<noteq> 32" "x \<noteq> 0" using w by (cases w) auto
  obtain y t' where y: "t @ 0 # b = y # t'" "y = (if t = [] then 0 else 32)" using t by (cases t) auto
  have "skip_spaces (a @ sp @ w @ t @ 0 # b) (length a) = Some (z @ w @ t @ 0 # b, length z)"
    using skip_spaces_spec [OF sp x(2), of a "w' @ t @ 0 # b"] x(1) z by simp
  moreover have "load (z @ w @ t @ 0 # b) (length z) = Some x" using load_append [of z x "w' @ t @ 0 # b"] x(1) by simp
  moreover have "skip_word (z @ w @ t @ 0 # b) (length z) = Some (length (z @ w))"
    using skip_word_spec [OF w(1), of y z t'] y by (auto split: if_splits)
  moreover have "load (z @ w @ t @ 0 # b) (length (z @ w)) = Some y" using load_append [of "z @ w" y t'] y(1) by simp
  ultimately show ?thesis using x(3) y(2) by simp
qed

text \<open>What the splitting does to a line \<open>l\<close> without null bytes at position \<open>length a\<close>, with \<open>n\<close> words to go.\<close>

definition split_effect :: "nat \<Rightarrow> u8 list \<Rightarrow> u8 list \<Rightarrow> u8 list \<Rightarrow> (nat list \<times> u8 list) option \<Rightarrow> bool" where
  "split_effect n a l b res \<longleftrightarrow> (\<exists>ts l'. res = Some (ts, a @ l' @ 0 # b) \<and> length l' = length l
     \<and> map (cstring (a @ l' @ 0 # b)) ts = map Some (split_line n l)
     \<and> (if n = 0 then l' = l else l \<noteq> [] \<and> hd l = 32 \<longrightarrow> hd l' = 0))"

lemma split_effectI:
  assumes "res = Some (ts, a @ l' @ 0 # b)" "length l' = length l" "map (cstring (a @ l' @ 0 # b)) ts = map Some (split_line n l)"
    "if n = 0 then l' = l else l \<noteq> [] \<and> hd l = 32 \<longrightarrow> hd l' = 0"
  shows "split_effect n a l b res"
  using assms unfolding split_effect_def by blast

lemma tokens_split:
  assumes "0 \<notin> set l"
  shows "split_effect n a l b (tokens n (a @ l @ 0 # b) (length a))"
  using assms
proof (induction n arbitrary: a l)
  case 0
  then show ?case by (simp add: split_effect_def)
next
  case (Suc n)
  define sp where "sp = takeWhile (\<lambda>b. b = 32) l"
  define r where "r = dropWhile (\<lambda>b. b = 32) l"
  define w where "w = takeWhile (\<lambda>b. b \<noteq> 32) r"
  define t where "t = dropWhile (\<lambda>b. b \<noteq> 32) r"
  define z where "z = a @ replicate (length sp) (0 :: u8)"
  have l: "l = sp @ w @ t" "r = w @ t" by (simp_all add: sp_def r_def w_def t_def)
  have sp: "list_all (\<lambda>b. b = 32) sp" by (auto simp: sp_def list_all_iff dest: set_takeWhileD)
  have w0: "0 \<notin> set w" "0 \<notin> set r" "0 \<notin> set t" using Suc.prems unfolding l(1) l(2) by simp_all
  have "\<forall>b \<in> set w. b \<noteq> 32" by (auto simp: w_def dest: set_takeWhileD)
  then have w: "list_all (\<lambda>b. b \<noteq> 32 \<and> b \<noteq> 0) w" using w0(1) by (auto simp: list_all_iff)
  have t: "t = [] \<or> hd t = 32" using hd_dropWhile [of "\<lambda>b. b \<noteq> 32" r] by (auto simp: t_def)
  have hz: "hd (replicate (length sp) 0 @ x) = (0 :: u8)" if "l \<noteq> []" "hd l = 32" for x
    using that by (cases l) (auto simp: sp_def)
  have split: "split_line (Suc n) l = (if r = [] then [] else if n = 0 then [r] else w # split_line n t)"
    by (simp add: r_def w_def t_def Let_def)
  show ?case
  proof (cases "r = []")
    case True
    then have "l = sp" using l by simp
    then show ?thesis using tokens_blank [OF sp, of n a b] True hz [of "[]"] split
      by (intro split_effectI [where l' = "replicate (length sp) 0"]) auto
  next
    case False
    then have "w \<noteq> []" using hd_dropWhile [of "\<lambda>b. b = 32" l] by (cases r) (auto simp: r_def w_def)
    note tok = tokens_word [OF sp w this t z_def, of n b]
    from Suc.IH [OF w0(3), of "z @ w"] obtain ts t2 where
      ts: "tokens n (z @ w @ t @ 0 # b) (length (z @ w)) = Some (ts, z @ w @ t2 @ 0 # b)" "length t2 = length t"
        "map (cstring (z @ w @ t2 @ 0 # b)) ts = map Some (split_line n t)" "if n = 0 then t2 = t else t \<noteq> [] \<and> hd t = 32 \<longrightarrow> hd t2 = 0"
      by (auto simp: split_effect_def)
    have c: "cstring (z @ w @ t2 @ 0 # b) (length z) = Some (if n = 0 then r else w)"
    proof (cases "n = 0 \<or> t = []")
      case True
      then show ?thesis using ts(2,4) l(2) cstring_append [OF w0(2), of "length z" z b] by auto
    next
      case False
      then obtain t3 where "t2 = 0 # t3" using ts(2,4) t by (cases t2) auto
      then show ?thesis using cstring_append [OF w0(1), of "length z" z "t3 @ 0 # b"] False by simp
    qed
    define ts' where "ts' = (if t = [] then [length z] else length z # ts)"
    have "map (cstring (z @ w @ t2 @ 0 # b)) ts' = map Some (split_line (Suc n) l)"
      using c ts(2,3) False split l by (cases "t = []"; cases "n = 0") (auto simp: ts'_def)
    then show ?thesis using tok ts(1,2) l hz [of "w @ t2"]
      by (intro split_effectI [where l' = "replicate (length sp) 0 @ w @ t2" and ts = ts']) (auto simp: ts'_def z_def)
  qed
qed


lemma those_map_Some [simp]: "those (map Some xs) = Some xs"
  by (induction xs) simp_all

lemma exec_line_spec:
  assumes "cmd_buf s = line @ 0 # b" "0 \<notin> set line"
  shows "\<exists>l'. length l' = length line \<and>
    shell_exec_line call s = dispatch_args call (split_line SH_MAX_ARGS line) (s\<lparr>cmd_buf := l' @ 0 # b\<rparr>)"
proof -
  obtain ts l' where "tokens SH_MAX_ARGS (cmd_buf s) 0 = Some (ts, l' @ 0 # b)" "length l' = length line"
    "map (cstring (l' @ 0 # b)) ts = map Some (split_line SH_MAX_ARGS line)"
    using tokens_split [OF assms(2), of SH_MAX_ARGS "[]" b] assms(1) by (auto simp: split_effect_def)
  then show ?thesis by (intro exI [of _ l']) (simp add: shell_exec_line_def)
qed

text \<open>A line of the boot script is split into the words it was made of.\<close>

definition word_ok :: "u8 list \<Rightarrow> bool" where
  "word_ok w \<longleftrightarrow> w \<noteq> [] \<and> set w \<inter> {0, 10, 32, 0xff} = {}"

lemma script_line_snoc:
  assumes "ws \<noteq> []"
  shows "script_line ws = butlast (script_line ws) @ [10]"
  using assms
proof (induction ws)
  case (Cons w ws)
  then show ?case by (cases ws) (auto simp: butlast_append)
qed simp

lemma set_script_line: "list_all word_ok ws \<Longrightarrow> set (butlast (script_line ws)) \<inter> {0, 10, 0xff} = {}"
proof (induction ws)
  case (Cons w ws)
  then show ?case by (cases ws) (auto simp: word_ok_def butlast_append)
qed simp

lemma dropWhile_word: "word_ok w \<Longrightarrow> dropWhile (\<lambda>b. b = 32) (w @ x) = w @ x"
  by (cases w) (auto simp: word_ok_def)

lemma takeWhile_word: "word_ok w \<Longrightarrow> takeWhile (\<lambda>b. b \<noteq> 32) (w @ 32 # x) = w \<and> dropWhile (\<lambda>b. b \<noteq> 32) (w @ 32 # x) = 32 # x
    \<and> takeWhile (\<lambda>b. b \<noteq> 32) w = w \<and> dropWhile (\<lambda>b. b \<noteq> 32) w = []"
proof -
  assume w: "word_ok w"
  then have "\<forall>b \<in> set w. b \<noteq> 32" by (auto simp: word_ok_def)
  then show ?thesis by (induction w) auto
qed

lemma split_line_space: "split_line n (32 # l) = split_line n l"
  by (cases n) simp_all

lemma split_script_line:
  assumes "list_all word_ok ws" "length ws \<le> n"
  shows "split_line n (butlast (script_line ws)) = ws"
  using assms
proof (induction ws arbitrary: n)
  case (Cons w ws)
  then obtain m where n: "n = Suc m" "length ws \<le> m" by (cases n) simp_all
  have w: "word_ok w" "w \<noteq> []" using Cons.prems(1) by (auto simp: word_ok_def)
  show ?case
  proof (cases ws)
    case Nil
    have "dropWhile (\<lambda>b. b \<noteq> 32) w = []" "takeWhile (\<lambda>b. b \<noteq> 32) w = w" using takeWhile_word [OF w(1)] by blast+
    note d = this dropWhile_word [OF w(1), of "[]", simplified]
    show ?thesis using Nil w(2) by (simp add: n Let_def d)
  next
    case (Cons w' ws')
    then have "m \<noteq> 0" "butlast (script_line (w # ws)) = w @ 32 # butlast (script_line ws)" using n by (auto simp: butlast_append)
    then show ?thesis using w dropWhile_word [OF w(1)] takeWhile_word [OF w(1)] Cons.IH [of m] Cons.prems(1) n
      by (simp add: Let_def split_line_space)
  qed
qed simp


subsection \<open>The boot script\<close>

text \<open>
  Commands that change nothing of the shell but the rest of the system: \<open>act\<close> is what a command does to it.
\<close>

definition acts_on_world :: "('d, 'w) sh_call \<Rightarrow> (nat \<Rightarrow> u8 list list \<Rightarrow> 'w \<Rightarrow> 'w) \<Rightarrow> bool" where
  "acts_on_world call act \<longleftrightarrow> (\<forall>f args s. \<exists>rv. call f args s = Some (rv, s\<lparr>sh_world := act f args (sh_world s)\<rparr>))"

text \<open>What running the command line \<open>ws\<close> means.\<close>

definition run_command :: "(string \<times> nat) list \<Rightarrow> (nat \<Rightarrow> u8 list list \<Rightarrow> 'w \<Rightarrow> 'w) \<Rightarrow> u8 list list \<Rightarrow> 'w \<Rightarrow> 'w" where
  "run_command cmds act ws w =
     (if ws = [] \<or> hd ws ! 0 = 35 then w
      else
        (case find (\<lambda>(name, f). strcasecmp name (bytes_str (hd ws)) = 0) cmds of
           None \<Rightarrow> w
         | Some (name, f) \<Rightarrow> act f (tl ws) w))"

lemma emit_frame [simp]:
  "cmd_buf (emit os s) = cmd_buf s" "sh_cmds (emit os s) = sh_cmds s" "sh_fs (emit os s) = sh_fs s" "sh_world (emit os s) = sh_world s"
  "init_ptr (emit os s) = init_ptr s" "sh_st (emit os s) = sh_st s" "init_p (emit os s) = init_p s" "cmd_len (emit os s) = cmd_len s" "cmd_pos (emit os s) = cmd_pos s"
  by (simp_all add: emit_def)

text \<open>Everything of the shell but the buffer, the line length, the output and the rest of the system.\<close>

definition same_shell :: "('d, 'w) shell \<Rightarrow> ('d, 'w) shell \<Rightarrow> bool" where
  "same_shell s s' \<longleftrightarrow> sh_cmds s' = sh_cmds s \<and> sh_fs s' = sh_fs s \<and> init_ptr s' = init_ptr s \<and> sh_st s' = sh_st s \<and> init_p s' = init_p s"

lemma dispatch_runs:
  assumes "acts_on_world call act"
  shows "\<exists>rv s'. dispatch_args call args s = Some (rv, s') \<and> cmd_buf s' = cmd_buf s \<and> same_shell s s'
    \<and> sh_world s' = run_command (sh_cmds s) act args (sh_world s)"
proof (cases "find (\<lambda>(name, f). strcasecmp name (bytes_str (hd args)) = 0) (sh_cmds s)")
  case None
  then show ?thesis by (auto simp: dispatch_args_def run_command_def same_shell_def)
next
  case (Some nf)
  obtain name f where nf: "nf = (name, f)" by (cases nf)
  obtain rv where "call f (tl args) s = Some (rv, s\<lparr>sh_world := act f (tl args) (sh_world s)\<rparr>)"
    using assms unfolding acts_on_world_def by metis
  then show ?thesis using Some nf by (auto simp: dispatch_args_def run_command_def same_shell_def)
qed

lemma exec_line_runs:
  assumes "acts_on_world call act" "cmd_buf s = line @ 0 # b" "0 \<notin> set line"
  shows "\<exists>rv s'. shell_exec_line call s = Some (rv, s') \<and> length (cmd_buf s') = length (cmd_buf s) \<and> same_shell s s'
    \<and> sh_world s' = run_command (sh_cmds s) act (split_line SH_MAX_ARGS line) (sh_world s)"
proof -
  obtain l' where l': "length l' = length line"
    "shell_exec_line call s = dispatch_args call (split_line SH_MAX_ARGS line) (s\<lparr>cmd_buf := l' @ 0 # b\<rparr>)"
    using exec_line_spec [OF assms(2,3)] by blast
  then show ?thesis using dispatch_runs [OF assms(1), of "split_line SH_MAX_ARGS line" "s\<lparr>cmd_buf := l' @ 0 # b\<rparr>"] assms(2)
    by (auto simp: same_shell_def)
qed

lemma shell_exec_runs:
  assumes "acts_on_world call act" "cmd_buf s = line @ 0 # b" "0 \<notin> set line"
  shows "\<exists>rv s'. shell_exec call None s = Some (rv, s') \<and> length (cmd_buf s') = length (cmd_buf s) \<and> same_shell s s'
    \<and> sh_world s' = run_command (sh_cmds s) act (split_line SH_MAX_ARGS line) (sh_world s)"
proof -
  let ?s0 = "s\<lparr>cmd_buf := cmd_buf s, cmd_len := int (length line), shell_is_interacting := True\<rparr>"
  obtain rv s1 where s1: "shell_exec_line call ?s0 = Some (rv, s1)" "length (cmd_buf s1) = length (cmd_buf s)" "same_shell ?s0 s1"
    "sh_world s1 = run_command (sh_cmds s) act (split_line SH_MAX_ARGS line) (sh_world s)"
    using exec_line_runs [OF assms(1), of ?s0 line b] assms(2,3) by auto
  have "cstring (cmd_buf s) 0 = Some line" using cstring_append [OF assms(3), of 0 "[]" b] assms(2) by simp
  moreover have "store (cmd_buf s1) 0 0 = Some ((cmd_buf s1)[0 := 0])" using s1(2) assms(2) by (simp add: store_def)
  ultimately show ?thesis using s1 by (simp add: shell_exec_def same_shell_def)
qed

definition command_ok :: "u8 list list \<Rightarrow> bool" where
  "command_ok ws \<longleftrightarrow> ws \<noteq> [] \<and> list_all word_ok ws \<and> length ws \<le> SH_MAX_ARGS \<and> length (script_line ws) \<le> SH_MAX_LINE_LEN + 1"

lemma boot_flash_end:
  assumes "has_file mem ops SDB_DEV_INIT p (sh_fs s)" "file_bytes mem p (sh_fs s) = a @ rest" "blank rest" "length a < 65536"
    "length (cmd_buf s) = 81" "(if \<not> nx then 2 else init_ptr s) = of_nat (length a)"
  shows "\<exists>s'. boot_flash ops call nx s = Some s' \<and> sh_world s' = sh_world s"
proof -
  have "0 < length (cmd_buf s)" using assms(5) by simp
  from readcmd_end [OF assms(1-4) this assms(6), of SH_MAX_LINE_LEN] obtain r buf' ptr' fs' where
    "storage_init_readcmd ops (cmd_buf s) SH_MAX_LINE_LEN nx (init_ptr s) (sh_fs s) = Some (r, buf', ptr', fs')" "r \<le> 0" by blast
  then show ?thesis by (subst boot_flash.simps) (simp add: Let_def)
qed

lemma boot_flash_command:
  assumes "acts_on_world call act" "has_file mem ops SDB_DEV_INIT p (sh_fs s)" "file_bytes mem p (sh_fs s) = a @ script_line ws @ rest"
    "command_ok ws" "length a + length (script_line ws) < 65536" "length (cmd_buf s) = 81" "(if \<not> nx then 2 else init_ptr s) = of_nat (length a)"
  shows "\<exists>s'. boot_flash ops call nx s = boot_flash ops call True s' \<and> sh_world s' = run_command (sh_cmds s) act ws (sh_world s)
    \<and> sh_cmds s' = sh_cmds s \<and> length (cmd_buf s') = 81 \<and> init_ptr s' = of_nat (length a + length (script_line ws))
    \<and> has_file mem ops SDB_DEV_INIT p (sh_fs s') \<and> file_bytes mem p (sh_fs s') = file_bytes mem p (sh_fs s)"
proof -
  define l where "l = butlast (script_line ws)"
  have ws: "ws \<noteq> []" "list_all word_ok ws" "length ws \<le> SH_MAX_ARGS" "length (script_line ws) \<le> 81"
    using assms(4) by (simp_all add: command_ok_def SH_MAX_LINE_LEN_def)
  have sl: "script_line ws = l @ [10]" unfolding l_def by (rule script_line_snoc [OF ws(1)])
  have l: "0 \<notin> set l" "10 \<notin> set l" "0xff \<notin> set l" using set_script_line [OF ws(2)] by (auto simp: l_def)
  have n: "length l \<le> SH_MAX_LINE_LEN" "length l < length (cmd_buf s)" "length a + length l < 65536"
    using ws(4) sl assms(5,6) by (auto simp: SH_MAX_LINE_LEN_def)
  let ?b = "drop (length l + 1) (cmd_buf s)"
  obtain fs' where r: "storage_init_readcmd ops (cmd_buf s) SH_MAX_LINE_LEN nx (init_ptr s) (sh_fs s) =
      Some (int (length l) + 1, l @ 10 # ?b, of_nat (length a + length l + 1), fs')"
    "has_file mem ops SDB_DEV_INIT p fs'" "file_bytes mem p fs' = file_bytes mem p (sh_fs s)"
    using readcmd_next [OF assms(2) _ l(2,3) n assms(7), of rest] assms(3) sl by auto
  let ?s = "emit [executing l] (s\<lparr>cmd_len := int (length l) + 1, init_ptr := of_nat (length a + length l + 1), sh_fs := fs', cmd_buf := l @ 0 # ?b\<rparr>)"
  obtain rv s' where s': "shell_exec call None ?s = Some (rv, s')" "length (cmd_buf s') = length (l @ 0 # ?b)" "same_shell ?s s'"
    "sh_world s' = run_command (sh_cmds s) act (split_line SH_MAX_ARGS l) (sh_world s)"
    using shell_exec_runs [OF assms(1), of ?s l ?b] l(1) by auto
  have "store_at (l @ 10 # ?b) (int (length l) + 1 - 1) 0 = Some (l @ 0 # ?b)" by (simp add: store_at_def store_def)
  moreover have "cstring (l @ 0 # ?b) 0 = Some l" using cstring_append [OF l(1), of 0 "[]" ?b] by simp
  ultimately have "boot_flash ops call nx s = boot_flash ops call True s'"
    using r(1) s'(1) by (subst boot_flash.simps) (simp add: Let_def)
  moreover have "split_line SH_MAX_ARGS l = ws" unfolding l_def by (rule split_script_line [OF ws(2,3)])
  ultimately show ?thesis using s' r n(2) assms(6) sl by (intro exI [of _ s']) (simp add: same_shell_def)
qed

lemma boot_flash_runs:
  assumes "acts_on_world call act" "has_file mem ops SDB_DEV_INIT p (sh_fs s)" "file_bytes mem p (sh_fs s) = a @ script css @ rest" "blank rest"
    "list_all command_ok css" "length a + length (script css) < 65536" "length (cmd_buf s) = 81" "(if \<not> nx then 2 else init_ptr s) = of_nat (length a)"
  shows "\<exists>s'. boot_flash ops call nx s = Some s' \<and> sh_world s' = fold (run_command (sh_cmds s) act) css (sh_world s)"
  using assms(2-)
proof (induction css arbitrary: a nx s)
  case Nil
  then show ?case using boot_flash_end [of mem ops p s a rest nx call] by (simp add: script_def)
next
  case (Cons ws css)
  have sc: "script (ws # css) = script_line ws @ script css" by (simp add: script_def)
  obtain s1 where s1: "boot_flash ops call nx s = boot_flash ops call True s1" "sh_world s1 = run_command (sh_cmds s) act ws (sh_world s)"
    "sh_cmds s1 = sh_cmds s" "length (cmd_buf s1) = 81" "init_ptr s1 = of_nat (length (a @ script_line ws))"
    "has_file mem ops SDB_DEV_INIT p (sh_fs s1)" "file_bytes mem p (sh_fs s1) = file_bytes mem p (sh_fs s)"
    using boot_flash_command [OF assms(1) Cons.prems(1), of a ws "script css @ rest" nx] Cons.prems(2,4-7) by (auto simp: sc)
  have "\<exists>s'. boot_flash ops call True s1 = Some s' \<and> sh_world s' = fold (run_command (sh_cmds s1) act) css (sh_world s1)"
    using Cons.prems s1(4,5,7) by (intro Cons.IH [OF s1(6), of "a @ script_line ws"]) (auto simp: sc)
  then show ?case using s1(1-3) by simp
qed

text \<open>The commands of the built-in script: separated by semicolons, cut at 80 characters, up to the first empty one.\<close>

function builtin_commands :: "u8 list \<Rightarrow> u8 list list" where
  "builtin_commands l =
     (let c = take SH_MAX_LINE_LEN (takeWhile (\<lambda>b. b \<noteq> 59) l); r = drop (length c) l
      in if c = [] then [] else c # builtin_commands (if r \<noteq> [] \<and> hd r = 59 then tl r else r))"
  by pat_completeness auto
termination
proof (relation "measure length", goal_cases)
  case (2 l c r)
  then have "l \<noteq> []" "0 < length c" by auto
  then have "length r < length l" using 2(2) by simp
  then show ?case by (auto simp: less_imp_diff_less)
qed simp

declare builtin_commands.simps [simp del]

lemma boot_builtin_step:
  assumes "acts_on_world call act" "length (cmd_buf s) = 81" "0 \<notin> set init" "init_p s \<le> length init"
    "c = take SH_MAX_LINE_LEN (takeWhile (\<lambda>b. b \<noteq> 59) (drop (init_p s) init))" "r = drop (length c) (drop (init_p s) init)" "c \<noteq> []"
  shows "\<exists>s'. boot_builtin call init s = boot_builtin call init s' \<and> length (cmd_buf s') = 81 \<and> sh_cmds s' = sh_cmds s
    \<and> init_p s' \<le> length init \<and> drop (init_p s') init = (if r \<noteq> [] \<and> hd r = 59 then tl r else r)
    \<and> sh_world s' = run_command (sh_cmds s) act (split_line SH_MAX_ARGS c) (sh_world s)"
proof -
  let ?p = "init_p s + length c"
  define p where "p = (if ?p < length init \<and> init ! ?p = 59 then ?p + 1 else ?p)"
  have "length c \<le> length (takeWhile (\<lambda>b. b \<noteq> 59) (drop (init_p s) init))" using assms(5) by simp
  then have n: "length c \<le> 80" "?p \<le> length init" "0 \<notin> set c"
    using assms(3,4,5) length_takeWhile_le [of "\<lambda>b. b \<noteq> 59" "drop (init_p s) init"]
    by (auto simp: SH_MAX_LINE_LEN_def dest!: in_set_takeD set_takeWhileD in_set_dropD)
  have r: "r = drop ?p init" using assms(6) by (simp add: add.commute)
  have p: "p \<le> length init" "drop p init = (if r \<noteq> [] \<and> hd r = 59 then tl r else r)"
    using n(2) by (auto simp: p_def r hd_drop_conv_nth tl_drop drop_Suc)
  let ?b = "c @ 0 # drop (length c + 1) (cmd_buf s)"
  let ?s = "s\<lparr>cmd_buf := ?b, init_p := p, cmd_len := int (length c)\<rparr>"
  have "build_init_readcmd init SH_MAX_LINE_LEN s = Some (length c, s\<lparr>cmd_buf := ?b, init_p := p\<rparr>)"
    using n(1) assms(2,5,7) by (simp add: build_init_readcmd_def Let_def store_bytes_def p_def)
  moreover have "cstring ?b 0 = Some c" using cstring_append [OF n(3), of 0 "[]"] by simp
  moreover obtain rv s' where s': "shell_exec call None (emit [executing c] ?s) = Some (rv, s')" "length (cmd_buf s') = length ?b"
    "same_shell ?s s'" "sh_world s' = run_command (sh_cmds s) act (split_line SH_MAX_ARGS c) (sh_world s)"
    using shell_exec_runs [OF assms(1), of "emit [executing c] ?s" c] n(3) by (auto simp: same_shell_def)
  ultimately have "boot_builtin call init s = boot_builtin call init s'"
    using assms(7) by (subst boot_builtin.simps) (simp add: Let_def)
  then show ?thesis using s' p n(1) assms(2) by (intro exI [of _ s']) (auto simp: same_shell_def)
qed

lemma boot_builtin_runs:
  assumes "acts_on_world call act" "length (cmd_buf s) = 81" "0 \<notin> set init" "init_p s \<le> length init" "drop (init_p s) init = l"
  shows "\<exists>s'. boot_builtin call init s = Some s' \<and> init_p s' = 0 \<and> length (cmd_buf s') = 81
    \<and> sh_world s' = fold (\<lambda>c. run_command (sh_cmds s) act (split_line SH_MAX_ARGS c)) (builtin_commands l) (sh_world s)"
  using assms(2-)
proof (induction l arbitrary: s rule: builtin_commands.induct)
  case (1 l)
  let ?c = "take SH_MAX_LINE_LEN (takeWhile (\<lambda>b. b \<noteq> 59) l)" and ?r = "drop (length (take SH_MAX_LINE_LEN (takeWhile (\<lambda>b. b \<noteq> 59) l))) l"
  show ?case
  proof (cases "?c = []")
    case True
    have t: "takeWhile (\<lambda>b. b \<noteq> 59) l = []" using True by (simp add: SH_MAX_LINE_LEN_def)
    have "build_init_readcmd init SH_MAX_LINE_LEN s = Some (0, s\<lparr>cmd_buf := 0 # drop 1 (cmd_buf s), init_p := 0\<rparr>)"
      using 1(2,5) by (simp add: build_init_readcmd_def Let_def store_bytes_def t)
    then have "boot_builtin call init s = Some (s\<lparr>cmd_buf := 0 # drop 1 (cmd_buf s), init_p := 0, cmd_len := 0\<rparr>)"
      by (subst boot_builtin.simps) (simp add: Let_def)
    then show ?thesis using True 1(2) by (simp add: builtin_commands.simps [of l])
  next
    case False
    obtain s1 where s1: "boot_builtin call init s = boot_builtin call init s1" "length (cmd_buf s1) = 81" "sh_cmds s1 = sh_cmds s"
      "init_p s1 \<le> length init" "drop (init_p s1) init = (if ?r \<noteq> [] \<and> hd ?r = 59 then tl ?r else ?r)"
      "sh_world s1 = run_command (sh_cmds s) act (split_line SH_MAX_ARGS ?c) (sh_world s)"
      using boot_builtin_step [OF assms(1) 1(2,3,4), of ?c ?r] 1(5) False by auto
    have "\<exists>s'. boot_builtin call init s1 = Some s' \<and> init_p s' = 0 \<and> length (cmd_buf s') = 81
      \<and> sh_world s' = fold (\<lambda>c. run_command (sh_cmds s1) act (split_line SH_MAX_ARGS c)) (builtin_commands (if ?r \<noteq> [] \<and> hd ?r = 59 then tl ?r else ?r)) (sh_world s1)"
      by (rule 1(1) [OF refl refl False s1(2) 1(3) s1(4,5)])
    then show ?thesis using s1(1,3,6) False by (subst builtin_commands.simps) (simp add: Let_def)
  qed
qed

lemma ff_script:
  assumes "list_all command_ok css"
  shows "0xff \<notin> set (script css)"
proof -
  have ne: "(0xff :: u8) \<noteq> 10" by simp
  have "0xff \<notin> set (script_line ws)" if ws: "command_ok ws" for ws
  proof -
    have "0xff \<notin> set (butlast (script_line ws) @ [10])" using set_script_line [of ws] ws ne by (auto simp: command_ok_def)
    then show ?thesis using script_line_snoc [of ws] ws by (metis command_ok_def)
  qed
  then show ?thesis using assms by (auto simp: script_def list_all_iff)
qed

subsection \<open>The whole shell\<close>

text \<open>
  The states in which the shell may be called; what the shell relies on of the commands and of the
  callbacks: they return, keep the size of the buffer, and leave a valid line length when the user interface is on.
\<close>

definition shell_ok :: "('d, 'w) shell \<Rightarrow> bool" where
  "shell_ok s \<longleftrightarrow> length (cmd_buf s) = 81 \<and> (sh_st s = SH_INPUT \<or> sh_st s = SH_EXEC \<longrightarrow> line_ok s)
     \<and> (sh_st s = SH_EXEC_UI \<longrightarrow> 0 \<le> cmd_len s \<and> cmd_len s \<le> 80)"

definition callbacks_ok ::
  "('d, 'w) sh_call \<Rightarrow> (nat \<Rightarrow> ('d, 'w) shell \<Rightarrow> int \<times> ('d, 'w) shell) \<Rightarrow> (('d, 'w) shell \<Rightarrow> ('d, 'w) shell) \<Rightarrow> bool" where
  "callbacks_ok call ui redraw \<longleftrightarrow>
     (\<forall>f args s. length (cmd_buf s) = 81 \<and> sh_st s \<noteq> SH_EXEC_UI \<longrightarrow> (\<exists>rv s'. call f args s = Some (rv, s') \<and> length (cmd_buf s') = 81
        \<and> (sh_st s' = SH_EXEC_UI \<longrightarrow> 0 \<le> cmd_len s' \<and> cmd_len s' \<le> 80)))
   \<and> (\<forall>u s. shell_ok s \<and> sh_st s = SH_EXEC_UI \<longrightarrow> shell_ok (snd (ui u s)) \<and> sh_st (snd (ui u s)) = SH_EXEC_UI)
   \<and> (\<forall>s. shell_ok s \<and> sh_st s = SH_EXEC_UI \<longrightarrow> shell_ok (redraw s) \<and> sh_st (redraw s) = SH_EXEC_UI)"

lemma shell_input_ok:
  assumes "line_ok s" "sh_st s = SH_INPUT"
  shows "\<exists>r s'. shell_input c s = Some (r, s') \<and> line_ok s' \<and> (sh_st s' = SH_INPUT \<or> sh_st s' = SH_EXEC)"
proof -
  have "\<exists>s'. handle_key k (s\<lparr>current_key := k\<rparr>) = Some s' \<and> line_ok s' \<and> (sh_st s' = SH_INPUT \<or> sh_st s' = SH_EXEC)" for k
    using handle_key_effect [of "s\<lparr>current_key := k\<rparr>" k] assms by (auto simp: key_effect_def)
  then show ?thesis using assms by (fastforce simp: shell_input_def Let_def)
qed

lemma dispatch_ok:
  assumes "callbacks_ok call ui redraw" "length (cmd_buf s) = 81" "sh_st s \<noteq> SH_EXEC_UI"
  shows "\<exists>rv s'. dispatch_args call args s = Some (rv, s') \<and> length (cmd_buf s') = 81 \<and> (sh_st s' = SH_EXEC_UI \<longrightarrow> 0 \<le> cmd_len s' \<and> cmd_len s' \<le> 80)"
proof (cases "find (\<lambda>(name, f). strcasecmp name (bytes_str (hd args)) = 0) (sh_cmds s)")
  case None
  then show ?thesis using assms by (auto simp: dispatch_args_def)
next
  case (Some nf)
  obtain name f where nf: "nf = (name, f)" by (cases nf)
  obtain rv s' where "call f (tl args) s = Some (rv, s')" "length (cmd_buf s') = 81"
    "sh_st s' = SH_EXEC_UI \<longrightarrow> 0 \<le> cmd_len s' \<and> cmd_len s' \<le> 80" using assms(1-3) unfolding callbacks_ok_def by meson
  then show ?thesis using Some nf assms by (auto simp: dispatch_args_def)
qed

lemma exec_line_ok:
  assumes "callbacks_ok call ui redraw" "length (cmd_buf s) = 81" "0 \<in> set (cmd_buf s)" "sh_st s \<noteq> SH_EXEC_UI"
  shows "\<exists>rv s'. shell_exec_line call s = Some (rv, s') \<and> length (cmd_buf s') = 81 \<and> (sh_st s' = SH_EXEC_UI \<longrightarrow> 0 \<le> cmd_len s' \<and> cmd_len s' \<le> 80)"
proof -
  obtain line b where lb: "cmd_buf s = line @ 0 # b" "0 \<notin> set line" using split_list_first [OF assms(3)] by blast
  obtain l' where "length l' = length line"
    "shell_exec_line call s = dispatch_args call (split_line SH_MAX_ARGS line) (s\<lparr>cmd_buf := l' @ 0 # b\<rparr>)"
    using exec_line_spec [OF lb] by blast
  then show ?thesis using dispatch_ok [OF assms(1), of "s\<lparr>cmd_buf := l' @ 0 # b\<rparr>"] lb(1) assms(2,4) by auto
qed

lemma interactive_ok:
  assumes "callbacks_ok call ui redraw" "shell_ok s"
  shows "\<exists>r s'. shell_interactive call ui redraw c s = Some (r, s') \<and> shell_ok s'"
proof (cases "sh_st s")
  case SH_PROMPT
  then show ?thesis using assms(2) by (simp add: shell_interactive_def shell_ok_def line_ok_def)
next
  case SH_INPUT
  then show ?thesis using shell_input_ok [of s c] assms(2) by (auto simp: shell_interactive_def shell_ok_def line_ok_def)
next
  case SH_EXEC
  then have l: "line_ok s" using assms(2) by (simp add: shell_ok_def)
  let ?b = "(cmd_buf s)[nat (cmd_len s) := 0]"
  have b: "store_at (cmd_buf s) (cmd_len s) 0 = Some ?b" "0 \<in> set ?b" "length ?b = 81"
    using l by (auto simp: line_ok_def store_at_def store_def intro!: set_update_memI)
  from exec_line_ok [OF assms(1), of "s\<lparr>cmd_buf := ?b\<rparr>"] b(2,3) SH_EXEC
  obtain rv s' where "shell_exec_line call (s\<lparr>cmd_buf := ?b\<rparr>) = Some (rv, s')" "length (cmd_buf s') = 81"
    "sh_st s' = SH_EXEC_UI \<longrightarrow> 0 \<le> cmd_len s' \<and> cmd_len s' \<le> 80" by auto
  then show ?thesis using SH_EXEC b(1) by (auto simp: shell_interactive_def shell_ok_def)
next
  case SH_EXEC_UI
  define s1 where "s1 = (if c = 114 then redraw s else s)"
  have s1: "shell_ok s1" "sh_st s1 = SH_EXEC_UI" using assms SH_EXEC_UI by (auto simp: s1_def callbacks_ok_def)
  define ls where "ls = (case shell_ui_callback s1 of None \<Rightarrow> (True, s1) | Some u \<Rightarrow> (fst (ui u s1) < 0, snd (ui u s1)))"
  have s2: "shell_ok (snd ls)" "sh_st (snd ls) = SH_EXEC_UI"
    using s1 assms(1) unfolding callbacks_ok_def ls_def by (auto simp: Let_def case_prod_beta split: option.split)
  have "shell_interactive call ui redraw c s = (if fst ls \<or> c = 27 \<or> c = 113
      then map_option (\<lambda>buf. (1, (snd ls)\<lparr>cmd_buf := buf, sh_st := SH_PROMPT\<rparr>)) (store_at (cmd_buf (snd ls)) (cmd_len (snd ls)) 0)
      else Some (1, snd ls))"
    unfolding shell_interactive_def SH_EXEC_UI sh_state.case Let_def case_prod_beta s1_def [symmetric] ls_def [symmetric] ..
  then show ?thesis using s2 by (auto simp: shell_ok_def store_at_def store_def)
qed


lemma edit_no_null:
  assumes "0 \<notin> set (fst x) \<union> set (snd x)" "k \<noteq> Char_key 0"
  shows "0 \<notin> set (fst (edit k x)) \<union> set (snd (edit k x))"
proof (cases x)
  case (Pair l r)
  then show ?thesis using assms by (cases k; cases r) (auto dest: in_set_butlastD, (metis last_in_set)+)
qed

lemma keys_no_null:
  assumes "0 \<notin> set (fst x) \<union> set (snd x)" "Char_key 0 \<notin> set ks"
  shows "0 \<notin> set (fst (fold edit ks x)) \<union> set (snd (fold edit ks x))"
  using assms
proof (induction ks arbitrary: x)
  case (Cons k ks)
  then have "0 \<notin> set (fst (edit k x)) \<union> set (snd (edit k x))" by (intro edit_no_null) auto
  then show ?case using Cons.IH [of "edit k x"] Cons.prems(2) by simp
qed simp

lemma decode_no_null: "0 \<le> c \<Longrightarrow> c < 256 \<Longrightarrow> fst (decode esc c) \<noteq> Char_key 0"
  using word_of_int_eq_0_iff [where 'a = 8, of c] by (auto simp: decode_def dvd_def)

lemma decode_all_no_null: "\<forall>c \<in> set cs. 0 \<le> c \<and> c < 256 \<Longrightarrow> Char_key 0 \<notin> set (decode_all esc cs)"
  by (induction cs arbitrary: esc) (auto simp: decode_no_null [symmetric] dest: decode_no_null)

text \<open>The call after Enter.\<close>

lemma exec_step_runs:
  assumes "acts_on_world call act" "line_ok s" "line_of s = (l, r)" "sh_st s = SH_EXEC" "0 \<notin> set (l @ r)"
  shows "\<exists>s'. shell_interactive call ui redraw c s = Some (1, s') \<and> sh_st s' = SH_PROMPT
    \<and> sh_world s' = run_command (sh_cmds s) act (split_line SH_MAX_ARGS (l @ r)) (sh_world s)"
proof -
  obtain l' r' t where sh': "line_shape s l' r' t" using line_okE [OF assms(2)] .
  moreover have "l' = l" "r' = r" using line_shapeD(2) [OF sh'] assms(3) by simp_all
  ultimately have sh: "line_shape s l r t" by simp
  then obtain x t' where t: "t = x # t'" by (cases t) (auto simp: line_shape_def)
  have b: "store_at (cmd_buf s) (cmd_len s) 0 = Some ((l @ r) @ 0 # t')"
    using sh t by (simp add: line_shape_def store_at_def store_def nat_add_distrib list_update_append)
  obtain rv s3 where "shell_exec_line call (s\<lparr>cmd_buf := (l @ r) @ 0 # t'\<rparr>) = Some (rv, s3)" "same_shell s s3"
    "sh_world s3 = run_command (sh_cmds s) act (split_line SH_MAX_ARGS (l @ r)) (sh_world s)"
    using exec_line_runs [OF assms(1), of "s\<lparr>cmd_buf := (l @ r) @ 0 # t'\<rparr>" "l @ r" t'] assms(5) by (auto simp: same_shell_def)
  then show ?thesis using assms(4) b by (simp add: shell_interactive_def same_shell_def)
qed

section \<open>Properties\<close>

text \<open>An example: a shell with two commands that log their calls, or of which the second starts the user interface.\<close>

definition example_shell :: "'d sdbfs \<Rightarrow> ('d, (nat \<times> u8 list list) list) shell" where
  "example_shell fs = \<lparr>cmd_buf = replicate 81 0, cmd_pos = 0, cmd_len = 0, sh_st = SH_PROMPT, current_key = 0,
     sh_cmds = [(''mode'', 0), (''gui'', 1)], shell_is_interacting = False, shell_ui_callback = None, init_p = 0, init_ptr = 0,
     sh_fs = fs, sh_out = [], sh_world = []\<rparr>"

definition log_act :: "nat \<Rightarrow> u8 list list \<Rightarrow> (nat \<times> u8 list list) list \<Rightarrow> (nat \<times> u8 list list) list" where
  "log_act f args w = w @ [(f, args)]"

definition log_call :: "('d, (nat \<times> u8 list list) list) sh_call" where
  "log_call f args s = Some (0, s\<lparr>sh_world := log_act f args (sh_world s)\<rparr>)"

definition gui_call :: "('d, (nat \<times> u8 list list) list) sh_call" where
  "gui_call f args s = Some (0, if f = 1 then shell_activate_ui_command 0 s else s)"

lemma log_acts: "acts_on_world log_call log_act"
  by (simp add: acts_on_world_def log_call_def)


text \<open>
  C25. The boot script. Commands added one by one to an erased script (of at most 256 bytes in all) are run by the boot
  script in their order, each with exactly the words it was added with, whatever the device does with the rewritten
  size field.
\<close>

theorem boot_script_runs_added_commands:
  assumes "has_file mem ops SDB_DEV_INIT p fs" "acts_on_world call act" "list_all command_ok css"
    "length (script css) \<le> 256" "2 + length (script css) \<le> nat (p_len p)"
  shows "\<exists>fs0 fs1. storage_init_erase ops fs = (0, fs0) \<and> for_each (add_command ops le) css fs0 = Some fs1
    \<and> (\<forall>s. sh_fs s = fs1 \<and> length (cmd_buf s) = 81 \<longrightarrow>
        (\<exists>s'. shell_boot_script ops None True call s = Some s' \<and> sh_world s' = fold (run_command (sh_cmds s) act) css (sh_world s)))"
proof -
  obtain fs0 where f0: "storage_init_erase ops fs = (0, fs0)" "has_file mem ops SDB_DEV_INIT p fs0" "holds_script [] (file_bytes mem p fs0)"
    using init_erase_empty [OF assms(1)] assms(5) by (auto simp: length_file_bytes)
  obtain fs1 where f1: "for_each (add_command ops le) css fs0 = Some fs1" "has_file mem ops SDB_DEV_INIT p fs1" "holds_script (script css) (file_bytes mem p fs1)"
    using add_commands [OF f0(2,3) ff_script [OF assms(3)], of le] assms(4,5) by auto
  obtain h where h: "file_bytes mem p fs1 = h @ script css @ replicate (length (file_bytes mem p fs1) - 2 - length (script css)) 0xff" "length h = 2"
    using holds_scriptE [OF f1(3)] .
  have "\<exists>s'. shell_boot_script ops None True call s = Some s' \<and> sh_world s' = fold (run_command (sh_cmds s) act) css (sh_world s)"
    if "sh_fs s = fs1" "length (cmd_buf s) = 81" for s
    using boot_flash_runs [OF assms(2), of mem ops p s h css _ False] f1(2) h assms(3,4) that
    by (auto simp: shell_boot_script_def blank_def list_all_iff)
  then show ?thesis using f0(1) f1(1) by blast
qed

theorem boot_script_runs_added_commands_witness:
  "\<exists>fs0 fs1 s'. storage_init_erase ram_ops (example_fs_of SDB_DEV_INIT) = (0, fs0)
    \<and> for_each (add_command ram_ops True) [[str_bytes ''mode'', str_bytes ''slave''], [str_bytes ''gui'']] fs0 = Some fs1
    \<and> shell_boot_script ram_ops None True log_call (example_shell fs1) = Some s' \<and> sh_world s' = [(0, [str_bytes ''slave'']), (1, [])]"
proof -
  let ?css = "[[str_bytes ''mode'', str_bytes ''slave''], [str_bytes ''gui'']]"
  have f: "has_file id ram_ops SDB_DEV_INIT (example_place SDB_DEV_INIT) (example_fs_of SDB_DEV_INIT)"
    by (rule example_has_file) (simp_all add: SDB_DEV_INIT_def)
  have c: "list_all command_ok ?css" "length (script ?css) \<le> 256" by code_simp+
  have n: "2 + length (script ?css) \<le> nat (p_len (example_place SDB_DEV_INIT))" by code_simp
  have r: "fold (run_command [(''mode'', 0), (''gui'', 1)] log_act) ?css [] = [(0, [str_bytes ''slave'']), (1, [])]" by code_simp
  from boot_script_runs_added_commands [OF f log_acts c n, of True] obtain fs0 fs1 where
    fs: "storage_init_erase ram_ops (example_fs_of SDB_DEV_INIT) = (0, fs0)" "for_each (add_command ram_ops True) ?css fs0 = Some fs1"
    "\<forall>s. sh_fs s = fs1 \<and> length (cmd_buf s) = 81 \<longrightarrow>
        (\<exists>s'. shell_boot_script ram_ops None True log_call s = Some s' \<and> sh_world s' = fold (run_command (sh_cmds s) log_act) ?css (sh_world s))"
    by blast
  have "sh_fs (example_shell fs1) = fs1" "length (cmd_buf (example_shell fs1)) = 81" "sh_cmds (example_shell fs1) = [(''mode'', 0), (''gui'', 1)]"
    "sh_world (example_shell fs1) = []" by (simp_all add: example_shell_def)
  with fs(3) [rule_format, of "example_shell fs1"] r fs(1,2) show ?thesis by metis
qed

text \<open>
  C26. The line editor. From the prompt on, the keys typed edit a line with a cursor of at most 80 characters: the shell's
  buffer holds exactly that line, with arrow keys, delete and backspace, and what is sent to the terminal
  makes it show the same line with the cursor at the same place.
\<close>

theorem line_editor_refines:
  assumes "length (cmd_buf s) = 81" "sh_st s = SH_PROMPT" "current_key s = 0" "\<forall>c \<in> set cs. 0 \<le> c \<and> c < 256"
    "Enter_key \<notin> set (decode_all False cs)"
  shows "\<exists>s' os. for_each (\<lambda>c s. map_option snd (shell_interactive call ui redraw c s)) (c0 # cs) s = Some s'
    \<and> sh_st s' = SH_INPUT \<and> line_of s' = fold edit (decode_all False cs) ([], [])
    \<and> sh_out s' = sh_out s @ Print ''wrc# '' [] # os \<and> fold term_step os ([], []) = line_of s'"
proof -
  let ?s = "emit [Print ''wrc# '' []] s\<lparr>cmd_pos := 0, cmd_len := 0, sh_st := SH_INPUT\<rparr>"
  have p: "shell_interactive call ui redraw c0 s = Some (1, ?s)" using assms(2) by (simp add: shell_interactive_def)
  have i: "line_ok ?s" "line_of ?s = ([], [])" "key_state False ?s" using assms(1,3) by (simp_all add: line_ok_def line_of_def key_state_def emit_def)
  from typed_keys [OF i(1,3) _ assms(4,5), of call ui redraw] i(2) p show ?thesis by (auto simp: emit_def)
qed

theorem line_editor_refines_witness:
  "\<exists>s' os. for_each (\<lambda>c s. map_option snd (shell_interactive log_call (\<lambda>u s. (0, s)) id c s)) [0, 97, 98, 27, 91, 68, 120] (example_shell (example_fs_of 0)) = Some s'
    \<and> line_of s' = ([97, 120], [98]) \<and> sh_out s' = Print ''wrc# '' [] # os \<and> fold term_step os ([], []) = ([97, 120], [98])"
proof -
  have "length (cmd_buf (example_shell (example_fs_of 0))) = 81" "sh_st (example_shell (example_fs_of 0)) = SH_PROMPT"
    "current_key (example_shell (example_fs_of 0)) = 0" "sh_out (example_shell (example_fs_of 0)) = []" by (simp_all add: example_shell_def)
  moreover have "Enter_key \<notin> set (decode_all False [97, 98, 27, 91, 68, 120])"
    "fold edit (decode_all False [97, 98, 27, 91, 68, 120]) ([], []) = ([97, 120], [98])" by code_simp+
  ultimately show ?thesis
    using line_editor_refines [of "example_shell (example_fs_of 0)" "[97, 98, 27, 91, 68, 120]" log_call "\<lambda>u s. (0, s)" id 0] by auto
qed

text \<open>
  C27. A typed line is run. After the keys of a line and Enter, the next call of the shell runs the command that
  the first word names, with the other words of the edited line as its arguments, and the shell is back at its prompt. (The eighth
  word is the whole rest of the line.)
\<close>

theorem typed_command_is_run:
  assumes "acts_on_world call act" "length (cmd_buf s) = 81" "sh_st s = SH_PROMPT" "current_key s = 0"
    "\<forall>c \<in> set (cs @ [c1]). 0 \<le> c \<and> c < 256" "decode_all False cs = ks" "Enter_key \<notin> set ks" "decode_all False (cs @ [c1]) = ks @ [Enter_key]"
    "fold edit ks ([], []) = (l, r)"
  shows "\<exists>s'. for_each (\<lambda>c s. map_option snd (shell_interactive call ui redraw c s)) (c0 # cs @ [c1, c2]) s = Some s'
    \<and> sh_st s' = SH_PROMPT \<and> sh_world s' = run_command (sh_cmds s) act (split_line SH_MAX_ARGS (l @ r)) (sh_world s)"
proof -
  let ?step = "\<lambda>c s. map_option snd (shell_interactive call ui redraw c s)"
  let ?s = "emit [Print ''wrc# '' []] s\<lparr>cmd_pos := 0, cmd_len := 0, sh_st := SH_INPUT\<rparr>"
  have i: "line_ok ?s" "line_of ?s = ([], [])" "key_state False ?s" "sh_st ?s = SH_INPUT"
    using assms(2,4) by (simp_all add: line_ok_def line_of_def key_state_def emit_def)
  obtain s1 where s1: "for_each ?step cs ?s = Some s1" "line_ok s1" "sh_st s1 = SH_INPUT"
    "key_state (fold (\<lambda>c e. snd (decode e c)) cs False) s1" "sh_cmds s1 = sh_cmds s" "sh_world s1 = sh_world s" "line_of s1 = (l, r)"
    using typed_keys [OF i(1,3,4), of cs call ui redraw] assms(5-7,9) i(2) by auto
  have "fst (decode (fold (\<lambda>c e. snd (decode e c)) cs False) c1) = Enter_key"
  proof -
    have "decode_all e (cs @ [c1]) = decode_all e cs @ [fst (decode (fold (\<lambda>c e. snd (decode e c)) cs e) c1)]" for e
      by (induction cs arbitrary: e) simp_all
    then show ?thesis using assms(6,8) by simp
  qed
  then obtain s2 where s2: "shell_input c1 s1 = Some (1, s2)" "key_effect Enter_key s1 s2"
    using shell_input_effect [OF s1(2,4), of c1] assms(5) by auto
  then have e: "line_ok s2" "line_of s2 = (l, r)" "sh_st s2 = SH_EXEC" "sh_cmds s2 = sh_cmds s" "sh_world s2 = sh_world s"
    using s1 by (auto simp: key_effect_def)
  have "0 \<notin> set (l @ r)"
    using keys_no_null [of "([], [])" ks] decode_all_no_null [of cs False] assms(5,6,9) by auto
  then obtain s3 where "shell_interactive call ui redraw c2 s2 = Some (1, s3)" "sh_st s3 = SH_PROMPT"
    "sh_world s3 = run_command (sh_cmds s) act (split_line SH_MAX_ARGS (l @ r)) (sh_world s)"
    using exec_step_runs [OF assms(1) e(1-3), of ui redraw c2] e(4,5) by auto
  moreover have "shell_interactive call ui redraw c1 s1 = Some (1, s2)" using s1(3) s2(1) by (simp add: shell_interactive_def)
  moreover have "shell_interactive call ui redraw c0 s = Some (1, ?s)" using assms(3) by (simp add: shell_interactive_def)
  ultimately show ?thesis using s1(1) by (simp add: for_each_append)
qed

theorem typed_command_is_run_witness:
  "\<exists>s'. for_each (\<lambda>c s. map_option snd (shell_interactive log_call (\<lambda>u s. (0, s)) id c s)) ([0] @ map of_char ''MODE  3'' @ [13, 0]) (example_shell (example_fs_of 0)) = Some s'
    \<and> sh_st s' = SH_PROMPT \<and> sh_world s' = [(0, [str_bytes ''3''])]"
proof -
  let ?s = "example_shell (example_fs_of 0)" and ?cs = "map of_char ''MODE  3'' :: int list"
  have s: "length (cmd_buf ?s) = 81" "sh_st ?s = SH_PROMPT" "current_key ?s = 0" "sh_cmds ?s = [(''mode'', 0), (''gui'', 1)]" "sh_world ?s = []"
    by (simp_all add: example_shell_def)
  define ks where "ks = decode_all False ?cs"
  have b: "\<forall>c \<in> set (?cs @ [13]). 0 \<le> c \<and> c < 256" by simp
  have k: "decode_all False ?cs = ks" "Enter_key \<notin> set ks" "decode_all False (?cs @ [13]) = ks @ [Enter_key]"
    "fold edit ks ([], []) = (str_bytes ''MODE  3'', [])" unfolding ks_def by code_simp+
  have "run_command [(''mode'', 0), (''gui'', 1)] log_act (split_line SH_MAX_ARGS (str_bytes ''MODE  3'' @ [])) [] = [(0, [str_bytes ''3''])]"
    by code_simp
  with typed_command_is_run [OF log_acts s(1-3) b k, of "\<lambda>u s. (0, s)" id 0 0] show ?thesis by (simp add: s)
qed





text \<open>
  Leaving the user interface after a failed boot script. When the built-in script starts the user interface and there is no
  script file (here: no file system), the length of the line stays at the error value -1 of the reading, and the key that leaves the
  user interface stores a null byte in front of the line buffer.
\<close>

theorem ui_exit_after_failed_script_overruns:
  "case shell_boot_script ram_ops (Some (str_bytes ''gui'')) True gui_call (example_shell ((example_fs_of 0)\<lparr>fs_mounted := False\<rparr>)) of
     None \<Rightarrow> False
   | Some s \<Rightarrow> sh_st s = SH_EXEC_UI \<and> cmd_len s = - 1 \<and> shell_interactive gui_call (\<lambda>u s. (0, s)) id 113 s = None"
  by code_simp

end
