(* ===== verification/Pfilter.thy ===== *)
theory Pfilter
  imports Wrpc_Prelude
begin

text \<open>
  The packet filter of the endpoint: \<^verbatim>\<open>tools/pfilter-builder.c\<close>, which assembles the two rule sets at build time,
  and \<^verbatim>\<open>dev/ep_pfilter.c\<close>, which patches the MAC address and the VLAN number into a rule set and loads it. The filter itself
  is hardware: its effect on the registers is an argument \<open>exec\<close> of the classification, and what the code relies on
  (the instruction set described in the comment of the builder) is the predicate \<open>filter_hw\<close>.

  Results: both rule sets are assembled without an error and fit the program memory; what is loaded for any MAC address
  classifies every frame as the rules say.
\<close>

unbundle bit_operations_syntax

section \<open>Definitions\<close>

subsection \<open>The builder\<close>

datatype pfilter_op = PF_AND | PF_NAND | PF_OR | PF_NOR | PF_XOR | PF_XNOR | PF_MOV | PF_NOT

fun op_code :: "pfilter_op \<Rightarrow> int" where
  "op_code PF_AND = 0"
| "op_code PF_NAND = 4"
| "op_code PF_OR = 1"
| "op_code PF_NOR = 5"
| "op_code PF_XOR = 2"
| "op_code PF_XNOR = 6"
| "op_code PF_MOV = 3"
| "op_code PF_NOT = 7"

definition PFILTER_MAX_CODE_SIZE :: nat where "PFILTER_MAX_CODE_SIZE = 32"
definition PF_MODE_LOGIC :: "64 word" where "PF_MODE_LOGIC = push_bit 34 1"
definition PF_MODE_CMP :: "64 word" where "PF_MODE_CMP = 0"
definition PF_FIN :: "64 word" where "PF_FIN = push_bit 35 1"

definition R_ZERO :: int where "R_ZERO = 1024"
definition R_DROP :: int where "R_DROP = R_ZERO + 23"
definition R_CLASS :: "int \<Rightarrow> int" where "R_CLASS x = R_ZERO + 24 + x"
definition FRAME_BROADCAST :: int where "FRAME_BROADCAST = R_ZERO + 1"
definition FRAME_MAC_OK :: int where "FRAME_MAC_OK = R_ZERO + 2"
definition FRAME_MAC_PTP :: int where "FRAME_MAC_PTP = R_ZERO + 3"
definition FRAME_OUR_VLAN :: int where "FRAME_OUR_VLAN = R_ZERO + 4"
definition FRAME_TYPE_IPV4 :: int where "FRAME_TYPE_IPV4 = R_ZERO + 5"
definition FRAME_TYPE_PTP2 :: int where "FRAME_TYPE_PTP2 = R_ZERO + 6"
definition FRAME_TYPE_ARP :: int where "FRAME_TYPE_ARP = R_ZERO + 7"
definition FRAME_ICMP :: int where "FRAME_ICMP = R_ZERO + 8"
definition FRAME_UDP :: int where "FRAME_UDP = R_ZERO + 9"
definition PORT_UDP_HOST :: int where "PORT_UDP_HOST = R_ZERO + 10"
definition PORT_UDP_ETHERBONE :: int where "PORT_UDP_ETHERBONE = R_ZERO + 11"
definition R_TMP :: int where "R_TMP = R_ZERO + 12"
definition FRAME_IP_UNI :: int where "FRAME_IP_UNI = R_ZERO + 13"
definition FRAME_IP_OK :: int where "FRAME_IP_OK = R_ZERO + 14"
definition FRAME_FOR_CPU :: int where "FRAME_FOR_CPU = R_ZERO + 15"

text \<open>
  The words assembled so far are \<open>code_buf\<close> up to \<open>code_pos\<close>. \<open>None\<close>: the builder exits with an error.
\<close>

type_synonym code = "64 word list"

definition check_size :: "code \<Rightarrow> bool" where
  "check_size code \<longleftrightarrow> length code \<noteq> PFILTER_MAX_CODE_SIZE - 1"

definition check_reg_range :: "int \<Rightarrow> int \<Rightarrow> int \<Rightarrow> bool" where
  "check_reg_range val minval maxval \<longleftrightarrow> \<not> (val < minval \<or> val > maxval)"

text \<open>\<open>code_buf[code_pos++] = ir\<close>\<close>

definition emit :: "64 word \<Rightarrow> code \<Rightarrow> code option" where
  "emit ir code = (if length code < PFILTER_MAX_CODE_SIZE then Some (code @ [ir]) else None)"

definition flag_bit :: "bool \<Rightarrow> nat \<Rightarrow> 64 word" where
  "flag_bit c k = (if c then push_bit k 1 else 0)"

definition cmp_ir :: "int \<Rightarrow> int \<Rightarrow> int \<Rightarrow> pfilter_op \<Rightarrow> int \<Rightarrow> 64 word" where
  "cmp_ir offset val msk oper rd =
     (PF_MODE_CMP OR push_bit 7 (word_of_int offset)
        OR flag_bit (msk AND 1 \<noteq> 0) 29
        OR flag_bit (msk AND 0x10 \<noteq> 0) 30
        OR flag_bit (msk AND 0x100 \<noteq> 0) 31
        OR flag_bit (msk AND 0x1000 \<noteq> 0) 32
        OR word_of_int (op_code oper) OR word_of_int (shl32 rd 3))
     OR push_bit 13 (word_of_int val AND 0xffff)"

definition pfilter_cmp :: "int \<Rightarrow> int \<Rightarrow> int \<Rightarrow> pfilter_op \<Rightarrow> int \<Rightarrow> code \<Rightarrow> code option" where
  "pfilter_cmp offset val msk oper rd code =
     (if \<not> check_size code then None
      else if offset > int (length code) then None
      else if \<not> check_reg_range rd (R_ZERO + 1) (R_ZERO + 15) then None
      else emit (cmp_ir offset val msk oper (rd - R_ZERO)) code)"

definition pfilter_nop :: "code \<Rightarrow> code option" where
  "pfilter_nop code = (if \<not> check_size code then None else emit PF_MODE_LOGIC code)"

definition logic2_ir :: "int \<Rightarrow> int \<Rightarrow> pfilter_op \<Rightarrow> int \<Rightarrow> 64 word" where
  "logic2_ir rd ra oper rb =
     (push_bit 8 (word_of_int ra) OR push_bit 13 (word_of_int rb) OR push_bit 3 (word_of_int rd AND 0xf)
        OR flag_bit ((word_of_int rd :: 64 word) AND 0x10 \<noteq> 0) 7 OR word_of_int (op_code oper))
     OR PF_MODE_LOGIC OR push_bit 23 3"

definition logic_args :: "int \<Rightarrow> int \<Rightarrow> int \<Rightarrow> bool" where
  "logic_args rd ra rb \<longleftrightarrow> check_reg_range ra R_ZERO (R_ZERO + 31) \<and> check_reg_range rb R_ZERO (R_ZERO + 31)
     \<and> check_reg_range rd (R_ZERO + 1) (R_ZERO + 31)"

definition pfilter_logic2 :: "int \<Rightarrow> int \<Rightarrow> pfilter_op \<Rightarrow> int \<Rightarrow> code \<Rightarrow> code option" where
  "pfilter_logic2 rd ra oper rb code =
     (if \<not> check_size code then None
      else if \<not> logic_args rd ra rb then None
      else emit (logic2_ir (rd - R_ZERO) (ra - R_ZERO) oper (rb - R_ZERO)) code)"

text \<open>The operands are combined as \<open>int\<close> before the conversion to 64 bits.\<close>

definition logic3_ir :: "int \<Rightarrow> int \<Rightarrow> pfilter_op \<Rightarrow> int \<Rightarrow> pfilter_op \<Rightarrow> int \<Rightarrow> 64 word" where
  "logic3_ir rd ra oper rb oper2 rc =
     word_of_int (shl32 ra 8 OR shl32 rb 13 OR shl32 rc 18 OR shl32 (rd AND 0xf) 3
        OR (if rd AND 0x10 \<noteq> 0 then shl32 1 7 else 0) OR op_code oper)
     OR PF_MODE_LOGIC OR word_of_int (shl32 (op_code oper2) 23)"

definition pfilter_logic3 :: "int \<Rightarrow> int \<Rightarrow> pfilter_op \<Rightarrow> int \<Rightarrow> pfilter_op \<Rightarrow> int \<Rightarrow> code \<Rightarrow> code option" where
  "pfilter_logic3 rd ra oper rb oper2 rc code =
     (if \<not> check_size code then None
      else if \<not> (logic_args rd ra rb \<and> check_reg_range rc R_ZERO (R_ZERO + 31)) then None
      else emit (logic3_ir (rd - R_ZERO) (ra - R_ZERO) oper (rb - R_ZERO) oper2 (rc - R_ZERO)) code)"

text \<open>The numbers of the generated file: five bytes for each word, the highest first.\<close>

definition word_bytes :: "64 word \<Rightarrow> u8 list" where
  "word_bytes w = map (\<lambda>j. ucast (drop_bit (8 * (4 - j)) w)) [0..<5]"

definition pfilter_output :: "code \<Rightarrow> u8 list option" where
  "pfilter_output code = map_option (\<lambda>code. concat (map word_bytes code)) (emit PF_FIN code)"

text \<open>The rule sets; the configured numbers are arguments.\<close>

definition pfilter_init_novlan :: "int \<Rightarrow> u8 list option" where
  "pfilter_init_novlan latency_ethtype = do {
     c \<leftarrow> pfilter_nop [];
     c \<leftarrow> pfilter_cmp 0 0x1234 0xffff PF_MOV FRAME_MAC_OK c;
     c \<leftarrow> pfilter_cmp 1 0x5678 0xffff PF_AND FRAME_MAC_OK c;
     c \<leftarrow> pfilter_cmp 2 0x9abc 0xffff PF_AND FRAME_MAC_OK c;
     c \<leftarrow> pfilter_cmp 0 0xffff 0xffff PF_MOV FRAME_BROADCAST c;
     c \<leftarrow> pfilter_cmp 1 0xffff 0xffff PF_AND FRAME_BROADCAST c;
     c \<leftarrow> pfilter_cmp 2 0xffff 0xffff PF_AND FRAME_BROADCAST c;
     c \<leftarrow> pfilter_cmp 0 0x0100 0xffff PF_MOV FRAME_MAC_PTP c;
     c \<leftarrow> pfilter_cmp 1 0x5e00 0xffff PF_AND FRAME_MAC_PTP c;
     c \<leftarrow> pfilter_cmp 2 0x0181 0xffff PF_MOV R_TMP c;
     c \<leftarrow> pfilter_cmp 2 0x006b 0xffff PF_OR R_TMP c;
     c \<leftarrow> pfilter_logic3 FRAME_MAC_OK FRAME_MAC_PTP PF_AND R_TMP PF_OR FRAME_MAC_OK c;
     c \<leftarrow> pfilter_cmp 6 0x8100 0xffff PF_MOV R_TMP c;
     c \<leftarrow> pfilter_logic2 R_DROP R_TMP PF_MOV R_ZERO c;
     c \<leftarrow> pfilter_cmp 6 0x88f7 0xffff PF_MOV FRAME_TYPE_PTP2 c;
     c \<leftarrow> pfilter_cmp 6 latency_ethtype 0xffff PF_OR FRAME_TYPE_PTP2 c;
     c \<leftarrow> pfilter_cmp 6 0x0800 0xffff PF_MOV FRAME_TYPE_IPV4 c;
     c \<leftarrow> pfilter_cmp 6 0x0806 0xffff PF_MOV FRAME_TYPE_ARP c;
     c \<leftarrow> pfilter_logic3 FRAME_IP_OK FRAME_BROADCAST PF_OR FRAME_MAC_OK PF_AND FRAME_TYPE_IPV4 c;
     c \<leftarrow> pfilter_cmp 11 0x0001 0x00ff PF_MOV FRAME_ICMP c;
     c \<leftarrow> pfilter_cmp 11 0x0011 0x00ff PF_MOV FRAME_UDP c;
     c \<leftarrow> pfilter_logic2 FRAME_UDP FRAME_UDP PF_AND FRAME_IP_OK c;
     c \<leftarrow> pfilter_logic2 FRAME_FOR_CPU FRAME_TYPE_ARP PF_OR FRAME_TYPE_PTP2 c;
     c \<leftarrow> pfilter_logic3 FRAME_FOR_CPU FRAME_IP_OK PF_AND FRAME_ICMP PF_OR FRAME_FOR_CPU c;
     c \<leftarrow> pfilter_cmp 18 0x0000 0xff00 PF_MOV PORT_UDP_HOST c;
     c \<leftarrow> pfilter_cmp 18 0x0100 0xff00 PF_OR PORT_UDP_HOST c;
     c \<leftarrow> pfilter_logic3 (R_CLASS 0) FRAME_UDP PF_AND PORT_UDP_HOST PF_OR FRAME_FOR_CPU c;
     c \<leftarrow> pfilter_cmp 18 0xebd0 0xffff PF_MOV PORT_UDP_ETHERBONE c;
     c \<leftarrow> pfilter_logic2 (R_CLASS 7) FRAME_UDP PF_AND PORT_UDP_ETHERBONE c;
     c \<leftarrow> pfilter_logic2 (R_CLASS 6) FRAME_UDP PF_NAND PORT_UDP_ETHERBONE c;
     pfilter_output c
   }"

definition pfilter_init_vlan :: "int \<Rightarrow> int \<Rightarrow> int \<Rightarrow> int \<Rightarrow> u8 list option" where
  "pfilter_init_vlan latency_ethtype vlan_1_for_class7 vlan_2_for_class7 vlan_for_class6 = do {
     c \<leftarrow> pfilter_nop [];
     c \<leftarrow> pfilter_cmp 0 0x1234 0xffff PF_MOV FRAME_MAC_OK c;
     c \<leftarrow> pfilter_cmp 1 0x5678 0xffff PF_AND FRAME_MAC_OK c;
     c \<leftarrow> pfilter_cmp 2 0x9abc 0xffff PF_AND FRAME_MAC_OK c;
     c \<leftarrow> pfilter_cmp 0 0xffff 0xffff PF_MOV FRAME_BROADCAST c;
     c \<leftarrow> pfilter_cmp 1 0xffff 0xffff PF_AND FRAME_BROADCAST c;
     c \<leftarrow> pfilter_cmp 2 0xffff 0xffff PF_AND FRAME_BROADCAST c;
     c \<leftarrow> pfilter_cmp 0 0x0100 0xffff PF_MOV FRAME_MAC_PTP c;
     c \<leftarrow> pfilter_cmp 1 0x5e00 0xffff PF_AND FRAME_MAC_PTP c;
     c \<leftarrow> pfilter_cmp 2 0x0181 0xffff PF_MOV R_TMP c;
     c \<leftarrow> pfilter_cmp 2 0x006b 0xffff PF_OR R_TMP c;
     c \<leftarrow> pfilter_logic3 FRAME_MAC_OK FRAME_MAC_PTP PF_AND R_TMP PF_OR FRAME_MAC_OK c;
     c \<leftarrow> pfilter_cmp 6 0x8100 0xffff PF_MOV R_TMP c;
     c \<leftarrow> pfilter_logic2 R_DROP R_TMP PF_NOT R_ZERO c;
     c \<leftarrow> pfilter_cmp 7 0x0aaa 0x0fff PF_MOV FRAME_OUR_VLAN c;
     c \<leftarrow> pfilter_cmp 8 0x88f7 0xffff PF_MOV FRAME_TYPE_PTP2 c;
     c \<leftarrow> pfilter_cmp 8 latency_ethtype 0xffff PF_OR FRAME_TYPE_PTP2 c;
     c \<leftarrow> pfilter_cmp 8 0x0800 0xffff PF_MOV FRAME_TYPE_IPV4 c;
     c \<leftarrow> pfilter_cmp 8 0x0806 0xffff PF_MOV FRAME_TYPE_ARP c;
     c \<leftarrow> pfilter_logic3 FRAME_FOR_CPU FRAME_MAC_OK PF_OR FRAME_BROADCAST PF_OR FRAME_TYPE_PTP2 c;
     c \<leftarrow> pfilter_logic2 (R_CLASS 0) FRAME_FOR_CPU PF_AND FRAME_OUR_VLAN c;
     c \<leftarrow> pfilter_logic2 R_TMP FRAME_MAC_OK PF_OR FRAME_BROADCAST c;
     c \<leftarrow> pfilter_cmp 7 vlan_1_for_class7 0x0fff PF_MOV FRAME_OUR_VLAN c;
     c \<leftarrow> pfilter_cmp 7 vlan_2_for_class7 0x0fff PF_OR FRAME_OUR_VLAN c;
     c \<leftarrow> pfilter_logic2 (R_CLASS 7) R_TMP PF_AND FRAME_OUR_VLAN c;
     c \<leftarrow> pfilter_cmp 7 vlan_for_class6 0x0fff PF_MOV FRAME_OUR_VLAN c;
     c \<leftarrow> pfilter_logic2 (R_CLASS 6) R_TMP PF_AND FRAME_OUR_VLAN c;
     pfilter_output c
   }"

subsection \<open>The loader\<close>

record wr_endpoint_device =
  ep_mac_addr :: "u8 list"
  ep_flags :: u8
  ep_base :: u32

definition ep_write :: "'w reg_bus \<Rightarrow> wr_endpoint_device \<Rightarrow> u32 \<Rightarrow> u32 \<Rightarrow> 'w \<Rightarrow> 'w" where
  "ep_write bus dev addr d w = bus_write bus (addr + ep_base dev) d w"

definition ep_read :: "'w reg_bus \<Rightarrow> wr_endpoint_device \<Rightarrow> u32 \<Rightarrow> 'w \<Rightarrow> u32 \<times> 'w" where
  "ep_read bus dev addr w = bus_read bus (addr + ep_base dev) w"

definition EP_REG_PFCR0 :: u32 where "EP_REG_PFCR0 = 0x14"
definition EP_REG_PFCR1 :: u32 where "EP_REG_PFCR1 = 0x18"
definition EP_PFCR0_ENABLE :: u32 where "EP_PFCR0_ENABLE = 0x80"
definition EP_PFCR0_MM_WRITE_MASK :: u32 where "EP_PFCR0_MM_WRITE_MASK = 0x40"

definition EP_PFCR0_MM_ADDR_W :: "nat \<Rightarrow> u32" where
  "EP_PFCR0_MM_ADDR_W i = of_nat i AND 0x3f"

definition EP_PFCR0_MM_DATA_MSB_W :: "64 word \<Rightarrow> 64 word" where
  "EP_PFCR0_MM_DATA_MSB_W v = push_bit 8 (v AND 0xffffff)"

definition EP_PFCR1_MM_DATA_LSB_W :: "64 word \<Rightarrow> 64 word" where
  "EP_PFCR1_MM_DATA_LSB_W v = v AND 0xfff"

text \<open>The low 32 bits of a rule with the MAC address or the VLAN number in the place of the value.\<close>

definition set_value :: "u32 \<Rightarrow> u32 \<Rightarrow> u32" where
  "set_value l x = (l AND NOT (push_bit 13 0xffff)) OR push_bit 13 x"

definition patch_rule :: "u8 list \<Rightarrow> u16 \<Rightarrow> nat \<Rightarrow> u32 \<Rightarrow> u32" where
  "patch_rule mac vlan i l =
     (let l = (if i \<ge> 1 \<and> i \<le> 3
               then set_value l (push_bit 8 (ucast (mac ! (2 * (i - 1)))) OR ucast (mac ! (2 * (i - 1) + 1)))
               else l)
      in if drop_bit 13 l AND 0xffff = 0x0aaa \<and> drop_bit 7 l AND 0x1f = 7 then set_value l (ucast vlan) else l)"

definition load_rule :: "'w reg_bus \<Rightarrow> wr_endpoint_device \<Rightarrow> u16 \<Rightarrow> nat \<Rightarrow> u8 list \<Rightarrow> 'w \<Rightarrow> 'w" where
  "load_rule bus dev vlan i v w =
     (let h = ucast (v ! 0);
          l = push_bit 24 (ucast (v ! 1)) OR push_bit 16 (ucast (v ! 2)) OR push_bit 8 (ucast (v ! 3)) OR ucast (v ! 4);
          l = patch_rule (ep_mac_addr dev) vlan i l;
          cmd_word = ucast l OR push_bit 32 h;
          cr1 = ucast (EP_PFCR1_MM_DATA_LSB_W (cmd_word AND 0xfff));
          cr0 = ucast (ucast (EP_PFCR0_MM_ADDR_W i) OR EP_PFCR0_MM_DATA_MSB_W (drop_bit 12 cmd_word) OR ucast EP_PFCR0_MM_WRITE_MASK)
      in ep_write bus dev EP_REG_PFCR0 cr0 (ep_write bus dev EP_REG_PFCR1 cr1 w))"

text \<open>The loop over the array; \<open>None\<close>: a read behind its end, when its size is not a multiple of five.\<close>

fun load_rules :: "'w reg_bus \<Rightarrow> wr_endpoint_device \<Rightarrow> u16 \<Rightarrow> nat \<Rightarrow> u8 list \<Rightarrow> 'w \<Rightarrow> 'w option" where
  "load_rules bus dev vlan i [] w = Some w"
| "load_rules bus dev vlan i (h # a # b # c # d # vs) w =
     load_rules bus dev vlan (i + 1) vs (load_rule bus dev vlan i [h, a, b, c, d] w)"
| "load_rules bus dev vlan i _ w = None"

definition ep_pfilter_init_default ::
  "'w reg_bus \<Rightarrow> u8 list \<Rightarrow> u8 list \<Rightarrow> u16 \<Rightarrow> wr_endpoint_device \<Rightarrow> 'w \<Rightarrow> 'w option" where
  "ep_pfilter_init_default bus rules_novlan rules_vlan vlan dev w =
     map_option (ep_write bus dev EP_REG_PFCR0 EP_PFCR0_ENABLE)
       (load_rules bus dev vlan 0 (if vlan = 0 then rules_novlan else rules_vlan) (ep_write bus dev EP_REG_PFCR0 0 w))"

section \<open>Facts\<close>

lemma word_bytes_list:
  "word_bytes w = [ucast (drop_bit 32 w), ucast (drop_bit 24 w), ucast (drop_bit 16 w), ucast (drop_bit 8 w), ucast w]"
  by (simp add: word_bytes_def upt_rec)

lemma join_low:
  fixes w :: "64 word"
  shows "push_bit 24 (ucast (ucast (drop_bit 24 w) :: u8)) OR push_bit 16 (ucast (ucast (drop_bit 16 w) :: u8))
       OR push_bit 8 (ucast (ucast (drop_bit 8 w) :: u8)) OR ucast (ucast w :: u8) = (ucast w :: u32)"
proof (rule bit_word_eqI)
  fix n assume "n < LENGTH(32)"
  then consider "n < 8" | "8 \<le> n" "n < 16" | "16 \<le> n" "n < 24" | "24 \<le> n" "n < 32" by fastforce
  then show "bit (push_bit 24 (ucast (ucast (drop_bit 24 w) :: u8)) OR push_bit 16 (ucast (ucast (drop_bit 16 w) :: u8))
       OR push_bit 8 (ucast (ucast (drop_bit 8 w) :: u8)) OR ucast (ucast w :: u8) :: u32) n \<longleftrightarrow> bit (ucast w :: u32) n"
    by cases (auto simp: bit_simps)
qed

lemma join_high:
  fixes w :: "64 word"
  assumes "drop_bit 40 w = 0"
  shows "ucast (ucast w :: u32) OR push_bit 32 (ucast (ucast (drop_bit 32 w) :: u8)) = w"
proof (rule bit_word_eqI)
  have b: "\<not> bit w n" if "n \<ge> 40" for n
  proof -
    have "bit (drop_bit 40 w) (n - 40) = bit w n" using that by (simp add: bit_simps)
    then show ?thesis by (simp add: assms)
  qed
  fix n assume "n < LENGTH(64)"
  then consider "n < 32" | "32 \<le> n" "n < 40" | "40 \<le> n" "n < 64" by fastforce
  then show "bit (ucast (ucast w :: u32) OR push_bit 32 (ucast (ucast (drop_bit 32 w) :: u8)) :: 64 word) n \<longleftrightarrow> bit w n"
    by cases (auto simp: bit_simps b)
qed


text \<open>
  The load port of the program memory: \<open>PFCR1\<close> takes the lower 12 bits of a word; a write to \<open>PFCR0\<close> with the write bit
  stores the word at the given address, and the enable bit switches the filter.
\<close>

definition filter_port :: "'w reg_bus \<Rightarrow> u32 \<Rightarrow> ('w \<Rightarrow> u32) \<Rightarrow> ('w \<Rightarrow> nat \<Rightarrow> 64 word) \<Rightarrow> ('w \<Rightarrow> bool) \<Rightarrow> bool" where
  "filter_port bus base latch mem enabled \<longleftrightarrow>
     (\<forall>d w. let w' = bus_write bus (EP_REG_PFCR1 + base) d w
        in latch w' = d AND 0xfff \<and> mem w' = mem w \<and> enabled w' = enabled w)
     \<and> (\<forall>d w. let w' = bus_write bus (EP_REG_PFCR0 + base) d w
        in enabled w' = (d AND EP_PFCR0_ENABLE \<noteq> 0)
         \<and> mem w' = (if d AND EP_PFCR0_MM_WRITE_MASK = 0 then mem w
              else (mem w)(unat (d AND 0x3f) := push_bit 12 (ucast (drop_bit 8 d)) OR ucast (latch w))))"

lemma and_masks:
  "x AND 0xfff = take_bit 12 (x :: 'a :: len word)" "x AND 0xffffff = take_bit 24 x" "x AND 0x3f = take_bit 6 x"
  "x AND 0xffff = take_bit 16 x" "x AND 0x1f = take_bit 5 x" "x AND 0xf = take_bit 4 x"
  by (simp_all add: take_bit_eq_mask mask_eq_exp_minus_1)

definition cmd_word :: "u8 list \<Rightarrow> u16 \<Rightarrow> nat \<Rightarrow> 64 word \<Rightarrow> 64 word" where
  "cmd_word mac vlan i w = ucast (patch_rule mac vlan i (ucast w)) OR push_bit 32 (ucast (ucast (drop_bit 32 w) :: u8))"

lemma write_bit: "bit EP_PFCR0_MM_WRITE_MASK n \<longleftrightarrow> n = 6"
proof -
  have "EP_PFCR0_MM_WRITE_MASK = 2 ^ 6" by (simp add: EP_PFCR0_MM_WRITE_MASK_def)
  show ?thesis by (simp only: \<open>EP_PFCR0_MM_WRITE_MASK = 2 ^ 6\<close> bit_exp_iff possible_bit_word) auto
qed

lemma control_bits:
  fixes a :: u32 and c :: "64 word"
  defines "d \<equiv> ucast (ucast (take_bit 6 a) OR push_bit 8 (take_bit 24 (drop_bit 12 c)) OR ucast EP_PFCR0_MM_WRITE_MASK) :: u32"
  shows "take_bit 6 d = take_bit 6 a" "bit (d AND EP_PFCR0_MM_WRITE_MASK) 6" "ucast (drop_bit 8 d) = take_bit 24 (drop_bit 12 c)"
proof -
  show "take_bit 6 d = take_bit 6 a" unfolding d_def by (rule bit_word_eqI) (auto simp: bit_simps write_bit)
  show "bit (d AND EP_PFCR0_MM_WRITE_MASK) 6" unfolding d_def by (simp add: bit_simps write_bit)
  show "ucast (drop_bit 8 d) = take_bit 24 (drop_bit 12 c)"
    unfolding d_def by (rule bit_word_eqI) (auto simp: bit_simps write_bit)
qed

lemma control_word:
  fixes c :: "64 word" and d :: u32
  assumes "i < 64" "d = ucast (ucast (EP_PFCR0_MM_ADDR_W i) OR EP_PFCR0_MM_DATA_MSB_W (drop_bit 12 c) OR ucast EP_PFCR0_MM_WRITE_MASK)"
  shows "unat (d AND 0x3f) = i" "d AND EP_PFCR0_MM_WRITE_MASK \<noteq> 0" "ucast (drop_bit 8 d) = take_bit 24 (drop_bit 12 c)"
proof -
  note d = assms(2) [unfolded EP_PFCR0_MM_ADDR_W_def EP_PFCR0_MM_DATA_MSB_W_def and_masks]
  note b = control_bits [of "of_nat i" c, folded d]
  have "unat (take_bit 6 (of_nat i :: u32)) = i" 
    using assms(1) by (simp only: unsigned_take_bit_eq) (simp add: unat_of_nat take_bit_eq_mod)
  then show "unat (d AND 0x3f) = i" by (simp add: and_masks b)
  show "d AND EP_PFCR0_MM_WRITE_MASK \<noteq> 0" using b(2) by auto
  show "ucast (drop_bit 8 d) = take_bit 24 (drop_bit 12 c)" by (rule b(3))
qed

lemma split_word: "push_bit 12 (take_bit 24 (drop_bit 12 c)) OR ucast (ucast (take_bit 12 c) AND 0xfff :: u32) = take_bit 36 (c :: 64 word)"
proof (unfold and_masks, rule bit_word_eqI)
  fix n
  show "bit (push_bit 12 (take_bit 24 (drop_bit 12 c)) OR ucast (take_bit 12 (ucast (take_bit 12 c)) :: u32)) n \<longleftrightarrow> bit (take_bit 36 (c :: 64 word)) n"
    by (cases "n < 12") (auto simp: bit_simps)
qed

lemma load_rule_mem:
  assumes "filter_port bus (ep_base dev) latch mem enabled" "i < 64" "drop_bit 40 w = 0"
  shows "mem (load_rule bus dev vlan i (word_bytes w) s) = (mem s)(i := take_bit 36 (cmd_word (ep_mac_addr dev) vlan i w))"
proof -
  define c where "c = cmd_word (ep_mac_addr dev) vlan i w"
  define d where "d = (ucast (ucast (EP_PFCR0_MM_ADDR_W i) OR EP_PFCR0_MM_DATA_MSB_W (drop_bit 12 c) OR ucast EP_PFCR0_MM_WRITE_MASK) :: u32)"
  have "load_rule bus dev vlan i (word_bytes w) s = ep_write bus dev EP_REG_PFCR0 d
      (ep_write bus dev EP_REG_PFCR1 (ucast (EP_PFCR1_MM_DATA_LSB_W (c AND 0xfff))) s)"
    by (simp add: load_rule_def Let_def word_bytes_list join_low d_def c_def cmd_word_def)
  then show ?thesis using assms(1) control_word [OF assms(2) d_def]
    by (simp add: filter_port_def Let_def ep_write_def c_def [symmetric] EP_PFCR1_MM_DATA_LSB_W_def split_word and_masks(1) [of c] and_masks(1) [of "take_bit 12 c"] flip: split_word)
qed

lemma load_rules_mem:
  assumes "filter_port bus (ep_base dev) latch mem enabled" "list_all (\<lambda>w. drop_bit 40 w = 0) ws" "i + length ws \<le> 64"
  shows "\<exists>s'. load_rules bus dev vlan i (concat (map word_bytes ws)) s = Some s'
    \<and> (\<forall>a. mem s' a = (if i \<le> a \<and> a < i + length ws then take_bit 36 (cmd_word (ep_mac_addr dev) vlan a (ws ! (a - i))) else mem s a))"
  using assms(2,3)
proof (induction ws arbitrary: i s)
  case Nil
  then show ?case by auto
next
  case (Cons w ws)
  let ?s = "load_rule bus dev vlan i (word_bytes w) s"
  obtain s' where s': "load_rules bus dev vlan (i + 1) (concat (map word_bytes ws)) ?s = Some s'"
    "\<And>a. mem s' a = (if i + 1 \<le> a \<and> a < i + 1 + length ws then take_bit 36 (cmd_word (ep_mac_addr dev) vlan a (ws ! (a - (i + 1)))) else mem ?s a)"
    using Cons.IH [of "i + 1" ?s] Cons.prems by auto
  have "mem ?s = (mem s)(i := take_bit 36 (cmd_word (ep_mac_addr dev) vlan i w))"
    using Cons.prems by (intro load_rule_mem [OF assms(1)]) simp_all
  moreover have "load_rules bus dev vlan i (concat (map word_bytes (w # ws))) s = Some s'"
    using s'(1) by (simp add: word_bytes_list)
  ultimately show ?case using s'(2) by (intro exI [of _ s']) (auto simp: nth_Cons' Suc_le_eq)
qed

subsection \<open>The bits of a comparison\<close>

lemma bit_word_of_int [simp]: "bit (word_of_int k :: 'a :: len word) n \<longleftrightarrow> n < LENGTH('a) \<and> bit k n"
  by (simp add: bit_simps)

lemma bit_beyond:
  assumes "0 \<le> k" "k < 2 ^ m" "m \<le> n"
  shows "\<not> bit (k :: int) n"
proof -
  have "take_bit m k = k" using assms by (simp add: take_bit_int_eq_self)
  then show ?thesis using assms(3) bit_take_bit_iff [of m k n] by (metis not_less)
qed

lemma bit_op_code: "n \<ge> 3 \<Longrightarrow> \<not> bit (op_code oper) n"
  by (rule bit_beyond [of _ 3]) (cases oper, simp_all)+

lemma bit_flag_bit: "bit (flag_bit c k) n \<longleftrightarrow> c \<and> n = k \<and> n < 64"
  by (auto simp: flag_bit_def bit_simps)

lemma bit_cmp_ir:
  assumes "0 \<le> offset" "offset < 64" "0 \<le> val" "val < 65536" "0 \<le> rd" "rd < 16"
  shows "bit (cmp_ir offset val msk oper rd) n \<longleftrightarrow>
    (if n < 3 then bit (op_code oper) n else if n < 7 then bit rd (n - 3) else if n < 13 then bit offset (n - 7)
     else if n < 29 then bit val (n - 13) else (n = 29 \<and> msk AND 1 \<noteq> 0) \<or> (n = 30 \<and> msk AND 0x10 \<noteq> 0)
       \<or> (n = 31 \<and> msk AND 0x100 \<noteq> 0) \<or> (n = 32 \<and> msk AND 0x1000 \<noteq> 0))"
proof -
  have r: "shl32 rd 3 = push_bit 3 rd" using assms(5,6) by (simp add: shl32_def push_bit_eq_mult fits32_def)
  have v: "\<not> bit val m" if "m \<ge> 16" for m using assms(3,4) that by (intro bit_beyond [of _ 16]) simp_all
  have o: "\<not> bit offset m" if "m \<ge> 6" for m using assms(1,2) that by (intro bit_beyond [of _ 6]) simp_all
  have d: "\<not> bit rd m" if "m \<ge> 4" for m using assms(5,6) that by (intro bit_beyond [of _ 4]) simp_all
  consider "n < 3" | "3 \<le> n" "n < 7" | "7 \<le> n" "n < 13" | "13 \<le> n" "n < 29" | "29 \<le> n" by linarith
  then show ?thesis unfolding cmp_ir_def and_masks PF_MODE_CMP_def r
    by cases (simp_all add: bit_simps bit_flag_bit bit_op_code v o d, auto)
qed

definition cmp_args :: "int \<Rightarrow> int \<Rightarrow> int \<Rightarrow> bool" where
  "cmp_args offset val rd \<longleftrightarrow> 0 \<le> offset \<and> offset < 64 \<and> 0 \<le> val \<and> val < 65536 \<and> 0 \<le> rd \<and> rd < 16"

lemma bit_cmp:
  assumes "cmp_args offset val rd"
  shows "bit (cmp_ir offset val msk oper rd) n \<longleftrightarrow>
    (if n < 3 then bit (op_code oper) n else if n < 7 then bit rd (n - 3) else if n < 13 then bit offset (n - 7)
     else if n < 29 then bit val (n - 13) else (n = 29 \<and> msk AND 1 \<noteq> 0) \<or> (n = 30 \<and> msk AND 0x10 \<noteq> 0)
       \<or> (n = 31 \<and> msk AND 0x100 \<noteq> 0) \<or> (n = 32 \<and> msk AND 0x1000 \<noteq> 0))"
  using assms by (intro bit_cmp_ir) (simp_all add: cmp_args_def)

lemma set_value_cmp:
  assumes "cmp_args offset val rd" "cmp_args offset val' rd"
  shows "set_value (ucast (cmp_ir offset val msk oper rd)) (word_of_int val') = ucast (cmp_ir offset val' msk oper rd)"
proof (rule bit_word_eqI)
  have m: "(0xffff :: u32) = mask 16" by (simp add: mask_eq_exp_minus_1)
  have v: "\<not> bit val' k" if "k \<ge> 16" for k using assms(2) that by (intro bit_beyond [of _ 16]) (simp_all add: cmp_args_def)
  fix n assume "n < LENGTH(32)"
  then consider "n < 13" | "13 \<le> n" "n < 29" | "29 \<le> n" "n < 32" by fastforce
  then show "bit (set_value (ucast (cmp_ir offset val msk oper rd)) (word_of_int val')) n \<longleftrightarrow> bit (ucast (cmp_ir offset val' msk oper rd) :: u32) n"
    unfolding set_value_def m by cases (auto simp: bit_simps bit_cmp [OF assms(1)] bit_cmp [OF assms(2)] v)
qed

lemma cmp_fields:
  assumes "cmp_args offset val rd"
  shows "drop_bit 13 (ucast (cmp_ir offset val msk oper rd) :: u32) AND 0xffff = word_of_int val"
    "drop_bit 7 (ucast (cmp_ir offset val msk oper rd) :: u32) AND 0x1f = word_of_int (offset mod 32)"
    "drop_bit 33 (cmp_ir offset val msk oper rd) = 0"
    "drop_bit 32 (cmp_ir offset val msk oper rd) = drop_bit 32 (cmp_ir offset 0 msk oper rd)"
proof -
  have v: "k < 16" if "bit val k" for k using assms that bit_beyond [of val 16 k] by (force simp: cmp_args_def)
  have z: "cmp_args offset 0 rd" using assms by (simp add: cmp_args_def)
  have o: "bit (offset mod 32) k \<longleftrightarrow> k < 5 \<and> bit offset k" for k
    using bit_take_bit_iff [of 5 offset k] by (simp add: take_bit_eq_mod)
  note b = bit_simps bit_cmp [OF assms] bit_cmp [OF z] o
  show "drop_bit 13 (ucast (cmp_ir offset val msk oper rd) :: u32) AND 0xffff = word_of_int val"
    unfolding and_masks by (rule bit_word_eqI) (auto simp: b dest: v)
  show "drop_bit 7 (ucast (cmp_ir offset val msk oper rd) :: u32) AND 0x1f = word_of_int (offset mod 32)"
    unfolding and_masks by (rule bit_word_eqI) (auto simp: b)
  show "drop_bit 33 (cmp_ir offset val msk oper rd) = 0" by (rule bit_word_eqI) (auto simp: b)
  show "drop_bit 32 (cmp_ir offset val msk oper rd) = drop_bit 32 (cmp_ir offset 0 msk oper rd)" by (rule bit_word_eqI) (auto simp: b)
qed

text \<open>The two bytes of an address as a 16-bit number.\<close>

definition mac_word :: "u8 list \<Rightarrow> nat \<Rightarrow> int" where
  "mac_word mac k = push_bit 8 (uint (mac ! (2 * k))) OR uint (mac ! (2 * k + 1))"

lemma bit_mac_word: "bit (mac_word mac k) n \<longleftrightarrow> (if n < 8 then bit (mac ! (2 * k + 1)) n else bit (mac ! (2 * k)) (n - 8))"
  by (auto simp: mac_word_def bit_simps bit_uint_iff dest: bit_imp_le_length)

lemma mac_word_range: "0 \<le> mac_word mac k" "mac_word mac k < 65536"
proof -
  have "take_bit 16 (mac_word mac k) = mac_word mac k"
    by (rule bit_eqI) (auto simp: bit_simps bit_mac_word dest: bit_imp_le_length)
  then show "0 \<le> mac_word mac k" "mac_word mac k < 65536"
    using take_bit_nonnegative [of 16 "mac_word mac k"] take_bit_int_less_exp [of 16 "mac_word mac k"] by simp_all
qed

lemma word_mac_word: "(word_of_int (mac_word mac k) :: u32) = push_bit 8 (ucast (mac ! (2 * k))) OR ucast (mac ! (2 * k + 1))"
  by (rule bit_word_eqI) (auto simp: bit_simps bit_mac_word dest: bit_imp_le_length)

lemma cmd_wordI:
  assumes "cmp_args offset val rd" "cmp_args offset val' rd"
    "patch_rule mac vlan i (ucast (cmp_ir offset val msk oper rd)) = ucast (cmp_ir offset val' msk oper rd)"
  shows "cmd_word mac vlan i (cmp_ir offset val msk oper rd) = cmp_ir offset val' msk oper rd"
proof -
  have "drop_bit 40 (cmp_ir offset val' msk oper rd) = drop_bit 7 (drop_bit 33 (cmp_ir offset val' msk oper rd))" by simp
  also have "\<dots> = 0" by (simp only: cmp_fields(3) [OF assms(2)] drop_bit_of_0)
  finally have "drop_bit 40 (cmp_ir offset val' msk oper rd) = 0" .
  then show ?thesis using join_high [of "cmp_ir offset val' msk oper rd"] cmp_fields(4) [OF assms(1)] cmp_fields(4) [OF assms(2)]
    by (simp add: cmd_word_def assms(3))
qed

lemma small_word_eq:
  assumes "0 \<le> a" "a < 65536" "0 \<le> b" "b < 65536"
  shows "(word_of_int a :: u32) = word_of_int b \<longleftrightarrow> a = b" "(word_of_int a :: u16) = word_of_int b \<longleftrightarrow> a = b"
  using assms by (simp_all add: word_of_int_eq_iff take_bit_eq_mod)

lemma cmd_word_kept:
  assumes "cmp_args offset val rd" "offset < 32" "\<not> (1 \<le> i \<and> i \<le> 3)" "\<not> (val = 0xaaa \<and> offset = 7)"
  shows "cmd_word mac vlan i (cmp_ir offset val msk oper rd) = cmp_ir offset val msk oper rd"
proof (rule cmd_wordI [OF assms(1,1)])
  have v: "word_of_int val = (0xaaa :: u32) \<longleftrightarrow> val = 0xaaa" using assms(1) small_word_eq [of val "0xaaa"] by (simp add: cmp_args_def)
  have o: "word_of_int (offset mod 32) = (7 :: u32) \<longleftrightarrow> offset = 7" using assms(1,2) small_word_eq [of offset 7] by (simp add: cmp_args_def)
  show "patch_rule mac vlan i (ucast (cmp_ir offset val msk oper rd)) = ucast (cmp_ir offset val msk oper rd)"
    unfolding patch_rule_def Let_def if_not_P [OF assms(3)] using assms(4) by (auto simp: cmp_fields [OF assms(1)] v o)
qed

lemma cmd_word_mac:
  assumes "cmp_args offset val rd" "offset < 7" "1 \<le> i" "i \<le> 3"
  shows "cmd_word mac vlan i (cmp_ir offset val msk oper rd) = cmp_ir offset (mac_word mac (i - 1)) msk oper rd"
proof -
  have a: "cmp_args offset (mac_word mac (i - 1)) rd" using assms(1) mac_word_range [of mac "i - 1"] by (simp add: cmp_args_def)
  have o: "word_of_int (offset mod 32) \<noteq> (7 :: u32)" using assms(1,2) small_word_eq [of offset 7] by (simp add: cmp_args_def)
  show ?thesis
    by (rule cmd_wordI [OF assms(1) a], unfold patch_rule_def Let_def word_mac_word [symmetric] set_value_cmp [OF assms(1) a])
      (use assms(3,4) in \<open>simp add: cmp_fields(2) [OF a [unfolded One_nat_def]] o\<close>)
qed

lemma cmd_word_vlan:
  assumes "0 \<le> rd" "rd < 16" "\<not> (1 \<le> i \<and> i \<le> 3)"
  shows "cmd_word mac vlan i (cmp_ir 7 0xaaa msk oper rd) = cmp_ir 7 (uint vlan) msk oper rd"
proof -
  have a: "cmp_args 7 0xaaa rd" "cmp_args 7 (uint vlan) rd" using assms(1,2) uint_bounded [of vlan] by (simp_all add: cmp_args_def)
  have "set_value (ucast (cmp_ir 7 0xaaa msk oper rd)) (ucast vlan) = ucast (cmp_ir 7 (uint vlan) msk oper rd)"
    using set_value_cmp [OF a, of msk oper] by simp
  then show ?thesis
    by (intro cmd_wordI [OF a], unfold patch_rule_def Let_def if_not_P [OF assms(3)]) (simp add: cmp_fields [OF a(1)])
qed

lemma cmp_take_36: "cmp_args offset val rd \<Longrightarrow> take_bit 36 (cmp_ir offset val msk oper rd) = cmp_ir offset val msk oper rd"
  by (rule bit_word_eqI) (auto simp: bit_simps bit_cmp)

text \<open>Words without a value to be patched.\<close>

definition plain :: "64 word \<Rightarrow> bool" where
  "plain w \<longleftrightarrow> drop_bit 36 w = 0 \<and> drop_bit 7 (ucast w :: u32) AND 0x1f \<noteq> 7"

lemma plain_kept:
  assumes "plain w" "\<not> (1 \<le> i \<and> i \<le> 3)"
  shows "take_bit 36 (cmd_word mac vlan i w) = w"
proof -
  have d: "drop_bit 36 w = 0" using assms(1) by (simp add: plain_def)
  have "drop_bit 40 w = drop_bit 4 (drop_bit 36 w)" by simp
  then have "drop_bit 40 w = 0" by (simp only: d drop_bit_of_0)
  then have "cmd_word mac vlan i w = w" using join_high [of w] assms(1)
    unfolding cmd_word_def patch_rule_def Let_def if_not_P [OF assms(2)] by (simp add: plain_def)
  moreover have "take_bit 36 w = w" using d bits_ident [of 36 w] by simp
  ultimately show ?thesis by simp
qed

subsection \<open>The program in the filter\<close>

text \<open>What is in the memory for the words of a rule set.\<close>

definition loaded :: "u8 list \<Rightarrow> u16 \<Rightarrow> code \<Rightarrow> code" where
  "loaded mac vlan ws = map (\<lambda>a. take_bit 36 (cmd_word mac vlan a (ws ! a))) [0..<length ws]"

definition novlan_words :: "int \<Rightarrow> code" where
  "novlan_words lat = [PF_MODE_LOGIC,
     cmp_ir 0 0x1234 0xffff PF_MOV 2, cmp_ir 1 0x5678 0xffff PF_AND 2, cmp_ir 2 0x9abc 0xffff PF_AND 2,
     cmp_ir 0 0xffff 0xffff PF_MOV 1, cmp_ir 1 0xffff 0xffff PF_AND 1, cmp_ir 2 0xffff 0xffff PF_AND 1,
     cmp_ir 0 0x0100 0xffff PF_MOV 3, cmp_ir 1 0x5e00 0xffff PF_AND 3, cmp_ir 2 0x0181 0xffff PF_MOV 12,
     cmp_ir 2 0x006b 0xffff PF_OR 12, logic3_ir 2 3 PF_AND 12 PF_OR 2,
     cmp_ir 6 0x8100 0xffff PF_MOV 12, logic2_ir 23 12 PF_MOV 0,
     cmp_ir 6 0x88f7 0xffff PF_MOV 6, cmp_ir 6 lat 0xffff PF_OR 6, cmp_ir 6 0x0800 0xffff PF_MOV 5, cmp_ir 6 0x0806 0xffff PF_MOV 7,
     logic3_ir 14 1 PF_OR 2 PF_AND 5,
     cmp_ir 11 0x0001 0x00ff PF_MOV 8, cmp_ir 11 0x0011 0x00ff PF_MOV 9, logic2_ir 9 9 PF_AND 14,
     logic2_ir 15 7 PF_OR 6, logic3_ir 15 14 PF_AND 8 PF_OR 15,
     cmp_ir 18 0x0000 0xff00 PF_MOV 10, cmp_ir 18 0x0100 0xff00 PF_OR 10, logic3_ir 24 9 PF_AND 10 PF_OR 15,
     cmp_ir 18 0xebd0 0xffff PF_MOV 11, logic2_ir 31 9 PF_AND 11, logic2_ir 30 9 PF_NAND 11, PF_FIN]"

lemmas builder_defs = pfilter_cmp_def pfilter_nop_def pfilter_logic2_def pfilter_logic3_def pfilter_output_def emit_def check_size_def
  check_reg_range_def logic_args_def PFILTER_MAX_CODE_SIZE_def R_ZERO_def R_DROP_def R_CLASS_def FRAME_BROADCAST_def FRAME_MAC_OK_def FRAME_MAC_PTP_def
  FRAME_OUR_VLAN_def FRAME_TYPE_IPV4_def FRAME_TYPE_PTP2_def FRAME_TYPE_ARP_def FRAME_ICMP_def FRAME_UDP_def PORT_UDP_HOST_def
  PORT_UDP_ETHERBONE_def R_TMP_def FRAME_IP_OK_def FRAME_FOR_CPU_def

lemma novlan_assembled: "pfilter_init_novlan lat = Some (concat (map word_bytes (novlan_words lat)))"
  by (simp add: pfilter_init_novlan_def builder_defs novlan_words_def)


lemma novlan_plain:
  "plain PF_MODE_LOGIC" "plain PF_FIN" "plain (logic3_ir 2 3 PF_AND 12 PF_OR 2)" "plain (logic2_ir 23 12 PF_MOV 0)"
  "plain (logic3_ir 14 1 PF_OR 2 PF_AND 5)" "plain (logic2_ir 9 9 PF_AND 14)" "plain (logic2_ir 15 7 PF_OR 6)"
  "plain (logic3_ir 15 14 PF_AND 8 PF_OR 15)" "plain (logic3_ir 24 9 PF_AND 10 PF_OR 15)" "plain (logic2_ir 31 9 PF_AND 11)"
  "plain (logic2_ir 30 9 PF_NAND 11)"
  by code_simp+


lemma kept_36:
  assumes "cmp_args offset val rd" "offset < 32" "\<not> (1 \<le> i \<and> i \<le> 3)" "\<not> (val = 0xaaa \<and> offset = 7)"
  shows "take_bit 36 (cmd_word mac vlan i (cmp_ir offset val msk oper rd)) = cmp_ir offset val msk oper rd"
  by (simp only: cmd_word_kept [OF assms] cmp_take_36 [OF assms(1)])

lemma mac_36:
  assumes "cmp_args offset val rd" "offset < 7" "1 \<le> i" "i \<le> 3"
  shows "take_bit 36 (cmd_word mac vlan i (cmp_ir offset val msk oper rd)) = cmp_ir offset (mac_word mac (i - 1)) msk oper rd"
  using assms(1) mac_word_range [of mac "i - 1"] by (simp only: cmd_word_mac [OF assms]) (simp add: cmp_take_36 cmp_args_def)

definition novlan_program :: "u8 list \<Rightarrow> int \<Rightarrow> code" where
  "novlan_program mac lat = (novlan_words lat)[1 := cmp_ir 0 (mac_word mac 0) 0xffff PF_MOV 2,
     2 := cmp_ir 1 (mac_word mac 1) 0xffff PF_AND 2, 3 := cmp_ir 2 (mac_word mac 2) 0xffff PF_AND 2]"

lemma novlan_loaded:
  assumes "0 \<le> lat" "lat < 65536"
  shows "loaded mac vlan (novlan_words lat) = novlan_program mac lat"
  using assms
  by (simp add: loaded_def novlan_words_def novlan_program_def upt_rec kept_36 mac_36 cmp_args_def plain_kept novlan_plain numeral_2_eq_2)

subsection \<open>The filter\<close>

text \<open>
  The instruction set as the comment of the builder describes it: a comparison combines its outcome with the destination register,
  a logic instruction combines registers; \<open>PF_MOV\<close> and \<open>PF_NOT\<close> take their first operand. A frame is its 16-bit words.
\<close>

fun pf_oper :: "pfilter_op \<Rightarrow> bool \<Rightarrow> bool \<Rightarrow> bool" where
  "pf_oper PF_AND a b = (a \<and> b)"
| "pf_oper PF_NAND a b = (\<not> (a \<and> b))"
| "pf_oper PF_OR a b = (a \<or> b)"
| "pf_oper PF_NOR a b = (\<not> (a \<or> b))"
| "pf_oper PF_XOR a b = (a \<noteq> b)"
| "pf_oper PF_XNOR a b = (a = b)"
| "pf_oper PF_MOV a b = a"
| "pf_oper PF_NOT a b = (\<not> a)"

definition nibbles :: "int \<Rightarrow> bool" where
  "nibbles msk \<longleftrightarrow> (\<exists>a b c d. {a, b, c, d} \<subseteq> {0, 15} \<and> msk = a + 16 * b + 256 * c + 4096 * d)"

definition filter_hw :: "(64 word \<Rightarrow> (nat \<Rightarrow> u16) \<Rightarrow> (nat \<Rightarrow> bool) \<Rightarrow> nat \<Rightarrow> bool) \<Rightarrow> bool" where
  "filter_hw exec \<longleftrightarrow>
     (\<forall>offset val msk oper rd pkt regs. cmp_args offset val rd \<and> 1 \<le> rd \<and> nibbles msk \<and> val AND msk = val \<longrightarrow>
        exec (cmp_ir offset val msk oper rd) pkt regs =
          regs(nat rd := pf_oper oper (pkt (nat offset) AND word_of_int msk = word_of_int val) (regs (nat rd))))
     \<and> (\<forall>rd ra oper rb pkt regs. {ra, rb} \<subseteq> {0..31} \<and> 1 \<le> rd \<and> rd \<le> 31 \<longrightarrow>
        exec (logic2_ir rd ra oper rb) pkt regs = regs(nat rd := pf_oper oper (regs (nat ra)) (regs (nat rb))))
     \<and> (\<forall>rd ra oper rb oper2 rc pkt regs. {ra, rb, rc} \<subseteq> {0..31} \<and> 1 \<le> rd \<and> rd \<le> 31 \<longrightarrow>
        exec (logic3_ir rd ra oper rb oper2 rc) pkt regs =
          regs(nat rd := pf_oper oper2 (pf_oper oper (regs (nat ra)) (regs (nat rb))) (regs (nat rc))))
     \<and> (\<forall>pkt regs. exec PF_MODE_LOGIC pkt regs = regs)"

text \<open>The run over a frame: one instruction of the memory after the other, up to \<open>PF_FIN\<close>, at most the 64 words of the memory.\<close>

fun pf_run :: "(64 word \<Rightarrow> (nat \<Rightarrow> u16) \<Rightarrow> (nat \<Rightarrow> bool) \<Rightarrow> nat \<Rightarrow> bool) \<Rightarrow> (nat \<Rightarrow> 64 word) \<Rightarrow> (nat \<Rightarrow> u16) \<Rightarrow> nat \<Rightarrow> nat \<Rightarrow> (nat \<Rightarrow> bool) \<Rightarrow> nat \<Rightarrow> bool" where
  "pf_run exec mem pkt 0 pc regs = regs"
| "pf_run exec mem pkt (Suc n) pc regs =
     (if mem pc = PF_FIN then regs else pf_run exec mem pkt n (pc + 1) (exec (mem pc) pkt regs))"

definition frame_word :: "u8 list \<Rightarrow> nat \<Rightarrow> u16" where
  "frame_word f k = push_bit 8 (ucast (f ! (2 * k))) OR ucast (f ! (2 * k + 1))"

definition classify :: "(64 word \<Rightarrow> (nat \<Rightarrow> u16) \<Rightarrow> (nat \<Rightarrow> bool) \<Rightarrow> nat \<Rightarrow> bool) \<Rightarrow> (nat \<Rightarrow> 64 word) \<Rightarrow> (nat \<Rightarrow> bool) \<Rightarrow> u8 list \<Rightarrow> nat \<Rightarrow> bool" where
  "classify exec mem regs f = pf_run exec mem (frame_word f) 64 0 regs"

lemma pf_run_list:
  assumes "\<forall>a < length ws. mem (pc + a) = ws ! a" "mem (pc + length ws) = PF_FIN" "length ws < n" "PF_FIN \<notin> set ws"
  shows "pf_run exec mem pkt n pc regs = fold (\<lambda>w. exec w pkt) ws regs"
  using assms
proof (induction ws arbitrary: n pc regs)
  case Nil
  then show ?case by (cases n) simp_all
next
  case (Cons w ws)
  then obtain m where m: "n = Suc m" by (cases n) simp_all
  have "mem pc = w" using Cons.prems(1) [rule_format, of 0] by simp
  moreover have "mem (pc + 1 + a) = ws ! a" if "a < length ws" for a
    using Cons.prems(1) [rule_format, of "Suc a"] that by simp
  ultimately show ?case using Cons.IH [of "pc + 1" m "exec w pkt regs"] Cons.prems m by auto
qed

lemma nibble_masks: "nibbles 0xffff" "nibbles 0xff00" "nibbles 0x00ff" "nibbles 0x0fff"
proof -
  have "nibbles (a + 16 * b + 256 * c + 4096 * d)" if "{a, b, c, d} \<subseteq> {0, 15}" for a b c d
    using that unfolding nibbles_def by blast
  from this [of 15 15 15 15] this [of 0 0 15 15] this [of 15 15 0 0] this [of 15 15 15 0]
  show "nibbles 0xffff" "nibbles 0xff00" "nibbles 0x00ff" "nibbles 0x0fff" by simp_all
qed

lemma exec_cmp:
  assumes "filter_hw exec" "cmp_args offset val rd" "1 \<le> rd" "nibbles msk" "val AND msk = val"
  shows "exec (cmp_ir offset val msk oper rd) pkt regs =
          regs(nat rd := pf_oper oper (pkt (nat offset) AND word_of_int msk = word_of_int val) (regs (nat rd)))"
  using assms(1) [unfolded filter_hw_def, THEN conjunct1] assms(2-) by simp

lemma exec_logic:
  assumes "filter_hw exec" "{ra, rb} \<subseteq> {0..31}" "1 \<le> rd" "rd \<le> 31"
  shows "exec (logic2_ir rd ra oper rb) pkt regs = regs(nat rd := pf_oper oper (regs (nat ra)) (regs (nat rb)))"
    "{rc} \<subseteq> {0..31} \<Longrightarrow> exec (logic3_ir rd ra oper rb oper2 rc) pkt regs =
          regs(nat rd := pf_oper oper2 (pf_oper oper (regs (nat ra)) (regs (nat rb))) (regs (nat rc)))"
    "exec PF_MODE_LOGIC pkt regs = regs"
  using assms unfolding filter_hw_def by auto

lemma and_16: "0 \<le> k \<Longrightarrow> k < 65536 \<Longrightarrow> k AND 65535 = (k :: int)"
  using take_bit_eq_mask [of 16 k] take_bit_int_eq_self [of k 16] by (simp add: mask_eq_exp_minus_1)

text \<open>What the rules select: the frames for an address, and of those the IP packets.\<close>

definition to_us :: "u8 list \<Rightarrow> (nat \<Rightarrow> u16) \<Rightarrow> bool" where
  "to_us mac pkt \<longleftrightarrow> (\<forall>k<3. pkt k = word_of_int (mac_word mac k)) \<or> (\<forall>k<3. pkt k = 0xffff)
     \<or> (pkt 0 = 0x0100 \<and> pkt 1 = 0x5e00 \<and> (pkt 2 = 0x0181 \<or> pkt 2 = 0x006b))"

definition for_cpu :: "int \<Rightarrow> u8 list \<Rightarrow> (nat \<Rightarrow> u16) \<Rightarrow> bool" where
  "for_cpu lat mac pkt \<longleftrightarrow> pkt 6 = 0x0806 \<or> pkt 6 = 0x88f7 \<or> pkt 6 = word_of_int lat
     \<or> (to_us mac pkt \<and> pkt 6 = 0x0800
        \<and> (pkt 11 AND 0xff = 1 \<or> (pkt 11 AND 0xff = 0x11 \<and> (pkt 18 AND 0xff00 = 0 \<or> pkt 18 AND 0xff00 = 0x100))))"

definition etherbone :: "u8 list \<Rightarrow> (nat \<Rightarrow> u16) \<Rightarrow> bool" where
  "etherbone mac pkt \<longleftrightarrow> to_us mac pkt \<and> pkt 6 = 0x0800 \<and> pkt 11 AND 0xff = 0x11 \<and> pkt 18 = 0xebd0"

lemma all_below_3: "(\<forall>k<3. P k) \<longleftrightarrow> P 0 \<and> P 1 \<and> P (2 :: nat)"
  by (auto simp: numeral_3_eq_3 numeral_2_eq_2 less_Suc_eq)

lemma full_mask: "(x :: u16) AND 65535 = x"
  unfolding and_masks by (simp add: take_bit_word_eq_self)

lemma novlan_run:
  fixes mac lat regs pkt exec
  defines "r \<equiv> fold (\<lambda>w. exec w pkt) (butlast (novlan_program mac lat)) regs"
  assumes h: "filter_hw exec" and l: "0 \<le> lat" "lat < 65536"
  shows "r 23 = (pkt 6 = 0x8100)" "r 24 = for_cpu lat mac pkt" "r 31 = etherbone mac pkt" "r 30 = (\<not> etherbone mac pkt)"
proof -
  note e = exec_cmp [OF h] exec_logic [OF h] nibble_masks cmp_args_def and_16 full_mask novlan_program_def novlan_words_def
  show "r 23 = (pkt 6 = 0x8100)" unfolding r_def using l mac_word_range [of mac] by (simp add: e)
  show "r 24 = for_cpu lat mac pkt" unfolding r_def for_cpu_def to_us_def all_below_3
    using l mac_word_range [of mac] by (simp add: e) blast
  show "r 31 = etherbone mac pkt" unfolding r_def etherbone_def to_us_def all_below_3
    using l mac_word_range [of mac] by (simp add: e) blast
  show "r 30 = (\<not> etherbone mac pkt)" unfolding r_def etherbone_def to_us_def all_below_3
    using l mac_word_range [of mac] by (simp add: e) blast
qed


lemma and_12: "0 \<le> k \<Longrightarrow> k < 4096 \<Longrightarrow> k AND 4095 = (k :: int)"
  using take_bit_eq_mask [of 12 k] take_bit_int_eq_self [of k 12] by (simp add: mask_eq_exp_minus_1)

text \<open>The rule set for tagged frames.\<close>

definition vlan_words :: "int \<Rightarrow> int \<Rightarrow> int \<Rightarrow> int \<Rightarrow> code" where
  "vlan_words lat v1 v2 v6 = take 12 (novlan_words lat) @
     [cmp_ir 6 0x8100 0xffff PF_MOV 12, logic2_ir 23 12 PF_NOT 0, cmp_ir 7 0xaaa 0x0fff PF_MOV 4,
      cmp_ir 8 0x88f7 0xffff PF_MOV 6, cmp_ir 8 lat 0xffff PF_OR 6, cmp_ir 8 0x0800 0xffff PF_MOV 5, cmp_ir 8 0x0806 0xffff PF_MOV 7,
      logic3_ir 15 2 PF_OR 1 PF_OR 6, logic2_ir 24 15 PF_AND 4, logic2_ir 12 2 PF_OR 1,
      cmp_ir 7 v1 0x0fff PF_MOV 4, cmp_ir 7 v2 0x0fff PF_OR 4, logic2_ir 31 12 PF_AND 4,
      cmp_ir 7 v6 0x0fff PF_MOV 4, logic2_ir 30 12 PF_AND 4, PF_FIN]"

lemma vlan_assembled: "pfilter_init_vlan lat v1 v2 v6 = Some (concat (map word_bytes (vlan_words lat v1 v2 v6)))"
  by (simp add: pfilter_init_vlan_def builder_defs vlan_words_def novlan_words_def)

lemma vlan_plain:
  "plain (logic2_ir 23 12 PF_NOT 0)" "plain (logic3_ir 15 2 PF_OR 1 PF_OR 6)" "plain (logic2_ir 24 15 PF_AND 4)"
  "plain (logic2_ir 12 2 PF_OR 1)" "plain (logic2_ir 31 12 PF_AND 4)" "plain (logic2_ir 30 12 PF_AND 4)"
  by code_simp+

lemma vlan_36:
  assumes "0 \<le> rd" "rd < 16" "\<not> (1 \<le> i \<and> i \<le> 3)"
  shows "take_bit 36 (cmd_word mac vlan i (cmp_ir 7 0xaaa msk oper rd)) = cmp_ir 7 (uint vlan) msk oper rd"
  using assms(1,2) uint_bounded [of vlan] by (simp only: cmd_word_vlan [OF assms]) (simp add: cmp_take_36 cmp_args_def)

definition vlan_program :: "u8 list \<Rightarrow> u16 \<Rightarrow> int \<Rightarrow> int \<Rightarrow> int \<Rightarrow> int \<Rightarrow> code" where
  "vlan_program mac vlan lat v1 v2 v6 = take 12 (novlan_program mac lat) @
     (drop 12 (vlan_words lat v1 v2 v6))[2 := cmp_ir 7 (uint vlan) 0x0fff PF_MOV 4]"

text \<open>A VLAN number of the configuration that can be told from the place holder of the builder.\<close>

definition class_vlan :: "int \<Rightarrow> bool" where
  "class_vlan v \<longleftrightarrow> 0 \<le> v \<and> v < 4096 \<and> v \<noteq> 0xaaa"

lemma vlan_loaded:
  assumes "0 \<le> lat" "lat < 65536" "class_vlan v1" "class_vlan v2" "class_vlan v6"
  shows "loaded mac vlan (vlan_words lat v1 v2 v6) = vlan_program mac vlan lat v1 v2 v6"
  using assms
  by (simp add: loaded_def vlan_words_def novlan_words_def vlan_program_def novlan_program_def upt_rec kept_36 mac_36 vlan_36 class_vlan_def
      cmp_args_def plain_kept novlan_plain vlan_plain numeral_2_eq_2)

lemma vlan_run:
  fixes mac lat regs pkt exec vlan v1 v2 v6
  defines "r \<equiv> fold (\<lambda>w. exec w pkt) (butlast (vlan_program mac vlan lat v1 v2 v6)) regs"
  assumes h: "filter_hw exec" and l: "0 \<le> lat" "lat < 65536" "uint vlan < 4096" "class_vlan v1" "class_vlan v2" "class_vlan v6"
  shows "r 23 = (pkt 6 \<noteq> 0x8100)"
    "r 24 = ((to_us mac pkt \<or> pkt 8 = 0x88f7 \<or> pkt 8 = word_of_int lat) \<and> pkt 7 AND 0xfff = ucast vlan)"
    "r 31 = (to_us mac pkt \<and> (pkt 7 AND 0xfff = word_of_int v1 \<or> pkt 7 AND 0xfff = word_of_int v2))"
    "r 30 = (to_us mac pkt \<and> pkt 7 AND 0xfff = word_of_int v6)"
proof -
  note e = exec_cmp [OF h] exec_logic [OF h] nibble_masks cmp_args_def and_16 and_12 full_mask novlan_program_def novlan_words_def
    vlan_program_def vlan_words_def class_vlan_def
  show "r 23 = (pkt 6 \<noteq> 0x8100)" unfolding r_def using l mac_word_range [of mac] by (simp add: e)
  show "r 24 = ((to_us mac pkt \<or> pkt 8 = 0x88f7 \<or> pkt 8 = word_of_int lat) \<and> pkt 7 AND 0xfff = ucast vlan)"
    unfolding r_def to_us_def all_below_3 using l mac_word_range [of mac] by (simp add: e) blast
  show "r 31 = (to_us mac pkt \<and> (pkt 7 AND 0xfff = word_of_int v1 \<or> pkt 7 AND 0xfff = word_of_int v2))"
    unfolding r_def to_us_def all_below_3 using l mac_word_range [of mac] by (simp add: e) blast
  show "r 30 = (to_us mac pkt \<and> pkt 7 AND 0xfff = word_of_int v6)"
    unfolding r_def to_us_def all_below_3 using l mac_word_range [of mac] by (simp add: e) blast
qed

subsection \<open>From the builder to the classification\<close>

definition rule_set :: "code \<Rightarrow> bool" where
  "rule_set ws \<longleftrightarrow> ws \<noteq> [] \<and> length ws \<le> 64 \<and> list_all (\<lambda>w. drop_bit 36 w = 0) ws"

definition program :: "code \<Rightarrow> bool" where
  "program ws \<longleftrightarrow> ws \<noteq> [] \<and> last ws = PF_FIN \<and> PF_FIN \<notin> set (butlast ws)"

lemma program_runs:
  assumes hw: "filter_port bus (ep_base dev) latch mem enabled" and ws: "rule_set ws" "program (loaded (ep_mac_addr dev) vlan ws)"
  shows "\<exists>s'. map_option (ep_write bus dev EP_REG_PFCR0 EP_PFCR0_ENABLE)
        (load_rules bus dev vlan 0 (concat (map word_bytes ws)) (ep_write bus dev EP_REG_PFCR0 0 s)) = Some s'
    \<and> enabled s' \<and> (\<forall>regs f. classify exec (mem s') regs f = fold (\<lambda>w. exec w (frame_word f)) (butlast (loaded (ep_mac_addr dev) vlan ws)) regs)"
proof -
  have "drop_bit 40 w = 0" if "drop_bit 36 w = 0" for w :: "64 word"
  proof -
    have "drop_bit 40 w = drop_bit 4 (drop_bit 36 w)" by simp
    then show ?thesis by (simp only: that drop_bit_of_0)
  qed
  then have a: "list_all (\<lambda>w. drop_bit 40 w = 0) ws" "0 + length ws \<le> 64" using ws(1) by (auto simp: rule_set_def list_all_iff)
  obtain s1 where s1: "load_rules bus dev vlan 0 (concat (map word_bytes ws)) (ep_write bus dev EP_REG_PFCR0 0 s) = Some s1"
    "\<And>a. a < length ws \<Longrightarrow> mem s1 a = take_bit 36 (cmd_word (ep_mac_addr dev) vlan a (ws ! a))"
    using load_rules_mem [OF hw a, of vlan "ep_write bus dev EP_REG_PFCR0 0 s"] by auto
  define s2 where "s2 = ep_write bus dev EP_REG_PFCR0 EP_PFCR0_ENABLE s1"
  have e: "enabled s2" "mem s2 = mem s1"
    using hw unfolding s2_def ep_write_def filter_port_def Let_def
    by (simp_all add: EP_PFCR0_ENABLE_def EP_PFCR0_MM_WRITE_MASK_def)
  let ?p = "loaded (ep_mac_addr dev) vlan ws"
  have n: "length ?p = length ws" by (simp add: loaded_def)
  have m: "mem s2 a = ?p ! a" if "a < length ws" for a using that s1(2) by (simp add: e loaded_def)
  have "classify exec (mem s2) regs f = fold (\<lambda>w. exec w (frame_word f)) (butlast ?p) regs" for regs f
    unfolding classify_def
  proof (rule pf_run_list)
    show "\<forall>a<length (butlast ?p). mem s2 (0 + a) = butlast ?p ! a" using m n by (simp add: nth_butlast)
    show "mem s2 (0 + length (butlast ?p)) = PF_FIN"
      using m [of "length ws - 1"] n ws last_conv_nth [of ?p] by (simp add: program_def rule_set_def)
    show "length (butlast ?p) < 64" using n ws(1) by (auto simp: rule_set_def)
    show "PF_FIN \<notin> set (butlast ?p)" using ws(2) by (simp add: program_def)
  qed
  then show ?thesis using s1(1) e(1) by (intro exI [of _ s2]) (simp add: s2_def)
qed

lemma cmp_fits: "cmp_args offset val rd \<Longrightarrow> drop_bit 36 (cmp_ir offset val msk oper rd) = 0"
  by (rule bit_word_eqI) (auto simp: bit_simps bit_cmp)

lemma cmp_not_fin: "cmp_args offset val rd \<Longrightarrow> PF_FIN \<noteq> cmp_ir offset val msk oper rd"
proof
  assume a: "cmp_args offset val rd" and e: "PF_FIN = cmp_ir offset val msk oper rd"
  have "drop_bit 33 PF_FIN = 0" by (rule trans [OF arg_cong [OF e, of "drop_bit 33"] cmp_fields(3) [OF a]])
  then show False by (simp add: PF_FIN_def)
qed

lemma logic_not_fin:
  "PF_FIN \<notin> {PF_MODE_LOGIC, logic3_ir 2 3 PF_AND 12 PF_OR 2, logic2_ir 23 12 PF_MOV 0, logic3_ir 14 1 PF_OR 2 PF_AND 5,
     logic2_ir 9 9 PF_AND 14, logic2_ir 15 7 PF_OR 6, logic3_ir 15 14 PF_AND 8 PF_OR 15, logic3_ir 24 9 PF_AND 10 PF_OR 15,
     logic2_ir 31 9 PF_AND 11, logic2_ir 30 9 PF_NAND 11, logic2_ir 23 12 PF_NOT 0, logic3_ir 15 2 PF_OR 1 PF_OR 6, logic2_ir 24 15 PF_AND 4,
     logic2_ir 12 2 PF_OR 1, logic2_ir 31 12 PF_AND 4, logic2_ir 30 12 PF_AND 4}"
  by code_simp

lemma novlan_shape:
  assumes "0 \<le> lat" "lat < 65536"
  shows "rule_set (novlan_words lat)" "program (novlan_program mac lat)"
  using assms logic_not_fin mac_word_range [of mac] novlan_plain [unfolded plain_def]
  by (simp_all add: rule_set_def program_def novlan_words_def novlan_program_def cmp_fits cmp_not_fin cmp_args_def)

lemma vlan_shape:
  assumes "0 \<le> lat" "lat < 65536" "class_vlan v1" "class_vlan v2" "class_vlan v6"
  shows "rule_set (vlan_words lat v1 v2 v6)" "program (vlan_program mac vlan lat v1 v2 v6)"
  using assms logic_not_fin mac_word_range [of mac] novlan_plain [unfolded plain_def] vlan_plain [unfolded plain_def] uint_bounded [of vlan]
  by (simp_all add: rule_set_def program_def novlan_words_def novlan_program_def vlan_words_def vlan_program_def cmp_fits cmp_not_fin
      cmp_args_def class_vlan_def)

text \<open>Frames as bytes.\<close>

lemma frame_word_mac: "frame_word f k = word_of_int (mac_word m k) \<longleftrightarrow> f ! (2 * k) = m ! (2 * k) \<and> f ! (2 * k + 1) = m ! (2 * k + 1)"
proof -
  have e: "(word_of_int (mac_word m k) :: u16) = frame_word m k"
    unfolding frame_word_def by (rule bit_word_eqI) (auto simp: bit_simps bit_mac_word dest: bit_imp_le_length)
  have "ucast (frame_word g k) = g ! (2 * k + 1)" "ucast (drop_bit 8 (frame_word g k)) = g ! (2 * k)" for g
    unfolding frame_word_def by (rule bit_word_eqI, auto simp: bit_simps dest: bit_imp_le_length)+
  then show ?thesis unfolding e by (metis frame_word_def)
qed

lemma all_below_6: "(\<forall>k<6. P k) \<longleftrightarrow> P 0 \<and> P 1 \<and> P 2 \<and> P 3 \<and> P 4 \<and> P (5 :: nat)"
  by (simp add: eval_nat_numeral All_less_Suc conj_ac)

lemma take_6_eq:
  assumes "6 \<le> length f" "length m = 6"
  shows "take 6 f = m \<longleftrightarrow> (\<forall>k<3. f ! (2 * k) = m ! (2 * k) \<and> f ! (2 * k + 1) = m ! (2 * k + 1))"
proof -
  have "take 6 f = m \<longleftrightarrow> (\<forall>i<6. f ! i = m ! i)" using assms by (simp add: list_eq_iff_nth_eq min_def)
  then show ?thesis unfolding all_below_6 all_below_3 by simp
qed

lemma frame_word_bytes:
  "frame_word f k AND 0xff = ucast (f ! (2 * k + 1))" "frame_word f k AND 0xff00 = push_bit 8 (ucast (f ! (2 * k)))"
proof -
  have m: "(0xff :: u16) = mask 8" "(0xff00 :: u16) = push_bit 8 (mask 8)" by (simp_all add: mask_eq_exp_minus_1)
  show "frame_word f k AND 0xff = ucast (f ! (2 * k + 1))" "frame_word f k AND 0xff00 = push_bit 8 (ucast (f ! (2 * k)))"
    unfolding m frame_word_def by (rule bit_word_eqI, auto simp: bit_simps dest: bit_imp_le_length)+
qed

text \<open>
  The frames the rules select, by the bytes of the frame: an address of the node (its own, broadcast, and the two multicast addresses of PTP),
  the Ethernet type, the IP protocol, the UDP port.
\<close>

definition addressed :: "u8 list \<Rightarrow> u8 list \<Rightarrow> bool" where
  "addressed mac f \<longleftrightarrow> take 6 f \<in> {mac, replicate 6 0xff, [1, 0, 0x5e, 0, 1, 0x81], [1, 0, 0x5e, 0, 0, 0x6b]}"

definition ip_for_us :: "u8 list \<Rightarrow> u8 list \<Rightarrow> u8 \<Rightarrow> bool" where
  "ip_for_us mac f proto \<longleftrightarrow> addressed mac f \<and> frame_word f 6 = 0x0800 \<and> f ! 23 = proto"

lemma to_us_addressed:
  assumes "length mac = 6" "6 \<le> length f"
  shows "to_us mac (frame_word f) \<longleftrightarrow> addressed mac f"
proof -
  have e: "(\<forall>k<3. frame_word f k = word_of_int (mac_word m k)) \<longleftrightarrow> take 6 f = m" if "length m = 6" for m
    unfolding frame_word_mac take_6_eq [OF assms(2) that] ..
  have m: "mac_word (replicate 6 0xff) 0 = 0xffff" "mac_word (replicate 6 0xff) 1 = 0xffff" "mac_word (replicate 6 0xff) 2 = 0xffff"
    "mac_word [1, 0, 0x5e, 0, 1, 0x81] 0 = 0x100" "mac_word [1, 0, 0x5e, 0, 1, 0x81] 1 = 0x5e00" "mac_word [1, 0, 0x5e, 0, 1, 0x81] 2 = 0x181"
    "mac_word [1, 0, 0x5e, 0, 0, 0x6b] 0 = 0x100" "mac_word [1, 0, 0x5e, 0, 0, 0x6b] 1 = 0x5e00" "mac_word [1, 0, 0x5e, 0, 0, 0x6b] 2 = 0x6b"
    by code_simp+
  show ?thesis
    using e [OF assms(1)] e [of "replicate 6 0xff"] e [of "[1, 0, 0x5e, 0, 1, 0x81]"] e [of "[1, 0, 0x5e, 0, 0, 0x6b]"]
    unfolding to_us_def addressed_def all_below_3 m by auto
qed

lemma take_16_byte: "take_bit 16 (uint (b :: u8)) = uint b"
  using uint_bounded [of b] by (intro take_bit_int_eq_self) simp_all

lemma host_port: "(x AND 0xff00 = 0 \<or> x AND 0xff00 = 0x100) \<longleftrightarrow> x < (0x200 :: u16)"
proof -
  have "x AND 0xff00 = push_bit 8 (drop_bit 8 x)"
  proof -
    have m: "(0xff00 :: u16) = push_bit 8 (mask 8)" by (simp add: mask_eq_exp_minus_1)
    show ?thesis unfolding m by (rule bit_word_eqI) (auto simp: bit_simps)
  qed
  moreover have "uint (push_bit 8 (drop_bit 8 x)) = uint x div 256 * 256"
  proof -
    have "uint x < 65536" using uint_bounded [of x] by simp
    then have "uint x div 256 * 256 < 65536" "0 \<le> uint x div 256 * 256" using uint_nonnegative [of x] by presburger+
    then show ?thesis
      by (simp only: unsigned_push_bit_eq unsigned_drop_bit_eq) (simp add: push_bit_eq_mult drop_bit_eq_div take_bit_eq_mod)
  qed
  ultimately have u: "uint (x AND 0xff00) = uint x div 256 * 256" by simp
  have "(x AND 0xff00 = 0 \<or> x AND 0xff00 = 0x100) \<longleftrightarrow> uint (x AND 0xff00) = 0 \<or> uint (x AND 0xff00) = 0x100"
    by (simp add: word_uint_eq_iff)
  also have "\<dots> \<longleftrightarrow> uint x < 0x200" unfolding u using uint_nonnegative [of x] by presburger
  finally show ?thesis by (simp add: word_less_def)
qed

subsection \<open>A filter that decodes the instruction words\<close>

definition word_field :: "64 word \<Rightarrow> nat \<Rightarrow> nat \<Rightarrow> int" where
  "word_field w k n = uint (take_bit n (drop_bit k w))"

definition op_of :: "int \<Rightarrow> pfilter_op" where
  "op_of n = (if n = 0 then PF_AND else if n = 4 then PF_NAND else if n = 1 then PF_OR else if n = 5 then PF_NOR
     else if n = 2 then PF_XOR else if n = 6 then PF_XNOR else if n = 3 then PF_MOV else PF_NOT)"

definition example_exec :: "64 word \<Rightarrow> (nat \<Rightarrow> u16) \<Rightarrow> (nat \<Rightarrow> bool) \<Rightarrow> nat \<Rightarrow> bool" where
  "example_exec w pkt regs =
     (let rd = nat (word_field w 3 4) + (if bit w 34 \<and> bit w 7 then 16 else 0) in
      if rd = 0 then regs
      else if bit w 34
      then regs(rd := pf_oper (op_of (word_field w 23 3))
         (pf_oper (op_of (word_field w 0 3)) (regs (nat (word_field w 8 5))) (regs (nat (word_field w 13 5)))) (regs (nat (word_field w 18 5))))
      else regs(rd := pf_oper (op_of (word_field w 0 3))
         (pkt (nat (word_field w 7 6)) AND word_of_int ((if bit w 29 then 0xf else 0) + (if bit w 30 then 0xf0 else 0)
            + (if bit w 31 then 0xf00 else 0) + (if bit w 32 then 0xf000 else 0)) = word_of_int (word_field w 13 16)) (regs rd)))"

lemma op_of_op_code [simp]: "op_of (op_code oper) = oper"
  by (cases oper) (simp_all add: op_of_def)

lemma op_code_range: "0 \<le> op_code oper" "op_code oper < 8"
  by (cases oper, simp_all)+

lemma word_fieldI:
  assumes "0 \<le> v" "v < 2 ^ n" "n \<le> 32" "\<And>m. m < n \<Longrightarrow> k + m < 64 \<and> (bit w (k + m) \<longleftrightarrow> bit v m)"
  shows "word_field w k n = v"
proof -
  have "take_bit n v = v" using assms(1,2) by (simp add: take_bit_int_eq_self)
  moreover have "uint (take_bit n (drop_bit k w)) = take_bit n v"
    using assms(3,4) by (intro bit_eqI) (auto simp: bit_simps bit_uint_iff)
  ultimately show ?thesis by (simp add: word_field_def)
qed

lemma bit_mode_logic: "bit PF_MODE_LOGIC n \<longleftrightarrow> n = 34"
  unfolding PF_MODE_LOGIC_def by (simp only: push_bit_of_1 bit_exp_iff possible_bit_word) auto

lemma bit_logic2:
  assumes "{ra, rb} \<subseteq> {0..31}" "1 \<le> rd" "rd \<le> 31"
  shows "bit (logic2_ir rd ra oper rb) n \<longleftrightarrow>
    (if n < 3 then bit (op_code oper) n else if n < 7 then bit rd (n - 3) else if n < 8 then bit rd 4 else if n < 13 then bit ra (n - 8)
     else if n < 18 then bit rb (n - 13) else n = 23 \<or> n = 24 \<or> n = 34)"
proof -
  have a: "\<not> bit ra m" "\<not> bit rb m" "\<not> bit rd m" if "m \<ge> 5" for m using assms that bit_beyond [of _ 5 m] by auto
  have "(word_of_int rd :: 64 word) AND 0x10 \<noteq> 0 \<longleftrightarrow> bit rd 4"
  proof -
    have m: "(0x10 :: 64 word) = 2 ^ 4" by simp
    have "(word_of_int rd :: 64 word) AND 0x10 \<noteq> 0 \<longleftrightarrow> bit (word_of_int rd :: 64 word) 4"
      unfolding m by (simp only: and_exp_eq_0_iff_not_bit not_not)
    then show ?thesis by simp
  qed
  moreover have "bit (push_bit 23 3 :: 64 word) n \<longleftrightarrow> n = 23 \<or> n = 24"
  proof -
    have m: "(3 :: 64 word) = mask 2" by (simp add: mask_eq_exp_minus_1)
    show ?thesis unfolding m by (auto simp: bit_simps)
  qed
  moreover consider "n < 3" | "3 \<le> n" "n < 7" | "n = 7" | "8 \<le> n" "n < 13" | "13 \<le> n" "n < 18" | "18 \<le> n" by linarith
  then have "bit (push_bit 8 (word_of_int ra) OR push_bit 13 (word_of_int rb) OR push_bit 3 (word_of_int rd AND 0xf)
        OR flag_bit (bit rd 4) 7 OR word_of_int (op_code oper) :: 64 word) n \<longleftrightarrow>
    (if n < 3 then bit (op_code oper) n else if n < 7 then bit rd (n - 3) else if n < 8 then bit rd 4 else if n < 13 then bit ra (n - 8)
     else if n < 18 then bit rb (n - 13) else False)"
    unfolding and_masks by cases (auto simp: bit_simps bit_flag_bit bit_op_code a)
  ultimately show ?thesis unfolding logic2_ir_def by (auto simp: bit_or_iff bit_mode_logic)
qed

lemma bit_logic3:
  assumes "{ra, rb, rc} \<subseteq> {0..31}" "1 \<le> rd" "rd \<le> 31"
  shows "bit (logic3_ir rd ra oper rb oper2 rc) n \<longleftrightarrow>
    (if n < 3 then bit (op_code oper) n else if n < 7 then bit rd (n - 3) else if n < 8 then bit rd 4 else if n < 13 then bit ra (n - 8)
     else if n < 18 then bit rb (n - 13) else if n < 23 then bit rc (n - 18) else if n < 26 then bit (op_code oper2) (n - 23) else n = 34)"
proof -
  have a: "\<not> bit ra m" "\<not> bit rb m" "\<not> bit rd m" "\<not> bit rc m" if "m \<ge> 5" for m using assms that bit_beyond [of _ 5 m] by auto
  have t: "rd AND 0xf = take_bit 4 rd" by (simp add: take_bit_eq_mask mask_eq_exp_minus_1)
  have f: "rd AND 0x10 \<noteq> 0 \<longleftrightarrow> bit rd 4"
    using and_exp_eq_0_iff_not_bit [of rd 4] by simp
  have r: "0 \<le> take_bit 4 rd" "take_bit 4 rd < 16" using take_bit_int_less_exp [of 4 rd] by simp_all
  have "shl32 x 3 = push_bit 3 x" if "0 \<le> x" "x < 16" for x
    using that by (simp add: shl32_def push_bit_eq_mult fits32_def)
  note sh3 = this [OF r]
  have sh: "shl32 ra 8 = push_bit 8 ra" "shl32 rb 13 = push_bit 13 rb" "shl32 rc 18 = push_bit 18 rc"
    "shl32 (op_code oper2) 23 = push_bit 23 (op_code oper2)"
    using assms op_code_range [of oper2] by (simp_all add: shl32_def push_bit_eq_mult fits32_def)
  have one: "(if rd AND 0x10 \<noteq> 0 then shl32 1 7 else 0) = push_bit 7 (of_bool (bit rd 4))" by (simp add: f shl32_def fits32_def)
  consider "n < 3" | "3 \<le> n" "n < 7" | "n = 7" | "8 \<le> n" "n < 13" | "13 \<le> n" "n < 18" | "18 \<le> n" "n < 23" | "23 \<le> n" "n < 26" | "26 \<le> n" by linarith
  then show ?thesis unfolding logic3_ir_def one t sh sh3
    by cases (auto simp: bit_simps bit_mode_logic bit_op_code a)
qed

lemma reg_split:
  assumes "1 \<le> rd" "rd \<le> (31 :: int)"
  shows "nat (take_bit 4 rd) + (if bit rd 4 then 16 else 0) = nat rd"
proof -
  have "bit rd 4 \<longleftrightarrow> odd (rd div 16)" by (simp add: bit_iff_odd)
  moreover have "rd = rd div 16 * 16 + rd mod 16" "0 \<le> rd mod 16" "rd div 16 = 0 \<or> rd div 16 = 1" using assms by auto
  moreover have "rd mod 16 = rd - rd div 16 * 16" by (simp add: minus_div_mult_eq_mod)
  ultimately show ?thesis using assms by (auto simp: take_bit_eq_mod)
qed

lemma example_cmp:
  assumes "cmp_args offset val rd" "1 \<le> rd" "nibbles msk"
  shows "example_exec (cmp_ir offset val msk oper rd) pkt regs =
      regs(nat rd := pf_oper oper (pkt (nat offset) AND word_of_int msk = word_of_int val) (regs (nat rd)))"
proof -
  let ?w = "cmp_ir offset val msk oper rd"
  note b = bit_cmp [OF assms(1)]
  have r: "0 \<le> offset" "offset < 64" "0 \<le> val" "val < 65536" "0 \<le> rd" "rd < 16" using assms(1) by (simp_all add: cmp_args_def)
  have f: "word_field ?w 3 4 = rd" "word_field ?w 0 3 = op_code oper" "word_field ?w 7 6 = offset" "word_field ?w 13 16 = val"
    using r op_code_range [of oper] by (intro word_fieldI; simp add: b)+
  obtain p q s t where m: "{p, q, s, t} \<subseteq> {0, 15}" "msk = p + 16 * q + 256 * s + 4096 * t" using assms(3) by (auto simp: nibbles_def)
  have "(if bit ?w 29 then 0xf else 0) + (if bit ?w 30 then 0xf0 else 0) + (if bit ?w 31 then 0xf00 else 0)
      + (if bit ?w 32 then 0xf000 else 0) = msk"
    using m(1) unfolding m(2) by (auto simp: b)
  moreover have "\<not> bit ?w 34" "nat rd \<noteq> 0" using assms(2) by (simp_all add: b)
  ultimately show ?thesis unfolding example_exec_def f Let_def by (simp add: fun_upd_def)
qed

lemma example_logic2:
  assumes "{ra, rb} \<subseteq> {0..31}" "1 \<le> rd" "rd \<le> 31"
  shows "example_exec (logic2_ir rd ra oper rb) pkt regs = regs(nat rd := pf_oper oper (regs (nat ra)) (regs (nat rb)))"
proof -
  let ?w = "logic2_ir rd ra oper rb"
  note b = bit_logic2 [OF assms]
  have t: "bit (3 :: int) m \<longleftrightarrow> m = 0 \<or> m = 1" for m
  proof -
    have "(3 :: int) = mask 2" by (simp add: mask_eq_exp_minus_1)
    then show ?thesis by (simp only: bit_mask_iff) auto
  qed
  have r: "0 \<le> ra" "ra < 32" "0 \<le> rb" "rb < 32" "take_bit 4 rd < 16" using assms take_bit_int_less_exp [of 4 rd] by simp_all
  have f: "word_field ?w 3 4 = take_bit 4 rd" "word_field ?w 0 3 = op_code oper" "word_field ?w 8 5 = ra" "word_field ?w 13 5 = rb"
      "word_field ?w 23 3 = 3"
    using r op_code_range [of oper] by (intro word_fieldI; (simp add: b t bit_simps; linarith)?)+
  have "bit ?w 34" "bit ?w 7 \<longleftrightarrow> bit rd 4" by (simp_all add: b)
  then show ?thesis using reg_split [OF assms(2,3)] assms(2) unfolding example_exec_def f Let_def by (simp add: op_of_op_code [of PF_MOV, simplified])
qed

lemma example_logic3:
  assumes "{ra, rb, rc} \<subseteq> {0..31}" "1 \<le> rd" "rd \<le> 31"
  shows "example_exec (logic3_ir rd ra oper rb oper2 rc) pkt regs =
      regs(nat rd := pf_oper oper2 (pf_oper oper (regs (nat ra)) (regs (nat rb))) (regs (nat rc)))"
proof -
  let ?w = "logic3_ir rd ra oper rb oper2 rc"
  note b = bit_logic3 [OF assms]
  have r: "0 \<le> ra" "ra < 32" "0 \<le> rb" "rb < 32" "0 \<le> rc" "rc < 32" "take_bit 4 rd < 16"
    using assms take_bit_int_less_exp [of 4 rd] by simp_all
  have f0: "word_field ?w 3 4 = take_bit 4 rd" using r op_code_range [of oper] op_code_range [of oper2] by (intro word_fieldI) (simp_all add: b bit_simps)
  have f1: "word_field ?w 0 3 = op_code oper" using r op_code_range [of oper] op_code_range [of oper2] by (intro word_fieldI) (simp_all add: b bit_simps)
  have f2: "word_field ?w 8 5 = ra" using r op_code_range [of oper] op_code_range [of oper2] by (intro word_fieldI) (simp_all add: b bit_simps)
  have f3: "word_field ?w 13 5 = rb" using r op_code_range [of oper] op_code_range [of oper2] by (intro word_fieldI) (simp_all add: b bit_simps)
  have f4: "word_field ?w 18 5 = rc" using r op_code_range [of oper] op_code_range [of oper2] by (intro word_fieldI) (simp_all add: b bit_simps)
  have f5: "word_field ?w 23 3 = op_code oper2" using r op_code_range [of oper] op_code_range [of oper2] by (intro word_fieldI) (simp_all add: b bit_simps)
  note f = f0 f1 f2 f3 f4 f5
  have "bit ?w 34" "bit ?w 7 \<longleftrightarrow> bit rd 4" by (simp_all add: b)
  then show ?thesis using reg_split [OF assms(2,3)] assms(2) unfolding example_exec_def f Let_def by simp
qed

lemma example_filter_hw: "filter_hw example_exec"
proof -
  have "word_field PF_MODE_LOGIC 3 4 = 0" by (rule word_fieldI) (simp_all add: bit_mode_logic)
  then have "example_exec PF_MODE_LOGIC pkt regs = regs" for pkt regs unfolding example_exec_def Let_def by (simp add: bit_mode_logic)
  then show ?thesis unfolding filter_hw_def by (intro conjI allI impI) (simp_all add: example_cmp example_logic2 example_logic3)
qed

section \<open>Properties\<close>

text \<open>A load port and a node for the instances below.\<close>

definition example_port :: "(u32 \<times> (nat \<Rightarrow> 64 word) \<times> bool) reg_bus" where
  "example_port = \<lparr>bus_read = \<lambda>a w. (0, w),
     bus_write = \<lambda>a d (latch, mem, en).
       if a = EP_REG_PFCR1 then (d AND 0xfff, mem, en)
       else (latch, if d AND EP_PFCR0_MM_WRITE_MASK = 0 then mem
               else mem(unat (d AND 0x3f) := push_bit 12 (ucast (drop_bit 8 d)) OR ucast latch), d AND EP_PFCR0_ENABLE \<noteq> 0),
     bus_delay = \<lambda>n w. w\<rparr>"

definition example_dev :: wr_endpoint_device where
  "example_dev = \<lparr>ep_mac_addr = [2, 3, 4, 5, 6, 7], ep_flags = 0, ep_base = 0\<rparr>"

lemma example_filter_port: "filter_port example_port (ep_base example_dev) fst (fst \<circ> snd) (snd \<circ> snd)"
  by (simp add: filter_port_def example_port_def example_dev_def EP_REG_PFCR0_def EP_REG_PFCR1_def split_beta)




text \<open>
  With a VLAN number, the filter drops untagged frames; the processor gets the frames of its VLAN that are for this node or carry PTP or the
  latency protocol, and the fabric classes 7 and 6 get the frames for this node of the VLANs configured for them, unless one
  of those has the number 0xaaa the builder uses as a place holder.
\<close>

theorem filter_tagged:
  assumes "filter_port bus (ep_base dev) latch mem enabled" "filter_hw exec" "length (ep_mac_addr dev) = 6" "0 \<le> lat" "lat < 65536" "18 \<le> length f"
    "vlan \<noteq> 0" "uint vlan < 4096" "class_vlan v1" "class_vlan v2" "class_vlan v6"
  shows "\<exists>rules s'. pfilter_init_vlan lat v1 v2 v6 = Some rules \<and> ep_pfilter_init_default bus rules_novlan rules vlan dev s = Some s' \<and> enabled s'
    \<and> (let r = classify exec (mem s') regs f; us = addressed (ep_mac_addr dev) f; tag = frame_word f 7 AND 0xfff
       in r 23 = (frame_word f 6 \<noteq> 0x8100)
        \<and> r 24 = (tag = vlan \<and> (us \<or> frame_word f 8 \<in> {0x88f7, word_of_int lat}))
        \<and> r 31 = (us \<and> tag \<in> {word_of_int v1, word_of_int v2}) \<and> r 30 = (us \<and> tag = word_of_int v6))"
proof -
  let ?mac = "ep_mac_addr dev"
  note l = assms(4,5,9-11)
  obtain s' where s': "ep_pfilter_init_default bus rules_novlan (concat (map word_bytes (vlan_words lat v1 v2 v6))) vlan dev s = Some s'" "enabled s'"
    "\<And>regs f. classify exec (mem s') regs f = fold (\<lambda>w. exec w (frame_word f)) (butlast (vlan_program ?mac vlan lat v1 v2 v6)) regs"
    using program_runs [OF assms(1) vlan_shape(1) [OF l], of vlan s exec] vlan_shape(2) [OF l, of ?mac vlan] assms(7)
    by (auto simp: ep_pfilter_init_default_def vlan_loaded [OF l])
  note r = vlan_run [OF assms(2,4,5,8-11), of "frame_word f" ?mac regs, folded s'(3)]
  have t: "to_us ?mac (frame_word f) = addressed ?mac f" using assms(3,6) by (intro to_us_addressed) simp_all
  show ?thesis
    unfolding vlan_assembled
    using s'(1,2) r by (intro exI [of _ "concat (map word_bytes (vlan_words lat v1 v2 v6))"] exI [of _ s']) (auto simp: Let_def t)
qed

theorem filter_tagged_witness:
  "\<exists>rules s'. pfilter_init_vlan 291 20 30 100 = Some rules \<and> ep_pfilter_init_default example_port [] rules 5 example_dev (0, \<lambda>_. 0, False) = Some s'
    \<and> classify example_exec (fst (snd s')) (\<lambda>_. False) ([2, 3, 4, 5, 6, 7] @ replicate 6 0 @ [0x81, 0, 0x20, 20, 8, 0]) 31"
proof -
  let ?f = "[2, 3, 4, 5, 6, 7] @ replicate 6 0 @ [0x81, 0, 0x20, 20, 8, 0] :: u8 list"
  have "frame_word ?f 7 AND 0xfff = 20" "addressed [2, 3, 4, 5, 6, 7] ?f" by code_simp+
  then show ?thesis
    using filter_tagged [OF example_filter_port example_filter_hw, of 291 ?f 5 20 30 100 "[]" "(0, \<lambda>_. 0, False)" "\<lambda>_. False"]
    by (auto simp: example_dev_def Let_def class_vlan_def)
qed

end
