(* ===== verification/Endpoint.thy ===== *)
theory Endpoint
  imports Pfilter
begin

text \<open>
  \<^verbatim>\<open>dev/endpoint.c\<close>: the driver of the Ethernet endpoint. Its registers, and the registers of the physical layer behind them (MDIO), are
  reached through the bus of \<open>Pfilter\<close>; a wait for the MDIO that never ends is \<open>None\<close>. The debug prints are not modelled.

  Results: on a working MDIO every access ends, reads return and writes set the addressed register and no other; the link counts as up
  exactly if the status bits say so, and switching the transmitter touches its bit only.
\<close>

unbundle bit_operations_syntax

section \<open>Definitions\<close>

definition EP_DEV_MAC_ADDR_SET :: u8 where "EP_DEV_MAC_ADDR_SET = 1"
definition EP_DEV_AUTONEG_ENABLED :: u8 where "EP_DEV_AUTONEG_ENABLED = 2"
definition PICOS_PER_SERIAL_BIT :: int where "PICOS_PER_SERIAL_BIT = 800"
definition EP_REG_ECR :: u32 where "EP_REG_ECR = 0"
definition EP_REG_TSCR :: u32 where "EP_REG_TSCR = 4"
definition EP_REG_RFCR :: u32 where "EP_REG_RFCR = 8"
definition EP_REG_VCR0 :: u32 where "EP_REG_VCR0 = 0xc"
definition EP_REG_MACH :: u32 where "EP_REG_MACH = 0x24"
definition EP_REG_MACL :: u32 where "EP_REG_MACL = 0x28"
definition EP_REG_MDIO_CR :: u32 where "EP_REG_MDIO_CR = 0x2c"
definition EP_REG_MDIO_ASR :: u32 where "EP_REG_MDIO_ASR = 0x30"
definition EP_MDIO_ASR_READY :: u32 where "EP_MDIO_ASR_READY = 0x80000000"
definition EP_MDIO_CR_RW :: u32 where "EP_MDIO_CR_RW = 0x80000000"
definition EP_TSCR_EN_TXTS :: u32 where "EP_TSCR_EN_TXTS = 1"
definition EP_TSCR_EN_RXTS :: u32 where "EP_TSCR_EN_RXTS = 2"
definition EP_TSCR_RX_CAL_START :: u32 where "EP_TSCR_RX_CAL_START = 0x10"
definition EP_TSCR_RX_CAL_RESULT :: u32 where "EP_TSCR_RX_CAL_RESULT = 0x20"
definition EP_ECR_RST_CNT :: u32 where "EP_ECR_RST_CNT = 0x20"
definition EP_ECR_TX_EN :: u32 where "EP_ECR_TX_EN = 0x40"
definition EP_ECR_RX_EN :: u32 where "EP_ECR_RX_EN = 0x80"
definition EP_MDIO_MCR :: int where "EP_MDIO_MCR = 0"
definition EP_MDIO_MSR :: int where "EP_MDIO_MSR = 4"
definition EP_MDIO_ADVERTISE :: int where "EP_MDIO_ADVERTISE = 0x10"
definition EP_MDIO_LPA :: int where "EP_MDIO_LPA = 0x14"
definition EP_MDIO_WR_SPEC :: int where "EP_MDIO_WR_SPEC = 0x40"
definition EP_MDIO_ECTRL :: int where "EP_MDIO_ECTRL = 0x44"
definition EP_MDIO_MSR_LSTATUS :: u16 where "EP_MDIO_MSR_LSTATUS = 4"
definition EP_MDIO_MSR_ANEGCOMPLETE :: u16 where "EP_MDIO_MSR_ANEGCOMPLETE = 0x20"
definition EP_MDIO_ECTRL_SFP_TX_DISABLE :: u32 where "EP_MDIO_ECTRL_SFP_TX_DISABLE = 0x20"

subsection \<open>The registers of the physical layer\<close>

text \<open>\<open>while ((ep_read(dev, EP_REG_MDIO_ASR) & EP_MDIO_ASR_READY) == 0) ;\<close>\<close>

partial_function (option) mdio_wait :: "'w reg_bus \<Rightarrow> wr_endpoint_device \<Rightarrow> 'w \<Rightarrow> 'w option" where
  "mdio_wait bus dev w =
     (let (r, w) = ep_read bus dev EP_REG_MDIO_ASR w in
      if r AND EP_MDIO_ASR_READY = 0 then mdio_wait bus dev w else Some w)"

definition mdio_phyad :: "int \<Rightarrow> u32" where
  "mdio_phyad location = push_bit 16 (word_of_int (sar32 location 10) AND 0xff)"

definition mdio_addr :: "int \<Rightarrow> u32" where
  "mdio_addr location = push_bit 16 (word_of_int (sar32 location 2) AND 0xff)"

definition ep_pcs_read :: "'w reg_bus \<Rightarrow> wr_endpoint_device \<Rightarrow> int \<Rightarrow> 'w \<Rightarrow> (u16 \<times> 'w) option" where
  "ep_pcs_read bus dev location w = do {
     let w = ep_write bus dev EP_REG_MDIO_ASR (mdio_phyad location) w;
     let w = ep_write bus dev EP_REG_MDIO_CR (mdio_addr location) w;
     w \<leftarrow> mdio_wait bus dev w;
     let (r, w) = ep_read bus dev EP_REG_MDIO_ASR w;
     Some (ucast (r AND 0xffff), w)
   }"

definition ep_pcs_write :: "'w reg_bus \<Rightarrow> wr_endpoint_device \<Rightarrow> int \<Rightarrow> u32 \<Rightarrow> 'w \<Rightarrow> 'w option" where
  "ep_pcs_write bus dev location val w = do {
     let w = ep_write bus dev EP_REG_MDIO_ASR (mdio_phyad location) w;
     let w = ep_write bus dev EP_REG_MDIO_CR (mdio_addr location OR (val AND 0xffff) OR EP_MDIO_CR_RW) w;
     mdio_wait bus dev w
   }"

subsection \<open>The endpoint\<close>

text \<open>The result holds the device, the copy of the address kept for \<^verbatim>\<open>wrpc-dump\<close>, and the world.\<close>

definition ep_set_mac_addr :: "'w reg_bus \<Rightarrow> u8 list \<Rightarrow> wr_endpoint_device \<Rightarrow> 'w \<Rightarrow> wr_endpoint_device \<times> u8 list \<times> 'w" where
  "ep_set_mac_addr bus addr dev w =
     (let mac = take 6 addr; dev = dev\<lparr>ep_mac_addr := mac\<rparr>;
          w = ep_write bus dev EP_REG_MACL (push_bit 24 (ucast (mac ! 2)) OR push_bit 16 (ucast (mac ! 3))
                OR push_bit 8 (ucast (mac ! 4)) OR ucast (mac ! 5)) w;
          w = ep_write bus dev EP_REG_MACH (push_bit 8 (ucast (mac ! 0)) OR ucast (mac ! 1)) w
      in (dev\<lparr>ep_flags := ep_flags dev OR EP_DEV_MAC_ADDR_SET\<rparr>, mac, w))"

definition ep_is_mac_addr_set :: "wr_endpoint_device \<Rightarrow> int" where
  "ep_is_mac_addr_set dev = (if ep_flags dev AND EP_DEV_MAC_ADDR_SET \<noteq> 0 then 1 else 0)"

definition ep_sfp_enable :: "'w reg_bus \<Rightarrow> bool \<Rightarrow> wr_endpoint_device \<Rightarrow> 'w \<Rightarrow> 'w option" where
  "ep_sfp_enable bus ena dev w = do {
     (val, w) \<leftarrow> ep_pcs_read bus dev EP_MDIO_ECTRL w;
     let val = (if ena then ucast val AND NOT EP_MDIO_ECTRL_SFP_TX_DISABLE else ucast val OR EP_MDIO_ECTRL_SFP_TX_DISABLE);
     ep_pcs_write bus dev EP_MDIO_ECTRL val w
   }"

definition ep_init :: "'w reg_bus \<Rightarrow> u32 \<Rightarrow> wr_endpoint_device \<Rightarrow> 'w \<Rightarrow> (wr_endpoint_device \<times> 'w) option" where
  "ep_init bus base_addr dev w = do {
     let dev = dev\<lparr>ep_base := base_addr, ep_flags := 0\<rparr>;
     w \<leftarrow> ep_sfp_enable bus True dev w;
     let w = ep_write bus dev EP_REG_ECR 0 w;
     let w = ep_write bus dev EP_REG_VCR0 3 w;
     let w = ep_write bus dev EP_REG_RFCR (push_bit 12 1518) w;
     let w = ep_write bus dev EP_REG_TSCR (EP_TSCR_EN_TXTS OR EP_TSCR_EN_RXTS) w;
     Some (dev, w)
   }"

text \<open>\<open>sim\<close>: the build for simulation, which does not wait.\<close>

definition ep_reset_phy :: "'w reg_bus \<Rightarrow> bool \<Rightarrow> wr_endpoint_device \<Rightarrow> 'w \<Rightarrow> 'w option" where
  "ep_reset_phy bus sim dev w = do {
     w \<leftarrow> ep_pcs_write bus dev EP_MDIO_MCR 0x800 w;
     let w = (if sim then w else bus_delay bus 1000 w);
     w \<leftarrow> ep_pcs_write bus dev EP_MDIO_MCR 0x8000 w;
     w \<leftarrow> ep_pcs_write bus dev EP_MDIO_MCR 0 w;
     w \<leftarrow> ep_pcs_write bus dev EP_MDIO_ADVERTISE 0 w;
     let mcr = 0x40 OR 0x100;
     let mcr = (if ep_flags dev AND EP_DEV_AUTONEG_ENABLED \<noteq> 0 then mcr OR 0x1000 OR 0x200 else mcr);
     w \<leftarrow> ep_pcs_write bus dev EP_MDIO_MCR mcr w;
     ep_pcs_write bus dev EP_MDIO_WR_SPEC 0 w
   }"

definition ep_enable ::
  "'w reg_bus \<Rightarrow> bool \<Rightarrow> u8 list \<Rightarrow> u8 list \<Rightarrow> u16 \<Rightarrow> bool \<Rightarrow> bool \<Rightarrow> wr_endpoint_device \<Rightarrow> 'w \<Rightarrow> (wr_endpoint_device \<times> 'w) option" where
  "ep_enable bus sim rules_novlan rules_vlan vlan enabled autoneg dev w =
     (if \<not> enabled then Some (dev, ep_write bus dev EP_REG_ECR 0 w)
      else do {
        let w = ep_write bus dev EP_REG_ECR 0 w;
        w \<leftarrow> ep_pfilter_init_default bus rules_novlan rules_vlan vlan dev w;
        let w = ep_write bus dev EP_REG_ECR (EP_ECR_TX_EN OR EP_ECR_RX_EN OR EP_ECR_RST_CNT) w;
        let dev = dev\<lparr>ep_flags := (if autoneg then ep_flags dev OR EP_DEV_AUTONEG_ENABLED else ep_flags dev AND NOT EP_DEV_AUTONEG_ENABLED)\<rparr>;
        w \<leftarrow> ep_reset_phy bus sim dev w;
        Some (dev, w)
      })"

text \<open>\<open>want_lpa\<close>: the caller passes a place for the ability of the link partner.\<close>

definition ep_link_up :: "'w reg_bus \<Rightarrow> bool \<Rightarrow> wr_endpoint_device \<Rightarrow> 'w \<Rightarrow> (int \<times> u16 option \<times> 'w) option" where
  "ep_link_up bus want_lpa dev w = do {
     let flags = (if ep_flags dev AND EP_DEV_AUTONEG_ENABLED \<noteq> 0 then EP_MDIO_MSR_LSTATUS OR EP_MDIO_MSR_ANEGCOMPLETE else EP_MDIO_MSR_LSTATUS);
     (msr, w) \<leftarrow> ep_pcs_read bus dev EP_MDIO_MSR w;
     (msr, w) \<leftarrow> ep_pcs_read bus dev EP_MDIO_MSR w;
     (lpa, w) \<leftarrow> (if want_lpa then map_option (\<lambda>(v, w). (Some v, w)) (ep_pcs_read bus dev EP_MDIO_LPA w) else Some (None, w));
     Some (if msr AND flags = flags then 1 else 0, lpa, w)
   }"

definition ep_get_bitslide :: "'w reg_bus \<Rightarrow> wr_endpoint_device \<Rightarrow> 'w \<Rightarrow> (int \<times> 'w) option" where
  "ep_get_bitslide bus dev w = do {
     (r, w) \<leftarrow> ep_pcs_read bus dev EP_MDIO_WR_SPEC w;
     Some (PICOS_PER_SERIAL_BIT * uint (drop_bit 4 (r AND 0x1f0)), w)
   }"

definition ep_timestamper_cal_pulse :: "'w reg_bus \<Rightarrow> wr_endpoint_device \<Rightarrow> 'w \<Rightarrow> int \<times> 'w" where
  "ep_timestamper_cal_pulse bus dev w =
     (let (r, w) = ep_read bus dev EP_REG_TSCR w;
          w = ep_write bus dev EP_REG_TSCR (r OR EP_TSCR_RX_CAL_START) w;
          w = bus_delay bus 1 w;
          (r, w) = ep_read bus dev EP_REG_TSCR w
      in (if r AND EP_TSCR_RX_CAL_RESULT \<noteq> 0 then 1 else 0, w))"

section \<open>Facts\<close>

text \<open>
  A working MDIO: after a command it becomes ready at some read of the status register; \<open>pcs\<close> are the registers of the physical layer,
  by address of the device and of the register.
\<close>

fun status_reads :: "'w reg_bus \<Rightarrow> u32 \<Rightarrow> nat \<Rightarrow> 'w \<Rightarrow> 'w" where
  "status_reads bus base 0 w = w"
| "status_reads bus base (Suc n) w = status_reads bus base n (snd (bus_read bus (EP_REG_MDIO_ASR + base) w))"

definition mdio_settles :: "'w reg_bus \<Rightarrow> u32 \<Rightarrow> 'w \<Rightarrow> 'w \<Rightarrow> bool" where
  "mdio_settles bus base w w' \<longleftrightarrow> (\<exists>n. w' = status_reads bus base (Suc n) w
     \<and> (\<forall>i\<le>n. (fst (bus_read bus (EP_REG_MDIO_ASR + base) (status_reads bus base i w)) AND EP_MDIO_ASR_READY = 0) = (i < n)))"

definition mdio_command :: "'w reg_bus \<Rightarrow> u32 \<Rightarrow> u32 \<Rightarrow> u32 \<Rightarrow> 'w \<Rightarrow> 'w" where
  "mdio_command bus base phy cmd w = bus_write bus (EP_REG_MDIO_CR + base) cmd (bus_write bus (EP_REG_MDIO_ASR + base) phy w)"

definition mdio_hw :: "'w reg_bus \<Rightarrow> u32 \<Rightarrow> ('w \<Rightarrow> u32 \<times> u32 \<Rightarrow> u16) \<Rightarrow> bool" where
  "mdio_hw bus base pcs \<longleftrightarrow>
     (\<forall>phy a w. \<exists>w'. mdio_settles bus base (mdio_command bus base phy (push_bit 16 (a AND 0xff)) w) w'
        \<and> (case bus_read bus (EP_REG_MDIO_ASR + base) w' of (r, w'') \<Rightarrow> ucast (r AND 0xffff) = pcs w (phy, a AND 0xff) \<and> pcs w'' = pcs w))
     \<and> (\<forall>phy a d w. \<exists>w'. mdio_settles bus base (mdio_command bus base phy (push_bit 16 (a AND 0xff) OR (d AND 0xffff) OR EP_MDIO_CR_RW) w) w'
        \<and> pcs w' = (pcs w)((phy, a AND 0xff) := ucast d))"

definition pcs_addr :: "int \<Rightarrow> u32 \<times> u32" where
  "pcs_addr location = (mdio_phyad location, word_of_int (sar32 location 2) AND 0xff)"

lemma mdio_wait_ends:
  assumes "mdio_settles bus (ep_base dev) w w'"
  shows "mdio_wait bus dev w = Some w'"
proof -
  have "mdio_wait bus dev w = Some (status_reads bus (ep_base dev) (Suc n) w)"
    if "\<forall>i\<le>n. (fst (bus_read bus (EP_REG_MDIO_ASR + ep_base dev) (status_reads bus (ep_base dev) i w)) AND EP_MDIO_ASR_READY = 0) = (i < n)" for n
    using that
  proof (induction n arbitrary: w)
    case 0
    then show ?case by (subst mdio_wait.simps) (simp add: ep_read_def split_beta Let_def)
  next
    case (Suc n)
    let ?w = "snd (bus_read bus (EP_REG_MDIO_ASR + ep_base dev) w)"
    have "fst (bus_read bus (EP_REG_MDIO_ASR + ep_base dev) w) AND EP_MDIO_ASR_READY = 0" using Suc.prems [rule_format, of 0] by simp
    moreover have "(fst (bus_read bus (EP_REG_MDIO_ASR + ep_base dev) (status_reads bus (ep_base dev) i ?w)) AND EP_MDIO_ASR_READY = 0) = (i < n)"
      if "i \<le> n" for i using Suc.prems [rule_format, of "Suc i"] that by simp
    ultimately show ?case using Suc.IH [of ?w] by (subst mdio_wait.simps) (simp add: ep_read_def split_beta Let_def)
  qed
  then show ?thesis using assms by (auto simp: mdio_settles_def)
qed

lemma pcs_read_works:
  assumes "mdio_hw bus (ep_base dev) pcs"
  shows "\<exists>w'. ep_pcs_read bus dev location w = Some (pcs w (pcs_addr location), w') \<and> pcs w' = pcs w"
proof -
  obtain w1 where w1: "mdio_settles bus (ep_base dev) (mdio_command bus (ep_base dev) (mdio_phyad location) (mdio_addr location) w) w1"
    "case bus_read bus (EP_REG_MDIO_ASR + ep_base dev) w1 of (r, w'') \<Rightarrow> ucast (r AND 0xffff) = pcs w (pcs_addr location) \<and> pcs w'' = pcs w"
    using assms unfolding mdio_hw_def mdio_addr_def pcs_addr_def by meson
  then show ?thesis using mdio_wait_ends [OF w1(1)]
    by (auto simp: ep_pcs_read_def ep_write_def ep_read_def mdio_command_def split_beta)
qed

lemma pcs_write_works:
  assumes "mdio_hw bus (ep_base dev) pcs"
  shows "\<exists>w'. ep_pcs_write bus dev location d w = Some w' \<and> pcs w' = (pcs w)(pcs_addr location := ucast d)"
proof -
  obtain w1 where w1: "mdio_settles bus (ep_base dev)
      (mdio_command bus (ep_base dev) (mdio_phyad location) (mdio_addr location OR (d AND 0xffff) OR EP_MDIO_CR_RW) w) w1"
    "pcs w1 = (pcs w)(pcs_addr location := ucast d)"
    using assms unfolding mdio_hw_def mdio_addr_def pcs_addr_def by meson
  then show ?thesis using mdio_wait_ends [OF w1(1)] by (simp add: ep_pcs_write_def ep_write_def mdio_command_def)
qed

text \<open>The link is up exactly if the status register has the link bit, and the end of the negotiation where one was asked for.\<close>

lemma link_up_iff:
  assumes "mdio_hw bus (ep_base dev) pcs"
  defines "msr w \<equiv> pcs w (pcs_addr EP_MDIO_MSR)"
  shows "\<exists>w'. ep_link_up bus want_lpa dev w = Some (if bit (msr w) 2 \<and> (bit (ep_flags dev) 1 \<longrightarrow> bit (msr w) 5) then 1 else 0,
      if want_lpa then Some (pcs w (pcs_addr EP_MDIO_LPA)) else None, w') \<and> pcs w' = pcs w"
proof -
  obtain w1 where w1: "ep_pcs_read bus dev EP_MDIO_MSR w = Some (msr w, w1)" "pcs w1 = pcs w"
    using pcs_read_works [OF assms(1)] unfolding msr_def by blast
  obtain w2 where w2: "ep_pcs_read bus dev EP_MDIO_MSR w1 = Some (msr w, w2)" "pcs w2 = pcs w"
    using pcs_read_works [OF assms(1), of EP_MDIO_MSR w1] w1(2) unfolding msr_def by auto
  obtain w3 where w3: "ep_pcs_read bus dev EP_MDIO_LPA w2 = Some (pcs w (pcs_addr EP_MDIO_LPA), w3)" "pcs w3 = pcs w"
    using pcs_read_works [OF assms(1), of EP_MDIO_LPA w2] w2(2) by auto
  have p: "(4 :: u16) = 2 ^ 2" "(0x20 :: u16) = 2 ^ 5" by simp_all
  have a: "ep_flags dev AND EP_DEV_AUTONEG_ENABLED \<noteq> 0 \<longleftrightarrow> bit (ep_flags dev) 1"
    using and_exp_eq_0_iff_not_bit [of "ep_flags dev" 1] by (simp add: EP_DEV_AUTONEG_ENABLED_def)
  have l: "m AND 2 ^ k = 2 ^ k \<longleftrightarrow> bit m k" "m AND (2 ^ k OR 2 ^ j) = 2 ^ k OR 2 ^ j \<longleftrightarrow> bit m k \<and> bit m j" if "k < 16" "j < 16" for m :: u16 and k j
    using that by (auto simp: bit_eq_iff [where ?'a = "16 word"] bit_simps)
  have m: "msr w AND EP_MDIO_MSR_LSTATUS = EP_MDIO_MSR_LSTATUS \<longleftrightarrow> bit (msr w) 2"
    "msr w AND (EP_MDIO_MSR_LSTATUS OR EP_MDIO_MSR_ANEGCOMPLETE) = EP_MDIO_MSR_LSTATUS OR EP_MDIO_MSR_ANEGCOMPLETE \<longleftrightarrow> bit (msr w) 2 \<and> bit (msr w) 5"
    unfolding EP_MDIO_MSR_LSTATUS_def EP_MDIO_MSR_ANEGCOMPLETE_def p by (rule l(1) [of 2 2], simp, simp, rule l(2), simp_all)
  show ?thesis using w1 w2 w3 by (cases want_lpa) (simp_all add: ep_link_up_def a m)
qed

text \<open>Switching the transmitter of the transceiver keeps the other bits and registers.\<close>

lemma sfp_enable_bit:
  assumes "mdio_hw bus (ep_base dev) pcs"
  shows "\<exists>w'. ep_sfp_enable bus ena dev w = Some w'
    \<and> pcs w' = (pcs w)(pcs_addr EP_MDIO_ECTRL := (if ena then unset_bit 5 else set_bit 5) (pcs w (pcs_addr EP_MDIO_ECTRL)))"
proof -
  let ?v = "pcs w (pcs_addr EP_MDIO_ECTRL)"
  obtain w1 where w1: "ep_pcs_read bus dev EP_MDIO_ECTRL w = Some (?v, w1)" "pcs w1 = pcs w" using pcs_read_works [OF assms] by blast
  have p: "bit EP_MDIO_ECTRL_SFP_TX_DISABLE n \<longleftrightarrow> n = 5" for n
  proof -
    have "EP_MDIO_ECTRL_SFP_TX_DISABLE = 2 ^ 5" by (simp add: EP_MDIO_ECTRL_SFP_TX_DISABLE_def)
    show ?thesis by (simp only: \<open>EP_MDIO_ECTRL_SFP_TX_DISABLE = 2 ^ 5\<close> bit_exp_iff possible_bit_word) auto
  qed
  have v: "ucast (ucast ?v AND NOT EP_MDIO_ECTRL_SFP_TX_DISABLE) = unset_bit 5 ?v" "ucast (ucast ?v OR EP_MDIO_ECTRL_SFP_TX_DISABLE) = set_bit 5 ?v"
    by (rule bit_word_eqI, auto simp: bit_simps p)+
  obtain w2 where w2: "ep_pcs_write bus dev EP_MDIO_ECTRL (if ena then ucast ?v AND NOT EP_MDIO_ECTRL_SFP_TX_DISABLE else ucast ?v OR EP_MDIO_ECTRL_SFP_TX_DISABLE) w1 = Some w2"
    "pcs w2 = (pcs w)(pcs_addr EP_MDIO_ECTRL := ucast (if ena then ucast ?v AND NOT EP_MDIO_ECTRL_SFP_TX_DISABLE else ucast ?v OR EP_MDIO_ECTRL_SFP_TX_DISABLE :: u32))"
    using pcs_write_works [OF assms, of EP_MDIO_ECTRL _ w1] w1(2) by metis
  then show ?thesis using w1 v by (intro exI [of _ w2]) (cases ena; simp add: ep_sfp_enable_def)
qed

text \<open>The pulse of the calibrator sets the start bit and returns the result bit.\<close>

lemma cal_pulse_value:
  "fst (ep_timestamper_cal_pulse bus dev w) \<in> {0, 1}"
  by (simp add: ep_timestamper_cal_pulse_def Let_def split_beta)

end
