(* ===== verification/Rxts.thy ===== *)
theory Rxts
  imports Endpoint Storage_Cal Net Softpll_Api
begin

text \<open>
  \<^verbatim>\<open>dev/rxts_calibrator.c\<close>: the calibration of the receive time stamps. The phase shifter of the SoftPLL is moved over a clock period in steps of
  100 ps; at each step the endpoint says which of its two counters is ahead, and two detectors (for the rising and the falling transition of
  that bit) find, past glitches, the phase at which it changes. The result is kept in the calibration file and used for the linearisation of time stamps.

  The world of the calibrator is the hardware (type \<open>'h\<close>) and the state of the SoftPLL, which the interrupt handler changes at any time: the
  bus operations, and \<open>e_irq\<close> before each look at the phase shifter, act on both.

  Results: if the bit of the endpoint follows the phase with a jitter of at most 200 ps, the scan ends after one clock period and
  1500 ps, and its result is within the jitter and 100 ps of the transition.
\<close>

section \<open>Definitions\<close>

definition CAL_SCAN_STEP :: int where "CAL_SCAN_STEP = 100"
definition CAL_DEGLITCH_THRESHOLD :: nat where "CAL_DEGLITCH_THRESHOLD = 5"
definition CALIB_RETRIES :: nat where "CALIB_RETRIES = 1000"
definition CALIB_T24P_RECALIBRATE_THRESHOLD :: u32 where "CALIB_T24P_RECALIBRATE_THRESHOLD = 2000"
definition DEFAULT_T24P_PHASE_TRANSITION :: u32 where "DEFAULT_T24P_PHASE_TRANSITION = 2389"
definition CAL_PARAM_T24P :: u32 where "CAL_PARAM_T24P = 0x74323470"

definition CAL_SCAN_RANGE :: "int \<Rightarrow> int" where
  "CAL_SCAN_RANGE period = period + 3 * int CAL_DEGLITCH_THRESHOLD * CAL_SCAN_STEP"

subsection \<open>The detector of a transition\<close>

datatype td_state = TD_WAIT_INACTIVE | TD_GOT_TRANSITION | TD_DONE

record trans_detect_state =
  td_state :: td_state
  td_sample_count :: u8
  td_trans_phase :: int

definition lookup_transition :: "int \<Rightarrow> int \<Rightarrow> int \<Rightarrow> trans_detect_state \<Rightarrow> trans_detect_state" where
  "lookup_transition flip phase polarity s =
     (case td_state s of
        TD_WAIT_INACTIVE \<Rightarrow>
          (let s = s\<lparr>td_sample_count := (if flip \<noteq> polarity then td_sample_count s + 1 else 0)\<rparr>
           in if unat (td_sample_count s) \<ge> CAL_DEGLITCH_THRESHOLD then s\<lparr>td_state := TD_GOT_TRANSITION, td_sample_count := 0\<rparr> else s)
      | TD_GOT_TRANSITION \<Rightarrow>
          (if flip \<noteq> polarity then s\<lparr>td_sample_count := 0\<rparr>
           else
             (let s = s\<lparr>td_sample_count := td_sample_count s + 1\<rparr>
              in if unat (td_sample_count s) \<ge> CAL_DEGLITCH_THRESHOLD
                 then s\<lparr>td_state := TD_DONE, td_trans_phase := i32 (phase - int CAL_DEGLITCH_THRESHOLD * CAL_SCAN_STEP)\<rparr>
                 else s))
      | TD_DONE \<Rightarrow> s)"

subsection \<open>The scan\<close>

record 'h rxts_env =
  e_bus :: "('h \<times> sys) reg_bus"
  e_irq :: "'h \<times> sys \<Rightarrow> 'h \<times> sys"
  e_dev :: wr_endpoint_device
  e_spll :: spll_cfg
  e_period :: int

record ('h, 'd) rxts =
  rx_world :: "'h \<times> sys"
  rx_rising :: trans_detect_state
  rx_falling :: trans_detect_state
  rx_cur_phase :: int
  rx_cal :: "'d cal_state"
  rx_net :: net

definition rx_set_phase_shift :: "'h rxts_env \<Rightarrow> int \<Rightarrow> ('h, 'd) rxts \<Rightarrow> ('h, 'd) rxts option" where
  "rx_set_phase_shift e ps s =
     map_option (\<lambda>y. s\<lparr>rx_world := (fst (rx_world s), y)\<rparr>) (spll_set_phase_shift (e_spll e) 0 ps (snd (rx_world s)))"

definition td_init :: trans_detect_state where
  "td_init = \<lparr>td_state = TD_WAIT_INACTIVE, td_sample_count = 0, td_trans_phase = 0\<rparr>"

definition calib_t24p_init :: "'h rxts_env \<Rightarrow> ('h, 'd) rxts \<Rightarrow> ('h, 'd) rxts option" where
  "calib_t24p_init e s = rx_set_phase_shift e 0 (s\<lparr>rx_cur_phase := 0, rx_rising := td_init, rx_falling := td_init\<rparr>)"

text \<open>\<open>while (x >= REF_CLOCK_PERIOD_PS) x -= REF_CLOCK_PERIOD_PS;\<close>\<close>

partial_function (option) wrap_phase :: "int \<Rightarrow> int \<Rightarrow> int option" where
  "wrap_phase period x = (if x \<ge> period then wrap_phase period (i32 (x - period)) else Some x)"

definition transition_of :: "int \<Rightarrow> int \<Rightarrow> int \<Rightarrow> int" where
  "transition_of period rising falling =
     (let ttrans = (if falling > rising then i32 (falling - period div 2)
                    else if falling < rising then i32 (falling + period div 2) else 0);
          ttrans = i32 (ttrans + rising) sdiv 2;
          ttrans = (if ttrans < 0 then i32 (ttrans + period) else ttrans)
      in if ttrans \<ge> period then i32 (ttrans - period) else ttrans)"

text \<open>The return value, the value written to \<open>*t24p_value\<close> if any, and the state.\<close>

definition scan_result :: "'h rxts_env \<Rightarrow> ('h, 'd) rxts \<Rightarrow> (int \<times> u32 option \<times> ('h, 'd) rxts) option" where
  "scan_result e s =
     (if td_state (rx_rising s) \<noteq> TD_DONE \<or> td_state (rx_falling s) \<noteq> TD_DONE then Some (- 1, Some DEFAULT_T24P_PHASE_TRANSITION, s)
      else do {
        f \<leftarrow> wrap_phase (e_period e) (td_trans_phase (rx_falling s));
        let s = s\<lparr>rx_falling := (rx_falling s)\<lparr>td_trans_phase := f\<rparr>\<rparr>;
        r \<leftarrow> wrap_phase (e_period e) (td_trans_phase (rx_rising s));
        let s = s\<lparr>rx_rising := (rx_rising s)\<lparr>td_trans_phase := r\<rparr>\<rparr>;
        Some (1, Some (word_of_int (transition_of (e_period e) r f)), s)
      })"

definition take_sample :: "'h rxts_env \<Rightarrow> ('h, 'd) rxts \<Rightarrow> ('h, 'd) rxts" where
  "take_sample e s =
     (let (flip, w) = ep_timestamper_cal_pulse (e_bus e) (e_dev e) (rx_world s)
      in s\<lparr>rx_world := w, rx_rising := lookup_transition flip (rx_cur_phase s) 1 (rx_rising s),
           rx_falling := lookup_transition flip (rx_cur_phase s) 0 (rx_falling s)\<rparr>)"

definition rxts_calibration_update :: "'h rxts_env \<Rightarrow> ('h, 'd) rxts \<Rightarrow> (int \<times> u32 option \<times> ('h, 'd) rxts) option" where
  "rxts_calibration_update e s = do {
     let s = s\<lparr>rx_world := e_irq e (rx_world s)\<rparr>;
     busy \<leftarrow> spll_shifter_busy 0 (snd (rx_world s));
     if busy then Some (0, None, s)
     else do {
       let s = take_sample e s;
       if rx_cur_phase s \<ge> CAL_SCAN_RANGE (e_period e) then scan_result e s
       else do {
         let s = s\<lparr>rx_cur_phase := i32 (rx_cur_phase s + CAL_SCAN_STEP)\<rparr>;
         s \<leftarrow> rx_set_phase_shift e (rx_cur_phase s) s;
         Some (0, None, s)
       }
     }
   }"

subsection \<open>The calibration\<close>

definition calib_t24p_load_verbose :: "('h, 'd) rxts \<Rightarrow> (int \<times> u32 option) option" where
  "calib_t24p_load_verbose s = storage_get_calibration_parameter CAL_PARAM_T24P (cs_cal (rx_cal s))"

text \<open>
  The loop of \<open>calib_t24p_process\<close>; \<open>val\<close> is the variable of the caller (\<open>None\<close>: not written yet). The first component of the result says
  that the loop was left with \<open>return -1\<close>.
\<close>

function calib_loop :: "'h rxts_env \<Rightarrow> nat \<Rightarrow> u32 option \<Rightarrow> ('h, 'd) rxts \<Rightarrow> (bool \<times> int \<times> u32 option \<times> ('h, 'd) rxts) option" where
  "calib_loop e retries val s =
     (case rxts_calibration_update e s of
        None \<Rightarrow> None
      | Some (rv, v, s) \<Rightarrow>
          (let val = (case v of None \<Rightarrow> val | Some v \<Rightarrow> Some v) in
           if rv \<noteq> 0 then Some (False, rv, val, s)
           else if retries > CALIB_RETRIES then Some (True, rv, val, s)
           else
             (case ep_link_up (e_bus e) False (e_dev e) (rx_world s) of
                None \<Rightarrow> None
              | Some (up, _, w) \<Rightarrow>
                  (let s = s\<lparr>rx_world := w\<rparr> in
                   if up = 0 then Some (True, rv, val, s) else calib_loop e (retries + 1) val s))))"
  by pat_completeness auto
termination
  by (relation "measure (\<lambda>(e, retries, val, s). CALIB_RETRIES + 1 - retries)") auto

declare calib_loop.simps [simp del]

definition t24p_accept :: "'d storage_rwops \<Rightarrow> u32 \<Rightarrow> ('h, 'd) rxts \<Rightarrow> (int \<times> u32 option \<times> ('h, 'd) rxts) option" where
  "t24p_accept ops v s = do {
     (rv, prev) \<leftarrow> storage_get_calibration_parameter CAL_PARAM_T24P (cs_cal (rx_cal s));
     if rv < 0 \<or> the prev < v - CALIB_T24P_RECALIBRATE_THRESHOLD \<or> the prev > v + CALIB_T24P_RECALIBRATE_THRESHOLD
     then do {
       (rv, cal) \<leftarrow> storage_set_calibration_parameter_and_save ops CAL_PARAM_T24P v (rx_cal s);
       Some (0, Some v, s\<lparr>rx_cal := cal\<rparr>)
     }
     else Some (0, prev, s)
   }"

definition calib_t24p_process :: "'h rxts_env \<Rightarrow> 'd storage_rwops \<Rightarrow> ('h, 'd) rxts \<Rightarrow> (int \<times> u32 option \<times> ('h, 'd) rxts) option" where
  "calib_t24p_process e ops s = do {
     (gave_up, rv, val, s) \<leftarrow> calib_loop e 0 None s;
     if gave_up then Some (- 1, val, s)
     else if rv < 0 then do {
       (rv, v) \<leftarrow> calib_t24p_load_verbose s;
       Some (rv, case v of None \<Rightarrow> val | Some v \<Rightarrow> Some v, s)
     }
     else do { v \<leftarrow> val; t24p_accept ops v s }
   }"

text \<open>\<open>netif_set_phase_transition(0, val)\<close> after a success; an unwritten \<open>val\<close> has no value.\<close>

definition set_transition :: "int \<Rightarrow> u32 option \<Rightarrow> ('h, 'd) rxts \<Rightarrow> ('h, 'd) rxts option" where
  "set_transition ret val s =
     (if ret \<ge> 0 then do { v \<leftarrow> val; n \<leftarrow> netif_set_phase_transition 0 v (rx_net s); Some (s\<lparr>rx_net := n\<rparr>) } else Some s)"

definition calib_t24p :: "'h rxts_env \<Rightarrow> 'd storage_rwops \<Rightarrow> ('h, 'd) rxts \<Rightarrow> (int \<times> ('h, 'd) rxts) option" where
  "calib_t24p e ops s = do {
     (ret, val, s) \<leftarrow> calib_t24p_process e ops s;
     s \<leftarrow> set_transition ret val s;
     Some (ret, s)
   }"

definition calib_t24p_load :: "('h, 'd) rxts \<Rightarrow> ('h, 'd) rxts option" where
  "calib_t24p_load s = do {
     (ret, val) \<leftarrow> calib_t24p_load_verbose s;
     set_transition ret val s
   }"

text \<open>The calibration on request: wait for the link and for the lock of the SoftPLL, then scan to the end.\<close>

partial_function (option) wait_link :: "'h rxts_env \<Rightarrow> 'h \<times> sys \<Rightarrow> ('h \<times> sys) option" where
  "wait_link e w =
     Option.bind (ep_link_up (e_bus e) False (e_dev e) w)
       (\<lambda>(up, _, w). if up = 0 then wait_link e (bus_delay (e_bus e) 100 w) else Some w)"

partial_function (option) wait_lock :: "'h rxts_env \<Rightarrow> 'h \<times> sys \<Rightarrow> ('h \<times> sys) option" where
  "wait_lock e w =
     Option.bind (spll_check_lock 0 (snd w))
       (\<lambda>lock. if \<not> lock then wait_lock e (bus_delay (e_bus e) 100 w) else Some w)"

partial_function (option) scan_loop :: "'h rxts_env \<Rightarrow> ('h, 'd) rxts \<Rightarrow> (int \<times> u32 option \<times> ('h, 'd) rxts) option" where
  "scan_loop e s =
     Option.bind (rxts_calibration_update e s) (\<lambda>(rv, v, s). if rv = 0 then scan_loop e s else Some (rv, v, s))"

definition measure_t24p :: "'h rxts_env \<Rightarrow> 'd storage_rwops \<Rightarrow> ('h, 'd) rxts \<Rightarrow> (int \<times> ('h, 'd) rxts) option" where
  "measure_t24p e ops s = do {
     w \<leftarrow> wait_link e (rx_world s);
     y \<leftarrow> spll_init (e_spll e) SPLL_MODE_SLAVE 0 0 (snd w);
     w \<leftarrow> wait_lock e (fst w, y);
     s \<leftarrow> calib_t24p_init e (s\<lparr>rx_world := w\<rparr>);
     (rv, v, s) \<leftarrow> scan_loop e s;
     if rv < 0 then Some (rv, s)
     else do {
       v \<leftarrow> v;
       (rv, cal) \<leftarrow> storage_set_calibration_parameter_and_save ops CAL_PARAM_T24P v (rx_cal s);
       Some (rv, s\<lparr>rx_cal := cal\<rparr>)
     }
   }"

section \<open>Facts\<close>

subsection \<open>The detector\<close>

text \<open>The detector after \<open>n\<close> samples \<open>b 0, b 1, \<dots>\<close>, one at each step of the scan.\<close>

fun det_run :: "(nat \<Rightarrow> int) \<Rightarrow> int \<Rightarrow> nat \<Rightarrow> trans_detect_state" where
  "det_run b pol 0 = td_init"
| "det_run b pol (Suc n) = lookup_transition (b n) (100 * int n) pol (det_run b pol n)"

lemma det_run_cong: "(\<And>i. i < n \<Longrightarrow> b i = b' i) \<Longrightarrow> det_run b pol n = det_run b' pol n"
  by (induction n) simp_all

text \<open>
  What the states of the detector say of the samples: how many inactive ones it has just seen; that the active ones it has just seen follow an
  inactive one; and that at the reported phase there was an inactive one, followed by five active ones.
\<close>

definition det_inv :: "(nat \<Rightarrow> bool) \<Rightarrow> nat \<Rightarrow> trans_detect_state \<Rightarrow> bool" where
  "det_inv act n d \<longleftrightarrow>
     (case td_state d of
        TD_WAIT_INACTIVE \<Rightarrow> unat (td_sample_count d) < 5 \<and> (\<forall>k\<le>n. (\<forall>j<k. \<not> act (n - 1 - j)) \<longrightarrow> k \<le> unat (td_sample_count d))
      | TD_GOT_TRANSITION \<Rightarrow> unat (td_sample_count d) < 5 \<and> unat (td_sample_count d) < n \<and> \<not> act (n - 1 - unat (td_sample_count d))
          \<and> (\<forall>j<unat (td_sample_count d). act (n - 1 - j))
      | TD_DONE \<Rightarrow> (\<exists>t. td_trans_phase d = 100 * int t \<and> t + 5 < n \<and> \<not> act t \<and> (\<forall>m\<in>{1..5}. act (t + m))))"

lemma count_up: "unat (c :: u8) < 5 \<Longrightarrow> unat (c + 1) = unat c + 1"
  by (simp add: unat_word_ariths)

lemma det_inv_step:
  assumes "det_inv act n d" "n < 1000000" "act n = (flip = pol)"
  shows "det_inv act (Suc n) (lookup_transition flip (100 * int n) pol d)"
proof (cases "td_state d")
  case TD_WAIT_INACTIVE
  note i = assms(1) [unfolded det_inv_def TD_WAIT_INACTIVE, simplified]
  show ?thesis
  proof (cases "act n")
    case True
    have "k = 0" if "\<forall>j<k. \<not> act (n - j)" for k using that True by (cases k) auto
    then show ?thesis using True assms(3) by (auto simp: lookup_transition_def TD_WAIT_INACTIVE det_inv_def CAL_DEGLITCH_THRESHOLD_def)
  next
    case False
    have c: "unat (td_sample_count d + 1) = unat (td_sample_count d) + 1" using i by (intro count_up) simp
    have k: "k \<le> Suc (unat (td_sample_count d))" if a: "k \<le> Suc n" "\<forall>j<k. \<not> act (n - j)" for k
    proof (cases k)
      case (Suc k')
      have "\<not> act (n - 1 - j)" if "j < k'" for j using a(2) [rule_format, of "Suc j"] that Suc by simp
      then show ?thesis using i a(1) Suc by auto
    qed simp
    show ?thesis using False assms(3) k c
      by (auto simp: lookup_transition_def TD_WAIT_INACTIVE det_inv_def CAL_DEGLITCH_THRESHOLD_def Let_def)
  qed
next
  case TD_GOT_TRANSITION
  note i = assms(1) [unfolded det_inv_def TD_GOT_TRANSITION, simplified]
  show ?thesis
  proof (cases "act n")
    case False
    then show ?thesis using assms(3) by (simp add: lookup_transition_def TD_GOT_TRANSITION det_inv_def)
  next
    case True
    let ?c = "unat (td_sample_count d)"
    have c: "unat (td_sample_count d + 1) = ?c + 1" using i by (intro count_up) simp
    have r: "act (n - j)" if "j < Suc ?c" for j
      using that i True by (cases j) auto
    show ?thesis
    proof (cases "?c + 1 < 5")
      case True
      then show ?thesis using assms(3) \<open>act n\<close> i c r
        by (simp add: lookup_transition_def TD_GOT_TRANSITION det_inv_def CAL_DEGLITCH_THRESHOLD_def Let_def)
    next
      case False
      then have c4: "?c = 4" using i by simp
      have "i32 (100 * int n - 500) = 100 * int (n - 5)" using i c4 assms(2) by (simp add: fits32_def of_nat_diff)
      moreover have "\<not> act (n - 5)" using i c4 by (simp add: numeral_eq_Suc)
      moreover have "act (n - 5 + m)" if "m \<in> {1..5}" for m
        using r [of "5 - m"] that i c4 by (simp add: diff_diff_right)
      moreover have "n - 5 + 5 < Suc n" using i c4 by simp
      ultimately have "\<exists>t. i32 (100 * int n - 500) = 100 * int t \<and> t + 5 < Suc n \<and> \<not> act t \<and> (\<forall>m\<in>{1..5}. act (t + m))" by blast
      then show ?thesis using assms(3) \<open>act n\<close> c c4
        by (simp add: lookup_transition_def TD_GOT_TRANSITION det_inv_def CAL_DEGLITCH_THRESHOLD_def CAL_SCAN_STEP_def Let_def)
    qed
  qed
next
  case TD_DONE
  then show ?thesis using assms(1) by (auto simp: lookup_transition_def det_inv_def)
qed

lemma det_run_inv: "n \<le> 1000000 \<Longrightarrow> det_inv (\<lambda>i. b i = pol) n (det_run b pol n)"
  by (induction n) (simp_all add: det_inv_step det_inv_def [of _ 0] td_init_def)

text \<open>Five inactive samples take the detector out of its first state, and five active ones then into its last.\<close>

lemma det_leaves_wait:
  assumes "td_state (det_run b pol n) \<noteq> TD_WAIT_INACTIVE"
  shows "td_state (det_run b pol (n + k)) \<noteq> TD_WAIT_INACTIVE"
  using assms by (induction k) (auto simp: lookup_transition_def Let_def split: td_state.splits)

lemma det_stays_done:
  assumes "td_state (det_run b pol n) = TD_DONE"
  shows "td_state (det_run b pol (n + k)) = TD_DONE"
  using assms by (induction k) (simp_all add: lookup_transition_def)

lemma det_done:
  assumes i: "\<And>m. m < 5 \<Longrightarrow> b (s + m) \<noteq> pol" and a: "\<And>m. m < 5 \<Longrightarrow> b (s' + m) = pol" and o: "s + 5 \<le> s'" "s' + 5 \<le> n" "n \<le> 1000000"
  shows "td_state (det_run b pol n) = TD_DONE"
proof -
  have w: "td_state (det_run b pol (s + 5)) \<noteq> TD_WAIT_INACTIVE"
  proof
    assume w: "td_state (det_run b pol (s + 5)) = TD_WAIT_INACTIVE"
    have "det_inv (\<lambda>i. b i = pol) (s + 5) (det_run b pol (s + 5))" using o by (intro det_run_inv) simp
    moreover have "b (s + 5 - 1 - j) \<noteq> pol" if "j < 5" for j using i [of "4 - j"] that by (simp add: add.commute)
    ultimately show False unfolding det_inv_def w td_state.case by (metis le_add2 not_less)
  qed
  have "td_state (det_run b pol (s' + 5)) \<noteq> TD_WAIT_INACTIVE" using det_leaves_wait [OF w, of "s' - s"] o by (simp add: add.commute)
  moreover have "td_state (det_run b pol (s' + 5)) \<noteq> TD_GOT_TRANSITION"
  proof
    assume g: "td_state (det_run b pol (s' + 5)) = TD_GOT_TRANSITION"
    have "det_inv (\<lambda>i. b i = pol) (s' + 5) (det_run b pol (s' + 5))" using o by (intro det_run_inv) simp
    then obtain c where "c < 5" "b (s' + 5 - 1 - c) \<noteq> pol" unfolding det_inv_def g by auto
    moreover have "b (s' + (4 - c)) = pol" by (rule a) simp
    ultimately show False by (simp add: add.commute)
  qed
  ultimately have "td_state (det_run b pol (s' + 5)) = TD_DONE" by (cases "td_state (det_run b pol (s' + 5))") simp_all
  then show ?thesis using det_stays_done [of b pol "s' + 5" "n - (s' + 5)"] o by simp
qed

subsection \<open>A periodic bit with jitter\<close>

text \<open>
  Samples of a bit with a period of \<open>2 h\<close> samples: active in its first and inactive in its second half after \<open>k\<close>, except that the first \<open>w\<close>
  samples of each half may be anything.
\<close>

definition slot :: "int \<Rightarrow> int \<Rightarrow> int \<Rightarrow> int" where
  "slot h k i = (i - k) mod (2 * h)"

definition jittered :: "int \<Rightarrow> int \<Rightarrow> int \<Rightarrow> nat \<Rightarrow> (nat \<Rightarrow> bool) \<Rightarrow> bool" where
  "jittered h w k n act \<longleftrightarrow>
     (\<forall>i<n. (w \<le> slot h k (int i) \<and> slot h k (int i) < h \<longrightarrow> act i) \<and> (h + w \<le> slot h k (int i) \<longrightarrow> \<not> act i))"

lemma slot_range: "0 < h \<Longrightarrow> 0 \<le> slot h k i" "0 < h \<Longrightarrow> slot h k i < 2 * h"
  by (simp_all add: slot_def)

lemma slot_add: "0 \<le> slot h k i + m \<Longrightarrow> slot h k i + m < 2 * h \<Longrightarrow> slot h k (i + m) = slot h k i + m"
proof -
  assume a: "0 \<le> slot h k i + m" "slot h k i + m < 2 * h"
  have "slot h k (i + m) = (slot h k i + m) mod (2 * h)" by (simp add: slot_def mod_simps algebra_simps)
  then show ?thesis using a by simp
qed

lemma transition_slot:
  assumes w: "0 \<le> w" "w \<le> 4" "w < h" and j: "jittered h w k n act"
    and t: "t + 5 < n" "\<not> act t" "\<And>m. m \<in> {1..5} \<Longrightarrow> act (t + m)"
  shows "slot h k (int t) < w \<or> slot h k (int t) = 2 * h - 1"
proof (rule ccontr)
  assume c: "\<not> ?thesis"
  let ?j = "slot h k (int t)"
  have r: "0 \<le> ?j" "?j < 2 * h" using slot_range [of h] w by simp_all
  have "\<not> (w \<le> ?j \<and> ?j < h)" using j t(1,2) by (auto simp: jittered_def)
  then have h: "h \<le> ?j" "?j < 2 * h - 1" using c r by auto
  define m where "m = (if ?j \<ge> h + w - 1 then 1 else h + w - ?j)"
  have m: "1 \<le> m" "m \<le> 5" "h + w \<le> ?j + m" "?j + m < 2 * h" using h w by (auto simp: m_def)
  have s: "slot h k (int t + m) = ?j + m" using m r by (intro slot_add) simp_all
  have n: "nat m \<in> {1..5}" "int (t + nat m) = int t + m" using m by auto
  have "act (t + nat m)" by (rule t(3) [OF n(1)])
  moreover have "h + w \<le> slot h k (int (t + nat m))" "t + nat m < n" using t(1) m s n by auto
  ultimately show False using j by (auto simp: jittered_def)
qed

lemma transition_found:
  assumes w: "0 \<le> w" "w \<le> 4" "w + 5 \<le> h" and j: "jittered h w k (nat (2 * h) + 16) act"
  shows "\<exists>s s'. (\<forall>m<5. \<not> act (s + m)) \<and> (\<forall>m<5. act (s' + m)) \<and> s + 5 \<le> s' \<and> s' + 5 \<le> nat (2 * h) + 16"
proof -
  define j0 where "j0 = slot h k 0"
  have r: "0 \<le> j0" "j0 < 2 * h" using slot_range [of h k 0] w by (simp_all add: j0_def)
  have sl: "slot h k i = (j0 + i) mod (2 * h)" for i by (simp add: slot_def j0_def mod_simps)
  have lo: "\<not> act i" if "i < nat (2 * h) + 16" "h + w \<le> (j0 + int i) mod (2 * h)" for i
    using j that by (auto simp: jittered_def sl)
  have hi: "act i" if "i < nat (2 * h) + 16" "w \<le> (j0 + int i) mod (2 * h)" "(j0 + int i) mod (2 * h) < h" for i
    using j that by (auto simp: jittered_def sl)
  define p where "p = (if j0 \<le> 2 * h - 5 then 0 else 2 * h)"
  define s where "s = nat (max 0 (p + h + w - j0))"
  define s' where "s' = nat (p + 2 * h + w - j0)"
  have s: "int s = max 0 (p + h + w - j0)" "int s' = p + 2 * h + w - j0" using r w by (auto simp: s_def s'_def p_def)
  have "\<not> act (s + m)" if "m < 5" for m
  proof (rule lo)
    have b: "p + h + w \<le> j0 + int (s + m)" "j0 + int (s + m) < p + 2 * h" using that s(1) r w by (auto simp: p_def split: if_splits)
    have "(j0 + int (s + m)) mod (2 * h) = (j0 + int (s + m) - p) mod (2 * h)" by (simp add: p_def)
    also have "\<dots> = j0 + int (s + m) - p" using b w by (intro mod_pos_pos_trivial) simp_all
    finally show "h + w \<le> (j0 + int (s + m)) mod (2 * h)" using b by simp
    show "s + m < nat (2 * h) + 16" using that s(1) r w by (auto simp: p_def nat_less_iff split: if_splits)
  qed
  moreover have "act (s' + m)" if "m < 5" for m
  proof -
    have "j0 + int (s' + m) = w + int m + (p + 2 * h)" using s(2) by simp
    then have "(j0 + int (s' + m)) mod (2 * h) = (w + int m + (p + 2 * h)) mod (2 * h)" by (rule arg_cong)
    also have "p + 2 * h = (if j0 \<le> 2 * h - 5 then 1 else 2) * (2 * h)" by (simp add: p_def)
    also have "(w + int m + (if j0 \<le> 2 * h - 5 then 1 else 2) * (2 * h)) mod (2 * h) = w + int m"
      using w that by (simp only: mod_mult_self1) (intro mod_pos_pos_trivial; simp)
    finally have e: "(j0 + int (s' + m)) mod (2 * h) = w + int m" .
    have "s' + m < nat (2 * h) + 16" using that s(2) r w by (auto simp: p_def split: if_splits)
    then show ?thesis using w that by (intro hi) (simp_all only: e)
  qed
  moreover have "s + 5 \<le> s'" "s' + 5 \<le> nat (2 * h) + 16" using s r w by (auto simp: p_def split: if_splits)
  ultimately show ?thesis by blast
qed

subsection \<open>The value\<close>

lemma wrap_phase_value:
  assumes "0 < P" "P \<le> 1000000000" "0 \<le> x" "x \<le> 1000000000"
  shows "wrap_phase P x = Some (x mod P)"
  using assms(3,4)
proof (induction "nat x" arbitrary: x rule: less_induct)
  case less
  show ?case
  proof (cases "x \<ge> P")
    case True
    have "i32 (x - P) = x - P" using less.prems True assms by (simp add: fits32_def)
    moreover have "wrap_phase P (x - P) = Some ((x - P) mod P)" using less.hyps [of "x - P"] less.prems True assms by simp
    ultimately show ?thesis using True by (subst wrap_phase.simps) simp
  next
    case False
    then show ?thesis using less.prems by (subst wrap_phase.simps) simp
  qed
qed

lemma small_residue:
  assumes "(x - y) mod m = 0" "\<bar>x - y\<bar> < (m :: int)"
  shows "x = y"
proof -
  have "m dvd x - y" using assms(1) by (rule mod_0_imp_dvd)
  then show ?thesis using assms(2) dvd_imp_le_int [of "x - y" m] by fastforce
qed

lemma transition_of_value:
  assumes h: "0 < h" "h \<le> 1000000" and ab: "\<bar>a - b\<bar> < h" and rf: "r = (k + a) mod (2 * h)" "f = (k + h + b) mod (2 * h)"
  shows "transition_of (200 * h) (100 * r) (100 * f) = (100 * k + 50 * (a + b)) mod (200 * h)"
proof -
  have rb: "0 \<le> r" "r < 2 * h" "0 \<le> f" "f < 2 * h" using h rf by simp_all
  define f' where "f' = (if f > r then f - h else f + h)"
  have c: "(f - h - (r + b - a)) mod (2 * h) = 0"
  proof -
    have "f = k + h + b - (k + h + b) div (2 * h) * (2 * h)" "r = k + a - (k + a) div (2 * h) * (2 * h)"
      unfolding rf by (simp_all only: minus_div_mult_eq_mod)
    then have "f - h - (r + b - a) = ((k + a) div (2 * h) - (k + h + b) div (2 * h)) * (2 * h)"
      unfolding left_diff_distrib by linarith
    then show ?thesis by (simp only: mod_mult_self2_is_0)
  qed
  have "(f + h - (r + b - a)) mod (2 * h) = (f - h - (r + b - a) + 2 * h) mod (2 * h)" by (simp add: algebra_simps)
  also have "\<dots> = 0" by (simp only: mod_add_self2 c)
  finally have c': "(f + h - (r + b - a)) mod (2 * h) = 0" .
  have ne: "f \<noteq> r"
  proof
    assume "f = r"
    then have "(a - b - h) mod (2 * h) = 0" using c by (simp add: algebra_simps)
    moreover have "\<bar>a - b - h\<bar> < 2 * h" using ab h by linarith
    ultimately have "a - b - h = 0" using small_residue [of "a - b - h" 0 "2 * h"] by simp
    then show False using ab by simp
  qed
  have f': "f' = r + b - a"
    by (rule small_residue [of _ _ "2 * h"]) (use c c' rb ab ne in \<open>auto simp: f'_def\<close>)
  define v where "v = 100 * r + 50 * (b - a)"
  have vb: "- 200 * h < v" "v < 400 * h" using rb ab by (auto simp: v_def)
  have "(200 * h) div 2 = 100 * h" by simp
  then have "transition_of (200 * h) (100 * r) (100 * f) =
      (let t = i32 (100 * f' + 100 * r) sdiv 2; t = (if t < 0 then i32 (t + 200 * h) else t) in if t \<ge> 200 * h then i32 (t - 200 * h) else t)"
    using ne rb h by (auto simp: transition_of_def f'_def Let_def fits32_def)
  also have "i32 (100 * f' + 100 * r) sdiv 2 = v"
  proof -
    have "100 * f' + 100 * r = v * 2" unfolding f' v_def by simp
    moreover have "fits32 (v * 2)" using vb h by (simp add: fits32_def)
    ultimately show ?thesis by (simp add: signed_divide_int_def abs_mult sgn_mult sgn_mult_abs)
  qed
  also have "(let t = v; t = (if t < 0 then i32 (t + 200 * h) else t) in if t \<ge> 200 * h then i32 (t - 200 * h) else t) = v mod (200 * h)"
  proof -
    consider "v < 0" | "0 \<le> v" "v < 200 * h" | "200 * h \<le> v" by linarith
    then show ?thesis
    proof cases
      case 1
      have "v mod (200 * h) = (v + 200 * h) mod (200 * h)" by simp
      also have "\<dots> = v + 200 * h" using 1 vb by (intro mod_pos_pos_trivial) simp_all
      finally show ?thesis using 1 vb h by (simp add: Let_def fits32_def)
    next
      case 3
      have "v mod (200 * h) = (v - 200 * h) mod (200 * h)" by simp
      also have "\<dots> = v - 200 * h" using 3 vb by (intro mod_pos_pos_trivial) simp_all
      finally show ?thesis using 3 vb h by (simp add: Let_def fits32_def)
    qed (simp add: Let_def)
  qed
  also have "v mod (200 * h) = (100 * k + 50 * (a + b)) mod (200 * h)"
  proof -
    have "100 * r mod (200 * h) = 100 * (k + a) mod (200 * h)"
      using mult_mod_right [of 100 "k + a" "2 * h"] by (simp add: rf)
    then have "(100 * r + 50 * (b - a)) mod (200 * h) = (100 * (k + a) + 50 * (b - a)) mod (200 * h)" by (rule mod_add_cong) simp
    then show ?thesis by (simp add: v_def algebra_simps)
  qed
  finally show ?thesis .
qed

subsection \<open>The scan\<close>

text \<open>
  The bit of the endpoint for a phase shift of \<open>p\<close> picoseconds, when the transition is at phase \<open>T\<close> and the jitter \<open>J\<close>: it is set in the half
  period after \<open>T\<close> and clear in the other one, but within \<open>J\<close> of either transition it may be anything.
\<close>

definition follows :: "int \<Rightarrow> int \<Rightarrow> int \<Rightarrow> int \<Rightarrow> int \<Rightarrow> bool" where
  "follows P J T p flip \<longleftrightarrow> flip \<in> {0, 1}
     \<and> (2 * J \<le> (p - T + J) mod P \<and> (p - T + J) mod P < P div 2 \<longrightarrow> flip = 1)
     \<and> (P div 2 + 2 * J \<le> (p - T + J) mod P \<longrightarrow> flip = 0)"

definition edge_index :: "int \<Rightarrow> int \<Rightarrow> int" where
  "edge_index J T = - ((J - T) div 100)"

lemma phase_slot:
  assumes "0 < h"
  shows "(100 * i - T + J) mod (200 * h) = 100 * slot h (edge_index J T) i + (J - T) mod 100"
proof -
  have e: "100 * i - T + J = J - T + i * 100" by simp
  have "(100 * i - T + J) mod (100 * (2 * h)) = 100 * ((100 * i - T + J) div 100 mod (2 * h)) + (100 * i - T + J) mod 100"
    using assms by (intro zmod_zmult2_eq) simp
  also have "(100 * i - T + J) div 100 = i - edge_index J T" unfolding e edge_index_def by simp
  also have "(100 * i - T + J) mod 100 = (J - T) mod 100" unfolding e by simp
  finally show ?thesis by (simp add: slot_def)
qed

lemma slot_half:
  assumes "0 < h"
  shows "slot h (k + h) i = (if slot h k i \<ge> h then slot h k i - h else slot h k i + h)"
proof -
  have r: "0 \<le> slot h k i" "slot h k i < 2 * h" using slot_range [OF assms] by auto
  have "slot h (k + h) i = slot h k (i - h)" by (simp add: slot_def algebra_simps)
  also have "\<dots> = (if slot h k i \<ge> h then slot h k i - h else slot h k i + h)"
  proof (cases "slot h k i \<ge> h")
    case True
    then show ?thesis using slot_add [of h k i "- h"] r assms by simp
  next
    case False
    have "slot h k (i - h) = slot h k (i + h)" using mod_add_self2 [of "i - h - k" "2 * h"] by (simp add: slot_def algebra_simps)
    then show ?thesis using False slot_add [of h k i h] r assms by simp
  qed
  finally show ?thesis .
qed

definition jitter_slots :: "int \<Rightarrow> int" where
  "jitter_slots J = (2 * J + 99) div 100"

lemma follows_jittered:
  assumes h: "0 < h" "jitter_slots J < h" and J: "0 \<le> J" and f: "\<And>i. i < n \<Longrightarrow> follows (200 * h) J T (100 * int i) (b i)"
  shows "jittered h (jitter_slots J) (edge_index J T) n (\<lambda>i. b i = 1)"
    "jittered h (jitter_slots J) (edge_index J T + h) n (\<lambda>i. b i = 0)"
proof -
  let ?w = "jitter_slots J" and ?s = "\<lambda>i. slot h (edge_index J T) (int i)"
  have w: "2 * J \<le> 100 * ?w" "0 \<le> ?w" using J by (auto simp: jitter_slots_def)
  have m: "0 \<le> (J - T) mod 100" "(J - T) mod 100 < 100" by simp_all
  have hi: "b i = 1" if "i < n" "?w \<le> ?s i" "?s i < h" for i
    using f [OF that(1)] that(2,3) w m by (auto simp: follows_def phase_slot [OF h(1)])
  have lo: "b i = 0" if "i < n" "h + ?w \<le> ?s i" for i
    using f [OF that(1)] that(2) w m by (auto simp: follows_def phase_slot [OF h(1)])
  show "jittered h ?w (edge_index J T) n (\<lambda>i. b i = 1)" using hi lo by (auto simp: jittered_def)
  show "jittered h ?w (edge_index J T + h) n (\<lambda>i. b i = 0)"
    unfolding jittered_def
  proof (intro allI impI conjI)
    fix i assume i: "i < n"
    have r: "?s i < 2 * h" "0 \<le> ?s i" using slot_range [OF h(1)] by auto
    note e = slot_half [OF h(1), of "edge_index J T" "int i"]
    show "b i = 0" if "?w \<le> slot h (edge_index J T + h) (int i) \<and> slot h (edge_index J T + h) (int i) < h"
      by (rule lo [OF i]) (use that r in \<open>simp add: e split: if_splits\<close>)
    show "b i \<noteq> 0" if "h + ?w \<le> slot h (edge_index J T + h) (int i)"
    proof -
      have "b i = 1" by (rule hi [OF i]) (use that r w(2) in \<open>simp_all add: e split: if_splits\<close>)
      then show ?thesis by simp
    qed
  qed
qed

text \<open>The end of the scan of one detector.\<close>

lemma detector_result:
  assumes w: "0 \<le> w" "w \<le> 4" "w + 5 \<le> h" "h \<le> 1000" and j: "jittered h w k (nat (2 * h) + 16) (\<lambda>i. b i = pol)"
  shows "td_state (det_run b pol (nat (2 * h) + 16)) = TD_DONE
    \<and> (\<exists>t a. td_trans_phase (det_run b pol (nat (2 * h) + 16)) = 100 * int t \<and> t < 3000 \<and> int t mod (2 * h) = (k + a) mod (2 * h) \<and> - 1 \<le> a \<and> a < w)"
proof -
  let ?n = "nat (2 * h) + 16"
  obtain s s' where "\<And>m. m < 5 \<Longrightarrow> b (s + m) \<noteq> pol" "\<And>m. m < 5 \<Longrightarrow> b (s' + m) = pol" "s + 5 \<le> s'" "s' + 5 \<le> ?n"
    using transition_found [OF w(1-3) j] by blast
  then have d: "td_state (det_run b pol ?n) = TD_DONE" using w(4) by (intro det_done [of b s pol s']) simp_all
  have "det_inv (\<lambda>i. b i = pol) ?n (det_run b pol ?n)" using w(4) by (intro det_run_inv) simp
  then obtain t where t: "td_trans_phase (det_run b pol ?n) = 100 * int t" "t + 5 < ?n" "b t \<noteq> pol" "\<And>m. m \<in> {1..5} \<Longrightarrow> b (t + m) = pol"
    unfolding det_inv_def d by auto
  define a where "a = (if slot h k (int t) < w then slot h k (int t) else slot h k (int t) - 2 * h)"
  have sl: "slot h k (int t) < w \<or> slot h k (int t) = 2 * h - 1" using t w by (intro transition_slot [OF w(1,2) _ j]) auto
  then have "- 1 \<le> a" "a < w" using slot_range [of h k "int t"] w by (auto simp: a_def)
  moreover have "int t mod (2 * h) = (k + a) mod (2 * h)"
  proof -
    have "(k + slot h k (int t)) mod (2 * h) = int t mod (2 * h)" by (simp add: slot_def mod_simps)
    moreover have "(k + (slot h k (int t) - 2 * h)) mod (2 * h) = (k + slot h k (int t)) mod (2 * h)"
      using minus_mod_self2 [of "k + slot h k (int t)" "2 * h"] by (simp add: algebra_simps)
    ultimately show ?thesis by (simp add: a_def)
  qed
  moreover have "t < 3000" using t(2) w(4) by simp
  ultimately show ?thesis using d t(1) by blast
qed

text \<open>The value of the scan: within the jitter and one step of the transition.\<close>

lemma scan_value:
  assumes h: "9 \<le> h" "h \<le> 1000" and J: "0 \<le> J" "J \<le> 200"
    and f: "\<And>i. i < nat (2 * h) + 16 \<Longrightarrow> follows (200 * h) J T (100 * int i) (b i)"
  defines "r \<equiv> det_run b 1 (nat (2 * h) + 16)" and "s \<equiv> det_run b 0 (nat (2 * h) + 16)"
  shows "td_state r = TD_DONE \<and> td_state s = TD_DONE
    \<and> (\<exists>tr tf e. wrap_phase (200 * h) (td_trans_phase r) = Some tr \<and> wrap_phase (200 * h) (td_trans_phase s) = Some tf
        \<and> transition_of (200 * h) tr tf = (T + e) mod (200 * h) \<and> \<bar>e\<bar> \<le> J + 100)"
proof -
  let ?w = "jitter_slots J" and ?k = "edge_index J T"
  have w: "0 \<le> ?w" "?w \<le> 4" "?w + 5 \<le> h" "100 * ?w \<le> 2 * J + 99" using J h by (auto simp: jitter_slots_def)
  have h0: "0 < h" "?w < h" using w h by simp_all
  note j = follows_jittered [where b = b, OF h0 J(1) f]
  obtain t a where t: "td_state r = TD_DONE" "td_trans_phase r = 100 * int t" "t < 3000" "int t mod (2 * h) = (?k + a) mod (2 * h)" "- 1 \<le> a" "a < ?w"
    using detector_result [OF w(1-3) h(2) j(1)] unfolding r_def by blast
  obtain u c where u: "td_state s = TD_DONE" "td_trans_phase s = 100 * int u" "u < 3000" "int u mod (2 * h) = (?k + h + c) mod (2 * h)" "- 1 \<le> c" "c < ?w"
    using detector_result [OF w(1-3) h(2) j(2)] unfolding s_def by blast
  have wr: "wrap_phase (200 * h) (100 * int x) = Some (100 * (int x mod (2 * h)))" if "x < 3000" for x
    using wrap_phase_value [of "200 * h" "100 * int x"] that h mult_mod_right [of 100 "int x" "2 * h"] by simp
  define e where "e = 100 * ?k - T + 50 * (a + c)"
  have "transition_of (200 * h) (100 * (int t mod (2 * h))) (100 * (int u mod (2 * h))) = (100 * ?k + 50 * (a + c)) mod (200 * h)"
    using h w t(5,6) u(5,6) by (intro transition_of_value t(4) u(4)) auto
  also have "\<dots> = (T + e) mod (200 * h)" by (simp add: e_def)
  finally have v: "transition_of (200 * h) (100 * (int t mod (2 * h))) (100 * (int u mod (2 * h))) = (T + e) mod (200 * h)" .
  define m where "m = (J - T) mod 100"
  have "100 * ?k = T - J + m" unfolding edge_index_def m_def using mult_div_mod_eq [of 100 "J - T"] by linarith
  then have "e = m - J + 50 * (a + c)" by (simp add: e_def)
  moreover have "0 \<le> m" "m < 100" by (simp_all add: m_def)
  moreover have "- 2 \<le> a + c" "a + c \<le> 2 * ?w - 2" using t(5,6) u(5,6) by simp_all
  ultimately have "\<bar>e\<bar> \<le> J + 100" using w(4) J(1) by simp
  then show ?thesis using t(1,2) u(1,2) wr [OF t(3)] wr [OF u(3)] v by auto
qed

subsection \<open>The calibrator\<close>

text \<open>
  The endpoint as the calibrator relies on it: while the phase shifter stands still, the bit of a pulse follows the shift that was set
  last; the hardware and the interrupt handler do not set another shift; the link can be asked.
\<close>

definition shift_set :: "'h \<times> sys \<Rightarrow> int" where
  "shift_set w = sp_mpll_shift_ps (sp (snd w))"

definition timestamper :: "'h rxts_env \<Rightarrow> int \<Rightarrow> int \<Rightarrow> bool" where
  "timestamper e J T \<longleftrightarrow>
     (\<forall>w. shift_set (e_irq e w) = shift_set w)
     \<and> (\<forall>w. case ep_timestamper_cal_pulse (e_bus e) (e_dev e) w of (flip, w') \<Rightarrow>
           shift_set w' = shift_set w \<and> (\<not> mpll_shifter_busy (sp_mpll (sp (snd w))) \<longrightarrow> follows (e_period e) J T (shift_set w) flip))
     \<and> (\<forall>w. \<exists>up l w'. ep_link_up (e_bus e) False (e_dev e) w = Some (up, l, w') \<and> shift_set w' = shift_set w)"

lemma timestamperD:
  assumes "timestamper e J T"
  shows "shift_set (e_irq e w) = shift_set w"
    "ep_timestamper_cal_pulse (e_bus e) (e_dev e) w = (flip, w') \<Longrightarrow> \<not> mpll_shifter_busy (sp_mpll (sp (snd w)))
       \<Longrightarrow> follows (e_period e) J T (shift_set w) flip"
    "\<exists>up l w'. ep_link_up (e_bus e) False (e_dev e) w = Some (up, l, w') \<and> shift_set w' = shift_set w"
proof -
  show "shift_set (e_irq e w) = shift_set w" using assms unfolding timestamper_def by blast
  show "follows (e_period e) J T (shift_set w) flip"
    if "ep_timestamper_cal_pulse (e_bus e) (e_dev e) w = (flip, w')" "\<not> mpll_shifter_busy (sp_mpll (sp (snd w)))"
    using assms [unfolded timestamper_def, THEN conjunct2, THEN conjunct1, rule_format, of w] that by simp
  show "\<exists>up l w'. ep_link_up (e_bus e) False (e_dev e) w = Some (up, l, w') \<and> shift_set w' = shift_set w"
    using assms unfolding timestamper_def by blast
qed

text \<open>What holds after \<open>n\<close> samples.\<close>

definition scanning :: "'h rxts_env \<Rightarrow> int \<Rightarrow> int \<Rightarrow> nat \<Rightarrow> ('h, 'd) rxts \<Rightarrow> bool" where
  "scanning e J T n s \<longleftrightarrow> rx_cur_phase s = 100 * int n \<and> shift_set (rx_world s) = 100 * int n
     \<and> (\<exists>b. (\<forall>i<n. follows (e_period e) J T (100 * int i) (b i)) \<and> rx_rising s = det_run b 1 n \<and> rx_falling s = det_run b 0 n)"

definition other_parts :: "('h, 'd) rxts \<Rightarrow> 'd cal_state \<times> net" where
  "other_parts s = (rx_cal s, rx_net s)"

lemma set_shift_result:
  "\<exists>s'. rx_set_phase_shift e ps s = Some s' \<and> shift_set (rx_world s') = ps \<and> other_parts s' = other_parts s
     \<and> rx_cur_phase s' = rx_cur_phase s \<and> rx_rising s' = rx_rising s \<and> rx_falling s' = rx_falling s"
  by (simp add: rx_set_phase_shift_def spll_set_phase_shift_def SPLL_ALL_CHANNELS_def set_phase_shift_def channel_mpll_def
      shift_set_def other_parts_def)

lemma calib_init_scanning:
  "\<exists>s'. calib_t24p_init e s = Some s' \<and> scanning e J T 0 s' \<and> other_parts s' = other_parts s"
proof -
  obtain s' where "rx_set_phase_shift e 0 (s\<lparr>rx_cur_phase := 0, rx_rising := td_init, rx_falling := td_init\<rparr>) = Some s'"
    "shift_set (rx_world s') = 0" "other_parts s' = other_parts s" "rx_cur_phase s' = 0" "rx_rising s' = td_init" "rx_falling s' = td_init"
    using set_shift_result [of e 0 "s\<lparr>rx_cur_phase := 0, rx_rising := td_init, rx_falling := td_init\<rparr>"] by (auto simp: other_parts_def)
  then show ?thesis by (auto simp: calib_t24p_init_def scanning_def)
qed

lemma update_step:
  assumes e: "timestamper e J T" "e_period e = 200 * h" "9 \<le> h" "h \<le> 1000" "0 \<le> J" "J \<le> 200"
    and s: "scanning e J T n s" "n < nat (2 * h) + 16"
  defines "still \<equiv> \<not> mpll_shifter_busy (sp_mpll (sp (snd (e_irq e (rx_world s)))))"
  shows "\<exists>rv v s'. rxts_calibration_update e s = Some (rv, v, s') \<and> other_parts s' = other_parts s
    \<and> (if still then
         (if n < nat (2 * h) + 15 then rv = 0 \<and> v = None \<and> scanning e J T (n + 1) s'
          else rv = 1 \<and> (\<exists>d. v = Some (word_of_int ((T + d) mod (200 * h))) \<and> \<bar>d\<bar> \<le> J + 100))
       else rv = 0 \<and> v = None \<and> scanning e J T n s')"
proof -
  define s1 where "s1 = s\<lparr>rx_world := e_irq e (rx_world s)\<rparr>"
  have s1: "scanning e J T n s1" "other_parts s1 = other_parts s" using s(1) timestamperD(1) [OF e(1)] by (auto simp: s1_def scanning_def other_parts_def)
  have b: "spll_shifter_busy 0 (snd (rx_world s1)) = Some (\<not> still)"
    by (simp add: spll_shifter_busy_def channel_mpll_def still_def s1_def)
  have up: "rxts_calibration_update e s = (if \<not> still then Some (0, None, s1) else
      (let s = take_sample e s1 in
       if rx_cur_phase s \<ge> CAL_SCAN_RANGE (e_period e) then scan_result e s
       else do { let s = s\<lparr>rx_cur_phase := i32 (rx_cur_phase s + CAL_SCAN_STEP)\<rparr>; s \<leftarrow> rx_set_phase_shift e (rx_cur_phase s) s; Some (0, None, s) }))"
    using b by (simp add: rxts_calibration_update_def s1_def [symmetric] Let_def)
  show ?thesis
  proof (cases still)
    case False
    then show ?thesis using up s1 by simp
  next
    case True
    obtain b where b: "\<And>i. i < n \<Longrightarrow> follows (e_period e) J T (100 * int i) (b i)" "rx_rising s1 = det_run b 1 n" "rx_falling s1 = det_run b 0 n"
      and p: "rx_cur_phase s1 = 100 * int n" "shift_set (rx_world s1) = 100 * int n"
      using s1(1) by (auto simp: scanning_def)
    obtain flip w where fw: "ep_timestamper_cal_pulse (e_bus e) (e_dev e) (rx_world s1) = (flip, w)" by (rule prod.exhaust)
    have fl: "follows (e_period e) J T (100 * int n) flip"
      using timestamperD(2) [OF e(1) fw] True p(2) by (simp add: still_def s1_def)
    define b' where "b' = b(n := flip)"
    have b': "follows (e_period e) J T (100 * int i) (b' i)" if "i < Suc n" for i using b(1) fl that by (auto simp: b'_def less_Suc_eq)
    define s2 where "s2 = take_sample e s1"
    have r: "det_run b pol n = det_run b' pol n" for pol by (rule det_run_cong) (simp add: b'_def)
    have s2: "rx_cur_phase s2 = 100 * int n" "rx_rising s2 = det_run b' 1 (Suc n)" "rx_falling s2 = det_run b' 0 (Suc n)" "other_parts s2 = other_parts s"
      using p b(2,3) s1(2) unfolding s2_def take_sample_def fw by (simp_all add: r other_parts_def) (simp_all add: b'_def)
    have rg: "CAL_SCAN_RANGE (e_period e) = 200 * h + 1500" by (simp add: CAL_SCAN_RANGE_def CAL_DEGLITCH_THRESHOLD_def CAL_SCAN_STEP_def e(2))
    show ?thesis
    proof (cases "n < nat (2 * h) + 15")
      case True
      then have "100 * int n < 200 * h + 1500" using e(3) by linarith
      moreover have "i32 (100 * int n + 100) = 100 * int (Suc n)" using True e(4) by (simp add: fits32_def)
      moreover obtain s3 where "rx_set_phase_shift e (100 * int (Suc n)) (s2\<lparr>rx_cur_phase := 100 * int (Suc n)\<rparr>) = Some s3"
        "shift_set (rx_world s3) = 100 * int (Suc n)" "other_parts s3 = other_parts s2" "rx_cur_phase s3 = 100 * int (Suc n)"
        "rx_rising s3 = rx_rising s2" "rx_falling s3 = rx_falling s2"
        using set_shift_result [of e "100 * int (Suc n)" "s2\<lparr>rx_cur_phase := 100 * int (Suc n)\<rparr>"] by (auto simp: other_parts_def)
      ultimately show ?thesis using up \<open>still\<close> True s2 b'
        by (auto simp: s2_def [symmetric] rg CAL_SCAN_STEP_def scanning_def Let_def)
    next
      case False
      then have n: "Suc n = nat (2 * h) + 16" using s(2) by simp
      have ge: "200 * h + 1500 \<le> rx_cur_phase s2" using False e(3) s2(1) by linarith
      obtain tr tf d where v: "td_state (rx_rising s2) = TD_DONE" "td_state (rx_falling s2) = TD_DONE"
        "wrap_phase (200 * h) (td_trans_phase (rx_rising s2)) = Some tr" "wrap_phase (200 * h) (td_trans_phase (rx_falling s2)) = Some tf"
        "transition_of (200 * h) tr tf = (T + d) mod (200 * h)" "\<bar>d\<bar> \<le> J + 100"
        using scan_value [of h J T b', OF e(3-6)] b' unfolding s2 n e(2) by blast
      then have "\<exists>s'. scan_result e s2 = Some (1, Some (word_of_int ((T + d) mod (200 * h))), s') \<and> other_parts s' = other_parts s2"
        by (simp add: scan_result_def e(2) other_parts_def)
      then show ?thesis using up \<open>still\<close> False ge v(6) s2(4) by (auto simp: s2_def [symmetric] rg Let_def)
    qed
  qed
qed

text \<open>The conditions on the board, and a scan that has not ended.\<close>

definition calibrating :: "'h rxts_env \<Rightarrow> int \<Rightarrow> int \<Rightarrow> int \<Rightarrow> bool" where
  "calibrating e h J T \<longleftrightarrow> timestamper e J T \<and> e_period e = 200 * h \<and> 9 \<le> h \<and> h \<le> 1000 \<and> 0 \<le> J \<and> J \<le> 200"

definition in_scan :: "'h rxts_env \<Rightarrow> int \<Rightarrow> int \<Rightarrow> int \<Rightarrow> ('h, 'd) rxts \<Rightarrow> bool" where
  "in_scan e h J T s \<longleftrightarrow> (\<exists>n < nat (2 * h) + 16. scanning e J T n s)"

definition found_at :: "int \<Rightarrow> int \<Rightarrow> int \<Rightarrow> u32 \<Rightarrow> bool" where
  "found_at h J T v \<longleftrightarrow> (\<exists>d. v = word_of_int ((T + d) mod (200 * h)) \<and> \<bar>d\<bar> \<le> J + 100)"

lemma update_progress:
  assumes "calibrating e h J T" "in_scan e h J T s"
  shows "\<exists>rv v s'. rxts_calibration_update e s = Some (rv, v, s') \<and> other_parts s' = other_parts s
    \<and> (rv = 0 \<and> v = None \<and> in_scan e h J T s' \<or> rv = 1 \<and> (\<exists>x. v = Some x \<and> found_at h J T x))"
proof -
  obtain n where n: "n < nat (2 * h) + 16" "scanning e J T n s" using assms(2) by (auto simp: in_scan_def)
  note c = assms(1) [unfolded calibrating_def]
  from update_step [of e J T h n s] c n obtain rv v s' where u: "rxts_calibration_update e s = Some (rv, v, s')" "other_parts s' = other_parts s"
    and d: "if \<not> mpll_shifter_busy (sp_mpll (sp (snd (e_irq e (rx_world s))))) then
         (if n < nat (2 * h) + 15 then rv = 0 \<and> v = None \<and> scanning e J T (n + 1) s'
          else rv = 1 \<and> (\<exists>d. v = Some (word_of_int ((T + d) mod (200 * h))) \<and> \<bar>d\<bar> \<le> J + 100))
       else rv = 0 \<and> v = None \<and> scanning e J T n s'" by blast
  have i: "in_scan e h J T s'" if "scanning e J T m s'" "m < nat (2 * h) + 16" for m using that unfolding in_scan_def by blast
  have "rv = 0 \<and> v = None \<and> in_scan e h J T s' \<or> rv = 1 \<and> (\<exists>x. v = Some x \<and> found_at h J T x)"
    using d i [of "n + 1"] i [of n] n(1) unfolding found_at_def by (auto split: if_splits)
  then show ?thesis using u by blast
qed

lemma calib_loop_result:
  assumes "calibrating e h J T" "in_scan e h J T s"
  shows "\<exists>g rv val' s'. calib_loop e retries val s = Some (g, rv, val', s') \<and> other_parts s' = other_parts s
    \<and> (if g then in_scan e h J T s' else rv = 1 \<and> (\<exists>x. val' = Some x \<and> found_at h J T x))"
  using assms(2)
proof (induction "CALIB_RETRIES + 1 - retries" arbitrary: retries s rule: less_induct)
  case less
  obtain rv v s1 where u: "rxts_calibration_update e s = Some (rv, v, s1)" "other_parts s1 = other_parts s"
    and d: "rv = 0 \<and> v = None \<and> in_scan e h J T s1 \<or> rv = 1 \<and> (\<exists>x. v = Some x \<and> found_at h J T x)"
    using update_progress [OF assms(1) less.prems] by blast
  show ?case
  proof (cases "rv = 0 \<and> \<not> retries > CALIB_RETRIES")
    case False
    have e: "calib_loop e retries val s = Some (rv = 0, rv, (case v of None \<Rightarrow> val | Some v \<Rightarrow> Some v), s1)"
      by (subst calib_loop.simps) (use u(1) False in \<open>simp add: Let_def\<close>)
    show ?thesis using d
    proof (elim disjE conjE exE)
      assume "rv = 0" "v = None" "in_scan e h J T s1"
      then show ?thesis using e u(2) by auto
    next
      fix x assume "rv = 1" "v = Some x" "found_at h J T x"
      then show ?thesis using e u(2) by auto
    qed
  next
    case True
    then have v: "rv = 0" "v = None" "in_scan e h J T s1" "\<not> retries > CALIB_RETRIES" using d by auto
    obtain up l w where l: "ep_link_up (e_bus e) False (e_dev e) (rx_world s1) = Some (up, l, w)" "shift_set w = shift_set (rx_world s1)"
      using timestamperD(3) assms(1) unfolding calibrating_def by blast
    define s2 where "s2 = s1\<lparr>rx_world := w\<rparr>"
    have s2: "in_scan e h J T s2" "other_parts s2 = other_parts s"
      using v(3) l(2) u(2) by (auto simp: in_scan_def scanning_def s2_def other_parts_def)
    have e: "calib_loop e retries val s = (if up = 0 then Some (True, 0, val, s2) else calib_loop e (retries + 1) val s2)"
      by (subst calib_loop.simps) (use u(1) v l(1) in \<open>simp add: s2_def Let_def\<close>)
    show ?thesis
    proof (cases "up = 0")
      case True
      then show ?thesis using e s2 by auto
    next
      case False
      have "\<exists>g rv val' s'. calib_loop e (retries + 1) val s2 = Some (g, rv, val', s') \<and> other_parts s' = other_parts s2
          \<and> (if g then in_scan e h J T s' else rv = 1 \<and> (\<exists>x. val' = Some x \<and> found_at h J T x))"
        using less.hyps [OF _ s2(1), of "retries + 1"] v(4) by simp
      then show ?thesis using e False s2(2) by simp
    qed
  qed
qed

lemma save_total:
  assumes "cal_ok (cs_cal s)" "k \<in> dom (cal_map (cs_cal s)) \<or> card (dom (cal_map (cs_cal s))) < CAL_MAX_PARAMS"
  shows "\<exists>r s'. storage_set_calibration_parameter_and_save ops k v s = Some (r, s') \<and> cal_ok (cs_cal s') \<and> cal_map (cs_cal s') k = Some v"
proof -
  obtain c where c: "storage_set_calibration_parameter k v (cs_cal s) = Some (0, c)" "cal_ok c" "cal_map c = (cal_map (cs_cal s))(k \<mapsto> v)"
    using cal_store.put_view [OF assms, of v] by blast
  obtain ck where ck: "calc_checksum (c\<lparr>cd_magic := CAL_FILE_MAGIC\<rparr>) = Some ck" using checksum_defined c(2) by (metis cal_ok_frame(1))
  have "\<exists>r' s'. storage_save_calibration ops (s\<lparr>cs_cal := c\<rparr>) = Some (r', s') \<and> cal_ok (cs_cal s') \<and> cal_map (cs_cal s') = cal_map c"
    unfolding storage_save_calibration_def using c(2) ck by (simp add: Let_def case_prod_beta)
  then show ?thesis using c(1,3) by (auto simp: storage_set_calibration_parameter_and_save_def)
qed

text \<open>What is used in the end: the value found, or the stored one if it is at most 2000 ps from it.\<close>

definition usable :: "int \<Rightarrow> int \<Rightarrow> int \<Rightarrow> u32 \<Rightarrow> bool" where
  "usable h J T v \<longleftrightarrow> found_at h J T v \<or> (\<exists>x. found_at h J T x \<and> \<bar>uint v - uint x\<bar> \<le> 2000)"

lemma threshold:
  fixes p v :: u32
  assumes "\<not> p < v - 2000" "\<not> p > v + 2000" "v \<le> 1000000"
  shows "\<bar>uint p - uint v\<bar> \<le> 2000"
proof -
  have v: "uint v \<le> 1000000" using assms(3) by (simp add: word_le_def)
  have p: "uint (v + 2000) = uint v + 2000" using v by (simp add: uint_word_ariths take_bit_eq_mod)
  then have "uint p \<le> uint v + 2000" using assms(2) by (simp add: word_less_def)
  moreover have "uint v - 2000 \<le> uint p"
  proof (cases "uint v < 2000")
    case True
    then show ?thesis using uint_nonnegative [of p] by linarith
  next
    case False
    then have "uint (v - 2000) = uint v - 2000" using v by (simp add: uint_word_ariths take_bit_eq_mod)
    then show ?thesis using assms(1) by (simp add: word_less_def)
  qed
  ultimately show ?thesis by linarith
qed

lemma found_small:
  assumes "found_at h J T v" "9 \<le> h" "h \<le> 1000"
  shows "v \<le> 1000000"
proof -
  obtain d where d: "v = word_of_int ((T + d) mod (200 * h))" using assms(1) by (auto simp: found_at_def)
  have r: "0 \<le> (T + d) mod (200 * h)" "(T + d) mod (200 * h) < 200 * h" using assms(2) by simp_all
  then have "uint v = (T + d) mod (200 * h)" using assms(3) unfolding d by (simp add: uint_word_of_int take_bit_eq_mod)
  then show ?thesis using r assms(3) by (simp add: word_le_def)
qed

lemma accept_result:
  assumes "found_at h J T v" "9 \<le> h" "h \<le> 1000" "cal_ok (cs_cal (rx_cal s))"
    "CAL_PARAM_T24P \<in> dom (cal_map (cs_cal (rx_cal s))) \<or> card (dom (cal_map (cs_cal (rx_cal s)))) < CAL_MAX_PARAMS"
  shows "\<exists>x s'. t24p_accept ops v s = Some (0, Some x, s') \<and> usable h J T x \<and> rx_net s' = rx_net s
    \<and> cal_ok (cs_cal (rx_cal s')) \<and> cal_map (cs_cal (rx_cal s')) CAL_PARAM_T24P = Some x"
proof -
  let ?m = "cal_map (cs_cal (rx_cal s))"
  note g = cal_store.get_view [OF assms(4), of CAL_PARAM_T24P]
  obtain r c where c: "storage_set_calibration_parameter_and_save ops CAL_PARAM_T24P v (rx_cal s) = Some (r, c)" "cal_ok (cs_cal c)"
    "cal_map (cs_cal c) CAL_PARAM_T24P = Some v"
    using save_total [OF assms(4,5), of ops v] by blast
  have u: "usable h J T v" using assms(1) by (simp add: usable_def)
  show ?thesis
  proof (cases "\<exists>p. ?m CAL_PARAM_T24P = Some p \<and> \<not> p < v - 2000 \<and> \<not> p > v + 2000")
    case True
    then obtain p where p: "?m CAL_PARAM_T24P = Some p" "\<not> p < v - 2000" "\<not> p > v + 2000" by blast
    have "usable h J T p" using threshold [OF p(2,3) found_small [OF assms(1-3)]] assms(1) by (auto simp: usable_def)
    then show ?thesis using g p assms(4) by (simp add: t24p_accept_def CALIB_T24P_RECALIBRATE_THRESHOLD_def)
  next
    case False
    then have "t24p_accept ops v s = Some (0, Some v, s\<lparr>rx_cal := c\<rparr>)"
      using g c(1) by (cases "?m CAL_PARAM_T24P") (auto simp: t24p_accept_def CALIB_T24P_RECALIBRATE_THRESHOLD_def)
    then show ?thesis using u c by simp
  qed
qed

text \<open>The states between the calls: after the start, and after calls that gave up.\<close>

inductive calib_reach :: "'h rxts_env \<Rightarrow> 'd storage_rwops \<Rightarrow> ('h, 'd) rxts \<Rightarrow> ('h, 'd) rxts \<Rightarrow> bool" for e ops s0 where
  start: "calib_t24p_init e s0 = Some s \<Longrightarrow> calib_reach e ops s0 s"
| again: "calib_reach e ops s0 s \<Longrightarrow> calib_t24p e ops s = Some (- 1, s') \<Longrightarrow> calib_reach e ops s0 s'"

definition room_for_t24p :: "('h, 'd) rxts \<Rightarrow> bool" where
  "room_for_t24p s \<longleftrightarrow> cal_ok (cs_cal (rx_cal s)) \<and> n_netifs (rx_net s) \<noteq> []
     \<and> (CAL_PARAM_T24P \<in> dom (cal_map (cs_cal (rx_cal s))) \<or> card (dom (cal_map (cs_cal (rx_cal s)))) < CAL_MAX_PARAMS)"

lemma room_parts: "other_parts s' = other_parts s \<Longrightarrow> room_for_t24p s' = room_for_t24p s"
  by (simp add: other_parts_def room_for_t24p_def)

definition calibrated :: "int \<Rightarrow> int \<Rightarrow> int \<Rightarrow> ('h, 'd) rxts \<Rightarrow> u32 \<Rightarrow> bool" where
  "calibrated h J T s v \<longleftrightarrow> usable h J T v \<and> nd_phase_transition (n_netifs (rx_net s) ! 0) = v
     \<and> cal_ok (cs_cal (rx_cal s)) \<and> cal_map (cs_cal (rx_cal s)) CAL_PARAM_T24P = Some v"

lemma calib_after_loop:
  assumes l: "calib_loop e 0 None s = Some (g, rv, val, s1)" "other_parts s1 = other_parts s"
    and r: "room_for_t24p s" "9 \<le> h" "h \<le> 1000" and v: "\<not> g \<Longrightarrow> rv = 1 \<and> (\<exists>x. val = Some x \<and> found_at h J T x)"
  shows "\<exists>s'. calib_t24p e ops s = Some (if g then - 1 else 0, s') \<and> (if g then s' = s1 else (\<exists>x. calibrated h J T s' x))"
proof (cases g)
  case True
  then show ?thesis using l by (simp add: calib_t24p_def calib_t24p_process_def set_transition_def)
next
  case False
  then obtain x where x: "rv = 1" "val = Some x" "found_at h J T x" using v by blast
  note r1 = r(1) [folded room_parts [OF l(2)], unfolded room_for_t24p_def]
  obtain y s' where a: "t24p_accept ops x s1 = Some (0, Some y, s')" "usable h J T y" "rx_net s' = rx_net s1" "cal_ok (cs_cal (rx_cal s'))"
    "cal_map (cs_cal (rx_cal s')) CAL_PARAM_T24P = Some y"
    using accept_result [OF x(3) r(2,3), of s1 ops] r1 by blast
  obtain n where n: "netif_set_phase_transition 0 y (rx_net s') = Some n" "nd_phase_transition (n_netifs n ! 0) = y"
    using r1 a(3) by (auto simp: netif_set_phase_transition_def load_def)
  have "calib_t24p e ops s = Some (0, s'\<lparr>rx_net := n\<rparr>)"
    using l(1) False x a(1) n(1) by (simp add: calib_t24p_def calib_t24p_process_def set_transition_def)
  then show ?thesis using False a n(2) by (auto simp: calibrated_def)
qed

lemma calib_reach_scan:
  assumes "calib_reach e ops s0 s" "calibrating e h J T" "room_for_t24p s0"
  shows "in_scan e h J T s \<and> other_parts s = other_parts s0"
  using assms(1)
proof induction
  case (start s)
  then have "scanning e J T 0 s \<and> other_parts s = other_parts s0"
    using calib_init_scanning [of e s0 J T] assms(2) unfolding calibrating_def by auto
  then show ?case using assms(2) by (auto simp: in_scan_def calibrating_def intro!: exI [of _ 0])
next
  case (again s s')
  obtain g rv val s1 where l: "calib_loop e 0 None s = Some (g, rv, val, s1)" "other_parts s1 = other_parts s"
    "if g then in_scan e h J T s1 else rv = 1 \<and> (\<exists>x. val = Some x \<and> found_at h J T x)"
    using calib_loop_result [OF assms(2)] again.IH by blast
  have "room_for_t24p s" using again.IH assms(3) room_parts by blast
  then have "\<exists>s'. calib_t24p e ops s = Some (if g then - 1 else 0, s') \<and> (if g then s' = s1 else (\<exists>x. calibrated h J T s' x))"
    using calib_after_loop [OF l(1,2)] l(3) assms(2) by (auto simp: calibrating_def split: if_splits)
  then have "g" "s' = s1" using again.hyps(2) by (auto split: if_splits)
  then show ?case using l again.IH by simp
qed

lemma calib_loop_completes:
  assumes c: "calibrating e h J T" and st: "\<And>w. \<not> mpll_shifter_busy (sp_mpll (sp (snd (e_irq e w))))"
    and up: "\<And>w. \<exists>u l w'. ep_link_up (e_bus e) False (e_dev e) w = Some (u, l, w') \<and> u \<noteq> 0"
    and s: "scanning e J T n s" "n < nat (2 * h) + 16" "retries + (nat (2 * h) + 15 - n) \<le> CALIB_RETRIES + 1"
  shows "\<exists>rv val' s'. calib_loop e retries val s = Some (False, rv, val', s')"
  using s
proof (induction "nat (2 * h) + 15 - n" arbitrary: n retries s)
  case 0
  then have n: "\<not> n < nat (2 * h) + 15" by simp
  obtain v s' where "rxts_calibration_update e s = Some (1, v, s')"
    using update_step [of e J T h n s] c 0 st n unfolding calibrating_def by auto
  then show ?case by (subst calib_loop.simps) (simp add: Let_def)
next
  case (Suc m)
  have n: "n < nat (2 * h) + 15" using Suc.hyps(2) by simp
  obtain s1 where s1: "rxts_calibration_update e s = Some (0, None, s1)" "scanning e J T (n + 1) s1"
    using update_step [of e J T h n s] c Suc.prems st n unfolding calibrating_def by auto
  obtain u l w where l: "ep_link_up (e_bus e) False (e_dev e) (rx_world s1) = Some (u, l, w)" "u \<noteq> 0" "shift_set w = shift_set (rx_world s1)"
    using up [of "rx_world s1"] timestamperD(3) [of e J T "rx_world s1"] c unfolding calibrating_def by auto
  have "scanning e J T (n + 1) (s1\<lparr>rx_world := w\<rparr>)" using s1(2) l(3) by (simp add: scanning_def)
  then have "\<exists>rv val' s'. calib_loop e (retries + 1) val (s1\<lparr>rx_world := w\<rparr>) = Some (False, rv, val', s')"
    using Suc.hyps(1) [of "n + 1" "s1\<lparr>rx_world := w\<rparr>" "retries + 1"] Suc.hyps(2) Suc.prems n by simp
  moreover have "\<not> retries > CALIB_RETRIES" using Suc.hyps(2) Suc.prems(3) by simp
  ultimately show ?case using s1(1) l by (subst calib_loop.simps) (simp add: Let_def)
qed

lemma calib_completes:
  assumes "calibrating e h J T" "h \<le> 493" "room_for_t24p s0" "calib_t24p_init e s0 = Some s"
    and "\<And>w. \<not> mpll_shifter_busy (sp_mpll (sp (snd (e_irq e w))))"
    and "\<And>w. \<exists>u l w'. ep_link_up (e_bus e) False (e_dev e) w = Some (u, l, w') \<and> u \<noteq> 0"
  shows "\<exists>s' v. calib_t24p e ops s = Some (0, s') \<and> calibrated h J T s' v"
proof -
  have sc: "scanning e J T 0 s" "other_parts s = other_parts s0" using calib_init_scanning [of e s0 J T] assms(4) by auto
  have i: "in_scan e h J T s" unfolding in_scan_def by (rule exI [of _ 0]) (use sc(1) in simp)
  obtain g rv val s1 where l: "calib_loop e 0 None s = Some (g, rv, val, s1)" "other_parts s1 = other_parts s"
    "if g then in_scan e h J T s1 else rv = 1 \<and> (\<exists>x. val = Some x \<and> found_at h J T x)"
    using calib_loop_result [OF assms(1) i] by blast
  have "\<exists>rv val' s'. calib_loop e 0 None s = Some (False, rv, val', s')"
    by (rule calib_loop_completes [OF assms(1,5,6) sc(1)]) (use assms(2) in \<open>simp_all add: CALIB_RETRIES_def\<close>)
  then have "\<not> g" using l(1) by simp
  moreover have "room_for_t24p s" using room_parts [OF sc(2)] assms(3) by simp
  ultimately show ?thesis using calib_after_loop [OF l(1,2), of h J T ops] l(3) assms(1) by (auto simp: calibrating_def)
qed

subsection \<open>What a success leaves\<close>

lemma update_parts: "rxts_calibration_update e s = Some (rv, v, s') \<Longrightarrow> other_parts s' = other_parts s"
  by (auto simp: rxts_calibration_update_def scan_result_def take_sample_def rx_set_phase_shift_def other_parts_def Let_def split_beta
      split: if_splits bind_splits)

lemma loop_parts: "calib_loop e retries val s = Some (g, rv, val', s') \<Longrightarrow> other_parts s' = other_parts s"
proof (induction e retries val s rule: calib_loop.induct)
  case (1 e retries val s)
  obtain rv1 v1 s1 where u: "rxts_calibration_update e s = Some (rv1, v1, s1)" using 1(2) by (subst (asm) calib_loop.simps) (auto split: option.splits)
  have p: "other_parts s1 = other_parts s" by (rule update_parts [OF u])
  show ?case
  proof (cases "rv1 \<noteq> 0 \<or> retries > CALIB_RETRIES")
    case True
    then show ?thesis using 1(2) u p by (subst (asm) calib_loop.simps) (auto simp: Let_def split: if_splits)
  next
    case False
    obtain up l w where l: "ep_link_up (e_bus e) False (e_dev e) (rx_world s1) = Some (up, l, w)"
      using 1(2) u False by (subst (asm) calib_loop.simps) (auto simp: Let_def split: option.splits)
    have p2: "other_parts (s1\<lparr>rx_world := w\<rparr>) = other_parts s1" by (simp add: other_parts_def)
    show ?thesis
    proof (cases "up = 0")
      case True
      then show ?thesis using 1(2) u False l p p2 by (subst (asm) calib_loop.simps) (auto simp: Let_def)
    next
      case up: False
      have "calib_loop e (retries + 1) (case v1 of None \<Rightarrow> val | Some v \<Rightarrow> Some v) (s1\<lparr>rx_world := w\<rparr>) = Some (g, rv, val', s')"
        using 1(2) u False l up by (subst (asm) calib_loop.simps) (simp add: Let_def)
      then have "other_parts s' = other_parts (s1\<lparr>rx_world := w\<rparr>)" using 1(1) [OF u] False l up by simp
      then show ?thesis using p p2 by simp
    qed
  qed
qed

text \<open>On any hardware: after a success, the transition in use is in the table, which was kept or saved with it.\<close>

lemma calib_success:
  assumes "calib_t24p e ops s = Some (0, s')" "cal_ok (cs_cal (rx_cal s))"
  shows "\<exists>v. nd_phase_transition (n_netifs (rx_net s') ! 0) = v
    \<and> (rx_cal s' = rx_cal s \<and> cal_map (cs_cal (rx_cal s)) CAL_PARAM_T24P = Some v
       \<or> (\<exists>r. storage_set_calibration_parameter_and_save ops CAL_PARAM_T24P v (rx_cal s) = Some (r, rx_cal s')))"
proof -
  obtain g rv val s1 where l: "calib_loop e 0 None s = Some (g, rv, val, s1)"
    using assms(1) by (auto simp: calib_t24p_def calib_t24p_process_def split: bind_splits)
  have p: "rx_cal s1 = rx_cal s" "rx_net s1 = rx_net s" using loop_parts [OF l] by (simp_all add: other_parts_def)
  note gv = cal_store.get_view [OF assms(2), of CAL_PARAM_T24P]
  obtain r val2 s2 where c: "calib_t24p_process e ops s = Some (0, val2, s2)" "set_transition 0 val2 s2 = Some s'"
    using assms(1) by (auto simp: calib_t24p_def split: bind_splits)
  obtain v n where v: "val2 = Some v" "netif_set_phase_transition 0 v (rx_net s2) = Some n" "s' = s2\<lparr>rx_net := n\<rparr>"
    using c(2) by (auto simp: set_transition_def split: bind_splits)
  have t: "nd_phase_transition (n_netifs (rx_net s') ! 0) = v"
    using v(2,3) by (auto simp: netif_set_phase_transition_def load_def split: if_splits)
  have "rx_cal s2 = rx_cal s \<and> cal_map (cs_cal (rx_cal s)) CAL_PARAM_T24P = Some v
      \<or> (\<exists>r. storage_set_calibration_parameter_and_save ops CAL_PARAM_T24P v (rx_cal s) = Some (r, rx_cal s2))"
    using c(1) l p v(1) gv unfolding calib_t24p_process_def
    by (auto simp: calib_t24p_load_verbose_def t24p_accept_def split: if_splits option.splits bind_splits)
  then show ?thesis using t v(3) by auto
qed

section \<open>Properties\<close>

text \<open>
  C32. The calibration of the receive time stamps is accurate. If, while the phase shifter stands still, the bit of the endpoint follows the phase with
  a jitter of at most 200 ps around a transition at \<open>T\<close>, then after \<open>calib_t24p_init\<close> and any number of calls of \<open>calib_t24p\<close> that gave up
  (link lost, or 1002 rounds without an end), the next call returns. Either it gives up too, with the calibration data and the network device
  untouched; or it returns 0, and the value in the calibration data and the transition used by the network device are the same, and within
  the jitter and 100 ps of \<open>T\<close> modulo the clock period, or a stored value at most 2000 ps from such a value.
\<close>

theorem calibration_is_accurate:
  assumes "calibrating e h J T" "calib_reach e ops s0 s" "room_for_t24p s0"
  shows "\<exists>r s'. calib_t24p e ops s = Some (r, s')
    \<and> (r = - 1 \<and> calib_reach e ops s0 s' \<and> rx_cal s' = rx_cal s0 \<and> rx_net s' = rx_net s0 \<or> r = 0 \<and> (\<exists>v. calibrated h J T s' v))"
proof -
  have s: "in_scan e h J T s" "other_parts s = other_parts s0" using calib_reach_scan [OF assms(2,1,3)] by auto
  obtain g rv val s1 where l: "calib_loop e 0 None s = Some (g, rv, val, s1)" "other_parts s1 = other_parts s"
    "if g then in_scan e h J T s1 else rv = 1 \<and> (\<exists>x. val = Some x \<and> found_at h J T x)"
    using calib_loop_result [OF assms(1) s(1)] by blast
  have "room_for_t24p s" using room_parts [OF s(2)] assms(3) by simp
  then obtain s' where s': "calib_t24p e ops s = Some (if g then - 1 else 0, s')" "if g then s' = s1 else (\<exists>x. calibrated h J T s' x)"
    using calib_after_loop [OF l(1,2), of h J T ops] l(3) assms(1) by (auto simp: calibrating_def split: if_splits)
  show ?thesis
  proof (cases g)
    case True
    then have "calib_reach e ops s0 s'" using calib_reach.again [OF assms(2)] s'(1) by simp
    moreover have "rx_cal s' = rx_cal s0" "rx_net s' = rx_net s0" using True s'(2) l(2) s(2) by (auto simp: other_parts_def)
    ultimately show ?thesis using True s'(1) by auto
  next
    case False
    then show ?thesis using s' by auto
  qed
qed

text \<open>A bit that changes at phase 5000 of a period of 16000, a shifter that has moved at each interrupt, and a link that is up.\<close>

definition example_bus :: "(unit \<times> sys) reg_bus" where
  "example_bus = \<lparr>bus_read = \<lambda>a w. (if a = EP_REG_TSCR then if (shift_set w - 5000) mod 16000 < 8000 then 0x20 else 0 else 0x80000024, w),
     bus_write = \<lambda>a d w. w, bus_delay = \<lambda>n w. w\<rparr>"

definition example_env :: "unit rxts_env" where
  "example_env = \<lparr>e_bus = example_bus,
     e_irq = \<lambda>(h, y). (h, y\<lparr>sp := (sp y)\<lparr>sp_mpll := (sp_mpll (sp y))\<lparr>m_phase_shift_current := m_phase_shift_target (sp_mpll (sp y))\<rparr>\<rparr>\<rparr>),
     e_dev = example_dev, e_spll = Spll_Helper.example_cfg, e_period = 16000\<rparr>"

definition example_rxts :: "(unit, int \<Rightarrow> u8) rxts" where
  "example_rxts = \<lparr>rx_world = ((), example_sys), rx_rising = td_init, rx_falling = td_init, rx_cur_phase = 0,
     rx_cal = \<lparr>cs_cal = example_cal, cs_loaded = True, cs_fs = example_fs\<rparr>, rx_net = example_net []\<rparr>"

lemma example_link: "ep_link_up (e_bus example_env) False (e_dev example_env) w = Some (1, None, w)"
proof -
  have m: "mdio_wait example_bus (e_dev example_env) w = Some w" for w
    by (subst mdio_wait.simps) (simp add: ep_read_def example_bus_def example_env_def example_dev_def EP_REG_MDIO_ASR_def EP_REG_TSCR_def EP_MDIO_ASR_READY_def)
  have r: "ep_pcs_read example_bus (e_dev example_env) l w = Some (0x24, w)" for l w
    using m by (simp add: ep_pcs_read_def ep_write_def ep_read_def)
      (simp add: example_bus_def example_env_def example_dev_def EP_REG_MDIO_ASR_def EP_REG_MDIO_CR_def EP_REG_TSCR_def)
  have "e_bus example_env = example_bus" "ep_flags (e_dev example_env) = 0" by (simp_all add: example_env_def example_dev_def)
  then show ?thesis using r by (simp add: ep_link_up_def EP_MDIO_MSR_LSTATUS_def)
qed

lemma example_pulse:
  "ep_timestamper_cal_pulse (e_bus example_env) (e_dev example_env) w = (if (shift_set w - 5000) mod 16000 < 8000 then 1 else 0, w)"
  by (simp add: ep_timestamper_cal_pulse_def ep_read_def ep_write_def example_env_def example_dev_def example_bus_def EP_REG_TSCR_def EP_TSCR_RX_CAL_RESULT_def)

lemma example_calibrating: "calibrating example_env 80 0 5000"
proof -
  have "shift_set (e_irq example_env w) = shift_set w" for w by (simp add: example_env_def shift_set_def split_beta)
  moreover have "e_period example_env = 16000" by (simp add: example_env_def)
  ultimately show ?thesis by (auto simp: calibrating_def timestamper_def example_pulse example_link follows_def)
qed

lemma example_room: "room_for_t24p example_rxts"
  using example_cal_ok by (simp add: room_for_t24p_def example_rxts_def example_net_def CAL_MAX_PARAMS_def)

lemma example_rest: "\<not> mpll_shifter_busy (sp_mpll (sp (snd (e_irq example_env w))))"
  by (simp add: example_env_def mpll_shifter_busy_def split_beta)

lemma example_up: "\<exists>u l w'. ep_link_up (e_bus example_env) False (e_dev example_env) w = Some (u, l, w') \<and> u \<noteq> 0"
  using example_link [of w] by (metis zero_neq_one)

theorem calibration_is_accurate_witness:
  "\<exists>s r s'. calib_t24p_init example_env example_rxts = Some s \<and> calib_t24p example_env ram_ops s = Some (r, s')
    \<and> (r = - 1 \<and> rx_cal s' = rx_cal example_rxts \<or> r = 0 \<and> (\<exists>v. calibrated 80 0 5000 s' v))"
proof -
  obtain s where s: "calib_t24p_init example_env example_rxts = Some s"
    using calib_init_scanning [of example_env example_rxts 0 5000] by blast
  with calibration_is_accurate [OF example_calibrating calib_reach.start example_room] show ?thesis by blast
qed

text \<open>
  C33. The calibration ends. If moreover the phase shifter has come to rest whenever it is looked at, the link stays up, and the period is
  at most 98600 ps, the first call of \<open>calib_t24p\<close> after \<open>calib_t24p_init\<close> returns 0 with such a value: the 1002 rounds of its loop are enough.
\<close>

theorem calibration_completes:
  assumes "calibrating e h J T" "h \<le> 493" "room_for_t24p s0" "calib_t24p_init e s0 = Some s"
    and "\<And>w. \<not> mpll_shifter_busy (sp_mpll (sp (snd (e_irq e w))))"
    and "\<And>w. \<exists>u l w'. ep_link_up (e_bus e) False (e_dev e) w = Some (u, l, w') \<and> u \<noteq> 0"
  shows "\<exists>s' v. calib_t24p e ops s = Some (0, s') \<and> calibrated h J T s' v"
  by (rule calib_completes [OF assms])

theorem calibration_completes_witness:
  "\<exists>s s' v. calib_t24p_init example_env example_rxts = Some s \<and> calib_t24p example_env ram_ops s = Some (0, s') \<and> calibrated 80 0 5000 s' v"
proof -
  obtain s where s: "calib_t24p_init example_env example_rxts = Some s"
    using calib_init_scanning [of example_env example_rxts 0 5000] by blast
  have "(80 :: int) \<le> 493" by simp
  from calibration_completes [OF example_calibrating this example_room s example_rest example_up, of ram_ops] s show ?thesis by blast
qed

end
