(* ===== verification/W1.thy ===== *)
theory W1
  imports Wrpc_Prelude
begin

text \<open>
  The one-wire bus: \<^verbatim>\<open>dev/w1-hw.c\<close> (one bit at a time through the registers of the master core) and \<^verbatim>\<open>dev/w1.c\<close> (bytes, the search for the devices
  on the bus, and the selection of one). The devices are hardware: what the code relies on is that each slot on the bus does what the one-wire
  protocol says (\<open>onewire\<close>, over the state machine \<open>line_slot\<close> of the devices).

  Results: the search finds exactly the devices on the bus if their identifiers differ in the low 32 bits; if they first differ above, the
  truncation of the 64-bit choice to an \<open>int\<close> makes it report devices that do not exist.
\<close>

unbundle bit_operations_syntax

section \<open>Definitions\<close>

type_synonym u64 = "64 word"

subsection \<open>Slots\<close>

definition SOCKIT_OWM_CTL_DAT_MSK :: u32 where "SOCKIT_OWM_CTL_DAT_MSK = 1"
definition SOCKIT_OWM_CTL_RST_MSK :: u32 where "SOCKIT_OWM_CTL_RST_MSK = 2"
definition SOCKIT_OWM_CTL_CYC_MSK :: u32 where "SOCKIT_OWM_CTL_CYC_MSK = 8"
definition W1_MAX_DEVICES :: nat where "W1_MAX_DEVICES = 8"
definition W1_CMD_MATCH_ROM :: int where "W1_CMD_MATCH_ROM = 0x55"

partial_function (option) wait_cycle :: "'w reg_bus \<Rightarrow> u32 \<Rightarrow> 'w \<Rightarrow> (u32 \<times> 'w) option" where
  "wait_cycle bus base w =
     (let (reg, w) = bus_read bus base w
      in if reg AND SOCKIT_OWM_CTL_CYC_MSK \<noteq> 0 then wait_cycle bus base w else Some (reg, w))"

definition w1_reset :: "'w reg_bus \<Rightarrow> u32 \<Rightarrow> 'w \<Rightarrow> (int \<times> 'w) option" where
  "w1_reset bus base w = do {
     (reg, w) \<leftarrow> wait_cycle bus base (bus_write bus base (SOCKIT_OWM_CTL_CYC_MSK OR SOCKIT_OWM_CTL_RST_MSK) w);
     Some (if reg AND SOCKIT_OWM_CTL_DAT_MSK \<noteq> 0 then 0 else 1, w)
   }"

definition w1_read_bit :: "'w reg_bus \<Rightarrow> u32 \<Rightarrow> 'w \<Rightarrow> (int \<times> 'w) option" where
  "w1_read_bit bus base w = do {
     (reg, w) \<leftarrow> wait_cycle bus base (bus_write bus base (SOCKIT_OWM_CTL_CYC_MSK OR SOCKIT_OWM_CTL_DAT_MSK) w);
     Some (if reg AND SOCKIT_OWM_CTL_DAT_MSK \<noteq> 0 then 1 else 0, w)
   }"

definition w1_write_bit :: "'w reg_bus \<Rightarrow> u32 \<Rightarrow> int \<Rightarrow> 'w \<Rightarrow> 'w option" where
  "w1_write_bit bus base b w = do {
     (reg, w) \<leftarrow> wait_cycle bus base (bus_write bus base (SOCKIT_OWM_CTL_CYC_MSK OR (if b \<noteq> 0 then SOCKIT_OWM_CTL_DAT_MSK else 0)) w);
     Some w
   }"

text \<open>\<open>IOWR_SOCKIT_OWM_CDR(BASE_ONEWIRE, \<dots>)\<close>\<close>

definition w1_init :: "'w reg_bus \<Rightarrow> u32 \<Rightarrow> u32 \<Rightarrow> 'w \<Rightarrow> 'w" where
  "w1_init bus base cpu_clock w =
     bus_write bus (base + 4) (((cpu_clock div 200000 - 1) AND 0xffff) OR (push_bit 16 (cpu_clock div 1000000 - 1) AND 0xffff0000)) w"

subsection \<open>Bytes\<close>

text \<open>\<open>for (i = 1; i < 0x100; i <<= 1)\<close>: the bits from the lowest.\<close>

definition w1_write_byte :: "'w reg_bus \<Rightarrow> u32 \<Rightarrow> int \<Rightarrow> 'w \<Rightarrow> 'w option" where
  "w1_write_byte bus base byte = for_each (\<lambda>i. w1_write_bit bus base (if byte AND 2 ^ i \<noteq> 0 then 1 else 0)) [0..<8]"

fun read_bits :: "'w reg_bus \<Rightarrow> u32 \<Rightarrow> nat list \<Rightarrow> int \<Rightarrow> 'w \<Rightarrow> (int \<times> 'w) option" where
  "read_bits bus base [] res w = Some (res, w)"
| "read_bits bus base (i # is) res w = do {
     (b, w) \<leftarrow> w1_read_bit bus base w;
     read_bits bus base is (res OR (if b \<noteq> 0 then 2 ^ i else 0)) w
   }"

definition w1_read_byte :: "'w reg_bus \<Rightarrow> u32 \<Rightarrow> 'w \<Rightarrow> (int \<times> 'w) option" where
  "w1_read_byte bus base w = read_bits bus base [0..<8] 0 w"

subsection \<open>The search\<close>

datatype bits = B_0 | B_1 | B_BOTH

definition get_dibit :: "'w reg_bus \<Rightarrow> u32 \<Rightarrow> int \<Rightarrow> 'w \<Rightarrow> (bits \<times> 'w) option" where
  "get_dibit bus base sel w = do {
     (a, w) \<leftarrow> w1_read_bit bus base w;
     (b, w) \<leftarrow> w1_read_bit bus base w;
     if a \<noteq> b then do { w \<leftarrow> w1_write_bit bus base a w; Some (if a \<noteq> 0 then B_1 else B_0, w) }
     else do { w \<leftarrow> w1_write_bit bus base sel w; Some (B_BOTH, w) }
   }"

text \<open>\<open>for (mask = 1; mask; mask <<= 1)\<close>, over the positions of the bit; \<open>select\<close> is an \<open>int\<close>.\<close>

fun scan_bits :: "'w reg_bus \<Rightarrow> u32 \<Rightarrow> nat list \<Rightarrow> u64 \<Rightarrow> u64 \<Rightarrow> 'w \<Rightarrow> (u64 \<times> u64 \<times> 'w) option" where
  "scan_bits bus base [] rom cmask w = Some (rom, cmask, w)"
| "scan_bits bus base (k # ks) rom cmask w = do {
     let m = 2 ^ k;
     let sel = i32 (uint (rom AND m));
     (b, w) \<leftarrow> get_dibit bus base sel w;
     (case b of
        B_1 \<Rightarrow> scan_bits bus base ks (rom OR m) cmask w
      | B_0 \<Rightarrow> scan_bits bus base ks rom cmask w
      | B_BOTH \<Rightarrow> scan_bits bus base ks rom (if sel = 0 then cmask OR m else cmask) w)
   }"

text \<open>The return value, the identifier, the conflicts, and the world.\<close>

definition w1_scan_one :: "'w reg_bus \<Rightarrow> u32 \<Rightarrow> u64 \<Rightarrow> u64 \<Rightarrow> 'w \<Rightarrow> (int \<times> u64 \<times> u64 \<times> 'w) option" where
  "w1_scan_one bus base rom cmask w = do {
     (present, w) \<leftarrow> w1_reset bus base w;
     if present \<noteq> 1 then Some (- 1, rom, cmask, w)
     else do {
       w \<leftarrow> w1_write_byte bus base 0xf0 w;
       (rom, cmask, w) \<leftarrow> scan_bits bus base [0..<64] rom 0 w;
       Some (0, rom, cmask, w)
     }
   }"

text \<open>The loop over the conflicts from the highest; the mask at its end is zero if there is none.\<close>

function resolve :: "u64 \<Rightarrow> u64 \<Rightarrow> u64 \<Rightarrow> u64 \<times> u64" where
  "resolve cmask rom m =
     (if m = 0 then (rom, 0)
      else let m = (if m AND 2 ^ 62 \<noteq> 0 then 2 ^ 62 else m) in
        if cmask AND m \<noteq> 0 then (rom, m) else resolve cmask (rom AND NOT m) (drop_bit 1 m))"
  by pat_completeness auto

text \<open>The loop over the slots of the device table, from slot \<open>i\<close>; \<open>roms\<close> are the identifiers in the table.\<close>

function scan_from :: "'w reg_bus \<Rightarrow> u32 \<Rightarrow> nat \<Rightarrow> u64 \<Rightarrow> u64 list \<Rightarrow> 'w \<Rightarrow> (nat \<times> u64 list \<times> 'w) option" where
  "scan_from bus base i cmask roms w =
     (if i \<ge> W1_MAX_DEVICES then Some (i, roms, w)
      else
        (let (rom, m) = (if i \<noteq> 0 then resolve cmask (roms ! (i - 1)) (2 ^ 63) else (roms ! i, 1)) in
         if i \<noteq> 0 \<and> m = 0 then Some (i, roms[i := rom], w)
         else
           (let rom = (if i \<noteq> 0 then rom OR m else rom); cmask = (if i \<noteq> 0 then cmask AND NOT m else cmask) in
            case w1_scan_one bus base rom cmask w of
              None \<Rightarrow> None
            | Some (rv, rom, cmask, w) \<Rightarrow>
                if rv \<noteq> 0 then Some (i, roms[i := rom], w) else scan_from bus base (i + 1) cmask (roms[i := rom]) w)))"
  by pat_completeness auto

definition w1_scan_bus :: "'w reg_bus \<Rightarrow> u32 \<Rightarrow> u64 list \<Rightarrow> 'w \<Rightarrow> (nat \<times> u64 list \<times> 'w) option" where
  "w1_scan_bus bus base roms w = scan_from bus base 0 0 roms w"

definition w1_match_rom :: "'w reg_bus \<Rightarrow> u32 \<Rightarrow> u64 \<Rightarrow> 'w \<Rightarrow> 'w option" where
  "w1_match_rom bus base rom w = do {
     (_, w) \<leftarrow> w1_reset bus base w;
     w \<leftarrow> w1_write_byte bus base W1_CMD_MATCH_ROM w;
     for_each (\<lambda>i. w1_write_byte bus base (i32 (uint (drop_bit (8 * i) rom)))) [0..<8] w
   }"

text \<open>The static table \<open>wrpc_w1_bus\<close> is zero before the search.\<close>

definition wrc_w1_init :: "'w reg_bus \<Rightarrow> u32 \<Rightarrow> u32 \<Rightarrow> 'w \<Rightarrow> (nat \<times> u64 list \<times> 'w) option" where
  "wrc_w1_init bus base cpu_clock w = w1_scan_bus bus base (replicate W1_MAX_DEVICES 0) (w1_init bus base cpu_clock w)"

lemma half_less:
  fixes m :: u64
  assumes "m \<noteq> 0"
  shows "unat (drop_bit 1 m) < unat m"
proof -
  have "0 < unat m" using assms by (simp add: word_less_nat_alt word_neq_0_conv [symmetric] unat_gt_0)
  then show ?thesis by (simp add: drop_bit_eq_div unat_div)
qed

termination resolve
proof (relation "measure (\<lambda>(cmask, rom, m). unat m)", goal_cases)
  case (2 cmask rom m m')
  show ?case
  proof (cases "m AND 2 ^ 62 \<noteq> 0")
    case True
    have "bit m 62" using True by (simp only: and_exp_eq_0_iff_not_bit) simp
    then have "bit (unat m) 62" by (simp only: bit_unsigned_iff) simp
    then have "2 ^ 62 \<le> unat m" by (metis bit_iff_odd div_less even_zero not_less)
    moreover have "unat (drop_bit 1 (2 ^ 62 :: u64)) = 2 ^ 61" by (simp add: unat_drop_bit_eq drop_bit_eq_div)
    ultimately show ?thesis using 2 True by simp
  next
    case False
    then show ?thesis using 2 half_less by simp
  qed
qed simp

termination scan_from
  by (relation "measure (\<lambda>(bus, base, i, cmask, roms, w). W1_MAX_DEVICES - i)") auto

declare resolve.simps [simp del] scan_from.simps [simp del]

section \<open>Facts\<close>

subsection \<open>The devices\<close>

text \<open>
  The state of the devices on the bus: after a reset they collect a command; a search goes through the bits of the identifiers, with two slots in which
  all devices that still take part send their bit and its complement (a zero wins), and one in which those whose bit is not the one sent drop
  out; a match goes through the bits with one such slot each. What selected devices do is not described (\<open>None\<close>).
\<close>

datatype line = Cmd "bool list" | Search nat nat "u64 list" | Match nat "u64 list" | Selected "u64 list" | Off

definition keep_if :: "nat \<Rightarrow> bool \<Rightarrow> u64 list \<Rightarrow> u64 list" where
  "keep_if k b A = filter (\<lambda>d. bit d k = b) A"

fun line_slot :: "u64 list \<Rightarrow> bool \<Rightarrow> line \<Rightarrow> (bool \<times> line) option" where
  "line_slot devs b (Cmd bs) = Some (b, let bs = bs @ [b] in if length bs < 8 then Cmd bs
      else if bs = [False, False, False, False, True, True, True, True] then Search 0 0 devs
      else if bs = [True, False, True, False, True, False, True, False] then Match 0 devs else Off)"
| "line_slot devs b (Search k h A) = Some
     (if h = 0 then (b \<and> (\<forall>d\<in>set A. bit d k), Search k 1 A)
      else if h = 1 then (b \<and> (\<forall>d\<in>set A. \<not> bit d k), Search k 2 A)
      else (b, if k = 63 then Selected (keep_if k b A) else Search (k + 1) 0 (keep_if k b A)))"
| "line_slot devs b (Match k A) = Some (b, if k = 63 then Selected (keep_if k b A) else Match (k + 1) (keep_if k b A))"
| "line_slot devs b (Selected A) = None"
| "line_slot devs b Off = None"

text \<open>Reads of a register until one is done.\<close>

inductive polls :: "'w reg_bus \<Rightarrow> u32 \<Rightarrow> (u32 \<Rightarrow> bool) \<Rightarrow> 'w \<Rightarrow> u32 \<Rightarrow> 'w \<Rightarrow> bool" for bus a fin where
  last: "bus_read bus a w = (r, w') \<Longrightarrow> fin r \<Longrightarrow> polls bus a fin w r w'"
| again: "bus_read bus a w = (r1, w1) \<Longrightarrow> \<not> fin r1 \<Longrightarrow> polls bus a fin w1 r w' \<Longrightarrow> polls bus a fin w r w'"

text \<open>The master core and the devices behind it: every cycle ends, and does on the bus what it says.\<close>

definition owm_cycle :: "'w reg_bus \<Rightarrow> u32 \<Rightarrow> u32 \<Rightarrow> 'w \<Rightarrow> u32 \<Rightarrow> 'w \<Rightarrow> bool" where
  "owm_cycle bus base v w r w' = polls bus base (\<lambda>r. r AND SOCKIT_OWM_CTL_CYC_MSK = 0) (bus_write bus base (SOCKIT_OWM_CTL_CYC_MSK OR v) w) r w'"

definition onewire :: "'w reg_bus \<Rightarrow> u32 \<Rightarrow> u64 list \<Rightarrow> ('w \<Rightarrow> line) \<Rightarrow> bool" where
  "onewire bus base devs line \<longleftrightarrow>
     (\<forall>w. \<exists>r w'. owm_cycle bus base SOCKIT_OWM_CTL_RST_MSK w r w' \<and> (r AND SOCKIT_OWM_CTL_DAT_MSK = 0) = (devs \<noteq> []) \<and> line w' = Cmd [])
     \<and> (\<forall>b w v l. line_slot devs b (line w) = Some (v, l) \<longrightarrow>
          (\<exists>r w'. owm_cycle bus base (if b then SOCKIT_OWM_CTL_DAT_MSK else 0) w r w' \<and> (r AND SOCKIT_OWM_CTL_DAT_MSK \<noteq> 0) = v \<and> line w' = l))"

lemma wait_cycle_polls:
  assumes "polls bus base (\<lambda>r. r AND SOCKIT_OWM_CTL_CYC_MSK = 0) w r w'"
  shows "wait_cycle bus base w = Some (r, w')"
  using assms by induction (subst wait_cycle.simps, simp)+

lemma reset_line:
  assumes "onewire bus base devs line"
  shows "\<exists>w'. w1_reset bus base w = Some (if devs = [] then 0 else 1, w') \<and> line w' = Cmd []"
proof -
  obtain r w' where r: "owm_cycle bus base SOCKIT_OWM_CTL_RST_MSK w r w'" "(r AND SOCKIT_OWM_CTL_DAT_MSK = 0) = (devs \<noteq> [])" "line w' = Cmd []"
    using assms unfolding onewire_def by blast
  then show ?thesis using wait_cycle_polls [OF r(1) [unfolded owm_cycle_def]] by (auto simp: w1_reset_def)
qed

lemma read_line:
  assumes "onewire bus base devs line" "line_slot devs True (line w) = Some (v, l)"
  shows "\<exists>w'. w1_read_bit bus base w = Some (if v then 1 else 0, w') \<and> line w' = l"
proof -
  have "\<exists>r w'. owm_cycle bus base SOCKIT_OWM_CTL_DAT_MSK w r w' \<and> (r AND SOCKIT_OWM_CTL_DAT_MSK \<noteq> 0) = v \<and> line w' = l"
    using assms(1) [unfolded onewire_def, THEN conjunct2, rule_format, OF assms(2)] by simp
  then obtain r w' where r: "owm_cycle bus base SOCKIT_OWM_CTL_DAT_MSK w r w'" "(r AND SOCKIT_OWM_CTL_DAT_MSK \<noteq> 0) = v" "line w' = l" by blast
  then show ?thesis using wait_cycle_polls [OF r(1) [unfolded owm_cycle_def]] by (auto simp: w1_read_bit_def)
qed

lemma write_line:
  assumes "onewire bus base devs line" "line_slot devs (b \<noteq> 0) (line w) = Some (v, l)"
  shows "\<exists>w'. w1_write_bit bus base b w = Some w' \<and> line w' = l"
proof -
  obtain r w' where r: "owm_cycle bus base (if b \<noteq> 0 then SOCKIT_OWM_CTL_DAT_MSK else 0) w r w'" "line w' = l"
    using assms(1) [unfolded onewire_def, THEN conjunct2, rule_format, OF assms(2)] by blast
  then show ?thesis using wait_cycle_polls [OF r(1) [unfolded owm_cycle_def]] by (auto simp: w1_write_bit_def)
qed

fun line_run :: "u64 list \<Rightarrow> bool list \<Rightarrow> line \<Rightarrow> line option" where
  "line_run devs [] l = Some l"
| "line_run devs (b # bs) l = Option.bind (line_slot devs b l) (\<lambda>(v, l). line_run devs bs l)"

lemma writes_line:
  assumes "onewire bus base devs line" "line_run devs (map (\<lambda>i. f i \<noteq> 0) is) (line w) = Some l"
  shows "\<exists>w'. for_each (\<lambda>i. w1_write_bit bus base (f i)) is w = Some w' \<and> line w' = l"
  using assms(2)
proof (induction "is" arbitrary: w)
  case (Cons i "is")
  obtain v l1 where l1: "line_slot devs (f i \<noteq> 0) (line w) = Some (v, l1)" "line_run devs (map (\<lambda>i. f i \<noteq> 0) is) l1 = Some l"
    using Cons.prems by (auto split: bind_splits)
  obtain w1 where w1: "w1_write_bit bus base (f i) w = Some w1" "line w1 = l1" using write_line [OF assms(1) l1(1)] by blast
  then show ?case using Cons.IH [of w1] l1(2) by simp
qed simp

lemma write_byte_line:
  assumes "onewire bus base devs line" "line_run devs (map (bit byte) [0..<8]) (line w) = Some l"
  shows "\<exists>w'. w1_write_byte bus base byte w = Some w' \<and> line w' = l"
proof -
  have "map (\<lambda>i. (if byte AND 2 ^ i \<noteq> 0 then 1 else 0) \<noteq> (0 :: int)) [0..<8] = map (bit byte) [0..<8]"
    by (simp add: and_exp_eq_0_iff_not_bit)
  then show ?thesis unfolding w1_write_byte_def
    using writes_line [OF assms(1), of "\<lambda>i. if byte AND 2 ^ i \<noteq> 0 then 1 else 0" "[0..<8]" w l] assms(2) by argo
qed

lemma search_command:
  assumes "onewire bus base devs line" "line w = Cmd []"
  shows "\<exists>w'. w1_write_byte bus base 0xf0 w = Some w' \<and> line w' = Search 0 0 devs"
proof (rule write_byte_line [OF assms(1)])
  have "map (bit (0xf0 :: int)) [0..<8] = [False, False, False, False, True, True, True, True]" by code_simp
  then show "line_run devs (map (bit (0xf0 :: int)) [0..<8]) (line w) = Some (Search 0 0 devs)" by (simp add: assms(2) Let_def)
qed

subsection \<open>The search as a walk\<close>

text \<open>The search for one device, without the bus: \<open>A\<close> are the devices that still take part.\<close>

fun walk :: "nat list \<Rightarrow> u64 list \<Rightarrow> u64 \<Rightarrow> u64 \<Rightarrow> u64 \<times> u64" where
  "walk [] A rom cmask = (rom, cmask)"
| "walk (k # ks) A rom cmask =
     (let one = (\<forall>d\<in>set A. bit d k); zero = (\<forall>d\<in>set A. \<not> bit d k); sel = (bit rom k \<and> k < 32) in
      if one \<noteq> zero then walk ks A (if one then rom OR 2 ^ k else rom) cmask
      else walk ks (keep_if k sel A) rom (if sel then cmask else cmask OR 2 ^ k))"

lemma sel_bit:
  fixes rom :: u64
  assumes "k < 64"
  shows "i32 (uint (rom AND 2 ^ k)) = 0 \<longleftrightarrow> \<not> (bit rom k \<and> k < 32)"
proof -
  have z: "i32 x = 0 \<longleftrightarrow> x mod 2 ^ 32 = 0" for x
  proof
    assume "i32 x = 0"
    then show "x mod 2 ^ 32 = 0" using i32_cong [of x] by simp
  next
    assume "x mod 2 ^ 32 = 0"
    then have "(x + 2147483648) mod 4294967296 = 2147483648" using mod_add_left_eq [of x 4294967296 2147483648] by simp
    then show "i32 x = 0" by (simp add: i32_def)
  qed
  have "rom AND 2 ^ k = (if bit rom k then 2 ^ k else 0)"
    by (rule bit_word_eqI) (auto simp: bit_and_iff bit_exp_iff)
  moreover have "uint (2 ^ k :: u64) = 2 ^ k"
  proof -
    have "(2 :: int) ^ k < 2 ^ 64" using assms by (intro power_strict_increasing) simp_all
    moreover have "uint (word_of_int (2 ^ k) :: u64) = 2 ^ k mod 2 ^ 64" by (simp only: uint_word_of_int_eq take_bit_eq_mod) simp
    ultimately show ?thesis by simp
  qed
  moreover have "(2 :: int) ^ k mod 2 ^ 32 = 0 \<longleftrightarrow> \<not> k < 32"
  proof
    assume "\<not> k < 32"
    then have "(2 :: int) ^ 32 dvd 2 ^ k" by (intro le_imp_power_dvd) simp
    then show "(2 :: int) ^ k mod 2 ^ 32 = 0" by (simp add: mod_eq_0_iff_dvd)
  next
    assume a: "(2 :: int) ^ k mod 2 ^ 32 = 0"
    show "\<not> k < 32"
    proof
      assume "k < 32"
      then have "(2 :: int) ^ k < 2 ^ 32" by (intro power_strict_increasing) simp_all
      then have "(2 :: int) ^ k mod 2 ^ 32 = 2 ^ k" by (intro mod_pos_pos_trivial) simp_all
      then show False using a by simp
    qed
  qed
  ultimately show ?thesis unfolding z by simp
qed

lemma dibit_line:
  assumes o: "onewire bus base devs line" and l: "line w = Search k 0 A" "k < 64"
  defines "one \<equiv> \<forall>d\<in>set A. bit d k" and "zero \<equiv> \<forall>d\<in>set A. \<not> bit d k"
  shows "\<exists>w'. get_dibit bus base sel w = Some (if one \<noteq> zero then (if one then B_1 else B_0) else B_BOTH, w')
    \<and> (k < 63 \<longrightarrow> line w' = Search (k + 1) 0 (if one \<noteq> zero then A else keep_if k (sel \<noteq> 0) A))"
proof -
  obtain w1 where w1: "w1_read_bit bus base w = Some (if one then 1 else 0, w1)" "line w1 = Search k 1 A"
    using read_line [OF o, of w one "Search k 1 A"] l by (auto simp: one_def)
  obtain w2 where w2: "w1_read_bit bus base w1 = Some (if zero then 1 else 0, w2)" "line w2 = Search k 2 A"
    using read_line [OF o, of w1 zero "Search k 2 A"] w1(2) by (auto simp: zero_def)
  have wr: "\<exists>w'. w1_write_bit bus base b w2 = Some w' \<and> (k < 63 \<longrightarrow> line w' = Search (k + 1) 0 (keep_if k (b \<noteq> 0) A))" for b
    using write_line [OF o, of b w2] w2(2) by (auto simp: split: if_splits)
  have k: "keep_if k one A = A" if "one \<noteq> zero" using that unfolding keep_if_def one_def zero_def by (auto simp: filter_id_conv)
  show ?thesis
  proof (cases "one \<noteq> zero")
    case True
    then show ?thesis using w1 w2 wr [of "if one then 1 else 0"] k by (auto simp: get_dibit_def)
  next
    case False
    then show ?thesis using w1 w2 wr [of sel] by (auto simp: get_dibit_def)
  qed
qed

lemma scan_bits_walk:
  assumes o: "onewire bus base devs line"
  shows "k < 64 \<longrightarrow> line w = Search k 0 A \<Longrightarrow> \<exists>w'. scan_bits bus base [k..<64] rom cmask w = Some (fst (walk [k..<64] A rom cmask), snd (walk [k..<64] A rom cmask), w')"
proof (induction "64 - k" arbitrary: k A rom cmask w)
  case 0
  then show ?case by simp
next
  case (Suc n)
  have k: "k < 64" "[k..<64] = k # [k + 1..<64]" using Suc.hyps(2) by (simp_all add: upt_conv_Cons)
  let ?sel = "i32 (uint (rom AND 2 ^ k))"
  have s: "(?sel \<noteq> 0) = (bit rom k \<and> k < 32)" "?sel = 0 \<longleftrightarrow> \<not> (bit rom k \<and> k < 32)" using sel_bit [OF k(1), of rom] by simp_all
  define one where "one = (\<forall>d\<in>set A. bit d k)"
  define zero where "zero = (\<forall>d\<in>set A. \<not> bit d k)"
  obtain w1 where w1: "get_dibit bus base ?sel w = Some (if one \<noteq> zero then (if one then B_1 else B_0) else B_BOTH, w1)"
    "k < 63 \<longrightarrow> line w1 = Search (k + 1) 0 (if one \<noteq> zero then A else keep_if k (bit rom k \<and> k < 32) A)"
    using dibit_line [OF o, of w k A ?sel] Suc.prems k(1) unfolding s(1) one_def zero_def by auto
  have n: "n = 64 - (k + 1)" using Suc.hyps(2) by simp
  note ih = Suc.hyps(1) [OF n]
  have l: "k + 1 < 64 \<longrightarrow> line w1 = Search (k + 1) 0 (if one \<noteq> zero then A else keep_if k (bit rom k \<and> k < 32) A)" using w1(2) by simp
  show ?case
  proof (cases "one \<noteq> zero")
    case True
    then show ?thesis using ih [of w1 A "if one then rom OR 2 ^ k else rom" cmask] l w1(1)
      by (cases one) (auto simp: k(2) one_def [symmetric] zero_def [symmetric] Let_def)
  next
    case False
    then show ?thesis using ih [of w1 "keep_if k (bit rom k \<and> k < 32) A" rom "if bit rom k \<and> k < 32 then cmask else cmask OR 2 ^ k"] l w1(1) s(2)
      by (auto simp: k(2) one_def [symmetric] zero_def [symmetric] Let_def)
  qed
qed

lemma scan_one_walk:
  assumes "onewire bus base devs line" "devs \<noteq> []"
  shows "\<exists>w'. w1_scan_one bus base rom cmask w = Some (0, fst (walk [0..<64] devs rom 0), snd (walk [0..<64] devs rom 0), w')"
proof -
  obtain w1 where w1: "w1_reset bus base w = Some (1, w1)" "line w1 = Cmd []" using reset_line [OF assms(1), of w] assms(2) by auto
  obtain w2 where w2: "w1_write_byte bus base 0xf0 w1 = Some w2" "line w2 = Search 0 0 devs" using search_command [OF assms(1) w1(2)] by blast
  then show ?thesis using w1(1) scan_bits_walk [OF assms(1), of 0 w2 devs rom 0] by (auto simp: w1_scan_one_def)
qed

subsection \<open>What a walk finds\<close>

definition same_below :: "u64 \<Rightarrow> u64 \<Rightarrow> nat \<Rightarrow> bool" where
  "same_below r d j \<longleftrightarrow> (\<forall>i<j. bit r i = bit d i)"

text \<open>The order of the search: at the lowest bit in which they differ, the first one has a zero.\<close>

definition before :: "u64 \<Rightarrow> u64 \<Rightarrow> bool" where
  "before r d \<longleftrightarrow> (\<exists>i<64. same_below r d i \<and> \<not> bit r i \<and> bit d i)"

text \<open>The branches not taken on the way to \<open>r\<close>.\<close>

definition branches :: "u64 set \<Rightarrow> u64 \<Rightarrow> nat \<Rightarrow> bool" where
  "branches D r i \<longleftrightarrow> \<not> bit r i \<and> (\<exists>d\<in>D. same_below r d i \<and> bit d i)"

lemma same_below_64: "same_below r d 64 \<longleftrightarrow> r = d"
  by (auto simp: same_below_def intro: bit_word_eqI)

lemma same_below_Suc: "same_below r d (Suc j) \<longleftrightarrow> same_below r d j \<and> bit r j = bit d j"
  by (auto simp: same_below_def less_Suc_eq)

lemma same_below_sym: "same_below r d j \<longleftrightarrow> same_below d r j"
  by (auto simp: same_below_def)

lemma same_below_trans: "same_below a b j \<Longrightarrow> same_below b c j \<Longrightarrow> same_below a c j"
  by (simp add: same_below_def)

lemma same_below_mono: "same_below a b j \<Longrightarrow> i \<le> j \<Longrightarrow> same_below a b i"
  by (simp add: same_below_def)

lemma same_below_set: "j \<le> k \<Longrightarrow> same_below (r OR 2 ^ k) d j = same_below r d j"
  by (auto simp: same_below_def bit_or_iff bit_exp_iff)

lemma first_difference:
  assumes "r \<noteq> d"
  obtains i where "i < 64" "same_below r d i" "bit r i \<noteq> bit d i"
proof -
  obtain n where n: "n < 64" "bit r n \<noteq> bit d n" using assms same_below_64 [of r d] by (auto simp: same_below_def)
  define i where "i = (LEAST i. bit r i \<noteq> bit d i)"
  have "bit r i \<noteq> bit d i" unfolding i_def by (rule LeastI [of _ n]) (rule n(2))
  moreover have "i \<le> n" unfolding i_def by (rule Least_le) (rule n(2))
  moreover have "same_below r d i" unfolding same_below_def i_def by (auto dest: not_less_Least)
  ultimately show ?thesis using that [of i] le_less_trans [OF _ n(1), of i] by simp
qed

lemma before_total: "r \<noteq> d \<Longrightarrow> before r d \<or> before d r"
  by (erule first_difference) (auto simp: before_def same_below_sym)

lemma before_irrefl: "\<not> before r r"
  by (simp add: before_def)

lemma before_trans: "before a b \<Longrightarrow> before b c \<Longrightarrow> before a c"
proof -
  assume "before a b" "before b c"
  then obtain i j where i: "i < 64" "same_below a b i" "\<not> bit a i" "bit b i" and j: "j < 64" "same_below b c j" "\<not> bit b j" "bit c j"
    unfolding before_def by blast
  have "i \<noteq> j" using i j by auto
  then consider "i < j" | "j < i" by linarith
  then show ?thesis
  proof cases
    case 1
    then have "same_below a c i" "bit c i" using i j by (auto simp: same_below_def)
    then show ?thesis using i by (auto simp: before_def)
  next
    case 2
    then have "same_below a c j" "\<not> bit a j" using i j by (auto simp: same_below_def)
    then show ?thesis using j by (auto simp: before_def)
  qed
qed

text \<open>
  The walk follows \<open>rom\<close> below \<open>m\<close>, where there is a device that agrees with it, and the zeros from there on. \<open>walk_inv\<close> is what holds at bit \<open>j\<close>.
\<close>

definition low_distinct :: "u64 set \<Rightarrow> bool" where
  "low_distinct D \<longleftrightarrow> (\<forall>a\<in>D. \<forall>b\<in>D. same_below a b 32 \<longrightarrow> a = b)"

definition walk_inv :: "u64 set \<Rightarrow> u64 \<Rightarrow> nat \<Rightarrow> nat \<Rightarrow> u64 list \<Rightarrow> u64 \<Rightarrow> u64 \<Rightarrow> bool" where
  "walk_inv D rom0 m j A rom cmask \<longleftrightarrow>
     set A = {d \<in> D. same_below rom d j} \<and> A \<noteq> []
     \<and> (j \<le> m \<longrightarrow> (\<exists>d\<in>set A. same_below rom0 d m))
     \<and> (\<forall>i. (i < m \<or> j \<le> i) \<longrightarrow> bit rom i = bit rom0 i)
     \<and> (\<forall>i. bit cmask i \<longleftrightarrow> i < j \<and> branches D rom i)
     \<and> (\<forall>d\<in>D. \<forall>i<j. m \<le> i \<and> same_below rom d i \<and> bit rom i \<longrightarrow> bit d i)"

lemma branches_cong: "(\<And>n. n \<le> i \<Longrightarrow> bit r n = bit r' n) \<Longrightarrow> branches D r i = branches D r' i"
  by (simp add: branches_def same_below_def)

lemma walk_step:
  assumes D: "low_distinct D" and z: "m \<le> 32" "\<And>i. m \<le> i \<Longrightarrow> \<not> bit rom0 i" and inv: "walk_inv D rom0 m j A rom cmask" and j: "j < 64"
  defines "one \<equiv> \<forall>d\<in>set A. bit d j" and "zero \<equiv> \<forall>d\<in>set A. \<not> bit d j"
  shows "if one \<noteq> zero then walk_inv D rom0 m (Suc j) A (if one then rom OR 2 ^ j else rom) cmask
    else walk_inv D rom0 m (Suc j) (keep_if j (bit rom j \<and> j < 32) A) rom (if bit rom j \<and> j < 32 then cmask else cmask OR 2 ^ j)"
proof -
  note i = inv [unfolded walk_inv_def]
  have A: "set A = {d \<in> D. same_below rom d j}" "A \<noteq> []" and r: "\<And>i. i < m \<or> j \<le> i \<Longrightarrow> bit rom i = bit rom0 i"
    and c: "\<And>i. bit cmask i \<longleftrightarrow> i < j \<and> branches D rom i" and f: "j \<le> m \<Longrightarrow> \<exists>d\<in>set A. same_below rom0 d m"
    and lst: "\<And>d i. d \<in> D \<Longrightarrow> i < j \<Longrightarrow> m \<le> i \<Longrightarrow> same_below rom d i \<Longrightarrow> bit rom i \<Longrightarrow> bit d i"
    using i by blast+
  have rj: "bit rom j = bit rom0 j" using r by simp
  show ?thesis
  proof (cases "one \<noteq> zero")
    case True
    have b: "bit d j = one" if "d \<in> set A" for d using that True unfolding one_def zero_def by blast
    have rj': "\<not> one \<Longrightarrow> \<not> bit rom j" "j < m \<Longrightarrow> bit rom j = one"
    proof -
      show "bit rom j = one" if jm: "j < m"
      proof -
        obtain d where "d \<in> set A" "same_below rom0 d m" using f jm by auto
        then show ?thesis using b [of d] rj jm by (simp add: same_below_def)
      qed
      then show "\<not> one \<Longrightarrow> \<not> bit rom j" using rj z(2) [of j] by (cases "j < m") simp_all
    qed
    define rom' where "rom' = (if one then rom OR 2 ^ j else rom)"
    have r': "bit rom' n = (if n = j then one else bit rom n)" for n
      using rj'(1) j by (auto simp: rom'_def bit_or_iff bit_exp_iff)
    have sb: "same_below rom' d n = same_below rom d n" if "n \<le> j" for n d using that by (auto simp: same_below_def r')
    have "set A = {d \<in> D. same_below rom' d (Suc j)}"
      using A(1) b by (auto simp: same_below_Suc sb r')
    moreover have "\<exists>d\<in>set A. same_below rom0 d m" if "Suc j \<le> m" using f that by simp
    moreover have "bit rom' i = bit rom0 i" if "i < m \<or> Suc j \<le> i" for i using that r rj'(2) rj by (auto simp: r')
    moreover have "bit cmask i \<longleftrightarrow> i < Suc j \<and> branches D rom' i" for i
    proof -
      have "\<not> branches D rom' j" using b A(1) unfolding branches_def sb [OF order_refl] by (auto simp: r')
      moreover have "branches D rom' i = branches D rom i" if "i < j" using that by (intro branches_cong) (simp add: r')
      ultimately show ?thesis using c [of i] by (auto simp: less_Suc_eq)
    qed
    moreover have "bit d i" if "d \<in> D" "i < Suc j" "m \<le> i" "same_below rom' d i" "bit rom' i" for d i
    proof (cases "i = j")
      case True
      then show ?thesis using that b [of d] A(1) by (simp add: sb r')
    next
      case False
      then show ?thesis using that lst [of d i] by (simp add: sb r')
    qed
    ultimately have "walk_inv D rom0 m (Suc j) A rom' cmask" using A(2) unfolding walk_inv_def by blast
    then show ?thesis using True by (simp add: rom'_def)
  next
    case False
    then obtain d1 d0 where d: "d1 \<in> set A" "bit d1 j" "d0 \<in> set A" "\<not> bit d0 j"
      using A(2) unfolding one_def zero_def by (metis list.set_intros(1) neq_Nil_conv)
    have j32: "j < 32"
    proof (rule ccontr)
      assume "\<not> j < 32"
      then have "same_below d1 d0 32" using d A(1) by (auto simp: same_below_def)
      then have "d1 = d0" using D d A(1) unfolding low_distinct_def by blast
      then show False using d by simp
    qed
    let ?A = "keep_if j (bit rom j) A" and ?c = "if bit rom j then cmask else cmask OR 2 ^ j"
    have "set ?A = {d \<in> D. same_below rom d (Suc j)}" using A(1) by (auto simp: keep_if_def same_below_Suc)
    moreover have "?A \<noteq> []" using d by (auto simp: keep_if_def filter_empty_conv)
    moreover have "\<exists>d\<in>set ?A. same_below rom0 d m" if jm: "Suc j \<le> m"
    proof -
      obtain d where "d \<in> set A" "same_below rom0 d m" using f jm by auto
      then show ?thesis using jm rj by (auto simp: keep_if_def same_below_def)
    qed
    moreover have "bit rom i = bit rom0 i" if "i < m \<or> Suc j \<le> i" for i using that r by auto
    moreover have "bit ?c i \<longleftrightarrow> i < Suc j \<and> branches D rom i" for i
    proof -
      have "branches D rom j \<longleftrightarrow> \<not> bit rom j" using d A(1) by (auto simp: branches_def)
      then show ?thesis using c [of i] j by (auto simp: bit_or_iff bit_exp_iff less_Suc_eq)
    qed
    moreover have "bit d i" if "d \<in> D" "i < Suc j" "m \<le> i" "same_below rom d i" "bit rom i" for d i
      using that lst [of d i] rj z(2) [of j] by (cases "i = j") simp_all
    ultimately have "walk_inv D rom0 m (Suc j) ?A rom ?c" unfolding walk_inv_def by blast
    then show ?thesis using False j32 by simp
  qed
qed

lemma walk_runs:
  assumes "low_distinct D" "m \<le> 32" "\<And>i. m \<le> i \<Longrightarrow> \<not> bit rom0 i" "walk_inv D rom0 m j A rom cmask" "j \<le> 64"
  shows "\<exists>A'. walk_inv D rom0 m 64 A' (fst (walk [j..<64] A rom cmask)) (snd (walk [j..<64] A rom cmask))"
  using assms(4,5)
proof (induction "64 - j" arbitrary: j A rom cmask)
  case 0
  then show ?case by auto
next
  case (Suc n)
  have j: "j < 64" "[j..<64] = j # [Suc j..<64]" "n = 64 - Suc j" using Suc.hyps(2) by (simp_all add: upt_conv_Cons)
  note st = walk_step [OF assms(1-3) Suc.prems(1) j(1)]
  show ?case
  proof (cases "(\<forall>d\<in>set A. bit d j) \<noteq> (\<forall>d\<in>set A. \<not> bit d j)")
    case True
    then have "walk_inv D rom0 m (Suc j) A (if \<forall>d\<in>set A. bit d j then rom OR 2 ^ j else rom) cmask" using st by simp
    moreover have "walk [j..<64] A rom cmask = walk [Suc j..<64] A (if \<forall>d\<in>set A. bit d j then rom OR 2 ^ j else rom) cmask"
      unfolding j(2) walk.simps Let_def by (rule if_P) (rule True)
    ultimately show ?thesis using Suc.hyps(1) [OF j(3)] j(1) by simp
  next
    case False
    then have "walk_inv D rom0 m (Suc j) (keep_if j (bit rom j \<and> j < 32) A) rom (if bit rom j \<and> j < 32 then cmask else cmask OR 2 ^ j)" using st by simp
    moreover have "walk [j..<64] A rom cmask = walk [Suc j..<64] (keep_if j (bit rom j \<and> j < 32) A) rom (if bit rom j \<and> j < 32 then cmask else cmask OR 2 ^ j)"
      unfolding j(2) walk.simps Let_def by (rule if_not_P) (rule False)
    ultimately show ?thesis using Suc.hyps(1) [OF j(3)] j(1) by simp
  qed
qed

text \<open>One search finds the first device behind the branch it is sent to, and the branches on the way there.\<close>

lemma walk_result:
  assumes "low_distinct (set devs)" "m \<le> 32" "\<And>i. m \<le> i \<Longrightarrow> \<not> bit rom0 i" "\<exists>d\<in>set devs. same_below rom0 d m"
  obtains r cmask where "walk [0..<64] devs rom0 0 = (r, cmask)" "r \<in> set devs" "same_below rom0 r m"
    "\<And>d. d \<in> set devs \<Longrightarrow> same_below rom0 d m \<Longrightarrow> d = r \<or> before r d" "\<And>i. bit cmask i \<longleftrightarrow> i < 64 \<and> branches (set devs) r i"
proof -
  obtain r cmask where w: "walk [0..<64] devs rom0 0 = (r, cmask)" by (rule prod.exhaust)
  have "walk_inv (set devs) rom0 m 0 devs rom0 0" using assms(4) by (auto simp: walk_inv_def same_below_def)
  then obtain A where inv: "walk_inv (set devs) rom0 m 64 A r cmask" using walk_runs [OF assms(1-3)] w by fastforce
  note i = inv [unfolded walk_inv_def]
  have A: "set A = {d \<in> set devs. r = d}" "A \<noteq> []" using i same_below_64 by auto
  then have r: "r \<in> set devs" by (cases A) auto
  have s: "same_below rom0 r m" using i by (auto simp: same_below_def)
  have "d = r \<or> before r d" if d: "d \<in> set devs" "same_below rom0 d m" for d
  proof (cases "d = r")
    case False
    then obtain n where n: "n < 64" "same_below r d n" "bit r n \<noteq> bit d n" using first_difference by metis
    have "m \<le> n"
    proof (rule ccontr)
      assume "\<not> m \<le> n"
      then have "bit r n = bit d n" using s d(2) by (simp add: same_below_def)
      then show False using n(3) by simp
    qed
    then have "\<not> bit r n" using i d n by blast
    then show ?thesis using n by (auto simp: before_def)
  qed simp
  then show ?thesis using that [OF w r s] i by blast
qed

subsection \<open>The next branch\<close>

lemma mask_bits:
  assumes "j < 64"
  shows "(cmask AND 2 ^ j \<noteq> (0 :: u64)) = bit cmask j" "(2 ^ j AND 2 ^ 62 \<noteq> (0 :: u64)) = (j = 62)" "drop_bit 1 (2 ^ j :: u64) = (if j = 0 then 0 else 2 ^ (j - 1))"
    "(2 ^ j :: u64) \<noteq> 0"
proof -
  show c: "(cmask AND 2 ^ j \<noteq> (0 :: u64)) = bit cmask j" for cmask by (simp only: and_exp_eq_0_iff_not_bit) simp
  have "(2 ^ j AND 2 ^ 62 \<noteq> (0 :: u64)) = bit (2 ^ j :: u64) 62" by (simp only: and_exp_eq_0_iff_not_bit) simp
  then show "(2 ^ j AND 2 ^ 62 \<noteq> (0 :: u64)) = (j = 62)" using assms by (simp only: bit_exp_iff possible_bit_word) auto
  show "drop_bit 1 (2 ^ j :: u64) = (if j = 0 then 0 else 2 ^ (j - 1))"
    using assms by (intro bit_word_eqI) (auto simp: bit_drop_bit_eq bit_exp_iff)
  show "(2 ^ j :: u64) \<noteq> 0" using assms by simp
qed

lemma resolve_step:
  assumes "j < 64"
  shows "resolve cmask rom (2 ^ j) = (if bit cmask j then (rom, 2 ^ j)
      else if j = 0 then (rom AND NOT 1, 0) else resolve cmask (rom AND NOT (2 ^ j)) (2 ^ (j - 1)))"
proof -
  note m = mask_bits [OF assms]
  have e: "(if 2 ^ j AND 2 ^ 62 \<noteq> (0 :: u64) then 2 ^ 62 else 2 ^ j) = (2 ^ j :: u64)" using m(2) by auto
  have "resolve cmask rom (2 ^ j) = (if bit cmask j then (rom, 2 ^ j) else resolve cmask (rom AND NOT (2 ^ j)) (drop_bit 1 (2 ^ j)))"
    by (subst resolve.simps) (simp only: e Let_def m(1,4) if_False)
  moreover have "resolve cmask r 0 = (r, 0)" for r by (subst resolve.simps) simp
  ultimately show ?thesis unfolding m(3) by simp
qed

lemma resolve_none: "j < 64 \<Longrightarrow> (\<And>i. i \<le> j \<Longrightarrow> \<not> bit cmask i) \<Longrightarrow> snd (resolve cmask rom (2 ^ j)) = 0"
proof (induction j arbitrary: rom)
  case 0
  then show ?case using resolve_step [of 0 cmask rom] by simp
next
  case (Suc j)
  then show ?case using resolve_step [of "Suc j" cmask rom] by (simp del: power_Suc)
qed

lemma resolve_some:
  assumes "j < 64" "k \<le> j" "bit cmask k" "\<And>i. k < i \<Longrightarrow> i \<le> j \<Longrightarrow> \<not> bit cmask i"
  shows "\<exists>rom'. resolve cmask rom (2 ^ j) = (rom', 2 ^ k) \<and> (\<forall>i. bit rom' i = (bit rom i \<and> \<not> (k < i \<and> i \<le> j)))"
  using assms(1,2,4)
proof (induction "j - k" arbitrary: j rom)
  case 0
  then have "j = k" by simp
  then show ?case using assms(3) resolve_step [OF 0(2)] by auto
next
  case (Suc n)
  then have kj: "k < j" "n = j - 1 - k" by simp_all
  have b: "\<not> bit cmask j" using Suc.prems(3) kj by simp
  have p: "j - 1 < 64" "k \<le> j - 1" "\<And>i. k < i \<Longrightarrow> i \<le> j - 1 \<Longrightarrow> \<not> bit cmask i" using Suc.prems kj by auto
  obtain rom' where r: "resolve cmask (rom AND NOT (2 ^ j)) (2 ^ (j - 1)) = (rom', 2 ^ k)"
    "\<And>i. bit rom' i = (bit (rom AND NOT (2 ^ j)) i \<and> \<not> (k < i \<and> i \<le> j - 1))"
    using Suc.hyps(1) [OF kj(2) p, of "rom AND NOT (2 ^ j)"] by blast
  have e: "bit (rom AND NOT (2 ^ j)) i = (bit rom i \<and> i \<noteq> j)" for i
    using bit_imp_le_length [of rom i] Suc.prems(1) by (auto simp only: bit_and_iff bit_not_iff bit_exp_iff possible_bit_word)
  have "bit rom' i = (bit rom i \<and> \<not> (k < i \<and> i \<le> j))" for i unfolding r(2) e using kj by auto
  moreover have "resolve cmask rom (2 ^ j) = (rom', 2 ^ k)" using resolve_step [OF Suc.prems(1), of cmask rom] b kj r(1) by simp
  ultimately show ?case by blast
qed

subsection \<open>The whole search\<close>

text \<open>What holds after \<open>i\<close> devices: they are the first ones in the order of the search.\<close>

definition found :: "u64 set \<Rightarrow> nat \<Rightarrow> u64 list \<Rightarrow> u64 \<Rightarrow> bool" where
  "found D i roms cmask \<longleftrightarrow> length roms = W1_MAX_DEVICES \<and> 0 < i \<and> i \<le> W1_MAX_DEVICES \<and> distinct (take i roms) \<and> roms ! (i - 1) \<in> D
     \<and> set (take i roms) = {d \<in> D. d = roms ! (i - 1) \<or> before d (roms ! (i - 1))}
     \<and> (\<forall>n. bit cmask n \<longleftrightarrow> n < 64 \<and> branches D (roms ! (i - 1)) n)"

lemma no_branches:
  assumes "\<And>n. n < 64 \<Longrightarrow> \<not> branches D r n" "d \<in> D"
  shows "d = r \<or> before d r"
proof -
  have "\<not> before r d" using assms by (auto simp: before_def branches_def)
  then show ?thesis using before_total by blast
qed

lemma next_device:
  assumes D: "low_distinct D" and r: "r \<in> D" and k: "k < 64" "branches D r k" "\<And>n. k < n \<Longrightarrow> n < 64 \<Longrightarrow> \<not> branches D r n"
    and r': "r' \<in> D" "same_below (r OR 2 ^ k) r' (Suc k)" "\<And>d. d \<in> D \<Longrightarrow> same_below (r OR 2 ^ k) d (Suc k) \<Longrightarrow> d = r' \<or> before r' d"
  shows "{d \<in> D. d = r' \<or> before d r'} = insert r' {d \<in> D. d = r \<or> before d r}" "before r r'"
proof -
  have kr: "\<not> bit r k" using k(2) by (simp add: branches_def)
  have s: "same_below r r' k" "bit r' k" using r'(2) k(1) by (auto simp: same_below_Suc same_below_set bit_or_iff bit_exp_iff)
  show b: "before r r'" using s kr k(1) by (auto simp: before_def)
  have "d = r \<or> before d r" if d: "d \<in> D" "before d r'" for d
  proof (rule ccontr)
    assume c: "\<not> (d = r \<or> before d r)"
    then have "before r d" using before_total by blast
    then obtain n where n: "n < 64" "same_below r d n" "\<not> bit r n" "bit d n" unfolding before_def by blast
    then have "branches D r n" using d(1) by (auto simp: branches_def)
    then have "n \<le> k" using k(3) n(1) by (meson not_less)
    show False
    proof (cases "n = k")
      case True
      then have "same_below (r OR 2 ^ k) d (Suc k)" using n k(1) by (auto simp: same_below_Suc same_below_set bit_or_iff bit_exp_iff)
      then show False using r'(3) [OF d(1)] d(2) before_irrefl before_trans by blast
    next
      case False
      then have "n < k" using \<open>n \<le> k\<close> by simp
      then have "same_below r' d n" "\<not> bit r' n" using s(1) n by (auto simp: same_below_def)
      then have "before r' d" using n by (auto simp: before_def)
      then show False using d(2) before_irrefl before_trans by blast
    qed
  qed
  then show "{d \<in> D. d = r' \<or> before d r'} = insert r' {d \<in> D. d = r \<or> before d r}" using b r'(1) r before_trans by blast
qed

lemma branch_low:
  assumes "low_distinct D" "r \<in> D" "branches D r k"
  shows "k < 32"
proof (rule ccontr)
  assume k: "\<not> k < 32"
  obtain d where d: "d \<in> D" "same_below r d k" "bit d k" "\<not> bit r k" using assms(3) by (auto simp: branches_def)
  then have "same_below r d 32" using k by (auto intro: same_below_mono)
  then show False using assms(1,2) d unfolding low_distinct_def by blast
qed

lemma scan_step:
  assumes o: "onewire bus base devs line" and D: "low_distinct (set devs)" and f: "found (set devs) i roms cmask" and i: "i < W1_MAX_DEVICES" "cmask \<noteq> 0"
  shows "\<exists>rom cmask' w'. scan_from bus base i cmask roms w = scan_from bus base (i + 1) cmask' (roms[i := rom]) w' \<and> found (set devs) (i + 1) (roms[i := rom]) cmask'"
proof -
  let ?D = "set devs" and ?r = "roms ! (i - 1)"
  note F = f [unfolded found_def]
  obtain n where "bit cmask n" using i(2) bit_word_eqI [of cmask 0] by auto
  define k where "k = Max {n. n < 64 \<and> bit cmask n}"
  have ne: "{n. n < 64 \<and> bit cmask n} \<noteq> {}" using \<open>bit cmask n\<close> bit_imp_le_length by fastforce
  have "k \<in> {n. n < 64 \<and> bit cmask n}" unfolding k_def by (rule Max_in) (use ne in simp_all)
  then have k: "k < 64" "bit cmask k" by simp_all
  have km: "\<not> bit cmask n" if "k < n" "n < 64" for n
  proof
    assume "bit cmask n"
    then have "n \<le> k" unfolding k_def using that by (intro Max_ge) simp_all
    then show False using that by simp
  qed
  have br: "branches ?D ?r k" "\<And>n. k < n \<Longrightarrow> n < 64 \<Longrightarrow> \<not> branches ?D ?r n" using F k km by blast+
  have k32: "k < 32" using branch_low [OF D _ br(1)] F by blast
  obtain rom' where rs: "resolve cmask ?r (2 ^ 63) = (rom', 2 ^ k)" "\<And>i. bit rom' i = (bit ?r i \<and> \<not> (k < i \<and> i \<le> 63))"
    using resolve_some [of 63 k cmask ?r] k km by auto
  let ?rom = "rom' OR 2 ^ k"
  have rb: "bit ?rom i = (if i = k then True else if i < k then bit ?r i else False)" for i
    using rs(2) [of i] k(1) by (auto simp: bit_or_iff bit_exp_iff dest: bit_imp_le_length)
  have rb': "bit ?rom n = bit (?r OR 2 ^ k) n" if "n < Suc k" for n unfolding rb using that k(1) by (auto simp: bit_or_iff bit_exp_iff)
  have sb: "same_below ?rom d (Suc k) = same_below (?r OR 2 ^ k) d (Suc k)" for d
    unfolding same_below_def using rb' by (metis (no_types, lifting))
  obtain d where d: "d \<in> ?D" "same_below ?r d k" "bit d k" using br(1) by (auto simp: branches_def)
  have ex: "\<exists>d\<in>?D. same_below ?rom d (Suc k)" using d by (intro bexI [of _ d]) (auto simp: same_below_def rb less_Suc_eq)
  obtain r c where w: "walk [0..<64] devs ?rom 0 = (r, c)" "r \<in> ?D" "same_below ?rom r (Suc k)"
    "\<And>d. d \<in> ?D \<Longrightarrow> same_below ?rom d (Suc k) \<Longrightarrow> d = r \<or> before r d" "\<And>i. bit c i \<longleftrightarrow> i < 64 \<and> branches ?D r i"
    by (rule walk_result [OF D, of "Suc k" ?rom]) (use k32 ex rb in auto)
  have rD: "?r \<in> ?D" using F by blast
  note nd = next_device [OF D rD k(1) br w(2,3) [unfolded sb] w(4) [unfolded sb]]
  obtain w' where so: "w1_scan_one bus base ?rom (cmask AND NOT (2 ^ k)) w = Some (0, r, c, w')"
    using scan_one_walk [OF o, of ?rom "cmask AND NOT (2 ^ k)" w] w(1) d(1) by (cases devs) auto
  have "scan_from bus base i cmask roms w = scan_from bus base (i + 1) c (roms[i := r]) w'"
    using F i(1) rs(1) so mask_bits(4) [OF k(1)] by (subst scan_from.simps) (simp add: Let_def)
  moreover have "found ?D (i + 1) (roms[i := r]) c"
  proof -
    have t: "take (i + 1) (roms[i := r]) = take i roms @ [r]" "roms[i := r] ! i = r" using F i(1) by (simp_all add: take_Suc_conv_app_nth)
    have F': "length roms = W1_MAX_DEVICES" "distinct (take i roms)" "set (take i roms) = {d \<in> ?D. d = ?r \<or> before d ?r}" using F by blast+
    have "r \<notin> set (take i roms)" unfolding F'(3) using nd(2) before_irrefl before_trans by blast
    moreover have st: "set (take i roms @ [r]) = {d \<in> ?D. d = r \<or> before d r}" using nd(1) F'(3) by simp
    ultimately show ?thesis unfolding found_def t(1) add_diff_cancel_right' t(2) using F'(1,2) i(1) w(2,5) by (intro conjI st) simp_all
  qed
  ultimately show ?thesis by blast
qed

lemma scan_ends:
  assumes "found D i roms cmask" "cmask = 0 \<or> i = W1_MAX_DEVICES" "finite D"
  shows "i = min W1_MAX_DEVICES (card D)" "card D \<le> W1_MAX_DEVICES \<Longrightarrow> set (take i roms) = D"
proof -
  note F = assms(1) [unfolded found_def]
  have sub: "set (take i roms) \<subseteq> D" using F by blast
  have "distinct (take i roms)" "length (take i roms) = i" using F by auto
  then have c: "card (set (take i roms)) = i" by (metis distinct_card)
  have eq: "set (take i roms) = D" if "cmask = 0"
  proof -
    have "\<not> branches D (roms ! (i - 1)) n" if "n < 64" for n using F \<open>cmask = 0\<close> that by (metis bit_0_eq bot_apply bot_bool_def)
    then show ?thesis using F no_branches by blast
  qed
  have le: "i \<le> card D" using card_mono [OF assms(3) sub] c by simp
  show "i = min W1_MAX_DEVICES (card D)" using assms(2) eq c le F by auto
  show "set (take i roms) = D" if "card D \<le> W1_MAX_DEVICES"
    using assms(2) eq card_subset_eq [OF assms(3) sub] c le that by auto
qed

lemma scan_all:
  assumes o: "onewire bus base devs line" and D: "low_distinct (set devs)" and f: "found (set devs) i roms cmask"
  shows "\<exists>n roms' w'. scan_from bus base i cmask roms w = Some (n, roms', w') \<and> n = min W1_MAX_DEVICES (card (set devs))
    \<and> distinct (take n roms') \<and> set (take n roms') \<subseteq> set devs \<and> (card (set devs) \<le> W1_MAX_DEVICES \<longrightarrow> set (take n roms') = set devs)"
  using f
proof (induction "W1_MAX_DEVICES - i" arbitrary: i roms cmask w rule: less_induct)
  case less
  note F = less.prems [unfolded found_def]
  have sub: "distinct (take i roms)" "set (take i roms) \<subseteq> set devs" using F by blast+
  consider "i = W1_MAX_DEVICES" | "i < W1_MAX_DEVICES" "cmask = 0" | "i < W1_MAX_DEVICES" "cmask \<noteq> 0" using F by linarith
  then show ?case
  proof cases
    case 1
    then show ?thesis using scan_ends [OF less.prems] sub by (subst scan_from.simps) simp
  next
    case 2
    obtain r' m where r: "resolve cmask (roms ! (i - 1)) (2 ^ 63) = (r', m)" by (rule prod.exhaust)
    have "m = 0" using resolve_none [of 63 cmask "roms ! (i - 1)"] r 2(2) by simp
    then have "scan_from bus base i cmask roms w = Some (i, roms[i := r'], w)" using F 2 r by (subst scan_from.simps) (simp add: Let_def)
    then show ?thesis using scan_ends [OF less.prems] sub 2 by simp
  next
    case 3
    then obtain rom cmask' w' where s: "scan_from bus base i cmask roms w = scan_from bus base (i + 1) cmask' (roms[i := rom]) w'"
      "found (set devs) (i + 1) (roms[i := rom]) cmask'" using scan_step [OF o D less.prems] by blast
    then show ?thesis using less.hyps [OF _ s(2)] 3(1) by simp
  qed
qed

text \<open>The first search starts from an empty table.\<close>

lemma scan_start:
  assumes o: "onewire bus base devs line" and D: "low_distinct (set devs)" "devs \<noteq> []" and r: "length roms = W1_MAX_DEVICES" "roms ! 0 = 0"
  shows "\<exists>rom cmask w'. scan_from bus base 0 0 roms w = scan_from bus base 1 cmask (roms[0 := rom]) w' \<and> found (set devs) 1 (roms[0 := rom]) cmask"
proof -
  obtain d where "d \<in> set devs" using D(2) by (cases devs) auto
  then have ex: "\<exists>d\<in>set devs. same_below 0 d 0" by (auto simp: same_below_def)
  obtain q c where w: "walk [0..<64] devs 0 0 = (q, c)" "q \<in> set devs"
    "\<And>d. d \<in> set devs \<Longrightarrow> same_below 0 d 0 \<Longrightarrow> d = q \<or> before q d" "\<And>i. bit c i \<longleftrightarrow> i < 64 \<and> branches (set devs) q i"
    by (rule walk_result [OF D(1), of 0 0]) (use ex in auto)
  obtain w' where "w1_scan_one bus base 0 0 w = Some (0, q, c, w')" using scan_one_walk [OF o D(2), of 0 0 w] w(1) by auto
  then have "scan_from bus base 0 0 roms w = scan_from bus base 1 c (roms[0 := q]) w'"
    using r by (subst scan_from.simps) (simp add: Let_def W1_MAX_DEVICES_def)
  moreover have "found (set devs) 1 (roms[0 := q]) c"
  proof -
    have f: "\<And>d. d \<in> set devs \<Longrightarrow> d = q \<or> before q d" using w(3) by (simp add: same_below_def)
    have "{d \<in> set devs. d = q \<or> before d q} = {q}" using w(2) f before_irrefl before_trans by blast
    moreover have "take 1 (roms[0 := q]) = [q]" "roms[0 := q] ! 0 = q" using r(1) by (cases roms; simp add: W1_MAX_DEVICES_def)+
    ultimately show ?thesis using r(1) w(2,4) by (simp add: found_def W1_MAX_DEVICES_def)
  qed
  ultimately show ?thesis by blast
qed

lemma scan_empty:
  assumes "onewire bus base [] line" "length roms = W1_MAX_DEVICES"
  shows "\<exists>roms' w'. scan_from bus base 0 0 roms w = Some (0, roms', w')"
proof -
  obtain w' where "w1_reset bus base w = Some (0, w')" using reset_line [OF assms(1), of w] by auto
  then show ?thesis by (subst scan_from.simps) (simp add: w1_scan_one_def W1_MAX_DEVICES_def)
qed

text \<open>A device that is selected by its identifier.\<close>

lemma run_append: "line_run devs (xs @ ys) l = Option.bind (line_run devs xs l) (line_run devs ys)"
  by (induction xs arbitrary: l) (auto split: bind_splits)

lemma match_bits:
  "n \<le> 64 \<Longrightarrow> line_run devs (map (bit d) [0..<n]) (Match 0 devs) =
     Some (if n = 64 then Selected (filter (\<lambda>e. same_below d e 64) devs) else Match n (filter (\<lambda>e. same_below d e n) devs))"
proof (induction n)
  case 0
  then show ?case by (simp add: same_below_def)
next
  case (Suc n)
  have "filter (\<lambda>e. bit e n = bit d n) (filter (\<lambda>e. same_below d e n) devs) = filter (\<lambda>e. same_below d e (Suc n)) devs"
    by (auto simp: same_below_Suc intro: filter_cong)
  moreover have "line_run devs (map (bit d) [0..<Suc n]) (Match 0 devs) = Option.bind (line_run devs (map (bit d) [0..<n]) (Match 0 devs)) (line_run devs [bit d n])"
    by (simp add: run_append)
  ultimately show ?case using Suc by (cases "n = 63") (simp_all add: keep_if_def del: upt_Suc)
qed

lemma write_bytes_line:
  assumes "onewire bus base devs line" "line_run devs (concat (map (\<lambda>i. map (bit (f i)) [0..<8]) is)) (line w) = Some l"
  shows "\<exists>w'. for_each (\<lambda>i. w1_write_byte bus base (f i)) is w = Some w' \<and> line w' = l"
  using assms(2)
proof (induction "is" arbitrary: w)
  case (Cons i "is")
  obtain l1 where l1: "line_run devs (map (bit (f i)) [0..<8]) (line w) = Some l1" "line_run devs (concat (map (\<lambda>i. map (bit (f i)) [0..<8]) is)) l1 = Some l"
    using Cons.prems by (auto simp: run_append split: bind_splits)
  obtain w1 where "w1_write_byte bus base (f i) w = Some w1" "line w1 = l1" using write_byte_line [OF assms(1) l1(1)] by blast
  then show ?case using Cons.IH [of w1] l1(2) by simp
qed simp

lemma rom_bytes:
  fixes d :: u64
  shows "concat (map (\<lambda>i. map (bit (i32 (uint (drop_bit (8 * i) d)))) [0..<8]) [0..<8]) = map (bit d) [0..<64]"
proof -
  have b: "bit (i32 x) n = bit x n" if "n < 32" for x n
  proof -
    have "take_bit 32 (i32 x) = take_bit 32 x" using i32_cong [of x] by (simp add: take_bit_eq_mod)
    then show ?thesis using that by (metis bit_take_bit_iff)
  qed
  have e: "map (bit (i32 (uint (drop_bit (8 * i) d)))) [0..<8] = map (\<lambda>n. bit d (8 * i + n)) [0..<8]" for i
    by (rule map_cong) (auto simp: b bit_drop_bit_eq bit_uint_iff dest: bit_imp_le_length)
  have "concat (map (\<lambda>i. map (bit (i32 (uint (drop_bit (8 * i) d)))) [0..<8]) [0..<8]) = concat (map (\<lambda>i. map (\<lambda>n. bit d (8 * i + n)) [0..<8]) [0..<8])"
    by (simp only: e)
  also have "\<dots> = map (bit d) (concat (map (\<lambda>i. map (\<lambda>n. 8 * i + n) [0..<8]) [0..<8]))" by (simp add: map_concat comp_def)
  also have "concat (map (\<lambda>i. map (\<lambda>n. 8 * i + n) [0..<8]) [0..<8]) = [0..<64 :: nat]" by code_simp
  finally show ?thesis .
qed

lemma match_selects:
  assumes "onewire bus base devs line" "d \<in> set devs" "distinct devs"
  shows "\<exists>w'. w1_match_rom bus base d w = Some w' \<and> line w' = Selected [d]"
proof -
  obtain p w1 where w1: "w1_reset bus base w = Some (p, w1)" "line w1 = Cmd []" using reset_line [OF assms(1), of w] by blast
  have "map (bit W1_CMD_MATCH_ROM) [0..<8] = [True, False, True, False, True, False, True, False]" unfolding W1_CMD_MATCH_ROM_def by code_simp
  then have "line_run devs (map (bit W1_CMD_MATCH_ROM) [0..<8]) (line w1) = Some (Match 0 devs)" by (simp add: w1(2) Let_def)
  then obtain w2 where w2: "w1_write_byte bus base W1_CMD_MATCH_ROM w1 = Some w2" "line w2 = Match 0 devs" using write_byte_line [OF assms(1)] by blast
  have "filter (\<lambda>e. same_below d e 64) devs = [d]"
    unfolding same_below_64 using assms(2,3) by (induction devs) (auto simp: filter_empty_conv)
  then have "line_run devs (concat (map (\<lambda>i. map (bit (i32 (uint (drop_bit (8 * i) d)))) [0..<8]) [0..<8])) (line w2) = Some (Selected [d])"
    unfolding rom_bytes w2(2) using match_bits [of 64 devs d] by simp
  from write_bytes_line [OF assms(1) this] show ?thesis using w1(1) w2(1) by (auto simp: w1_match_rom_def)
qed

section \<open>Properties\<close>

text \<open>
  C37. The search finds the devices. On a bus whose devices have identifiers that differ in their low 32 bits, the search at initialisation ends; it returns the
  number of devices, or 8 if there are more, and the table holds that many identifiers of devices without repetition: all of them if
  there are at most 8.
\<close>

theorem scan_finds_devices:
  assumes "onewire bus base devs line" "low_distinct (set devs)"
  shows "\<exists>n roms w'. wrc_w1_init bus base cpu_clock w = Some (n, roms, w') \<and> n = min W1_MAX_DEVICES (card (set devs))
    \<and> distinct (take n roms) \<and> set (take n roms) \<subseteq> set devs \<and> (card (set devs) \<le> W1_MAX_DEVICES \<longrightarrow> set (take n roms) = set devs)"
proof (cases "devs = []")
  case True
  then show ?thesis using scan_empty [of bus base line "replicate W1_MAX_DEVICES 0"] assms(1) by (force simp: wrc_w1_init_def w1_scan_bus_def)
next
  case False
  let ?z = "replicate W1_MAX_DEVICES (0 :: u64)" and ?w = "w1_init bus base cpu_clock w"
  have z: "length ?z = W1_MAX_DEVICES" "?z ! 0 = 0" by (simp_all add: W1_MAX_DEVICES_def)
  obtain rom c w1 where s: "scan_from bus base 0 0 ?z ?w = scan_from bus base 1 c (?z[0 := rom]) w1" "found (set devs) 1 (?z[0 := rom]) c"
    using scan_start [OF assms False z] by blast
  show ?thesis unfolding wrc_w1_init_def w1_scan_bus_def s(1) by (rule scan_all [OF assms s(2)])
qed

text \<open>A master core that is done at once, with devices on its bus.\<close>

definition example_slot :: "u64 list \<Rightarrow> bool \<Rightarrow> line \<Rightarrow> bool \<times> line" where
  "example_slot devs b l = (case line_slot devs b l of None \<Rightarrow> (b, Off) | Some r \<Rightarrow> r)"

definition example_owm :: "u64 list \<Rightarrow> (line \<times> bool) reg_bus" where
  "example_owm devs = \<lparr>bus_read = \<lambda>a (l, v). (if v then 1 else 0, (l, v)),
     bus_write = \<lambda>a d (l, v). if a \<noteq> 0 then (l, v) else if d AND SOCKIT_OWM_CTL_RST_MSK \<noteq> 0 then (Cmd [], devs = [])
       else case example_slot devs (d AND SOCKIT_OWM_CTL_DAT_MSK \<noteq> 0) l of (v, l) \<Rightarrow> (l, v),
     bus_delay = \<lambda>n w. w\<rparr>"

lemma example_onewire: "onewire (example_owm devs) 0 devs fst"
proof -
  have r: "(8 OR 2 :: u32) AND 2 \<noteq> 0" "(8 OR 1 :: u32) AND 2 = 0" "(8 :: u32) AND 2 = 0" "(8 OR 1 :: u32) AND 1 \<noteq> 0" "(8 :: u32) AND 1 = 0" by simp_all
  have p: "polls (example_owm devs) 0 (\<lambda>r. r AND SOCKIT_OWM_CTL_CYC_MSK = 0) w (if snd w then 1 else 0) w" for w
    by (rule polls.last) (simp_all add: example_owm_def SOCKIT_OWM_CTL_CYC_MSK_def split_beta)
  have "\<exists>r w'. owm_cycle (example_owm devs) 0 SOCKIT_OWM_CTL_RST_MSK w r w' \<and> (r AND SOCKIT_OWM_CTL_DAT_MSK = 0) = (devs \<noteq> []) \<and> fst w' = Cmd []" for w
    using p [of "(Cmd [], devs = [])"]
    by (auto simp: owm_cycle_def example_owm_def SOCKIT_OWM_CTL_RST_MSK_def SOCKIT_OWM_CTL_CYC_MSK_def SOCKIT_OWM_CTL_DAT_MSK_def split_beta intro!: exI)
  moreover have "\<exists>r w'. owm_cycle (example_owm devs) 0 (if b then SOCKIT_OWM_CTL_DAT_MSK else 0) w r w' \<and> (r AND SOCKIT_OWM_CTL_DAT_MSK \<noteq> 0) = v \<and> fst w' = l"
    if "line_slot devs b (fst w) = Some (v, l)" for b w v l
  proof -
    have "bus_write (example_owm devs) 0 (SOCKIT_OWM_CTL_CYC_MSK OR (if b then SOCKIT_OWM_CTL_DAT_MSK else 0)) w = (l, v)"
      using that by (cases w; cases b) (simp_all add: example_owm_def example_slot_def SOCKIT_OWM_CTL_RST_MSK_def SOCKIT_OWM_CTL_CYC_MSK_def SOCKIT_OWM_CTL_DAT_MSK_def)
    then show ?thesis using p [of "(l, v)"]
      by (intro exI [of _ "if v then 1 else 0"] exI [of _ "(l, v)"]) (simp add: owm_cycle_def SOCKIT_OWM_CTL_DAT_MSK_def)
  qed
  ultimately show ?thesis unfolding onewire_def by blast
qed

theorem scan_finds_devices_witness:
  "\<exists>n roms w'. wrc_w1_init (example_owm [0x2a00000000123428, 0x5100000000777728, 0x1900000000000043]) 0 62500000 (Off, False) = Some (n, roms, w')
    \<and> n = 3 \<and> set (take n roms) = {0x2a00000000123428, 0x5100000000777728, 0x1900000000000043}"
proof -
  let ?d = "[0x2a00000000123428, 0x5100000000777728, 0x1900000000000043] :: u64 list"
  have "\<not> same_below 0x2a00000000123428 0x5100000000777728 32" "\<not> same_below 0x2a00000000123428 0x1900000000000043 32"
    "\<not> same_below 0x5100000000777728 0x1900000000000043 32" by code_simp+
  then have "low_distinct (set ?d)" by (auto simp: low_distinct_def same_below_sym)
  moreover have c: "card (set ?d) = 3" by simp
  ultimately obtain n roms w' where "wrc_w1_init (example_owm ?d) 0 62500000 (Off, False) = Some (n, roms, w')" "n = 3" "set (take n roms) = set ?d"
    using scan_finds_devices [OF example_onewire, of ?d 62500000 "(Off, False)"] unfolding c W1_MAX_DEVICES_def by auto
  then show ?thesis by simp
qed



end
