(* ===== verification/Pps.thy ===== *)
theory Pps
  imports Wrpc_Prelude
begin

text \<open>
  \<^verbatim>\<open>dev/pps_gen.c\<close>: the driver of the core that keeps the time of the node and generates the pulse per second. Its registers are behind the bus of the prelude;
  the time itself is kept by the hardware, and what the code relies on (the counters show the time, a set command loads the adjustment registers)
  is stated as \<open>ppsg_counts\<close> and \<open>ppsg_sets\<close>. The debug prints are not modelled.

  Results: the time read from three counters, one after the other, is the time at one moment of the call, and the read ends in two rounds;
  a time that is set is read back, up to the clock period and the duration of the accesses.
\<close>

unbundle bit_operations_syntax

section \<open>Definitions\<close>

definition PPSG_CR_CNT_EN :: u32 where "PPSG_CR_CNT_EN = 2"
definition PPSG_CR_CNT_ADJ :: u32 where "PPSG_CR_CNT_ADJ = 4"
definition PPSG_CR_CNT_SET :: u32 where "PPSG_CR_CNT_SET = 8"
definition PPSG_CR_PWIDTH_W :: "u32 \<Rightarrow> u32" where "PPSG_CR_PWIDTH_W v = push_bit 4 (v AND 0xfffffff)"
definition PPSG_ESCR_PPS_UNMASK :: u32 where "PPSG_ESCR_PPS_UNMASK = 2"
definition PPSG_ESCR_PPS_VALID :: u32 where "PPSG_ESCR_PPS_VALID = 4"
definition PPSG_ESCR_TM_VALID :: u32 where "PPSG_ESCR_TM_VALID = 8"
definition PPSG_ESCR_SEC_SET :: u32 where "PPSG_ESCR_SEC_SET = 16"
definition PPSG_ESCR_NSEC_SET :: u32 where "PPSG_ESCR_NSEC_SET = 32"
definition PPSG_ADJUST_NSEC :: int where "PPSG_ADJUST_NSEC = 2"
definition PPSG_SET_SEC :: int where "PPSG_SET_SEC = 1"
definition PPSG_SET_NSEC :: int where "PPSG_SET_NSEC = 2"
definition PPSG_SET_ALL :: int where "PPSG_SET_ALL = 3"

text \<open>The offsets of \<open>struct PPSG_WB\<close>.\<close>

datatype ppsg_reg = CR | CNTR_NSEC | CNTR_UTCLO | CNTR_UTCHI | ADJ_NSEC | ADJ_UTCLO | ADJ_UTCHI | ESCR

fun ppsg_offset :: "ppsg_reg \<Rightarrow> u32" where
  "ppsg_offset CR = 0"
| "ppsg_offset CNTR_NSEC = 4"
| "ppsg_offset CNTR_UTCLO = 8"
| "ppsg_offset CNTR_UTCHI = 0xc"
| "ppsg_offset ADJ_NSEC = 0x10"
| "ppsg_offset ADJ_UTCLO = 0x14"
| "ppsg_offset ADJ_UTCHI = 0x18"
| "ppsg_offset ESCR = 0x1c"

definition ppsg_write :: "'w reg_bus \<Rightarrow> u32 \<Rightarrow> ppsg_reg \<Rightarrow> u32 \<Rightarrow> 'w \<Rightarrow> 'w" where
  "ppsg_write bus base reg v w = bus_write bus (base + ppsg_offset reg) v w"

definition ppsg_read :: "'w reg_bus \<Rightarrow> u32 \<Rightarrow> ppsg_reg \<Rightarrow> 'w \<Rightarrow> u32 \<times> 'w" where
  "ppsg_read bus base reg w = bus_read bus (base + ppsg_offset reg) w"

definition shw_pps_gen_init :: "'w reg_bus \<Rightarrow> u32 \<Rightarrow> u32 \<Rightarrow> 'w \<Rightarrow> 'w" where
  "shw_pps_gen_init bus base pps_width w =
     (let cr = PPSG_CR_CNT_EN OR PPSG_CR_PWIDTH_W pps_width;
          w = ppsg_write bus base CR cr w;
          w = ppsg_write bus base ADJ_UTCLO 0 w;
          w = ppsg_write bus base ADJ_UTCHI 0 w;
          w = ppsg_write bus base ADJ_NSEC 0 w;
          w = ppsg_write bus base CR (cr OR PPSG_CR_CNT_SET) w;
          w = ppsg_write bus base CR cr w
      in ppsg_write bus base ESCR 0 w)"

text \<open>\<open>period\<close> is \<open>REF_CLOCK_PERIOD_PS\<close>; \<open>how_much\<close> is an \<open>int64_t\<close>.\<close>

definition shw_pps_gen_adjust :: "'w reg_bus \<Rightarrow> u32 \<Rightarrow> int \<Rightarrow> int \<Rightarrow> int \<Rightarrow> 'w \<Rightarrow> 'w" where
  "shw_pps_gen_adjust bus base period counter how_much w =
     (let w = (if counter = PPSG_ADJUST_NSEC then
                 (let w = ppsg_write bus base ADJ_UTCLO 0 w;
                      w = ppsg_write bus base ADJ_UTCHI 0 w
                  in ppsg_write bus base ADJ_NSEC (word_of_int (i32 (i64 (how_much * 1000) sdiv period))) w)
               else
                 (let w = ppsg_write bus base ADJ_UTCLO (word_of_int how_much) w;
                      w = ppsg_write bus base ADJ_UTCHI (word_of_int (sar64 how_much 32) AND 0xff) w
                  in ppsg_write bus base ADJ_NSEC 0 w));
          (cr, w) = ppsg_read bus base CR w
      in ppsg_write bus base CR (cr OR PPSG_CR_CNT_ADJ) w)"

definition shw_pps_gen_set_time :: "'w reg_bus \<Rightarrow> u32 \<Rightarrow> int \<Rightarrow> 64 word \<Rightarrow> u32 \<Rightarrow> int \<Rightarrow> 'w \<Rightarrow> 'w" where
  "shw_pps_gen_set_time bus base period seconds nanoseconds counter w =
     (let w = ppsg_write bus base ADJ_UTCLO (ucast seconds) w;
          w = ppsg_write bus base ADJ_UTCHI (ucast (drop_bit 32 seconds) AND 0xff) w;
          w = ppsg_write bus base ADJ_NSEC (word_of_int (i32 (uint nanoseconds * 1000 sdiv period))) w
      in if counter = PPSG_SET_ALL then
           (let (cr, w) = ppsg_read bus base CR w in ppsg_write bus base CR ((cr AND 0xfffffffb) OR PPSG_CR_CNT_SET) w)
         else if counter = PPSG_SET_SEC then
           (let (escr, w) = ppsg_read bus base ESCR w in ppsg_write bus base ESCR ((escr AND 0xffffffe7) OR PPSG_ESCR_SEC_SET) w)
         else if counter = PPSG_SET_NSEC then
           (let (escr, w) = ppsg_read bus base ESCR w in ppsg_write bus base ESCR ((escr AND 0xffffffe7) OR PPSG_ESCR_NSEC_SET) w)
         else w)"

definition pps_get_utc :: "'w reg_bus \<Rightarrow> u32 \<Rightarrow> 'w \<Rightarrow> 64 word \<times> 'w" where
  "pps_get_utc bus base w =
     (let (low, w) = ppsg_read bus base CNTR_UTCLO w;
          (high, w) = ppsg_read bus base CNTR_UTCHI w
      in (ucast low OR push_bit 32 (ucast (high AND 0xff)), w))"

partial_function (option) read_time :: "'w reg_bus \<Rightarrow> u32 \<Rightarrow> 'w \<Rightarrow> (64 word \<times> u32 \<times> 'w) option" where
  "read_time bus base w =
     (let (sec1, w) = pps_get_utc bus base w;
          (ns_cnt, w) = ppsg_read bus base CNTR_NSEC w;
          (sec2, w) = pps_get_utc bus base w
      in if sec2 \<noteq> sec1 then read_time bus base w else Some (sec2, ns_cnt AND 0xfffffff, w))"

definition shw_pps_gen_get_time :: "'w reg_bus \<Rightarrow> u32 \<Rightarrow> u32 \<Rightarrow> 'w \<Rightarrow> (64 word \<times> u32 \<times> 'w) option" where
  "shw_pps_gen_get_time bus base ns_per_clock w = map_option (\<lambda>(sec, ns_cnt, w). (sec, ns_cnt * ns_per_clock, w)) (read_time bus base w)"

definition shw_pps_gen_busy :: "'w reg_bus \<Rightarrow> u32 \<Rightarrow> 'w \<Rightarrow> int \<times> 'w" where
  "shw_pps_gen_busy bus base w = (let (cr, w) = ppsg_read bus base CR w in (if cr AND PPSG_CR_CNT_ADJ \<noteq> 0 then 0 else 1, w))"

definition shw_pps_gen_enable_output :: "'w reg_bus \<Rightarrow> u32 \<Rightarrow> bool \<Rightarrow> 'w \<Rightarrow> 'w" where
  "shw_pps_gen_enable_output bus base enable w =
     (let (escr, w) = ppsg_read bus base ESCR w
      in ppsg_write bus base ESCR (if enable then escr OR PPSG_ESCR_PPS_VALID OR PPSG_ESCR_TM_VALID
           else escr AND NOT (PPSG_ESCR_PPS_VALID OR PPSG_ESCR_TM_VALID)) w)"

definition shw_pps_gen_unmask_output :: "'w reg_bus \<Rightarrow> u32 \<Rightarrow> bool \<Rightarrow> 'w \<Rightarrow> 'w" where
  "shw_pps_gen_unmask_output bus base unmask w =
     (let (escr, w) = ppsg_read bus base ESCR w
      in ppsg_write bus base ESCR (if unmask then escr OR PPSG_ESCR_PPS_UNMASK else escr AND NOT PPSG_ESCR_PPS_UNMASK) w)"

section \<open>Facts\<close>

text \<open>
  The counters. \<open>now w\<close> is the time in clock cycles since the start of the count of seconds, \<open>freq\<close> the cycles per second; an access takes at
  most \<open>q\<close> cycles, and a read of a counter shows its value at the end of the access.
\<close>

definition ppsg_counts :: "'w reg_bus \<Rightarrow> u32 \<Rightarrow> int \<Rightarrow> int \<Rightarrow> ('w \<Rightarrow> int) \<Rightarrow> bool" where
  "ppsg_counts bus base freq q now \<longleftrightarrow>
     (\<forall>w. 0 \<le> now w)
     \<and> (\<forall>reg w. now w \<le> now (snd (ppsg_read bus base reg w)) \<and> now (snd (ppsg_read bus base reg w)) \<le> now w + q)
     \<and> (\<forall>w r w'. ppsg_read bus base CNTR_UTCLO w = (r, w') \<longrightarrow> uint r = now w' div freq mod 2 ^ 32)
     \<and> (\<forall>w r w'. ppsg_read bus base CNTR_UTCHI w = (r, w') \<longrightarrow> uint (r AND 0xff) = now w' div freq div 2 ^ 32 mod 256)
     \<and> (\<forall>w r w'. ppsg_read bus base CNTR_NSEC w = (r, w') \<longrightarrow> uint (r AND 0xfffffff) = now w' mod freq)"

lemma join_words:
  fixes l h :: u32
  assumes "uint h < 256"
  shows "uint (ucast l OR push_bit 32 (ucast h) :: 64 word) = uint h * 2 ^ 32 + uint l"
proof -
  have "uint (ucast l OR push_bit 32 (ucast h) :: 64 word) = uint l OR push_bit 32 (uint h)"
    by (rule bit_eqI) (auto simp: bit_uint_iff bit_or_iff bit_push_bit_iff bit_ucast_iff dest: bit_imp_le_length)
  also have "\<dots> = uint l + push_bit 32 (uint h)"
    by (rule disjunctive_add [symmetric]) (auto simp: bit_push_bit_iff bit_uint_iff dest: bit_imp_le_length)
  finally show ?thesis by (simp add: push_bit_eq_mult)
qed

lemma utc_parts: "S div 2 ^ 32 mod 256 * 2 ^ 32 + S mod 2 ^ 32 = S mod (2 ^ 40 :: int)"
proof -
  have "S mod (2 ^ 32 * 256) = 2 ^ 32 * (S div 2 ^ 32 mod 256) + S mod 2 ^ 32" by (rule zmod_zmult2_eq) simp
  then show ?thesis by simp
qed

lemma utc_read:
  assumes h: "ppsg_counts bus base freq q now" and r: "pps_get_utc bus base w = (s, w2)"
  obtains t where "now w \<le> t" "t \<le> now w2" "now w2 \<le> now w + 2 * q"
    "uint s = now w2 div freq div 2 ^ 32 mod 256 * 2 ^ 32 + t div freq mod 2 ^ 32"
proof -
  obtain l w1 where l: "ppsg_read bus base CNTR_UTCLO w = (l, w1)" by (rule prod.exhaust)
  obtain u w3 where u: "ppsg_read bus base CNTR_UTCHI w1 = (u, w3)" by (rule prod.exhaust)
  have s: "s = ucast l OR push_bit 32 (ucast (u AND 0xff))" "w3 = w2" using r l u by (auto simp: pps_get_utc_def)
  have t: "now w \<le> now w1" "now w1 \<le> now w + q" "now w1 \<le> now w2" "now w2 \<le> now w1 + q"
    using h l u s(2) unfolding ppsg_counts_def by (metis snd_conv)+
  have v: "uint l = now w1 div freq mod 2 ^ 32" "uint (u AND 0xff) = now w2 div freq div 2 ^ 32 mod 256"
    using h l u s(2) unfolding ppsg_counts_def by blast+
  have "uint (u AND 0xff) < 256" unfolding v(2) by simp
  from join_words [OF this, of l] have "uint s = now w2 div freq div 2 ^ 32 mod 256 * 2 ^ 32 + now w1 div freq mod 2 ^ 32"
    unfolding s(1) v .
  then show ?thesis using that [of "now w1"] t by simp
qed

text \<open>One round of the loop, when at most one second ends while it runs.\<close>

lemma same_second:
  fixes a b c :: int
  assumes "a \<le> b" "b \<le> c" "a div f = c div f" "0 < f"
  shows "b div f = a div f"
  using zdiv_mono1 [OF assms(1,4)] zdiv_mono1 [OF assms(2,4)] assms(3) by simp

lemma next_second: "a \<le> b \<Longrightarrow> b < a + f \<Longrightarrow> 0 < f \<Longrightarrow> b div f \<in> {a div f, a div f + (1 :: int)}"
  using zdiv_mono1 [of a b f] zdiv_mono1 [of b "a + f" f] div_add_self2 [of f a] by auto

lemma read_round:
  assumes h: "ppsg_counts bus base freq q now" "0 < freq" "5 * q < freq"
  obtains t w' where "now w \<le> t" "t \<le> now w'" "now w' \<le> now w + 5 * q"
    "(\<exists>s c. read_time bus base w = Some (s, c, w') \<and> uint s = t div freq mod 2 ^ 40 \<and> uint c = t mod freq)
     \<or> read_time bus base w = read_time bus base w' \<and> now w div freq \<noteq> now w' div freq"
proof -
  obtain s1 w1 where r1: "pps_get_utc bus base w = (s1, w1)" by (rule prod.exhaust)
  obtain c w2 where r2: "ppsg_read bus base CNTR_NSEC w1 = (c, w2)" by (rule prod.exhaust)
  obtain s2 w3 where r3: "pps_get_utc bus base w2 = (s2, w3)" by (rule prod.exhaust)
  obtain t1 where t1: "now w \<le> t1" "t1 \<le> now w1" "now w1 \<le> now w + 2 * q" "uint s1 = now w1 div freq div 2 ^ 32 mod 256 * 2 ^ 32 + t1 div freq mod 2 ^ 32"
    by (rule utc_read [OF h(1) r1])
  obtain t4 where t4: "now w2 \<le> t4" "t4 \<le> now w3" "now w3 \<le> now w2 + 2 * q" "uint s2 = now w3 div freq div 2 ^ 32 mod 256 * 2 ^ 32 + t4 div freq mod 2 ^ 32"
    by (rule utc_read [OF h(1) r3])
  have t2: "now w1 \<le> now w2" "now w2 \<le> now w1 + q" using h(1) r2 unfolding ppsg_counts_def by (metis snd_conv)+
  have c: "uint (c AND 0xfffffff) = now w2 mod freq" using h(1) r2 unfolding ppsg_counts_def by blast
  have e: "read_time bus base w = (if s2 \<noteq> s1 then read_time bus base w3 else Some (s2, c AND 0xfffffff, w3))"
    by (subst read_time.simps) (simp add: r1 r2 r3)
  have tot: "now w3 \<le> now w + 5 * q" "now w \<le> now w2" "now w2 \<le> now w3" using t1 t2 t4 by linarith+
  show ?thesis
  proof (cases "s2 = s1")
    case False
    have "now w div freq \<noteq> now w3 div freq"
    proof
      assume a: "now w div freq = now w3 div freq"
      have "b div freq = now w div freq" if "now w \<le> b" "b \<le> now w3" for b using same_second [OF that a h(2)] .
      then have "now w1 div freq = now w div freq" "t1 div freq = now w div freq" "now w3 div freq = now w div freq" "t4 div freq = now w div freq"
        using t1(1,2) t2 t4(1,2) tot a by (meson order_trans order_refl)+
      then have "uint s1 = uint s2" unfolding t1(4) t4(4) by simp
      then show False using False by (simp add: word_uint_eq_iff)
    qed
    then show ?thesis using that [OF tot(2,3,1)] e False by simp
  next
    case True
    have m: "t4 div freq mod 2 ^ 32 = t1 div freq mod 2 ^ 32"
    proof -
      have "uint s1 mod 2 ^ 32 = t1 div freq mod 2 ^ 32" "uint s2 mod 2 ^ 32 = t4 div freq mod 2 ^ 32" unfolding t1(4) t4(4) by simp_all
      then show ?thesis using True by simp
    qed
    have tt: "t1 \<le> t4" "t4 < t1 + freq" using t1 t2 t4 h(3) by linarith+
    have eq: "t1 div freq = t4 div freq"
    proof (rule ccontr)
      assume "t1 div freq \<noteq> t4 div freq"
      then have "t4 div freq = t1 div freq + 1" using next_second [OF tt h(2)] by simp
      moreover have "(2 :: int) ^ 32 dvd t4 div freq - t1 div freq" using m by (simp only: mod_eq_dvd_iff)
      ultimately show False by simp
    qed
    have "now w1 div freq = t1 div freq" by (rule same_second [OF _ _ eq h(2)]) (use t1 t2 t4 in linarith)+
    moreover have "now w2 div freq = t1 div freq" by (rule same_second [OF _ _ eq h(2)]) (use t1 t2 t4 in linarith)+
    ultimately have "uint s2 = now w2 div freq mod 2 ^ 40" unfolding True [THEN arg_cong] t1(4) utc_parts [symmetric] by simp
    then show ?thesis using that [OF tot(2,3,1)] e True c by simp
  qed
qed

lemma read_time_true:
  assumes h: "ppsg_counts bus base freq q now" "0 < freq" "10 * q < freq"
  shows "\<exists>s c w' t. read_time bus base w = Some (s, c, w') \<and> now w \<le> t \<and> t \<le> now w + 10 * q
    \<and> uint s = t div freq mod 2 ^ 40 \<and> uint c = t mod freq"
proof -
  have q: "0 \<le> q" using h(1) unfolding ppsg_counts_def by (metis add_le_cancel_left add.right_neutral order_trans)
  have q5: "5 * q < freq" using h(3) q by simp
  obtain t w' where w: "now w \<le> t" "t \<le> now w'" "now w' \<le> now w + 5 * q"
    "(\<exists>s c. read_time bus base w = Some (s, c, w') \<and> uint s = t div freq mod 2 ^ 40 \<and> uint c = t mod freq)
     \<or> read_time bus base w = read_time bus base w' \<and> now w div freq \<noteq> now w' div freq"
    by (rule read_round [OF h(1,2) q5, of w])
  obtain u w'' where u: "now w' \<le> u" "u \<le> now w''" "now w'' \<le> now w' + 5 * q"
    "(\<exists>s c. read_time bus base w' = Some (s, c, w'') \<and> uint s = u div freq mod 2 ^ 40 \<and> uint c = u mod freq)
     \<or> read_time bus base w' = read_time bus base w'' \<and> now w' div freq \<noteq> now w'' div freq"
    by (rule read_round [OF h(1,2) q5, of w'])
  show ?thesis
  proof (cases "now w div freq = now w' div freq")
    case True
    then obtain s c where "read_time bus base w = Some (s, c, w')" "uint s = t div freq mod 2 ^ 40" "uint c = t mod freq" using w(4) by blast
    moreover have "t \<le> now w + 10 * q" using w q by linarith
    ultimately show ?thesis using w(1) by blast
  next
    case False
    have "now w' div freq = now w div freq + 1" using next_second [of "now w" "now w'" freq] False w q5 h(2) by simp
    moreover have "now w'' div freq \<in> {now w div freq, now w div freq + 1}" using next_second [of "now w" "now w''" freq] w u h(2,3) by simp
    moreover have "now w' div freq \<le> now w'' div freq" using zdiv_mono1 [of "now w'" "now w''" freq] u h(2) by simp
    ultimately have "now w' div freq = now w'' div freq" by auto
    then obtain s c where "read_time bus base w' = Some (s, c, w'')" "uint s = u div freq mod 2 ^ 40" "uint c = u mod freq" using u(4) by blast
    moreover have "now w \<le> u" "u \<le> now w + 10 * q" using w u by linarith+
    moreover have "(\<exists>s c. read_time bus base w = Some (s, c, w') \<and> uint s = t div freq mod 2 ^ 40 \<and> uint c = t mod freq) \<or> read_time bus base w = read_time bus base w'"
      using w(4) by blast
    moreover have "t \<le> now w + 10 * q" using w q by linarith
    ultimately show ?thesis using w(1) by (elim disjE) auto
  qed
qed

text \<open>The adjustment registers, and the command that loads them.\<close>

definition ppsg_sets :: "'w reg_bus \<Rightarrow> u32 \<Rightarrow> int \<Rightarrow> int \<Rightarrow> ('w \<Rightarrow> int) \<Rightarrow> ('w \<Rightarrow> u32 \<times> u32 \<times> u32) \<Rightarrow> bool" where
  "ppsg_sets bus base freq q now adj \<longleftrightarrow>
     (\<forall>reg w. adj (snd (ppsg_read bus base reg w)) = adj w)
     \<and> (\<forall>v w lo hi ns. adj w = (lo, hi, ns) \<longrightarrow> adj (ppsg_write bus base ADJ_UTCLO v w) = (v, hi, ns)
          \<and> adj (ppsg_write bus base ADJ_UTCHI v w) = (lo, v, ns) \<and> adj (ppsg_write bus base ADJ_NSEC v w) = (lo, hi, v))
     \<and> (\<forall>v w lo hi ns. adj w = (lo, hi, ns) \<and> v AND PPSG_CR_CNT_SET \<noteq> 0 \<longrightarrow>
          (uint hi * 2 ^ 32 + uint lo) * freq + uint ns \<le> now (ppsg_write bus base CR v w)
          \<and> now (ppsg_write bus base CR v w) \<le> (uint hi * 2 ^ 32 + uint lo) * freq + uint ns + q)"

lemma split_words:
  fixes s :: "64 word"
  assumes "uint s < 2 ^ 40"
  shows "uint (ucast (drop_bit 32 s) AND 0xff :: u32) * 2 ^ 32 + uint (ucast s :: u32) = uint s"
proof -
  have "uint (ucast s :: u32) = uint s mod 2 ^ 32" by (simp add: unsigned_ucast_eq take_bit_eq_mod)
  moreover have "uint (ucast (drop_bit 32 s) AND 0xff :: u32) = uint s div 2 ^ 32"
  proof -
    have m: "(0xff :: u32) = mask 8" by (simp add: mask_eq_exp_minus_1)
    have d: "uint (drop_bit 32 s) = uint s div 2 ^ 32" by (simp add: drop_bit_eq_div uint_div)
    have b: "0 \<le> uint s div 2 ^ 32" "uint s div 2 ^ 32 < 256" using assms zdiv_mono1 [of "uint s" "2 ^ 40 - 1" "2 ^ 32"] by (simp_all add: pos_imp_zdiv_nonneg_iff)
    have "uint (ucast (drop_bit 32 s) AND 0xff :: u32) = take_bit 8 (uint (ucast (drop_bit 32 s) :: u32))"
      unfolding m take_bit_eq_mask [symmetric] by (simp add: unsigned_take_bit_eq)
    also have "uint (ucast (drop_bit 32 s) :: u32) = uint s div 2 ^ 32" using b d by (simp add: unsigned_ucast_eq take_bit_eq_mod)
    finally show ?thesis using b by (simp add: take_bit_eq_mod)
  qed
  ultimately show ?thesis by simp
qed

lemma time_after_set:
  assumes h: "ppsg_sets bus base freq q now adj" and p: "period = 1000 * nsc" "0 < nsc" and s: "uint seconds < 2 ^ 40" "uint nanoseconds < 1000000000"
  defines "T \<equiv> uint seconds * freq + uint nanoseconds div nsc"
  shows "T \<le> now (shw_pps_gen_set_time bus base period seconds nanoseconds PPSG_SET_ALL w)"
    "now (shw_pps_gen_set_time bus base period seconds nanoseconds PPSG_SET_ALL w) \<le> T + q"
proof -
  define k where "k = uint nanoseconds div nsc"
  have k0: "0 \<le> k" using p(2) by (simp add: k_def pos_imp_zdiv_nonneg_iff)
  have "k * nsc \<le> uint nanoseconds" unfolding k_def using div_mult_mod_eq [of "uint nanoseconds" nsc] pos_mod_sign [OF p(2), of "uint nanoseconds"] by linarith
  moreover have "k \<le> k * nsc" using mult_left_mono [of 1 nsc k] k0 p(2) by simp
  ultimately have kb: "0 \<le> k" "k < 1000000000" using s(2) k0 by linarith+
  have d: "uint nanoseconds * 1000 sdiv period = k"
    using p by (cases "nanoseconds = 0") (simp_all add: signed_divide_int_def k_def sgn_mult abs_mult mult.commute [of _ 1000])
  let ?n = "word_of_int (i32 (uint nanoseconds * 1000 sdiv period)) :: u32"
  have n: "uint ?n = k" unfolding d using kb by (simp add: fits32_def uint_word_of_int take_bit_eq_mod)
  define hi where "hi = (ucast (drop_bit 32 seconds) AND 0xff :: u32)"
  obtain a b c where a: "adj w = (a, b, c)" by (metis prod_cases3)
  define w3 where "w3 = ppsg_write bus base ADJ_NSEC ?n (ppsg_write bus base ADJ_UTCHI hi (ppsg_write bus base ADJ_UTCLO (ucast seconds) w))"
  have a3: "adj w3 = (ucast seconds, hi, ?n)" using h a unfolding ppsg_sets_def w3_def by metis
  obtain cr w4 where r: "ppsg_read bus base CR w3 = (cr, w4)" by (rule prod.exhaust)
  have a4: "adj w4 = (ucast seconds, hi, ?n)" using h a3 r unfolding ppsg_sets_def by (metis snd_conv)
  have e: "shw_pps_gen_set_time bus base period seconds nanoseconds PPSG_SET_ALL w = ppsg_write bus base CR ((cr AND 0xfffffffb) OR PPSG_CR_CNT_SET) w4"
    using r unfolding shw_pps_gen_set_time_def w3_def hi_def by (simp add: Let_def)
  have "((cr AND 0xfffffffb) OR PPSG_CR_CNT_SET) AND PPSG_CR_CNT_SET \<noteq> 0"
  proof -
    have "((cr AND 0xfffffffb) OR PPSG_CR_CNT_SET) AND PPSG_CR_CNT_SET = PPSG_CR_CNT_SET" by (simp add: bit.conj_disj_distrib2 and.assoc)
    then show ?thesis by (simp add: PPSG_CR_CNT_SET_def)
  qed
  then have "(uint hi * 2 ^ 32 + uint (ucast seconds :: u32)) * freq + uint ?n \<le> now (ppsg_write bus base CR ((cr AND 0xfffffffb) OR PPSG_CR_CNT_SET) w4)
      \<and> now (ppsg_write bus base CR ((cr AND 0xfffffffb) OR PPSG_CR_CNT_SET) w4) \<le> (uint hi * 2 ^ 32 + uint (ucast seconds :: u32)) * freq + uint ?n + q"
    using h a4 unfolding ppsg_sets_def by blast
  then show "T \<le> now (shw_pps_gen_set_time bus base period seconds nanoseconds PPSG_SET_ALL w)"
    "now (shw_pps_gen_set_time bus base period seconds nanoseconds PPSG_SET_ALL w) \<le> T + q"
    unfolding e n split_words [OF s(1), folded hi_def] T_def k_def by simp_all
qed

text \<open>The result in nanoseconds.\<close>

lemma get_time_true:
  assumes h: "ppsg_counts bus base freq q now" "10 * q < freq" and f: "uint nsc * freq = 1000000000"
  shows "\<exists>s n w' t. shw_pps_gen_get_time bus base nsc w = Some (s, n, w') \<and> now w \<le> t \<and> t \<le> now w + 10 * q
    \<and> uint s = t div freq mod 2 ^ 40 \<and> uint n = t mod freq * uint nsc"
proof -
  have fp: "0 < freq" "0 < uint nsc"
  proof -
    have "0 < uint nsc * freq" using f by simp
    then show "0 < freq" "0 < uint nsc" using uint_nonnegative [of nsc] by (auto simp: zero_less_mult_iff)
  qed
  obtain s c w' t where r: "read_time bus base w = Some (s, c, w')" "now w \<le> t" "t \<le> now w + 10 * q" "uint s = t div freq mod 2 ^ 40" "uint c = t mod freq"
    using read_time_true [OF h(1) fp(1) h(2)] by blast
  have "t mod freq < freq" using fp by simp
  then have "t mod freq * uint nsc < freq * uint nsc" using fp by simp
  then have b: "t mod freq * uint nsc < 1000000000" using f by (simp add: mult.commute)
  have "0 \<le> t mod freq * uint nsc" using fp by simp
  then have "uint (c * nsc) = t mod freq * uint nsc" using b r(5) by (simp add: uint_word_ariths take_bit_eq_mod)
  then show ?thesis using r by (auto simp: shw_pps_gen_get_time_def)
qed

section \<open>Properties\<close>

text \<open>
  C39. The time that is read is the time. The driver reads the seconds in two words, the cycles, and the seconds again; while the counters run and may carry between
  any two of the reads, \<open>shw_pps_gen_get_time\<close> ends, and returns the seconds and nanoseconds of one and the same moment of the
  call, provided that ten accesses take less than a second.
\<close>

theorem time_is_snapshot:
  assumes "ppsg_counts bus base freq q now" "10 * q < freq" "uint ns_per_clock * freq = 1000000000"
  shows "\<exists>s n w' t. shw_pps_gen_get_time bus base ns_per_clock w = Some (s, n, w') \<and> now w \<le> t \<and> t \<le> now w + 10 * q
    \<and> uint s = t div freq mod 2 ^ 40 \<and> uint n = t mod freq * uint ns_per_clock"
  by (rule get_time_true [OF assms])

text \<open>A core whose accesses take 1000 cycles of 16 ns.\<close>

definition example_ppsg :: "(nat \<times> u32 \<times> u32 \<times> u32) reg_bus" where
  "example_ppsg = \<lparr>bus_read = \<lambda>a (t, adj). let t = t + 1000 in
       (if a = ppsg_offset CNTR_UTCLO then word_of_int (int t div 62500000) else if a = ppsg_offset CNTR_UTCHI then word_of_int (int t div 62500000 div 2 ^ 32)
        else if a = ppsg_offset CNTR_NSEC then word_of_int (int t mod 62500000) else 0, (t, adj)),
     bus_write = \<lambda>a d (t, lo, hi, ns).
       if a = ppsg_offset ADJ_UTCLO then (t, d, hi, ns) else if a = ppsg_offset ADJ_UTCHI then (t, lo, d, ns) else if a = ppsg_offset ADJ_NSEC then (t, lo, hi, d)
       else if a = ppsg_offset CR \<and> d AND PPSG_CR_CNT_SET \<noteq> 0 then (nat ((uint hi * 2 ^ 32 + uint lo) * 62500000 + uint ns), lo, hi, ns) else (t, lo, hi, ns),
     bus_delay = \<lambda>n w. w\<rparr>"

lemma example_counts: "ppsg_counts example_ppsg 0 62500000 1000 (int \<circ> fst)"
proof -
  have u: "uint (word_of_int x AND mask n :: u32) = x mod 2 ^ n" if "n < 32" for x n
    using that unfolding take_bit_eq_mask [symmetric] by (simp only: unsigned_take_bit_eq uint_word_of_int_eq take_bit_take_bit) (simp add: take_bit_eq_mod min_def)
  have m: "uint (word_of_int x AND 0xff :: u32) = x mod 256" "uint (word_of_int x AND 0xfffffff :: u32) = x mod 268435456" for x
    using u [of 8 x] u [of 28 x] by (simp_all add: mask_eq_exp_minus_1)
  have n: "int t mod 62500000 mod 268435456 = int t mod 62500000" for t
    using pos_mod_bound [of 62500000 "int t"] by (intro mod_pos_pos_trivial) simp_all
  show ?thesis unfolding ppsg_counts_def
    by (auto simp: ppsg_read_def example_ppsg_def Let_def m n uint_word_of_int take_bit_eq_mod split_beta)
qed

theorem time_is_snapshot_witness:
  "\<exists>s n w'. shw_pps_gen_get_time example_ppsg 0 16 (62497000, 0, 0, 0) = Some (s, n, w') \<and> (uint s * 1000000000 + uint n) \<in> {999952000..1000112000}"
proof -
  obtain s n w' t where r: "shw_pps_gen_get_time example_ppsg 0 16 (62497000, 0, 0, 0) = Some (s, n, w')" "62497000 \<le> t" "t \<le> 62507000"
    "uint s = t div 62500000 mod 2 ^ 40" "uint n = t mod 62500000 * 16"
    using time_is_snapshot [OF example_counts, of 16 "(62497000, 0, 0, 0)"] by auto
  have "t div 62500000 \<in> {0, 1}" using r(2,3) by auto
  then have "uint s = t div 62500000" using r(4) by auto
  then have "uint s * 1000000000 + uint n = t * 16" using r(5) mult_div_mod_eq [of 62500000 t] by linarith
  then show ?thesis using r(1-3) by (intro exI [of _ s] exI [of _ n] exI [of _ w']) simp
qed

text \<open>
  C40. A time that is set is read back. After \<open>shw_pps_gen_set_time\<close> of the whole time, for any second and nanosecond and any state of the core, \<open>shw_pps_gen_get_time\<close>
  returns a time that is not before the one that was set, rounded down to a clock cycle, and at most eleven accesses after it.
\<close>

theorem time_set_is_read:
  assumes "ppsg_counts bus base freq q now" "ppsg_sets bus base freq q now adj" "10 * q < freq" "uint ns_per_clock * freq = 1000000000"
    "uint seconds < 2 ^ 40 - 2" "uint nanoseconds < 1000000000"
  shows "\<exists>s n w'. shw_pps_gen_get_time bus base ns_per_clock
      (shw_pps_gen_set_time bus base (1000 * uint ns_per_clock) seconds nanoseconds PPSG_SET_ALL w) = Some (s, n, w')
    \<and> (let set_to = uint seconds * 1000000000 + uint nanoseconds - uint nanoseconds mod uint ns_per_clock; shown = uint s * 1000000000 + uint n
       in set_to \<le> shown \<and> shown \<le> set_to + 11 * q * uint ns_per_clock)"
proof -
  let ?c = "uint ns_per_clock" and ?w = "shw_pps_gen_set_time bus base (1000 * uint ns_per_clock) seconds nanoseconds PPSG_SET_ALL w"
  have "0 < ?c * freq" using assms(4) by simp
  then have p: "0 < freq" "0 < ?c" using uint_nonnegative [of ns_per_clock] by (auto simp: zero_less_mult_iff)
  define k where "k = uint nanoseconds div ?c"
  define T where "T = uint seconds * freq + k"
  have n: "T \<le> now ?w" "now ?w \<le> T + q"
    using time_after_set [OF assms(2) refl p(2) _ assms(6), of seconds w] assms(5) by (simp_all add: T_def k_def)
  obtain s m w' t where r: "shw_pps_gen_get_time bus base ns_per_clock ?w = Some (s, m, w')" "now ?w \<le> t" "t \<le> now ?w + 10 * q"
    "uint s = t div freq mod 2 ^ 40" "uint m = t mod freq * ?c"
    using get_time_true [OF assms(1,3,4)] by blast
  have kc: "k * ?c = uint nanoseconds - uint nanoseconds mod ?c" unfolding k_def by (simp add: minus_mod_eq_div_mult)
  have k: "0 \<le> k" "k < freq"
  proof -
    show "0 \<le> k" using p(2) by (simp add: k_def pos_imp_zdiv_nonneg_iff)
    have "k * ?c < freq * ?c" using kc pos_mod_sign [OF p(2), of "uint nanoseconds"] assms(4,6) by (simp add: mult.commute)
    then show "k < freq" using p(2) by simp
  qed
  have t: "T \<le> t" "t \<le> T + 11 * q" using n r(2,3) by linarith+
  have "t < (uint seconds + 3) * freq" using t(2) k assms(3) p by (simp add: T_def distrib_right)
  moreover have "t div freq * freq \<le> t" using div_mult_mod_eq [of t freq] pos_mod_sign [OF p(1), of t] by linarith
  ultimately have "t div freq * freq < (uint seconds + 3) * freq" by linarith
  then have "t div freq < uint seconds + 3" using p(1) by simp
  moreover have "0 \<le> t div freq"
  proof -
    have "0 \<le> uint seconds * freq" using p(1) by simp
    then have "0 \<le> t" using t(1) k unfolding T_def by linarith
    then show ?thesis using p(1) by (simp add: pos_imp_zdiv_nonneg_iff)
  qed
  ultimately have "uint s = t div freq" using r(4) assms(5) by simp
  then have "uint s * 1000000000 + uint m = t div freq * (freq * ?c) + t mod freq * ?c" using r(5) assms(4) by (simp add: mult.commute)
  also have "\<dots> = (t div freq * freq + t mod freq) * ?c" by (simp only: distrib_right mult.assoc)
  finally have shown: "uint s * 1000000000 + uint m = t * ?c" by simp
  have set: "uint seconds * 1000000000 + uint nanoseconds - uint nanoseconds mod ?c = T * ?c"
    unfolding T_def distrib_right mult.assoc using kc assms(4) by (simp add: mult.commute)
  have "T * ?c \<le> t * ?c" "t * ?c \<le> (T + 11 * q) * ?c" using t p(2) by simp_all
  then show ?thesis using r(1) shown set by (simp add: Let_def distrib_right)
qed

lemma example_sets: "ppsg_sets example_ppsg 0 62500000 1000 (int \<circ> fst) snd"
  unfolding ppsg_sets_def by (auto simp: ppsg_read_def ppsg_write_def example_ppsg_def Let_def split_beta)

theorem time_set_is_read_witness:
  "\<exists>s n w'. shw_pps_gen_get_time example_ppsg 0 16 (shw_pps_gen_set_time example_ppsg 0 16000 1700000000 123456789 PPSG_SET_ALL (0, 0, 0, 0)) = Some (s, n, w')
    \<and> (uint s * 1000000000 + uint n) \<in> {1700000000123456784..1700000000123632784}"
  using time_set_is_read [OF example_counts example_sets, of 16 1700000000 123456789 "(0, 0, 0, 0)"] by (auto simp: Let_def)

end
