(* ===== verification/Storage_Format.thy ===== *)
theory Storage_Format
  imports Sdb_File
begin

text \<open>
  \<^verbatim>\<open>dev/storage.c\<close>, erasing and formatting: the file system image of the build (a parameter, a list of 64-byte records) is laid out for the block size
  of the device, written to it, read back, and mounted. The prints are not modelled; the comparison of the verification only prints.

  Result: on a working device whose blocks hold a record each, formatting ends with the file system mounted, and every file of the image is found, in a
  range of its own with the size it has in the image.
\<close>

unbundle bit_operations_syntax

section \<open>Definitions\<close>

record storage_device =
  sd_block_size :: u32
  sd_size :: u32
  sd_cfg_entry :: u32
  sd_entry_points :: "int list"

definition SDB_ALIGN :: "u32 \<Rightarrow> u32 \<Rightarrow> u32" where
  "SDB_ALIGN x blocksize = (x + (blocksize - 1)) AND NOT (blocksize - 1)"

definition base_of :: "storage_device \<Rightarrow> u32 \<Rightarrow> bool \<Rightarrow> u32" where
  "base_of dev addr force_base = (if force_base then addr else sd_cfg_entry dev)"

text \<open>\<open>for (count = 0; count < total_size; count += dev->block_size)\<close>; \<open>None\<close>: it runs forever.\<close>

partial_function (option) erase_loop :: "'d storage_rwops \<Rightarrow> u32 \<Rightarrow> u32 \<Rightarrow> int \<Rightarrow> int \<Rightarrow> 'd \<Rightarrow> 'd option" where
  "erase_loop ops base block_size total_size count d =
     (if count < total_size
      then erase_loop ops base block_size total_size (i32 (count + uint block_size)) (snd (rw_erase ops d (sint (base + word_of_int count)) (sint block_size)))
      else Some d)"

definition storage_sdbfs_erase :: "'d storage_rwops \<Rightarrow> nat \<Rightarrow> storage_device \<Rightarrow> u32 \<Rightarrow> bool \<Rightarrow> 'd \<Rightarrow> 'd option" where
  "storage_sdbfs_erase ops recs dev addr force_base d =
     erase_loop ops (base_of dev addr force_base) (sd_block_size dev) (i32 (int recs * uint (sd_block_size dev))) 0 d"

text \<open>\<open>htonll\<close> into the field at \<open>a\<close> of a record.\<close>

definition set_field :: "u8 list \<Rightarrow> nat \<Rightarrow> int \<Rightarrow> u8 list" where
  "set_field r a v = take a r @ be_bytes 8 v @ drop (a + 8) r"

text \<open>The loop over the files; \<open>cur_adr\<close> and \<open>size\<close> are \<open>int\<close>.\<close>

fun relocate :: "u32 \<Rightarrow> int \<Rightarrow> u8 list list \<Rightarrow> u8 list list" where
  "relocate block_size cur_adr [] = []"
| "relocate block_size cur_adr (r # rs) =
     (let size = i32 (field r 16 8 - field r 8 8)
      in set_field (set_field r 8 cur_adr) 16 (i32 (cur_adr + size))
         # relocate block_size (sint (SDB_ALIGN (word_of_int (cur_adr + (size + 1))) block_size)) rs)"

definition laid_out :: "u32 \<Rightarrow> u32 \<Rightarrow> u8 list list \<Rightarrow> u8 list list" where
  "laid_out block_size base sdb_image =
     (let files = relocate block_size (sint (base + SDB_ALIGN (of_nat (length sdb_image) * 64) block_size)) (tl sdb_image);
          dir = set_field (hd sdb_image) 8 (uint base);
          dir = set_field dir 16 (field (last (dir # files)) 16 8)
      in dir # files)"

fun write_records :: "'d storage_rwops \<Rightarrow> u32 \<Rightarrow> nat \<Rightarrow> u8 list list \<Rightarrow> 'd \<Rightarrow> 'd" where
  "write_records ops base i [] d = d"
| "write_records ops base i (r # rs) d = write_records ops base (i + 1) rs (snd (rw_write ops d (sint (base + of_nat i * 64)) r 64))"

text \<open>The result: the return value, the image (which is changed in place), the device and the file system.\<close>

definition storage_sdbfs_format ::
  "'d storage_rwops \<Rightarrow> u8 list list \<Rightarrow> storage_device \<Rightarrow> u32 \<Rightarrow> bool \<Rightarrow> 'd \<Rightarrow> 'd sdbfs \<Rightarrow> (int \<times> u8 list list \<times> 'd \<times> 'd sdbfs) option" where
  "storage_sdbfs_format ops sdb_image dev addr force_base d fs = do {
     let base = base_of dev addr force_base;
     let sdb_image = laid_out (sd_block_size dev) base sdb_image;
     d \<leftarrow> storage_sdbfs_erase ops (length sdb_image) dev addr force_base d;
     let d = write_records ops base 0 sdb_image d;
     let d = snd (rw_read ops d (sint base) (int (length sdb_image) * 64));
     let (r, d, fs) = storage_mount ops (sd_size dev) (sd_entry_points dev) d fs;
     Some (r, sdb_image, d, fs)
   }"

section \<open>Facts\<close>

subsection \<open>Records\<close>

lemma length_set_field [simp]: "a + 8 \<le> length r \<Longrightarrow> length (set_field r a v) = length r"
  by (simp add: set_field_def)

lemma field_set_same: "a + 8 \<le> length r \<Longrightarrow> field (set_field r a v) a 8 = v mod 256 ^ 8"
  by (simp add: field_def set_field_def be_val_bytes)

lemma field_set_other:
  assumes "a + 8 \<le> length r" "b + n \<le> a \<or> a + 8 \<le> b"
  shows "field (set_field r a v) b n = field r b n"
  using assms(2)
proof
  assume "b + n \<le> a"
  then have "take n (drop b (set_field r a v)) = take n (drop b r)" using assms(1) by (simp add: set_field_def drop_append min_def take_drop)
  then show ?thesis by (simp add: field_def)
next
  assume "a + 8 \<le> b"
  then have "drop b (set_field r a v) = drop b r" using assms(1) by (simp add: set_field_def drop_append)
  then show ?thesis by (simp add: field_def)
qed

subsection \<open>The layout\<close>

lemma align_value:
  assumes "blocksize = 2 ^ b" "b < 31" "0 \<le> x" "x + 2 ^ b \<le> 2147483648"
  shows "x \<le> sint (SDB_ALIGN (word_of_int x) blocksize) \<and> sint (SDB_ALIGN (word_of_int x) blocksize) < x + 2 ^ b"
proof -
  let ?y = "word_of_int x + (blocksize - 1) :: u32"
  have m: "blocksize - 1 = mask b" using assms(1) by (simp add: mask_eq_exp_minus_1)
  have p: "(1 :: int) \<le> 2 ^ b" "(2 :: int) ^ b < 2 ^ 31" using assms(2) by (simp, intro power_strict_increasing) simp_all
  have "uint (mask b :: u32) = 2 ^ b - 1" using uint_small [of "2 ^ b - 1"] p by (simp add: mask_eq_exp_minus_1)
  moreover have "uint (word_of_int x :: u32) = x" using assms(3,4) p by (intro uint_small) linarith+
  ultimately have y: "uint ?y = x + 2 ^ b - 1" unfolding m using assms(3,4) p by (simp add: uint_word_ariths take_bit_eq_mod)
  have "?y = (?y AND NOT (mask b)) + take_bit b ?y"
  proof -
    have "?y = (?y AND NOT (mask b)) OR take_bit b ?y" by (rule bit_word_eqI) (auto simp: bit_simps)
    also have "\<dots> = (?y AND NOT (mask b)) + take_bit b ?y" by (rule disjunctive_add [symmetric]) (auto simp: bit_simps)
    finally show ?thesis .
  qed
  then have "?y AND NOT (mask b) = ?y - take_bit b ?y" by (simp add: eq_diff_eq)
  moreover have t: "uint (take_bit b ?y) = uint ?y mod 2 ^ b" using assms(2) by (simp only: unsigned_take_bit_eq) (simp add: take_bit_eq_mod)
  moreover have le: "uint ?y mod 2 ^ b \<le> uint ?y" using y assms(3) p by (intro zmod_le_nonneg_dividend) linarith
  ultimately have u: "uint (?y AND NOT (mask b)) = uint ?y - uint ?y mod 2 ^ b"
    using uint_sub_lem [of "take_bit b ?y" ?y] by simp
  have r: "0 \<le> uint ?y mod 2 ^ b" "uint ?y mod 2 ^ b < 2 ^ b" by simp_all
  have "uint (SDB_ALIGN (word_of_int x) blocksize) = uint ?y - uint ?y mod 2 ^ b" using u unfolding SDB_ALIGN_def m by simp
  moreover from this have "sint (SDB_ALIGN (word_of_int x) blocksize) = uint (SDB_ALIGN (word_of_int x) blocksize)"
    using y r assms(3,4) le unfolding sint_uint by (intro signed_take_bit_int_eq_self; simp only: len_of_numeral_defs; simp; linarith)
  ultimately show ?thesis using y r by linarith
qed

definition file_len :: "u8 list \<Rightarrow> int" where
  "file_len r = field r 16 8 - field r 8 8 + 1"

text \<open>A record with another place for its file.\<close>

definition moved :: "u8 list \<Rightarrow> int \<Rightarrow> u8 list \<Rightarrow> bool" where
  "moved r off r' \<longleftrightarrow> length r' = 64 \<and> field r' 8 8 = off \<and> field r' 16 8 = off + file_len r - 1
     \<and> field r' 24 8 = field r 24 8 \<and> field r' 32 4 = field r 32 4"

definition record_ok :: "u8 list \<Rightarrow> bool" where
  "record_ok r \<longleftrightarrow> length r = 64 \<and> field r 8 8 \<le> field r 16 8"

definition space :: "nat \<Rightarrow> u8 list list \<Rightarrow> int" where
  "space b rs = sum_list (map (\<lambda>r. file_len r + 2 ^ b) rs)"

lemma space_nonneg: "list_all record_ok rs \<Longrightarrow> 0 \<le> space b rs"
  unfolding space_def by (rule sum_list_nonneg) (auto simp: list_all_iff record_ok_def file_len_def)

lemma moved_set:
  assumes "record_ok r" "0 \<le> cur" "cur + file_len r < 2147483648"
  shows "moved r cur (set_field (set_field r 8 cur) 16 (i32 (cur + i32 (field r 16 8 - field r 8 8))))"
proof -
  have l: "length r = 64" "0 \<le> field r 16 8 - field r 8 8" using assms(1) by (simp_all add: record_ok_def)
  have f: "fits32 (field r 16 8 - field r 8 8)" "fits32 (cur + (field r 16 8 - field r 8 8))" using l(2) assms(2,3) by (simp_all add: fits32_def file_len_def)
  let ?s = "set_field r 8 cur" and ?v = "cur + (field r 16 8 - field r 8 8)"
  have v: "?v mod 256 ^ 8 = ?v" "cur mod 256 ^ 8 = cur" using l(2) assms(2,3) by (simp_all add: file_len_def)
  have "field (set_field ?s 16 ?v) 8 8 = field ?s 8 8" "field (set_field ?s 16 ?v) 24 8 = field ?s 24 8" "field (set_field ?s 16 ?v) 32 4 = field ?s 32 4"
    using l(1) by (simp_all add: field_set_other)
  moreover have "field (set_field ?s 16 ?v) 16 8 = ?v" "field ?s 8 8 = cur" using l(1) v field_set_same [of 16 ?s ?v] field_set_same [of 8 r cur] by simp_all
  moreover have "field ?s 24 8 = field r 24 8" "field ?s 32 4 = field r 32 4" using l(1) by (simp_all add: field_set_other)
  ultimately show ?thesis using f l(1) by (simp add: moved_def file_len_def)
qed

lemma relocate_spec:
  assumes b: "block_size = 2 ^ b" "b < 31" and r: "list_all record_ok rs" "0 \<le> cur" "cur + space b rs \<le> lim" "lim < 2147483648"
  shows "length (relocate block_size cur rs) = length rs
    \<and> (\<forall>k<length rs. \<exists>off. moved (rs ! k) off (relocate block_size cur rs ! k) \<and> cur \<le> off \<and> off + file_len (rs ! k) \<le> lim
         \<and> (\<forall>j<k. field (relocate block_size cur rs ! j) 16 8 < off))"
  using r(1-3)
proof (induction rs arbitrary: cur)
  case (Cons r rs)
  let ?s = "i32 (field r 16 8 - field r 8 8)" and ?r = "set_field (set_field r 8 cur) 16 (i32 (cur + i32 (field r 16 8 - field r 8 8)))"
  let ?cur = "sint (SDB_ALIGN (word_of_int (cur + (?s + 1))) block_size)"
  have ok: "record_ok r" "list_all record_ok rs" using Cons.prems(1) by simp_all
  have sp: "cur + file_len r + 2 ^ b + space b rs \<le> lim" using Cons.prems(3) by (simp add: space_def)
  have fl: "1 \<le> file_len r" using ok(1) by (simp add: record_ok_def file_len_def)
  have p: "(0 :: int) < 2 ^ b" by simp
  note nn = space_nonneg [OF ok(2), of b]
  have "fits32 (field r 16 8 - field r 8 8)" unfolding fits32_def using fl sp nn p r(4) Cons.prems(2) unfolding file_len_def by (intro conjI) linarith+
  then have s: "?s + 1 = file_len r" by (simp add: file_len_def)
  have m: "moved r cur ?r" by (rule moved_set [OF ok(1) Cons.prems(2)]) (use sp nn p r(4) in linarith)
  have c: "cur + file_len r \<le> ?cur" "?cur < cur + file_len r + 2 ^ b"
    using align_value [OF b, of "cur + file_len r"] fl sp nn p r(4) Cons.prems(2) unfolding s by auto
  have ih: "length (relocate block_size ?cur rs) = length rs"
    "\<And>k. k < length rs \<Longrightarrow> \<exists>off. moved (rs ! k) off (relocate block_size ?cur rs ! k) \<and> ?cur \<le> off \<and> off + file_len (rs ! k) \<le> lim
         \<and> (\<forall>j<k. field (relocate block_size ?cur rs ! j) 16 8 < off)"
    using Cons.IH [OF ok(2), of ?cur] c fl sp Cons.prems(2) by auto
  have e: "relocate block_size cur (r # rs) = ?r # relocate block_size ?cur rs" by (simp add: Let_def)
  show ?case
  proof (intro conjI allI impI)
    show "length (relocate block_size cur (r # rs)) = length (r # rs)" unfolding e using ih(1) by simp
    fix k assume k: "k < length (r # rs)"
    show "\<exists>off. moved ((r # rs) ! k) off (relocate block_size cur (r # rs) ! k) \<and> cur \<le> off \<and> off + file_len ((r # rs) ! k) \<le> lim
         \<and> (\<forall>j<k. field (relocate block_size cur (r # rs) ! j) 16 8 < off)"
    proof (cases k)
      case 0
      have "cur + file_len r \<le> lim" using sp nn p by linarith
      then show ?thesis unfolding e using m 0 by (intro exI [of _ cur]) simp
    next
      case (Suc n)
      obtain off where o: "moved (rs ! n) off (relocate block_size ?cur rs ! n)" "?cur \<le> off" "off + file_len (rs ! n) \<le> lim"
        "\<And>j. j < n \<Longrightarrow> field (relocate block_size ?cur rs ! j) 16 8 < off" using ih(2) [of n] k Suc by auto
      have "field ((?r # relocate block_size ?cur rs) ! j) 16 8 < off" if "j < k" for j
        using that o(2,4) m c(1) Suc by (cases j) (auto simp: moved_def)
      then show ?thesis unfolding e using o(1-3) Suc c(1) fl by (intro exI [of _ off]) auto
    qed
  qed
qed (simp add: space_def)

subsection \<open>The device\<close>

lemma sint_offset:
  fixes base :: u32
  assumes "uint base + x < 2147483648" "0 \<le> x"
  shows "sint (base + word_of_int x) = uint base + x"
proof -
  have "base + word_of_int x = word_of_int (uint base + x)" by (simp add: wi_hom_add [symmetric])
  moreover have "sint (word_of_int (uint base + x) :: u32) = uint base + x" using assms uint_nonnegative [of base] by (intro sint_small) linarith+
  ultimately show ?thesis by (simp only:)
qed

lemma erase_result:
  assumes dev: "memory_device mem dev_size ops" and r: "uint base + int n * uint block_size \<le> dev_size" "dev_size < 2147483648" "0 < block_size"
  shows "k \<le> n \<Longrightarrow> \<exists>d'. erase_loop ops base block_size (int n * uint block_size) (int k * uint block_size) d = Some d'
    \<and> mem d' = (\<lambda>a. if uint base + int k * uint block_size \<le> a \<and> a < uint base + int n * uint block_size then - 1 else mem d a)"
proof (induction "n - k" arbitrary: k d)
  case 0
  then show ?case by (subst erase_loop.simps) (auto simp: fun_eq_iff)
next
  case (Suc m)
  let ?b = "uint block_size"
  have b: "0 < ?b" using r(3) by (simp add: word_less_def)
  have kn: "k < n" "int k * ?b + ?b \<le> int n * ?b"
  proof -
    show "k < n" using Suc.hyps(2) by simp
    then have "(int k + 1) * ?b \<le> int n * ?b" using b by (intro mult_right_mono) simp_all
    then show "int k * ?b + ?b \<le> int n * ?b" by (simp add: distrib_right)
  qed
  have k0: "0 \<le> int k * ?b" using b by simp
  have "fits32 (int k * ?b + ?b)" unfolding fits32_def using kn r(1,2) k0 b uint_nonnegative [of base] by (intro conjI) linarith+
  then have i: "i32 (int k * ?b + ?b) = int (k + 1) * ?b" by (simp add: distrib_right)
  have a: "sint (base + word_of_int (int k * ?b)) = uint base + int k * ?b" using kn r(1,2) k0 b by (intro sint_offset) simp_all
  have sb: "sint block_size = ?b" using sint_small [of ?b] kn r(1,2) k0 b uint_nonnegative [of base] by simp
  let ?d = "snd (rw_erase ops d (uint base + int k * ?b) ?b)"
  have p1: "m = n - (k + 1)" "k + 1 \<le> n" using Suc.hyps(2) kn(1) by simp_all
  have m: "mem ?d = (\<lambda>x. if uint base + int k * ?b \<le> x \<and> x < uint base + int k * ?b + ?b then - 1 else mem d x)"
    using kn r(1) k0 b uint_nonnegative [of base] by (intro memory_erase(2) [OF dev]) simp_all
  obtain d' where d': "erase_loop ops base block_size (int n * ?b) (int (k + 1) * ?b) ?d = Some d'"
    "mem d' = (\<lambda>a. if uint base + int (k + 1) * ?b \<le> a \<and> a < uint base + int n * ?b then - 1 else mem ?d a)"
    using Suc.hyps(1) [OF p1, of ?d] by blast
  have "erase_loop ops base block_size (int n * ?b) (int k * ?b) d = Some d'"
  proof -
    have "int k * ?b < int n * ?b" using kn(2) b by linarith
    then show ?thesis using d'(1) by (subst erase_loop.simps) (simp only: i a sb if_True)
  qed
  moreover have "mem d' = (\<lambda>a. if uint base + int k * ?b \<le> a \<and> a < uint base + int n * ?b then - 1 else mem d a)"
    unfolding d'(2) m using kn(2) b by (auto simp: fun_eq_iff distrib_right)
  ultimately show ?case by blast
qed

text \<open>
  A device that can be written without an erasure before, as the EEPROMs and the FRAM; the directory of a formatted flash goes to erased blocks only.
\<close>

definition rewritable :: "('d \<Rightarrow> int \<Rightarrow> u8) \<Rightarrow> int \<Rightarrow> 'd storage_rwops \<Rightarrow> bool" where
  "rewritable mem dev_size ops \<longleftrightarrow>
     (\<forall>d off buf. 0 \<le> off \<and> off + int (length buf) \<le> dev_size \<longrightarrow>
        mem (snd (rw_write ops d off buf (int (length buf))))
          = (\<lambda>a. if off \<le> a \<and> a < off + int (length buf) then buf ! nat (a - off) else mem d a))"

lemma write_stores:
  assumes "memory_device mem dev_size ops" "0 \<le> off" "off + int (length buf) \<le> dev_size"
    "rewritable mem dev_size ops \<or> (\<forall>a \<in> {off..<off + int (length buf)}. mem d a = - 1)"
  shows "mem (snd (rw_write ops d off buf (int (length buf)))) = (\<lambda>a. if off \<le> a \<and> a < off + int (length buf) then buf ! nat (a - off) else mem d a)"
  using assms(4)
proof
  assume "rewritable mem dev_size ops"
  then show ?thesis using assms(2,3) unfolding rewritable_def by blast
qed (rule memory_write(2) [OF assms(1-3)])

lemma write_result:
  assumes dev: "memory_device mem dev_size ops"
  shows "list_all (\<lambda>r. length r = 64) rs \<Longrightarrow> uint base + 64 * (int i + int (length rs)) \<le> dev_size \<Longrightarrow> dev_size < 2147483648
    \<Longrightarrow> rewritable mem dev_size ops \<or> (\<forall>a. uint base + 64 * int i \<le> a \<and> a < uint base + 64 * (int i + int (length rs)) \<longrightarrow> mem d a = - 1)
    \<Longrightarrow> (\<forall>k<length rs. rec_at (mem (write_records ops base i rs d)) (uint base + 64 * (int i + int k)) = rs ! k)
      \<and> (\<forall>a. \<not> (uint base + 64 * int i \<le> a \<and> a < uint base + 64 * (int i + int (length rs))) \<longrightarrow> mem (write_records ops base i rs d) a = mem d a)"
proof (induction rs arbitrary: i d)
  case (Cons r rs)
  let ?o = "uint base + 64 * int i"
  have l: "length r = 64" using Cons.prems(1) by simp
  have o: "sint (base + of_nat i * 64) = ?o"
  proof -
    have "base + of_nat i * 64 = base + word_of_int (64 * int i)" by (simp add: mult.commute)
    then show ?thesis using sint_offset [of base "64 * int i"] Cons.prems(2,3) by (simp only: of_nat_0_le_iff) (simp add: algebra_simps)
  qed
  let ?d = "snd (rw_write ops d ?o r 64)"
  have m: "mem ?d = (\<lambda>a. if ?o \<le> a \<and> a < ?o + 64 then r ! nat (a - ?o) else mem d a)"
    using write_stores [OF dev, of ?o r d] Cons.prems(2,4) l by (auto simp: algebra_simps)
  have e: "write_records ops base i (r # rs) d = write_records ops base (i + 1) rs ?d" by (simp add: o)
  have ih: "\<And>k. k < length rs \<Longrightarrow> rec_at (mem (write_records ops base (i + 1) rs ?d)) (uint base + 64 * (int (i + 1) + int k)) = rs ! k"
    "\<And>a. \<not> (uint base + 64 * int (i + 1) \<le> a \<and> a < uint base + 64 * (int (i + 1) + int (length rs))) \<Longrightarrow> mem (write_records ops base (i + 1) rs ?d) a = mem ?d a"
  proof -
    have "rewritable mem dev_size ops \<or> (\<forall>a. uint base + 64 * int (i + 1) \<le> a \<and> a < uint base + 64 * (int (i + 1) + int (length rs)) \<longrightarrow> mem ?d a = - 1)"
      unfolding m using Cons.prems(4) by (auto simp: algebra_simps)
    then have "(\<forall>k<length rs. rec_at (mem (write_records ops base (i + 1) rs ?d)) (uint base + 64 * (int (i + 1) + int k)) = rs ! k)
      \<and> (\<forall>a. \<not> (uint base + 64 * int (i + 1) \<le> a \<and> a < uint base + 64 * (int (i + 1) + int (length rs))) \<longrightarrow> mem (write_records ops base (i + 1) rs ?d) a = mem ?d a)"
      using Cons.prems by (intro Cons.IH) (simp_all add: algebra_simps)
    then show "\<And>k. k < length rs \<Longrightarrow> rec_at (mem (write_records ops base (i + 1) rs ?d)) (uint base + 64 * (int (i + 1) + int k)) = rs ! k"
      "\<And>a. \<not> (uint base + 64 * int (i + 1) \<le> a \<and> a < uint base + 64 * (int (i + 1) + int (length rs))) \<Longrightarrow> mem (write_records ops base (i + 1) rs ?d) a = mem ?d a"
      by blast+
  qed
  show ?case unfolding e
  proof (intro conjI allI impI)
    fix k assume k: "k < length (r # rs)"
    show "rec_at (mem (write_records ops base (i + 1) rs ?d)) (uint base + 64 * (int i + int k)) = (r # rs) ! k"
    proof (cases k)
      case 0
      have "rec_at (mem (write_records ops base (i + 1) rs ?d)) ?o = map (\<lambda>a. r ! nat (a - ?o)) [?o..?o + 63]"
      proof -
        have "mem (write_records ops base (i + 1) rs ?d) a = r ! nat (a - ?o)" if "?o \<le> a" "a \<le> ?o + 63" for a
        proof -
          have "mem (write_records ops base (i + 1) rs ?d) a = mem ?d a" by (rule ih(2)) (use that in simp)
          then show ?thesis unfolding m using that by simp
        qed
        then show ?thesis unfolding rec_at_def by (intro map_cong) simp_all
      qed
      also have "\<dots> = r"
        by (rule nth_equalityI) (simp_all add: l)
      finally show ?thesis using 0 by simp
    next
      case (Suc j)
      then show ?thesis using ih(1) [of j] k by (simp add: algebra_simps)
    qed
  next
    fix a assume a: "\<not> (uint base + 64 * int i \<le> a \<and> a < uint base + 64 * (int i + int (length (r # rs))))"
    have "mem (write_records ops base (i + 1) rs ?d) a = mem ?d a" by (rule ih(2)) (use a in \<open>auto simp: algebra_simps\<close>)
    then show "mem (write_records ops base (i + 1) rs ?d) a = mem d a" unfolding m using a by (auto simp: algebra_simps)
  qed
qed simp

subsection \<open>The image\<close>

text \<open>
  An image of the build: a directory record and at least one file record, of 64 bytes each, with the number of records in the directory record.
\<close>

definition good_image :: "u8 list list \<Rightarrow> bool" where
  "good_image rs \<longleftrightarrow> 2 \<le> length rs \<and> length rs < 65536 \<and> length (hd rs) = 64 \<and> list_all record_ok (tl rs)
     \<and> field (hd rs) 63 1 = 0 \<and> field (hd rs) 0 4 = SDB_MAGIC \<and> field (hd rs) 4 2 = int (length rs)"

text \<open>The bytes from the entry point that the image takes at most, with blocks of \<open>2 ^ b\<close> bytes.\<close>

definition image_space :: "nat \<Rightarrow> u8 list list \<Rightarrow> int" where
  "image_space b rs = 64 * int (length rs) + 2 ^ b + space b (tl rs)"

lemma first_file:
  assumes b: "block_size = 2 ^ b" "b < 31" and s: "uint base + 64 * int n + 2 ^ b < 2147483648"
  shows "uint base + 64 * int n \<le> sint (base + SDB_ALIGN (of_nat n * 64) block_size)"
    "sint (base + SDB_ALIGN (of_nat n * 64) block_size) < uint base + 64 * int n + 2 ^ b"
proof -
  let ?w = "SDB_ALIGN (word_of_int (64 * int n)) block_size"
  have a: "64 * int n \<le> sint ?w" "sint ?w < 64 * int n + 2 ^ b"
    using align_value [OF b, of "64 * int n"] s uint_nonnegative [of base] by auto
  have "word_of_int (64 * int n) = (of_nat n * 64 :: u32)" by (simp add: mult.commute)
  moreover have "sint (base + word_of_int (sint ?w)) = uint base + sint ?w" by (rule sint_offset) (use a s in linarith)+
  ultimately have "sint (base + SDB_ALIGN (of_nat n * 64) block_size) = uint base + sint ?w" by (simp add: mult.commute)
  then show "uint base + 64 * int n \<le> sint (base + SDB_ALIGN (of_nat n * 64) block_size)"
    "sint (base + SDB_ALIGN (of_nat n * 64) block_size) < uint base + 64 * int n + 2 ^ b" using a by simp_all
qed

lemma laid_out_spec:
  fixes base :: u32
  assumes b: "block_size = 2 ^ b" "b < 31" and g: "good_image rs" and s: "uint base + image_space b rs \<le> lim" "lim < 2147483648"
  defines "rs' \<equiv> laid_out block_size base rs"
  shows "length rs' = length rs" "list_all (\<lambda>r. length r = 64) rs'"
    "field (rs' ! 0) 63 1 = 0" "field (rs' ! 0) 0 4 = SDB_MAGIC" "field (rs' ! 0) 4 2 = int (length rs)"
    "\<And>k. k \<in> {1..<length rs} \<Longrightarrow> moved (rs ! k) (field (rs' ! k) 8 8) (rs' ! k) \<and> uint base + 64 * int (length rs) \<le> field (rs' ! k) 8 8
       \<and> field (rs' ! k) 8 8 + file_len (rs ! k) \<le> lim \<and> (\<forall>j\<in>{1..<k}. field (rs' ! j) 16 8 < field (rs' ! k) 8 8)"
proof -
  obtain h t where rs: "rs = h # t" using g by (cases rs) (auto simp: good_image_def)
  let ?cur = "sint (base + SDB_ALIGN (of_nat (length rs) * 64) block_size)"
  have hd_tl: "hd rs = h" "tl rs = t" by (simp_all add: rs)
  have t: "list_all record_ok t" "0 \<le> space b t" using g space_nonneg [of t b] by (simp_all add: good_image_def rs)
  have sp: "uint base + 64 * int (length rs) + 2 ^ b + space b t \<le> lim" using s(1) by (simp add: image_space_def rs)
  have c: "uint base + 64 * int (length rs) \<le> ?cur" "?cur < uint base + 64 * int (length rs) + 2 ^ b"
    using first_file [OF b, of base "length rs"] sp t(2) s(2) by auto
  have c0: "0 \<le> ?cur" "?cur + space b t \<le> lim" using c sp uint_nonnegative [of base] by linarith+
  define files where "files = relocate block_size ?cur t"
  note rel = relocate_spec [OF b t(1) c0 s(2), folded files_def]
  let ?dir = "set_field h 8 (uint base)"
  have e: "rs' = set_field ?dir 16 (field (last (?dir # files)) 16 8) # files" unfolding rs'_def laid_out_def Let_def files_def hd_tl ..
  have lh: "length h = 64" using g by (simp add: good_image_def rs)
  show "length rs' = length rs" unfolding e rs using rel by simp
  have m: "moved (rs ! k) (field (rs' ! k) 8 8) (rs' ! k) \<and> uint base + 64 * int (length rs) \<le> field (rs' ! k) 8 8
       \<and> field (rs' ! k) 8 8 + file_len (rs ! k) \<le> lim \<and> (\<forall>j\<in>{1..<k}. field (rs' ! j) 16 8 < field (rs' ! k) 8 8)" if k: "k \<in> {1..<length rs}" for k
  proof -
    obtain n where n: "k = Suc n" "n < length t" using k by (cases k) (auto simp: rs)
    obtain off where o: "moved (t ! n) off (files ! n)" "?cur \<le> off" "off + file_len (t ! n) \<le> lim" "\<And>j. j < n \<Longrightarrow> field (files ! j) 16 8 < off"
      using rel n(2) by blast
    have k1: "rs' ! k = files ! n" "rs ! k = t ! n" "field (files ! n) 8 8 = off" using o(1) by (simp_all add: e rs n(1) moved_def)
    have "field (rs' ! j) 16 8 < off" if "j \<in> {1..<k}" for j using o(4) [of "j - 1"] that n(1) by (auto simp: e nth_Cons')
    then show ?thesis using o(1,2,3) c(1) unfolding k1 by auto
  qed
  then show "\<And>k. k \<in> {1..<length rs} \<Longrightarrow> moved (rs ! k) (field (rs' ! k) 8 8) (rs' ! k) \<and> uint base + 64 * int (length rs) \<le> field (rs' ! k) 8 8
       \<and> field (rs' ! k) 8 8 + file_len (rs ! k) \<le> lim \<and> (\<forall>j\<in>{1..<k}. field (rs' ! j) 16 8 < field (rs' ! k) 8 8)" .
  have "length (rs' ! k) = 64" if "k < length rs'" for k
    using m [of k] that lh rel by (cases k) (auto simp: e rs moved_def)
  then show "list_all (\<lambda>r. length r = 64) rs'" by (simp add: list_all_length)
  show "field (rs' ! 0) 63 1 = 0" "field (rs' ! 0) 0 4 = SDB_MAGIC" "field (rs' ! 0) 4 2 = int (length rs)"
    using g lh by (simp_all add: e field_set_other good_image_def rs)
qed

subsection \<open>Formatting\<close>

text \<open>An entry point at which no file system is found: it is past the device, or in front of \<open>base\<close> with other bytes than the magic number.\<close>

definition no_fs_at :: "(int \<Rightarrow> u8) \<Rightarrow> int \<Rightarrow> int \<Rightarrow> int \<Rightarrow> bool" where
  "no_fs_at m dev_size base a \<longleftrightarrow> 0 \<le> a \<and> (dev_size \<le> a \<or> a + 4 \<le> base \<and> be_val (map m [a..a + 3]) \<noteq> SDB_MAGIC)"

lemma mount_first:
  assumes dev: "memory_device mem (uint dev_size) ops"
    and base: "0 \<le> base" "base + 64 \<le> uint dev_size" "be_val (map m [base..base + 3]) = SDB_MAGIC"
  shows "list_all (no_fs_at m (uint dev_size) base) es \<Longrightarrow> mem d = m \<Longrightarrow> length magic = 4
    \<Longrightarrow> \<exists>d'. mount_at ops dev_size (es @ base # es') magic d = (Some base, d') \<and> mem d' = m"
proof (induction es arbitrary: d magic)
  case Nil
  have "fst (rw_read ops d base 4) = (4, map m [base..base + 3])" "mem (snd (rw_read ops d base 4)) = m"
    using memory_read [OF dev, of base 4 d] base Nil.prems(2) by (simp_all add: add.commute)
  then show ?case using base Nil.prems(3) by (auto simp: case_prod_beta Let_def overlay_def)
next
  case (Cons a es)
  show ?case
  proof (cases "uint dev_size \<le> a")
    case True
    then show ?thesis using Cons by (simp add: no_fs_at_def)
  next
    case False
    then have a: "0 \<le> a" "a + 4 \<le> base" "be_val (map m [a..a + 3]) \<noteq> SDB_MAGIC" using Cons.prems(1) by (simp_all add: no_fs_at_def)
    have r: "fst (rw_read ops d a 4) = (4, map m [a..a + 3])" "mem (snd (rw_read ops d a 4)) = m"
      using memory_read [OF dev, of a 4 d] a base Cons.prems(2) by (simp_all add: add.commute)
    then have "mount_at ops dev_size ((a # es) @ base # es') magic d = mount_at ops dev_size (es @ base # es') (map m [a..a + 3]) (snd (rw_read ops d a 4))"
      using a False Cons.prems(3) by (simp add: case_prod_beta Let_def overlay_def)
    then show ?thesis using Cons.IH [of "snd (rw_read ops d a 4)" "map m [a..a + 3]"] Cons.prems(1) r(2) by simp
  qed
qed

lemma rec_at_field: "field (rec_at m a) 0 4 = be_val (map m [a..a + 3])"
proof -
  have "take 4 (map m [a..a + 63]) = map m [a..a + 3]" by (rule nth_equalityI) simp_all
  then show ?thesis by (simp add: field_def rec_at_def)
qed

text \<open>What the device holds when the image has been written.\<close>

lemma image_written:
  assumes dev: "memory_device mem dev_size ops" "dev_size < 2147483648"
    and b: "sd_block_size dev = 2 ^ b" "6 \<le> b \<or> rewritable mem dev_size ops" "b < 31"
    and rs: "list_all (\<lambda>r. length r = 64) rs" and n: "uint (base_of dev addr force_base) + int (length rs) * 2 ^ b \<le> dev_size"
      "uint (base_of dev addr force_base) + 64 * int (length rs) \<le> dev_size"
  shows "\<exists>d1. storage_sdbfs_erase ops (length rs) dev addr force_base d = Some d1
    \<and> (\<forall>k<length rs. rec_at (mem (write_records ops (base_of dev addr force_base) 0 rs d1)) (uint (base_of dev addr force_base) + 64 * int k) = rs ! k)
    \<and> (\<forall>a<uint (base_of dev addr force_base). mem (write_records ops (base_of dev addr force_base) 0 rs d1) a = mem d a)"
proof -
  let ?base = "base_of dev addr force_base" and ?N = "int (length rs)"
  have p: "(1 :: int) \<le> 2 ^ b" "(2 :: int) ^ b < 2 ^ 31" using power_strict_increasing [of b 31 "2 :: int"] b by simp_all
  have u: "uint (sd_block_size dev) = 2 ^ b" using uint_small [of "2 ^ b"] p by (simp add: b(1))
  have N: "64 * ?N \<le> ?N * 2 ^ b" if "6 \<le> b"
    using mult_left_mono [of 64 "2 ^ b" ?N] power_increasing [of 6 b "2 :: int"] that by (simp add: mult.commute)
  have "0 \<le> ?N * 2 ^ b" by simp
  then have "fits32 (?N * 2 ^ b)" unfolding fits32_def using n dev(2) uint_nonnegative [of ?base] by (intro conjI) linarith+
  then have f: "i32 (?N * 2 ^ b) = ?N * 2 ^ b" by simp
  obtain d1 where d1: "erase_loop ops ?base (sd_block_size dev) (?N * uint (sd_block_size dev)) (int 0 * uint (sd_block_size dev)) d = Some d1"
    "mem d1 = (\<lambda>a. if uint ?base + int 0 * uint (sd_block_size dev) \<le> a \<and> a < uint ?base + ?N * uint (sd_block_size dev) then - 1 else mem d a)"
    using erase_result [OF dev(1), of ?base "length rs" "sd_block_size dev" 0 d] n(1) dev(2) p u by (auto simp: word_less_def)
  have e: "storage_sdbfs_erase ops (length rs) dev addr force_base d = Some d1" using d1(1) unfolding storage_sdbfs_erase_def u f by simp
  have m: "mem d1 = (\<lambda>a. if uint ?base \<le> a \<and> a < uint ?base + ?N * 2 ^ b then - 1 else mem d a)" using d1(2) by (simp add: u)
  have "(\<forall>k<length rs. rec_at (mem (write_records ops ?base 0 rs d1)) (uint ?base + 64 * (int 0 + int k)) = rs ! k)
      \<and> (\<forall>a. \<not> (uint ?base + 64 * int 0 \<le> a \<and> a < uint ?base + 64 * (int 0 + ?N)) \<longrightarrow> mem (write_records ops ?base 0 rs d1) a = mem d1 a)"
    by (rule write_result [OF dev(1) rs _ dev(2)]) (use n N b(2) in \<open>auto simp: m\<close>)
  then show ?thesis using e m by simp
qed

text \<open>
  C36. A formatted device has all the files of the image. The device works, its block size is a power of two, of at least 64 bytes unless it can be written without an erasure, and the blocks of the directory and the files
  fit on it; the place of the file system is one of the entry points, and there is no file system at the ones tried before it. Then \<open>storage_sdbfs_format\<close> ends,
  returns 0 and leaves the file system mounted at the place asked for. Every file of the image that is the first one with its vendor and device number is in the
  directory on the device, with the length it has in the image and a place after the directory; the files are in the order of the image and do not overlap.
\<close>

theorem format_gives_files:
  assumes dev: "memory_device mem (uint (sd_size dev)) ops" "sd_block_size dev = 2 ^ b" "6 \<le> b \<or> rewritable mem (uint (sd_size dev)) ops" "b < 31" "uint (sd_size dev) < 2147483648"
    and img: "good_image sdb_image" "uint (base_of dev addr force_base) + int (length sdb_image) * 2 ^ b \<le> uint (sd_size dev)"
      "uint (base_of dev addr force_base) + image_space b sdb_image \<le> uint (sd_size dev)"
    and ent: "sd_entry_points dev = es @ uint (base_of dev addr force_base) # es'"
      "list_all (no_fs_at (mem d) (uint (sd_size dev)) (uint (base_of dev addr force_base))) es"
  shows "\<exists>img' d' fs'. storage_sdbfs_format ops sdb_image dev addr force_base d fs = Some (0, img', d', fs')
    \<and> fs_mounted fs' \<and> fs_entrypoint fs' = base_of dev addr force_base \<and> fs_priv fs' = d' \<and> fs_record fs' = fs_record fs
    \<and> (\<forall>k\<in>{1..<length sdb_image}. (\<forall>j\<in>{1..<k}. \<not> (field (sdb_image ! j) 24 8 = field (sdb_image ! k) 24 8 \<and> field (sdb_image ! j) 32 4 = field (sdb_image ! k) 32 4)) \<longrightarrow>
         sdb_file (mem d') (uint (sd_size dev)) (uint (fs_entrypoint fs')) (int (length sdb_image)) k
           (field (sdb_image ! k) 24 8) (field (sdb_image ! k) 32 4) (field (img' ! k) 8 8) (file_len (sdb_image ! k)))
    \<and> (\<forall>k\<in>{1..<length sdb_image}. \<forall>j\<in>{1..<k}. field (img' ! j) 8 8 + file_len (sdb_image ! j) \<le> field (img' ! k) 8 8)"
proof -
  let ?base = "base_of dev addr force_base" and ?N = "int (length sdb_image)" and ?S = "uint (sd_size dev)"
  let ?rs = "laid_out (sd_block_size dev) ?base sdb_image"
  note l = laid_out_spec [OF dev(2,4) img(1,3) dev(5)]
  have N2: "2 \<le> ?N" using img(1) by (simp add: good_image_def)
  then have pos: "0 < length sdb_image" by linarith
  have "0 \<le> space b (tl sdb_image)" "(0 :: int) < 2 ^ b" using space_nonneg [of "tl sdb_image" b] img(1) by (simp_all add: good_image_def)
  then have fit: "uint ?base + 64 * ?N \<le> ?S" using img(3) unfolding image_space_def by linarith
  obtain d1 where d1: "storage_sdbfs_erase ops (length ?rs) dev addr force_base d = Some d1"
    "\<And>k. k < length sdb_image \<Longrightarrow> rec_at (mem (write_records ops ?base 0 ?rs d1)) (uint ?base + 64 * int k) = ?rs ! k"
    "\<And>a. a < uint ?base \<Longrightarrow> mem (write_records ops ?base 0 ?rs d1) a = mem d a"
    using image_written [OF dev(1,5,2-4) l(2), of addr force_base d] img(2) fit l(1) by auto
  let ?d2 = "write_records ops ?base 0 ?rs d1" and ?m = "mem (write_records ops ?base 0 ?rs d1)"
  let ?d3 = "snd (rw_read ops ?d2 (sint ?base) (int (length ?rs) * 64))"
  have sb: "sint ?base = uint ?base" using sint_offset [of ?base 0] fit N2 dev(5) by simp
  have r3: "mem ?d3 = ?m" using memory_read(2) [OF dev(1), of "uint ?base" "int (length ?rs) * 64" ?d2] fit l(1) unfolding sb by simp
  have mag: "be_val (map ?m [uint ?base..uint ?base + 3]) = SDB_MAGIC" using d1(2) [OF pos] l(4) rec_at_field [of ?m "uint ?base"] by simp
  have es: "list_all (no_fs_at ?m ?S (uint ?base)) es"
  proof -
    have "map ?m [a..a + 3] = map (mem d) [a..a + 3]" if "a + 4 \<le> uint ?base" for a using that d1(3) by (intro map_cong) simp_all
    then have "no_fs_at ?m ?S (uint ?base) a" if "no_fs_at (mem d) ?S (uint ?base) a" for a using that unfolding no_fs_at_def by metis
    then show ?thesis using ent(2) unfolding list_all_iff by blast
  qed
  obtain d4 where d4: "mount_at ops (sd_size dev) (es @ uint ?base # es') [0, 0, 0, 0] ?d3 = (Some (uint ?base), d4)" "mem d4 = ?m"
    using mount_first [OF dev(1) _ _ mag es r3, of "[0, 0, 0, 0]" es'] fit N2 by auto
  let ?fs = "fs\<lparr>fs_mounted := True, fs_priv := d4, fs_entrypoint := ?base\<rparr>"
  have fmt: "storage_sdbfs_format ops sdb_image dev addr force_base d fs = Some (0, ?rs, d4, ?fs)"
    unfolding storage_sdbfs_format_def storage_mount_def ent(1) using d1(1) d4(1) by (simp add: Let_def)
  have fil: "sdb_file ?m ?S (uint ?base) ?N k (field (sdb_image ! k) 24 8) (field (sdb_image ! k) 32 4) (field (?rs ! k) 8 8) (file_len (sdb_image ! k))"
    if k: "k \<in> {1..<length sdb_image}" and f: "\<forall>j\<in>{1..<k}. \<not> (field (sdb_image ! j) 24 8 = field (sdb_image ! k) 24 8 \<and> field (sdb_image ! j) 32 4 = field (sdb_image ! k) 32 4)" for k
  proof -
    have len: "0 < file_len (sdb_image ! k)"
      using img(1) k by (cases sdb_image; cases k) (auto simp: good_image_def list_all_length record_ok_def file_len_def)
    have others: "\<not> (field (?rs ! j) 24 8 = field (sdb_image ! k) 24 8 \<and> field (?rs ! j) 32 4 = field (sdb_image ! k) 32 4)" if "j \<in> {1..<k}" for j
      using f l(6) [of j] that k by (auto simp: moved_def)
    have rec: "rec_at ?m (uint ?base + 64 * int j) = ?rs ! j" if "j \<in> {1..<k}" for j using d1(2) [of j] that k by simp
    have k6: "moved (sdb_image ! k) (field (?rs ! k) 8 8) (?rs ! k)" "uint ?base + 64 * ?N \<le> field (?rs ! k) 8 8" "field (?rs ! k) 8 8 + file_len (sdb_image ! k) \<le> ?S"
      using l(6) [OF k] by simp_all
    have "0 \<le> field (?rs ! k) 8 8" using k6(2) uint_nonnegative [of ?base] by linarith
    moreover have "rec_at ?m (uint ?base) = ?rs ! 0" "rec_at ?m (uint ?base + 64 * int k) = ?rs ! k" using d1(2) [OF pos] d1(2) [of k] k by simp_all
    moreover have "?N < 65536" using img(1) by (simp add: good_image_def)
    ultimately show ?thesis
      using l(3,4,5) k6 k fit dev(5) len others rec unfolding sdb_file_def moved_def by (intro conjI) simp_all
  qed
  have ord: "field (?rs ! j) 8 8 + file_len (sdb_image ! j) \<le> field (?rs ! k) 8 8" if "k \<in> {1..<length sdb_image}" "j \<in> {1..<k}" for j k
    using l(6) [OF that(1)] l(6) [of j] that by (fastforce simp: moved_def)
  show ?thesis using fmt fil ord d4(2) by (intro exI conjI) (rule fmt, simp_all)
qed

text \<open>An image of a directory and two files of 16 and 100 bytes, on an erased memory of 1024 bytes with blocks of 64 bytes.\<close>

definition sample_image :: "u8 list list" where
  "sample_image =
     [be_bytes 4 SDB_MAGIC @ be_bytes 2 3 @ replicate 58 0,
      replicate 16 0 @ be_bytes 8 15 @ be_bytes 8 1 @ be_bytes 4 2 @ replicate 28 0,
      replicate 8 0 @ be_bytes 8 100 @ be_bytes 8 199 @ be_bytes 8 1 @ be_bytes 4 3 @ replicate 28 0]"

definition sample_device :: storage_device where
  "sample_device = \<lparr>sd_block_size = 64, sd_size = 1024, sd_cfg_entry = 128, sd_entry_points = [0, 128, 4096, - 1]\<rparr>"

theorem format_gives_files_witness:
  "\<exists>img' d' fs'. storage_sdbfs_format ram_ops sample_image sample_device 0 False (\<lambda>a. - 1) (undefined :: (int \<Rightarrow> u8) sdbfs) = Some (0, img', d', fs')
    \<and> fs_mounted fs' \<and> fs_entrypoint fs' = 128
    \<and> sdb_file d' 1024 128 3 1 1 2 (field (img' ! 1) 8 8) 16 \<and> sdb_file d' 1024 128 3 2 1 3 (field (img' ! 2) 8 8) 100
    \<and> field (img' ! 1) 8 8 + 16 \<le> field (img' ! 2) 8 8"
proof -
  have l: "length sample_image = 3" by (simp add: sample_image_def)
  have fields: "field (sample_image ! 1) 24 8 = 1" "field (sample_image ! 1) 32 4 = 2" "file_len (sample_image ! 1) = 16"
    "field (sample_image ! 2) 24 8 = 1" "field (sample_image ! 2) 32 4 = 3" "file_len (sample_image ! 2) = 100" by code_simp+
  have "list_all record_ok (tl sample_image)" "field (hd sample_image) 63 1 = 0" "field (hd sample_image) 0 4 = SDB_MAGIC" "field (hd sample_image) 4 2 = 3"
    by code_simp+
  then have g: "good_image sample_image" by (simp add: good_image_def l) (simp add: sample_image_def)
  have "tl sample_image = [sample_image ! 1, sample_image ! 2]" by (simp add: sample_image_def)
  then have sp: "uint (128 :: u32) + image_space 6 sample_image \<le> 1024" by (simp add: image_space_def space_def l fields del: One_nat_def)
  have b: "base_of sample_device 0 False = 128" "sd_block_size sample_device = 2 ^ 6" "uint (sd_size sample_device) = 1024"
    "sd_entry_points sample_device = [0] @ uint (128 :: u32) # [4096, - 1]" by (simp_all add: base_of_def sample_device_def)
  have n: "list_all (no_fs_at (id (\<lambda>a :: int. - 1 :: u8)) 1024 (uint (128 :: u32))) [0]" by code_simp
  have c: "{1..<3 :: nat} = {1, 2}" "{1..<1 :: nat} = {}" "{1..<2 :: nat} = {1}" by auto
  note t = format_gives_files [of id sample_device ram_ops 6 sample_image 0 False "[0]" "[4096, - 1]" "\<lambda>a. - 1" "undefined :: (int \<Rightarrow> u8) sdbfs",
      unfolded b l c, OF ram_device refl _ _ _ g _ sp refl n]
  show ?thesis using t by (auto simp: fields c simp del: One_nat_def)
qed

end
