(* ===== verification/Spec2Isabelle.thy ===== *)
theory Spec2Isabelle
  imports Softpll_Api Event_Queue Wrc_Tasks Storage_Cal Storage_Sfp Net Inet Shell Rxts W1 Pps Storage_Format
begin

text \<open>
  Verification of the White Rabbit PTP core firmware.
\<close>

section \<open>Properties that span components\<close>

subsection \<open>The calibration over a restart\<close>

text \<open>The memory of the calibration after a restart: arbitrary, over the same device contents.\<close>

definition restart_of :: "('d \<Rightarrow> int \<Rightarrow> u8) \<Rightarrow> 'd cal_state \<Rightarrow> 'd cal_state \<Rightarrow> bool" where
  "restart_of mem s s2 \<longleftrightarrow> fs_mounted (cs_fs s2) \<and> length (fs_record (cs_fs s2)) = 64 \<and> fs_entrypoint (cs_fs s2) = fs_entrypoint (cs_fs s)
     \<and> mem (fs_priv (cs_fs s2)) = mem (fs_priv (cs_fs s))"

text \<open>The table in memory is the one a restart would load.\<close>

definition saved :: "('d \<Rightarrow> int \<Rightarrow> u8) \<Rightarrow> 'd storage_rwops \<Rightarrow> 'd cal_state \<Rightarrow> bool" where
  "saved mem ops s \<longleftrightarrow> (\<forall>s2 junk. restart_of mem s s2 \<longrightarrow>
     (\<exists>s3. storage_load_calibration ops junk s2 = Some (0, s3) \<and> cs_loaded s3 \<and> cal_ok (cs_cal s3) \<and> cal_map (cs_cal s3) = cal_map (cs_cal s)))"

lemma set_and_save_saved:
  assumes f: "cal_file mem dev_size ops (cs_fs s) N i off len" and c: "cal_ok (cs_cal s)"
    "k \<in> dom (cal_map (cs_cal s)) \<or> card (dom (cal_map (cs_cal s))) < CAL_MAX_PARAMS"
    and r: "storage_set_calibration_parameter_and_save ops k v s = Some (r, s')"
  shows "r = 0 \<and> saved mem ops s' \<and> cal_ok (cs_cal s') \<and> cal_map (cs_cal s') = (cal_map (cs_cal s))(k \<mapsto> v)
    \<and> cal_file mem dev_size ops (cs_fs s') N i off len"
proof -
  obtain c' where c': "storage_set_calibration_parameter k v (cs_cal s) = Some (0, c')" "cal_ok c'" "cal_map c' = (cal_map (cs_cal s))(k \<mapsto> v)"
    using cal_store.put_view [OF c, of v] by blast
  obtain t d where t: "storage_save_calibration ops (s\<lparr>cs_cal := c'\<rparr>) = Some (0, t)" "cs_cal t = d" "cal_ok d" "cal_map d = cal_map c'"
    "fs_entrypoint (cs_fs t) = fs_entrypoint (cs_fs s)" "cal_file mem dev_size ops (cs_fs t) N i off len"
    by (rule save_spec [of mem dev_size ops "s\<lparr>cs_cal := c'\<rparr>" N i off len]) (use f c'(2) in simp_all)
  have e: "storage_set_calibration_parameter_and_save ops k v s = Some (0, t)"
    using c'(1) t(1) by (simp add: storage_set_calibration_parameter_and_save_def)
  then have t': "s' = t" "r = 0" using r by simp_all
  have ep: "fs_entrypoint (cs_fs s') = fs_entrypoint (cs_fs s)" using t(5) t'(1) by simp
  have m: "cal_map (cs_cal s') = (cal_map (cs_cal s))(k \<mapsto> v)" using t t' c'(3) by simp
  have "saved mem ops s'"
    unfolding saved_def restart_of_def
    using param_persists [OF f c, of v] r t'(2) m ep by auto
  then show ?thesis using t t' m by simp
qed

text \<open>
  C34. A calibration survives a restart. If the table in memory is the one on the device, then after a successful calibration, on any hardware,
  it is so again; and a restart with an arbitrary memory over the device contents loads the table, from which \<open>calib_t24p_load\<close> gives
  the network device the transition that the calibration gave it, even when the calibration kept an old value and wrote nothing.
\<close>

theorem calibration_survives_restart:
  assumes "cal_file mem dev_size ops (cs_fs (rx_cal s)) N i off len" "room_for_t24p s" "saved mem ops (rx_cal s)"
    and "calib_t24p e ops s = Some (0, s')" "restart_of mem (rx_cal s') s2" "n_netifs (rx_net t) \<noteq> []"
  shows "saved mem ops (rx_cal s') \<and> (\<exists>c t'. storage_load_calibration ops junk s2 = Some (0, c) \<and> calib_t24p_load (t\<lparr>rx_cal := c\<rparr>) = Some t'
    \<and> nd_phase_transition (n_netifs (rx_net t') ! 0) = nd_phase_transition (n_netifs (rx_net s') ! 0))"
proof -
  note r = assms(2) [unfolded room_for_t24p_def]
  obtain v where v: "nd_phase_transition (n_netifs (rx_net s') ! 0) = v"
    "rx_cal s' = rx_cal s \<and> cal_map (cs_cal (rx_cal s)) CAL_PARAM_T24P = Some v
       \<or> (\<exists>r. storage_set_calibration_parameter_and_save ops CAL_PARAM_T24P v (rx_cal s) = Some (r, rx_cal s'))"
    using calib_success [OF assms(4)] r by blast
  have s: "saved mem ops (rx_cal s') \<and> cal_map (cs_cal (rx_cal s')) CAL_PARAM_T24P = Some v"
    using v(2)
  proof (elim disjE conjE exE)
    assume "rx_cal s' = rx_cal s" "cal_map (cs_cal (rx_cal s)) CAL_PARAM_T24P = Some v"
    then show ?thesis using assms(3) by simp
  next
    fix q assume q: "storage_set_calibration_parameter_and_save ops CAL_PARAM_T24P v (rx_cal s) = Some (q, rx_cal s')"
    show ?thesis using set_and_save_saved [OF assms(1) r [THEN conjunct1] r [THEN conjunct2, THEN conjunct2] q] by simp
  qed
  obtain c where c: "storage_load_calibration ops junk s2 = Some (0, c)" "cal_ok (cs_cal c)" "cal_map (cs_cal c) CAL_PARAM_T24P = Some v"
    using s assms(5) unfolding saved_def by fastforce
  obtain d ds where d: "n_netifs (rx_net t) = d # ds" using assms(6) by (cases "n_netifs (rx_net t)") auto
  have "\<exists>t'. calib_t24p_load (t\<lparr>rx_cal := c\<rparr>) = Some t' \<and> nd_phase_transition (n_netifs (rx_net t') ! 0) = v"
    using cal_store.get_view [OF c(2), of CAL_PARAM_T24P] c(3) d
    by (simp add: calib_t24p_load_def calib_t24p_load_verbose_def set_transition_def netif_set_phase_transition_def load_def)
  then show ?thesis using s c(1) unfolding v(1) by blast
qed

text \<open>A table that is saved, with the calibrator of the example.\<close>

lemma example_saved:
  "\<exists>k. cal_file id 8192 ram_ops (cs_fs k) 2 1 128 200 \<and> saved id ram_ops k \<and> room_for_t24p (example_rxts\<lparr>rx_cal := k\<rparr>)"
proof -
  let ?e = "\<lparr>cs_cal = example_cal, cs_loaded = True, cs_fs = example_fs\<rparr>"
  have f: "cal_file id 8192 ram_ops (cs_fs ?e) 2 1 128 200" "cal_ok (cs_cal ?e)" "cal_map (cs_cal ?e) = [7 \<mapsto> 70, 8 \<mapsto> 80]"
    using example_file example_cal_ok by simp_all
  have r: "9 \<in> dom (cal_map (cs_cal ?e)) \<or> card (dom (cal_map (cs_cal ?e))) < CAL_MAX_PARAMS" unfolding f(3) by (simp add: CAL_MAX_PARAMS_def)
  obtain k where k: "storage_set_calibration_parameter_and_save ram_ops 9 90 ?e = Some (0, k)" using param_persists [OF f(1,2) r, of 90] by blast
  note s = set_and_save_saved [OF f(1,2) r k]
  have "room_for_t24p (example_rxts\<lparr>rx_cal := k\<rparr>)"
    using s by (simp add: room_for_t24p_def f(3) [simplified] CAL_MAX_PARAMS_def example_rxts_def example_net_def)
  then show ?thesis using s by blast
qed

theorem calibration_survives_restart_witness:
  "\<exists>s s' c t'. calib_t24p example_env ram_ops s = Some (0, s')
    \<and> storage_load_calibration ram_ops [] \<lparr>cs_cal = example_cal, cs_loaded = False,
         cs_fs = example_fs\<lparr>fs_priv := fs_priv (cs_fs (rx_cal s')), fs_entrypoint := fs_entrypoint (cs_fs (rx_cal s'))\<rparr>\<rparr> = Some (0, c)
    \<and> calib_t24p_load (example_rxts\<lparr>rx_cal := c\<rparr>) = Some t'
    \<and> nd_phase_transition (n_netifs (rx_net t') ! 0) = nd_phase_transition (n_netifs (rx_net s') ! 0)"
proof -
  obtain k where k: "cal_file id 8192 ram_ops (cs_fs k) 2 1 128 200" "saved id ram_ops k" "room_for_t24p (example_rxts\<lparr>rx_cal := k\<rparr>)"
    using example_saved by blast
  obtain s where s: "calib_t24p_init example_env (example_rxts\<lparr>rx_cal := k\<rparr>) = Some s" "other_parts s = other_parts (example_rxts\<lparr>rx_cal := k\<rparr>)"
    using calib_init_scanning [of example_env "example_rxts\<lparr>rx_cal := k\<rparr>" 0 5000] by blast
  have c: "rx_cal s = k" "room_for_t24p s" using s(2) room_parts [OF s(2)] k(3) by (simp_all add: other_parts_def)
  obtain s' v where s': "calib_t24p example_env ram_ops s = Some (0, s')"
    using calib_completes [OF example_calibrating _ k(3) s(1) example_rest example_up, of ram_ops] by auto
  let ?f = "example_fs\<lparr>fs_priv := fs_priv (cs_fs (rx_cal s')), fs_entrypoint := fs_entrypoint (cs_fs (rx_cal s'))\<rparr>"
  have r: "restart_of id (rx_cal s') \<lparr>cs_cal = example_cal, cs_loaded = False, cs_fs = ?f\<rparr>"
    by (simp add: restart_of_def example_fs_def)
  have n: "n_netifs (rx_net example_rxts) \<noteq> []" by (simp add: example_rxts_def example_net_def)
  from calibration_survives_restart [OF _ c(2) _ s' r n, of 8192 2 1 128 200 "[]"] k c(1) s' show ?thesis by auto
qed

subsection \<open>Time stamps after a calibration\<close>

definition raw_stamp :: "hw_timestamp \<Rightarrow> wr_timestamp" where
  "raw_stamp t = \<lparr>ts_sec = sint (hw_sec t), ts_nsec = sint (hw_nsec t), ts_phase = 0, ts_raw_phase = 0, ts_raw_nsec = sint (hw_nsec t),
     ts_raw_ahead = hw_ahead t, ts_correct = hw_valid t\<rparr>"

text \<open>The value in use, as a distance from the true transition.\<close>

lemma usable_distance:
  assumes "usable h J T v" "9 \<le> h" "h \<le> 1000"
  shows "\<exists>d. \<bar>d\<bar> \<le> J + 2100 \<and> uint v mod (200 * h) = (T + d) mod (200 * h)"
proof -
  obtain x where x: "found_at h J T x" "\<bar>uint v - uint x\<bar> \<le> 2000" using assms(1) by (auto simp: usable_def)
  obtain d where d: "x = word_of_int ((T + d) mod (200 * h))" "\<bar>d\<bar> \<le> J + 100" using x(1) unfolding found_at_def by blast
  have "0 \<le> (T + d) mod (200 * h)" "(T + d) mod (200 * h) < 200 * h" using assms(2) by simp_all
  then have u: "uint x = (T + d) mod (200 * h)" unfolding d(1) using assms(3) by (simp add: uint_word_of_int take_bit_eq_mod)
  define d' where "d' = d + (uint v - uint x)"
  have "(T + d') mod (200 * h) = ((T + d) mod (200 * h) + (uint v - uint x)) mod (200 * h)" by (simp add: d'_def mod_simps add.assoc)
  also have "\<dots> = uint v mod (200 * h)" by (simp add: u [symmetric])
  finally show ?thesis using d(2) x(2) by (intro exI [of _ d']) (simp add: d'_def)
qed


text \<open>A calibrated interface with a frame in the queue of its socket, stamped 7 s and 144 ns.\<close>

definition example_arrival :: net where
  "example_arrival = (example_net [])\<lparr>n_netifs := map (\<lambda>d. d\<lparr>nd_phase_transition := 5100\<rparr>) (n_netifs (example_net [])),
     n_sock := (\<lambda>_. example_socket\<lparr>s_queue := \<lparr>q_head = 42, q_tail = 0, q_avail = 214, q_size = 256, q_n = 1,
       q_buff = frame_mem Net.example_cfg (\<lparr>hw_valid = True, hw_ahead = False, hw_sec = 7, hw_nsec = 144, hw_phase = 0\<rparr>, replicate 14 1, [17, 18])
         @ replicate 214 0\<rparr>\<rparr>)\<rparr>"

definition example_calibrated :: "(unit, int \<Rightarrow> u8) rxts" where
  "example_calibrated = example_rxts\<lparr>rx_net := example_arrival,
     rx_cal := \<lparr>cs_cal = example_cal\<lparr>cd_params := [(7, 70), (CAL_PARAM_T24P, 5100)] @ replicate 10 (0, 0)\<rparr>, cs_loaded = True, cs_fs = example_fs\<rparr>\<rparr>"

lemma example_received:
  "\<exists>r ts net. ptpd_netif_recvfrom Net.example_cfg 0 zero_addr 100 (Some (False, 4900)) example_arrival = Some (Some (r, Some ts), net)
    \<and> r_hwts r = \<lparr>hw_valid = True, hw_ahead = False, hw_sec = 7, hw_nsec = 144, hw_phase = 0\<rparr>"
proof -
  let ?t = "\<lparr>hw_valid = True, hw_ahead = False, hw_sec = 7, hw_nsec = 144, hw_phase = 0\<rparr>"
  let ?f = "(?t, replicate 14 (1 :: u8), [17, 18 :: u8])" and ?q = "s_queue (n_sock example_arrival 0)"
  have q: "q_size ?q = 256" "q_tail ?q = 0" "q_avail ?q = 214" "q_n ?q = 1" "q_head ?q = 42"
    "q_buff ?q = frame_mem Net.example_cfg ?f @ replicate 214 0" by (simp_all add: example_arrival_def)
  have f: "frame_ok ?f" by (simp add: frame_ok_def)
  have l: "length (frame_mem Net.example_cfg ?f) = 42" using length_frame_mem [OF f] by simp
  have "ring_bytes ?q = frame_mem Net.example_cfg ?f"
    by (rule nth_equalityI) (simp_all add: ring_bytes_def from_tail_def q l nth_append)
  then have h: "holds Net.example_cfg [?f] ?q" using f l by (simp add: holds_def sockq_ok_def q)
  obtain d where d: "load (n_netifs example_arrival) (s_nif (n_sock example_arrival 0)) = Some d"
    by (simp add: example_arrival_def example_net_def example_socket_def load_def)
  obtain r q' where r: "recv_frame Net.example_cfg (n_vlan example_arrival) zero_addr 100 ?q = Some (r, q')" "r_hwts r = ?t"
    using recv_frame_spec [OF h, of 100 "n_vlan example_arrival" zero_addr] by auto
  then show ?thesis using d q(4) by (simp add: ptpd_netif_recvfrom_def Let_def)
qed

lemma example_is_calibrated: "calibrated 80 0 5000 example_calibrated 5100"
proof -
  have "found_at 80 0 5000 5100" unfolding found_at_def by (rule exI [of _ 100]) simp
  then show ?thesis
    by (simp add: calibrated_def usable_def example_calibrated_def example_arrival_def example_net_def cal_ok_def example_cal_def used_params_def
        CAL_MAX_PARAMS_def cal_map_def CAL_PARAM_T24P_def)
qed


end
